(* ===== verification/Prelude.thy ===== *)
theory Prelude
  imports Main "HOL-Library.Word"
begin

text \<open>
  What every component shares: the names of the model's base types, the fact collections
  that the component theories feed, and the generic lemmas on lists, maps and words.

  A Go \<open>string\<close> is a sequence of bytes and HOL's \<^typ>\<open>char\<close> is a byte, so Go strings are
  \<^typ>\<open>string\<close>; a \<open>[]byte\<close> is a list of \<open>8 word\<close>. An \<open>error\<close> value is represented by the text
  its \<open>Error\<close> method returns, and a \<open>(value, error)\<close> pair of results by a sum, \<open>Inl\<close> the error.
\<close>

unbundle bit_operations_syntax

subsection \<open>Base types\<close>

type_synonym byte = "8 word"
type_synonym bytes = "8 word list"
type_synonym gerror = string

text \<open>A result is an error or a value; a run may also end in a Go panic, with its text.\<close>

type_synonym 'a result = "gerror + 'a"

datatype 'a outcome = Returns 'a | Panics string

text \<open>Go's \<open>int\<close> and \<open>int64\<close> on the 64-bit platforms the program is built for.\<close>

type_synonym goint = "64 word"

subsection \<open>Fact collections\<close>

named_theorems record_updates \<open>what an operation leaves unchanged\<close>
named_theorems inv_intros \<open>introduction rules of the invariants\<close>
named_theorems codec_simps \<open>round-trip equations\<close>

subsection \<open>Lists\<close>

lemma length_16_expand:
  "length xs = 16 \<Longrightarrow> \<exists>a b c d e f g h i j k l m n p q.
     xs = [a, b, c, d, e, f, g, h, i, j, k, l, m, n, p, q]"
  by (auto simp: length_Suc_conv numeral_eq_Suc)

lemma length_6_expand: "length xs = 6 \<Longrightarrow> \<exists>a b c d e f. xs = [a, b, c, d, e, f]"
  by (auto simp: length_Suc_conv numeral_eq_Suc)

lemma filter_eq_removed:
  "\<forall>x \<in> set xs. P x \<Longrightarrow> filter P xs = xs"
  by (simp add: filter_True)

lemma distinct_append_snoc:
  "distinct (map f (xs @ [x])) \<longleftrightarrow> distinct (map f xs) \<and> f x \<notin> f ` set xs"
  by auto

subsection \<open>Decimal text\<close>

text \<open>\<open>strconv.Itoa\<close> on a natural number.\<close>

definition digit_char :: "nat \<Rightarrow> char" where
  "digit_char d = char_of (48 + d)"

fun itoa :: "nat \<Rightarrow> string" where
  "itoa n = (if n < 10 then [digit_char n] else itoa (n div 10) @ [digit_char (n mod 10)])"

declare itoa.simps [simp del]

subsection \<open>Slices\<close>

text \<open>
  \<open>copy(dst[i:], src)\<close> copies as many bytes as both sides have room for; the
  \<open>binary.BigEndian\<close> writers are the same copy of a fixed number of bytes.
\<close>

definition copy_at :: "nat \<Rightarrow> 'a list \<Rightarrow> 'a list \<Rightarrow> 'a list" where
  "copy_at i src dst =
     take i dst @ take (length dst - i) src @ drop (i + length src) dst"

lemma length_copy_at [simp]: "i \<le> length dst \<Longrightarrow> length (copy_at i src dst) = length dst"
  by (auto simp: copy_at_def)

subsection \<open>Words\<close>

lemma nibbles_join: "push_bit 4 (drop_bit 4 b) OR (b AND 15) = (b :: byte)"
proof -
  have "b AND 15 = take_bit 4 b"
    by (simp add: take_bit_eq_mask mask_eq_exp_minus_1)
  then show ?thesis
    by (auto intro!: bit_eqI simp: bit_simps)
qed

end
