(* ===== verification/Codec.thy ===== *)
theory Codec
  imports Prelude
begin

text \<open>
  The contract shared by every text and wire format of the program: a writer \<open>enc\<close>, a reader
  \<open>dec\<close>, the set of values the writer is meant for, and \<open>ok\<close>, the way the reader's result type
  says ``this value''. UUID text, URN, JSON text, big-endian integers and BSON documents are
  interpretations of it.
\<close>

locale codec =
  fixes enc :: "'a \<Rightarrow> 'b"
    and dec :: "'b \<Rightarrow> 'c"
    and ok :: "'a \<Rightarrow> 'c"
    and valid :: "'a \<Rightarrow> bool"
  assumes dec_enc: "valid x \<Longrightarrow> dec (enc x) = ok x"
    and ok_inj: "ok x = ok y \<Longrightarrow> x = y"
begin

lemma enc_inj:
  assumes "valid x" and "valid y" and "enc x = enc y"
  shows "x = y"
proof -
  have "ok x = dec (enc x)" using assms(1) by (simp add: dec_enc)
  also have "\<dots> = ok y" using assms(2,3) by (simp add: dec_enc)
  finally show ?thesis by (rule ok_inj)
qed

lemma enc_inj_on: "inj_on enc {x. valid x}"
  by (auto intro!: inj_onI enc_inj)

lemma map_enc_inj:
  assumes "\<forall>x \<in> set xs. valid x" and "\<forall>y \<in> set ys. valid y" and "map enc xs = map enc ys"
  shows "xs = ys"
proof (rule map_inj_on [OF assms(3)])
  show "inj_on enc (set xs \<union> set ys)"
    using assms(1,2) by (auto intro!: inj_onI enc_inj)
qed

end

end
