(* ===== verification/Uuid.thy ===== *)
theory Uuid
  imports Codec "HOL-Library.Signed_Division"
begin

text \<open>
  The package \<open>code.google.com/p/go-uuid/uuid\<close> that names petitions: the text forms of a UUID
  (\<open>String\<close>, \<open>URN\<close>, \<open>Parse\<close>, the JSON methods), its fields, the random (version 4), hashed
  (3 and 5), time based (1) and DCE (2) generators, and the package state those last two keep:
  last time, clock sequence and node id.

  A UUID is a byte slice; \<open>nil\<close> and the empty slice are both \<open>[]\<close>, which no function of the
  package tells apart. The random source is a parameter \<open>rd\<close>: \<open>rd n r\<close> is \<open>io.ReadFull\<close> of
  \<open>n\<close> bytes in state \<open>r\<close>. The network interfaces, the clock reading and the hash are parameters too.
\<close>

type_synonym UUID = bytes

subsection \<open>Hexadecimal\<close>

definition hexdig :: "nat \<Rightarrow> char" where
  "hexdig d = (if d < 10 then char_of (48 + d) else char_of (87 + d))"

definition hexbyte :: "byte \<Rightarrow> string" where
  "hexbyte b = [hexdig (unat (drop_bit 4 b)), hexdig (unat (b AND 15))]"

definition hexs :: "bytes \<Rightarrow> string" where
  "hexs bs = concat (map hexbyte bs)"

definition xvalues :: "byte list" where
  "xvalues = replicate 48 255 @ [0, 1, 2, 3, 4, 5, 6, 7, 8, 9] @ replicate 7 255 @
     [10, 11, 12, 13, 14, 15] @ replicate 26 255 @ [10, 11, 12, 13, 14, 15] @ replicate 153 255"

definition xtob :: "string \<Rightarrow> byte \<times> bool" where
  "xtob x = (let b1 = xvalues ! of_char (x ! 0); b2 = xvalues ! of_char (x ! 1)
     in (push_bit 4 b1 OR b2, b1 \<noteq> 255 \<and> b2 \<noteq> 255))"

subsection \<open>Text forms\<close>

definition to_lower_char :: "char \<Rightarrow> char" where
  "to_lower_char c = (if 65 \<le> (of_char c :: nat) \<and> (of_char c :: nat) \<le> 90
     then char_of ((of_char c :: nat) + 32) else c)"

definition to_lower :: "string \<Rightarrow> string" where
  "to_lower s = map to_lower_char s"

definition uuid_text :: "UUID \<Rightarrow> string" where
  "uuid_text b = hexs (take 4 b) @ ''-'' @ hexs (take 2 (drop 4 b)) @ ''-'' @
     hexs (take 2 (drop 6 b)) @ ''-'' @ hexs (take 2 (drop 8 b)) @ ''-'' @ hexs (drop 10 b)"

definition uuid_String :: "UUID \<Rightarrow> string" where
  "uuid_String u = (if length u \<noteq> 16 then '''' else uuid_text u)"

definition uuid_URN :: "UUID \<Rightarrow> string" where
  "uuid_URN u = (if length u \<noteq> 16 then '''' else ''urn:uuid:'' @ uuid_text u)"

definition parse_offsets :: "nat list" where
  "parse_offsets = [0, 2, 4, 6, 9, 11, 14, 16, 19, 21, 24, 26, 28, 30, 32, 34]"

text \<open>The loop of \<open>Parse\<close>: \<open>uuid[i] = v\<close> for each offset, \<open>nil\<close> at the first bad digit pair.\<close>

fun parse_loop :: "string \<Rightarrow> nat \<Rightarrow> nat list \<Rightarrow> bytes \<Rightarrow> UUID" where
  "parse_loop s i [] uuid = uuid"
| "parse_loop s i (x # xs) uuid =
     (case xtob (drop x s) of (v, ok) \<Rightarrow>
        if \<not> ok then [] else parse_loop s (Suc i) xs (uuid[i := v]))"

definition parse36 :: "string \<Rightarrow> UUID" where
  "parse36 s =
     (if s ! 8 \<noteq> CHR ''-'' \<or> s ! 13 \<noteq> CHR ''-'' \<or> s ! 18 \<noteq> CHR ''-'' \<or> s ! 23 \<noteq> CHR ''-'' then []
      else parse_loop s 0 parse_offsets (replicate 16 0))"

definition Parse :: "string \<Rightarrow> UUID" where
  "Parse s =
     (if length s = 36 + 9 then
        if to_lower (take 9 s) \<noteq> ''urn:uuid:'' then [] else parse36 (drop 9 s)
      else if length s \<noteq> 36 then [] else parse36 s)"

definition uuid_Equal :: "UUID \<Rightarrow> UUID \<Rightarrow> bool" where
  "uuid_Equal u v \<longleftrightarrow> u = v"

definition uuid_MarshalJSON :: "UUID \<Rightarrow> string" where
  "uuid_MarshalJSON u =
     (if length u = 0 then [CHR 34, CHR 34] else [CHR 34] @ uuid_String u @ [CHR 34])"

text \<open>\<open>UnmarshalJSON\<close> writes through its receiver: the result is the receiver's new value.\<close>

definition uuid_UnmarshalJSON :: "UUID \<Rightarrow> string \<Rightarrow> gerror + UUID" where
  "uuid_UnmarshalJSON u data =
     (if length data = 0 \<or> data = [CHR 34, CHR 34] then Inr u
      else if length data < 2 \<or> data ! 0 \<noteq> CHR 34 \<or> data ! (length data - 1) \<noteq> CHR 34
      then Inl ''invalid UUID format''
      else let uu = Parse (take (length data - 2) (drop 1 data))
           in if uu = [] then Inl ''invalid UUID format'' else Inr uu)"

subsection \<open>Variant and version\<close>

type_synonym Variant = byte
type_synonym Version = byte

definition Invalid :: Variant where "Invalid = 0"
definition RFC4122 :: Variant where "RFC4122 = 1"
definition Reserved :: Variant where "Reserved = 2"
definition Microsoft :: Variant where "Microsoft = 3"
definition Future :: Variant where "Future = 4"

lemmas variant_defs = Invalid_def RFC4122_def Reserved_def Microsoft_def Future_def

definition uuid_Variant :: "UUID \<Rightarrow> Variant" where
  "uuid_Variant u =
     (if length u \<noteq> 16 then Invalid
      else if u ! 8 AND 0xc0 = 0x80 then RFC4122
      else if u ! 8 AND 0xe0 = 0xc0 then Microsoft
      else if u ! 8 AND 0xe0 = 0xe0 then Future
      else Reserved)"

definition uuid_Version :: "UUID \<Rightarrow> Version \<times> bool" where
  "uuid_Version u = (if length u \<noteq> 16 then (0, False) else (drop_bit 4 (u ! 6), True))"

definition Version_String :: "Version \<Rightarrow> string" where
  "Version_String v =
     (if v > 15 then ''BAD_VERSION_'' @ itoa (unat v) else ''VERSION_'' @ itoa (unat v))"

definition Variant_String :: "Variant \<Rightarrow> string" where
  "Variant_String v =
     (if v = RFC4122 then ''RFC4122'' else if v = Reserved then ''Reserved''
      else if v = Microsoft then ''Microsoft'' else if v = Future then ''Future''
      else if v = Invalid then ''Invalid'' else ''BadVariant'' @ itoa (unat v))"

subsection \<open>Random UUIDs\<close>

type_synonym 'r rand = "nat \<Rightarrow> 'r \<Rightarrow> (gerror + bytes) \<times> 'r"

text \<open>What \<open>io.ReadFull\<close> documents: without an error the buffer was filled.\<close>

definition rand_ok :: "'r rand \<Rightarrow> bool" where
  "rand_ok rd \<longleftrightarrow> (\<forall>n r b r'. rd n r = (Inr b, r') \<longrightarrow> length b = n)"

lemma rand_okD: "rd n r = (Inr b, r') \<Longrightarrow> rand_ok rd \<Longrightarrow> length b = n"
  by (auto simp: rand_ok_def)

definition randomBits :: "'r rand \<Rightarrow> nat \<Rightarrow> 'r \<Rightarrow> bytes outcome \<times> 'r" where
  "randomBits rd n r =
     (case rd n r of (Inl e, r') \<Rightarrow> (Panics e, r') | (Inr b, r') \<Rightarrow> (Returns b, r'))"

definition stamp_random :: "bytes \<Rightarrow> UUID" where
  "stamp_random u =
     (let u = u[6 := (u ! 6 AND 0x0f) OR 0x40] in u[8 := (u ! 8 AND 0x3f) OR 0x80])"

definition NewRandom :: "'r rand \<Rightarrow> 'r \<Rightarrow> UUID outcome \<times> 'r" where
  "NewRandom rd r =
     (case randomBits rd 16 r of
        (Panics e, r') \<Rightarrow> (Panics e, r')
      | (Returns b, r') \<Rightarrow> (Returns (stamp_random b), r'))"

definition uuid_New :: "'r rand \<Rightarrow> 'r \<Rightarrow> string outcome \<times> 'r" where
  "uuid_New rd r =
     (case NewRandom rd r of
        (Panics e, r') \<Rightarrow> (Panics e, r')
      | (Returns u, r') \<Rightarrow> (Returns (uuid_String u), r'))"

subsection \<open>Hashed UUIDs\<close>

text \<open>\<open>h\<close> is the hash of the bytes written since \<open>Reset\<close>: \<open>md5\<close> or \<open>sha1\<close> of the library.\<close>

definition NewHash :: "(bytes \<Rightarrow> bytes) \<Rightarrow> UUID \<Rightarrow> bytes \<Rightarrow> goint \<Rightarrow> UUID" where
  "NewHash h space data version =
     (let s = h (space @ data);
          u = copy_at 0 s (replicate 16 0);
          u = u[6 := (u ! 6 AND 0x0f) OR ucast (push_bit 4 (version AND 0xf))]
      in u[8 := (u ! 8 AND 0x3f) OR 0x80])"

definition NewMD5 :: "(bytes \<Rightarrow> bytes) \<Rightarrow> UUID \<Rightarrow> bytes \<Rightarrow> UUID" where
  "NewMD5 md5 space data = NewHash md5 space data 3"

definition NewSHA1 :: "(bytes \<Rightarrow> bytes) \<Rightarrow> UUID \<Rightarrow> bytes \<Rightarrow> UUID" where
  "NewSHA1 sha1 space data = NewHash sha1 space data 5"

definition NameSpace_DNS :: UUID where
  "NameSpace_DNS = Parse ''6ba7b810-9dad-11d1-80b4-00c04fd430c8''"

definition NameSpace_URL :: UUID where
  "NameSpace_URL = Parse ''6ba7b811-9dad-11d1-80b4-00c04fd430c8''"

definition NameSpace_OID :: UUID where
  "NameSpace_OID = Parse ''6ba7b812-9dad-11d1-80b4-00c04fd430c8''"

definition NameSpace_X500 :: UUID where
  "NameSpace_X500 = Parse ''6ba7b814-9dad-11d1-80b4-00c04fd430c8''"

definition uuid_NIL :: UUID where
  "uuid_NIL = Parse ''00000000-0000-0000-0000-000000000000''"

subsection \<open>Hexadecimal round trip\<close>

lemma less_16_cases:
  "(d :: nat) < 16 \<Longrightarrow> d = 0 \<or> d = 1 \<or> d = 2 \<or> d = 3 \<or> d = 4 \<or> d = 5 \<or> d = 6 \<or> d = 7 \<or>
     d = 8 \<or> d = 9 \<or> d = 10 \<or> d = 11 \<or> d = 12 \<or> d = 13 \<or> d = 14 \<or> d = 15"
  by presburger

lemma xvalues_hexdig: "d < 16 \<Longrightarrow> xvalues ! of_char (hexdig d) = word_of_nat d"
  by (drule less_16_cases, elim disjE) (simp_all add: xvalues_def hexdig_def nth_append)

lemma unat_high_nibble: "unat (drop_bit 4 (b :: byte)) < 16"
proof -
  have "unat b < 2 ^ 8" using unsigned_less [where w = b] by simp
  then show ?thesis by (simp add: drop_bit_eq_div unat_div)
qed

lemma unat_low_nibble: "unat (b AND 15 :: byte) < 16"
proof -
  have "unat (b AND 15) \<le> unat (15 :: byte)"
    by (rule word_and_le1 [THEN word_le_nat_alt [THEN iffD1]])
  then show ?thesis by simp
qed

lemma nibble_not_255: "unat (b :: byte) < 16 \<Longrightarrow> b \<noteq> 255"
  by auto

lemma xtob_hexbyte [codec_simps]: "xtob (hexbyte b @ s) = (b, True)"
  using unat_high_nibble [of b] unat_low_nibble [of b]
  by (simp add: xtob_def hexbyte_def xvalues_hexdig nibbles_join) (auto dest: nibble_not_255)

lemma length_hexbyte [simp]: "length (hexbyte b) = 2"
  by (simp add: hexbyte_def)

lemma hexbyte_xtob: "xtob (hexdig (unat (drop_bit 4 b)) # hexdig (unat (b AND 15)) # s) = (b, True)"
  using xtob_hexbyte [of b s] by (simp only: hexbyte_def append_Cons append_Nil)

lemma hexs_simps [simp]:
  "hexs [] = []"
  "hexs (b # bs) = hexdig (unat (drop_bit 4 b)) # hexdig (unat (b AND 15)) # hexs bs"
  by (simp_all only: hexs_def hexbyte_def list.map concat.simps append_Cons append_Nil)

lemma length_hexs [simp]: "length (hexs bs) = 2 * length bs"
  by (induction bs) simp_all

lemma length_uuid_text: "length u = 16 \<Longrightarrow> length (uuid_text u) = 36"
  by (simp add: uuid_text_def)

lemma zero_16: "replicate 16 (0 :: byte) = [0, 0, 0, 0, 0, 0, 0, 0, 0, 0, 0, 0, 0, 0, 0, 0]"
  by (simp add: numeral_eq_Suc)

lemma parse36_uuid_text:
  assumes "length u = 16"
  shows "parse36 (uuid_text u) = u"
proof -
  obtain a b c d e f g h i j k l m n p q where
    u: "u = [a, b, c, d, e, f, g, h, i, j, k, l, m, n, p, q]"
    using length_16_expand [OF assms] by blast
  show ?thesis
    unfolding u
    by (simp add: uuid_text_def parse36_def parse_offsets_def zero_16 hexbyte_xtob
        del: drop_bit_numeral_bit0)
qed

subsection \<open>What \<open>Parse\<close> accepts\<close>

lemma xvalues_digit:
  assumes "n < 256" and "xvalues ! n \<noteq> 255"
  shows "n \<in> {48..57} \<union> {65..70} \<union> {97..102}"
  using assms
  by (auto simp: xvalues_def nth_append nth_Cons' split: if_splits)

lemma hexdig_xvalues_nat:
  "n \<in> {48..57} \<union> {65..70} \<union> {97..102} \<Longrightarrow>
     unat (xvalues ! n) < 16 \<and> hexdig (unat (xvalues ! n)) = to_lower_char (char_of n)"
proof -
  assume "n \<in> {48..57} \<union> {65..70} \<union> {97..102}"
  then have "n \<in> {48, 49, 50, 51, 52, 53, 54, 55, 56, 57, 65, 66, 67, 68, 69, 70, 97, 98, 99, 100, 101, 102}"
    unfolding Un_iff atLeastAtMost_iff insert_iff empty_iff by presburger
  then show ?thesis
    by (elim insertE) (simp_all add: xvalues_def nth_append hexdig_def to_lower_char_def)
qed

lemma hexdig_xvalues:
  assumes "xvalues ! of_char c \<noteq> 255"
  shows "unat (xvalues ! of_char c) < 16 \<and> hexdig (unat (xvalues ! of_char c)) = to_lower_char c"
  using hexdig_xvalues_nat [OF xvalues_digit [OF _ assms]] by simp

lemma nibbles_split:
  assumes "unat (b1 :: byte) < 16" and "unat b2 < 16"
  shows "drop_bit 4 (push_bit 4 b1 OR b2) = b1" and "(push_bit 4 b1 OR b2) AND 15 = b2"
proof -
  have b: "\<not> bit b n" if "unat b < 16" "4 \<le> n" for b :: byte and n
  proof -
    have "take_bit 4 (unat b) = unat b"
      using that(1) by (simp add: take_bit_nat_eq_self)
    then have "\<not> bit (unat b) n" using that(2) by (metis bit_take_bit_iff leD)
    then show ?thesis by (auto simp: bit_unsigned_iff dest: bit_imp_le_length)
  qed
  show "drop_bit 4 (push_bit 4 b1 OR b2) = b1"
  proof (rule bit_word_eqI)
    fix n
    show "bit (drop_bit 4 (push_bit 4 b1 OR b2)) n \<longleftrightarrow> bit b1 n"
      using b [OF assms(1), of n] b [OF assms(2), of "4 + n"]
      by (cases "n < 4") (auto simp: bit_simps)
  qed
  show "(push_bit 4 b1 OR b2) AND 15 = b2"
  proof -
    have m: "(15 :: byte) = mask 4" by (simp add: mask_eq_exp_minus_1)
    show ?thesis unfolding m
    proof (rule bit_word_eqI)
      fix n
      show "bit ((push_bit 4 b1 OR b2) AND mask 4) n \<longleftrightarrow> bit b2 n"
        using b [OF assms(2), of n]
        by (cases "n < 4") (auto simp: bit_simps bit_mask_iff)
    qed
  qed
qed

lemma hexbyte_xtob_lower:
  assumes "xtob (c1 # c2 # s) = (v, True)"
  shows "hexbyte v = [to_lower_char c1, to_lower_char c2]"
proof -
  let ?b1 = "xvalues ! of_char c1" and ?b2 = "xvalues ! of_char c2"
  have v: "v = push_bit 4 ?b1 OR ?b2" and n: "?b1 \<noteq> 255" "?b2 \<noteq> 255"
    using assms by (auto simp: xtob_def Let_def)
  note h1 = hexdig_xvalues [OF n(1)] and h2 = hexdig_xvalues [OF n(2)]
  show ?thesis
    using nibbles_split [of ?b1 ?b2] h1 h2 by (simp only: hexbyte_def v)
qed

lemma parse_loop_closed:
  "i + length xs \<le> length u \<Longrightarrow>
     parse_loop s i xs u =
       (if \<forall>x \<in> set xs. snd (xtob (drop x s))
        then take i u @ map (\<lambda>x. fst (xtob (drop x s))) xs @ drop (i + length xs) u else [])"
proof (induction s i xs u rule: parse_loop.induct)
  case (1 s i uuid)
  then show ?case by simp
next
  case (2 s i x xs uuid)
  obtain v ok where x: "xtob (drop x s) = (v, ok)" by (cases "xtob (drop x s)")
  have t: "take (Suc i) (uuid[i := v]) = take i uuid @ [v]"
    using "2.prems" by (simp add: take_Suc_conv_app_nth)
  show ?case
  proof (cases ok)
    case True
    have "parse_loop s (Suc i) xs (uuid[i := v]) =
        (if \<forall>x \<in> set xs. snd (xtob (drop x s))
         then take (Suc i) (uuid[i := v]) @ map (\<lambda>x. fst (xtob (drop x s))) xs @
           drop (Suc i + length xs) (uuid[i := v]) else [])"
      using True "2.prems" by (intro "2.IH" [OF x [symmetric]]) simp_all
    with True "2.prems" x t show ?thesis by simp
  next
    case False
    with x show ?thesis by simp
  qed
qed

lemma parse36_accepts:
  assumes "length s = 36" and "parse36 s \<noteq> []"
  shows "length (parse36 s) = 16 \<and> uuid_text (parse36 s) = to_lower s"
proof -
  have dash: "s ! 8 = CHR ''-''" "s ! 13 = CHR ''-''" "s ! 18 = CHR ''-''" "s ! 23 = CHR ''-''"
    using assms(2) by (auto simp: parse36_def split: if_splits)
  have loop: "parse36 s = parse_loop s 0 parse_offsets (replicate 16 0)"
    using assms(2) by (auto simp: parse36_def split: if_splits)
  have length_offsets: "length parse_offsets = 16" by (simp add: parse_offsets_def)
  have ok: "\<forall>x \<in> set parse_offsets. snd (xtob (drop x s))"
    and res: "parse36 s = map (\<lambda>x. fst (xtob (drop x s))) parse_offsets"
    using assms(2) parse_loop_closed [of 0 parse_offsets "replicate 16 0" s] length_offsets
    unfolding loop by (auto split: if_splits)
  have hb: "hexbyte (fst (xtob (drop x s))) = [to_lower_char (s ! x), to_lower_char (s ! Suc x)]"
    if "x \<in> set parse_offsets" for x
  proof -
    have "x < 36" "Suc x < 36" using that by (auto simp: parse_offsets_def)
    then have d: "drop x s = s ! x # s ! Suc x # drop (Suc (Suc x)) s"
      using assms(1) by (simp add: Cons_nth_drop_Suc)
    show ?thesis
      using ok [rule_format, OF that] unfolding d
      by (intro hexbyte_xtob_lower [where s = "drop (Suc (Suc x)) s"]) (simp add: prod_eq_iff)
  qed
  have hx: "hexs (b # bs) = hexbyte b @ hexs bs" for b bs
    by (simp add: hexbyte_def)
  have s: "s = map (nth s) [0..<36]" using map_nth [of s] unfolding assms(1) by (rule sym)
  have low: "to_lower s = map (\<lambda>i. to_lower_char (s ! i)) [0..<36]"
    by (subst s) (simp add: to_lower_def)
  have dash_low: "to_lower_char CHR ''-'' = CHR ''-''" by (simp add: to_lower_char_def)
  have idx: "[0..<36] = [0, 1, 2, 3, 4, 5, 6, 7, 8, 9, 10, 11, 12, 13, 14, 15, 16, 17, 18, 19,
      20, 21, 22, 23, 24, 25, 26, 27, 28, 29, 30, 31, 32, 33, 34, 35 :: nat]"
    by (simp add: upt_conv_Cons)
  have h0: "hexbyte (fst (xtob s)) = [to_lower_char (s ! 0), to_lower_char (s ! 1)]"
    using hb [of 0] by (simp add: parse_offsets_def)
  show ?thesis
    using hb unfolding res low idx
    by (simp add: parse_offsets_def uuid_text_def hx dash dash_low h0 del: hexs_simps(2))
qed

lemma uuid_text_shape:
  "length u = 16 \<Longrightarrow> take 9 (''urn:uuid:'' @ uuid_text u) = ''urn:uuid:'' \<and>
     drop 9 (''urn:uuid:'' @ uuid_text u) = uuid_text u"
  by simp

lemma to_lower_urn: "to_lower ''urn:uuid:'' = ''urn:uuid:''"
  by (simp add: to_lower_def to_lower_char_def)

lemma Parse_String: "length u = 16 \<Longrightarrow> Parse (uuid_String u) = u"
  by (simp add: Parse_def uuid_String_def length_uuid_text parse36_uuid_text)

lemma Parse_URN: "length u = 16 \<Longrightarrow> Parse (uuid_URN u) = u"
  using uuid_text_shape [of u]
  by (simp add: Parse_def uuid_URN_def length_uuid_text parse36_uuid_text to_lower_urn)

lemma UnmarshalJSON_MarshalJSON:
  assumes "length u = 16"
  shows "uuid_UnmarshalJSON v (uuid_MarshalJSON u) = Inr u"
proof -
  let ?d = "[CHR 34] @ uuid_String u @ [CHR 34]"
  have l: "length (uuid_String u) = 36"
    using assms by (simp add: uuid_String_def length_uuid_text)
  have m: "uuid_MarshalJSON u = ?d" using assms by (auto simp: uuid_MarshalJSON_def)
  have t: "take (length ?d - 2) (drop 1 ?d) = uuid_String u" by simp
  have e: "?d ! 0 = CHR 34" "?d ! (length ?d - 1) = CHR 34" by (simp_all add: nth_append)
  have n: "length ?d = 38" "?d \<noteq> [CHR 34, CHR 34]" using l by auto
  have p: "Parse (uuid_String u) = u" "u \<noteq> []" using assms by (auto simp: Parse_String)
  show ?thesis
    unfolding m uuid_UnmarshalJSON_def t using e n p l by (simp add: Let_def nth_append)
qed

interpretation uuid_string: codec uuid_String Parse id "\<lambda>u. length u = 16"
  by unfold_locales (simp_all add: Parse_String)

interpretation uuid_urn: codec uuid_URN Parse id "\<lambda>u. length u = 16"
  by unfold_locales (simp_all add: Parse_URN)

interpretation uuid_json: codec uuid_MarshalJSON "uuid_UnmarshalJSON v" Inr "\<lambda>u. length u = 16"
  for v by unfold_locales (simp_all add: UnmarshalJSON_MarshalJSON)

subsection \<open>The version and variant bits\<close>

lemma version_bits: "drop_bit 4 ((x AND 0x0f) OR 0x40 :: byte) = 4"
proof -
  have "drop_bit 4 ((x AND 0x0f) OR 0x40 :: byte) =
      (drop_bit 4 x AND drop_bit 4 0x0f) OR drop_bit 4 0x40"
    by (simp only: drop_bit_or drop_bit_and)
  also have "drop_bit 4 (0x0f :: byte) = 0" by simp
  also have "drop_bit 4 (0x40 :: byte) = 4" by simp
  finally show ?thesis by simp
qed

lemma variant_bits: "((x AND 0x3f) OR 0x80 :: byte) AND 0xc0 = 0x80"
proof -
  have "((x AND 0x3f) OR 0x80 :: byte) AND 0xc0 = (x AND (0x3f AND 0xc0)) OR (0x80 AND 0xc0)"
    by (simp only: bit.conj_disj_distrib2 and.assoc)
  then show ?thesis by simp
qed

lemma masked_or_eq:
  fixes x y m k :: byte
  assumes "k AND m = 0"
  shows "(x AND m) OR k = (y AND m) OR k \<longleftrightarrow> x AND m = y AND m"
proof
  assume e: "(x AND m) OR k = (y AND m) OR k"
  have r: "((z AND m) OR k) AND m = z AND m" for z
    using assms by (simp add: bit.conj_disj_distrib2 and.assoc)
  show "x AND m = y AND m" using arg_cong [OF e, of "\<lambda>w. w AND m"] by (simp only: r)
qed simp

lemma length_stamp_random [simp]: "length (stamp_random u) = length u"
  by (simp add: stamp_random_def Let_def)

lemma stamp_random_fields:
  assumes "length u = 16"
  shows "uuid_Version (stamp_random u) = (4, True)" and "uuid_Variant (stamp_random u) = RFC4122"
  using assms
  by (simp_all add: uuid_Version_def uuid_Variant_def stamp_random_def Let_def version_bits
      variant_bits)

lemma stamp_random_eq_iff:
  assumes "length a = 16" and "length b = 16"
  shows "stamp_random a = stamp_random b \<longleftrightarrow>
     (\<forall>i < 16. i \<noteq> 6 \<and> i \<noteq> 8 \<longrightarrow> a ! i = b ! i) \<and>
     a ! 6 AND 0x0f = b ! 6 AND 0x0f \<and> a ! 8 AND 0x3f = b ! 8 AND 0x3f"
proof -
  have k6: "(x AND 0x0f) OR 0x40 = (y AND 0x0f) OR 0x40 \<longleftrightarrow> x AND 0x0f = y AND (0x0f :: byte)" for x y
    by (rule masked_or_eq) simp
  have k8: "(x AND 0x3f) OR 0x80 = (y AND 0x3f) OR 0x80 \<longleftrightarrow> x AND 0x3f = y AND (0x3f :: byte)" for x y
    by (rule masked_or_eq) simp
  have nth: "stamp_random u ! i =
      (if i = 8 then (u ! 8 AND 0x3f) OR 0x80 else if i = 6 then (u ! 6 AND 0x0f) OR 0x40 else u ! i)"
    if "length u = 16" "i < 16" for u i
    using that by (auto simp: stamp_random_def Let_def nth_list_update)
  have "stamp_random a = stamp_random b \<longleftrightarrow> (\<forall>i < 16. stamp_random a ! i = stamp_random b ! i)"
    using assms by (simp add: list_eq_iff_nth_eq)
  also have "\<dots> \<longleftrightarrow> (\<forall>i < 16. i \<noteq> 6 \<and> i \<noteq> 8 \<longrightarrow> a ! i = b ! i) \<and>
      stamp_random a ! 6 = stamp_random b ! 6 \<and> stamp_random a ! 8 = stamp_random b ! 8"
    using nth [OF assms(1)] nth [OF assms(2)] by (auto split: if_splits)
  finally show ?thesis
    using nth [OF assms(1), of 6] nth [OF assms(2), of 6] nth [OF assms(1), of 8]
      nth [OF assms(2), of 8] by (simp add: k6 k8)
qed

subsection \<open>Properties\<close>

text \<open>
  Every text form of a UUID reads back: for a 16-byte UUID, \<open>Parse\<close> inverts \<open>String\<close> and
  \<open>URN\<close>, and \<open>UnmarshalJSON\<close> inverts \<open>MarshalJSON\<close> whatever its receiver held.
\<close>
theorem uuid_text_roundtrip:
  assumes "length u = 16"
  shows "Parse (uuid_String u) = u \<and> Parse (uuid_URN u) = u \<and>
    uuid_UnmarshalJSON v (uuid_MarshalJSON u) = Inr u"
  using uuid_string.dec_enc [OF assms] uuid_urn.dec_enc [OF assms] uuid_json.dec_enc [OF assms]
  by simp

theorem uuid_text_roundtrip_witness:
  "Parse (uuid_String (replicate 16 171)) = replicate 16 171 \<and>
   Parse (uuid_URN (replicate 16 171)) = replicate 16 171 \<and>
   uuid_UnmarshalJSON [] (uuid_MarshalJSON (replicate 16 171)) = Inr (replicate 16 171)"
  by (rule uuid_text_roundtrip) simp

text \<open>
  \<open>Parse\<close> accepts nothing else: what it accepts is 16 bytes whose canonical text is the last
  36 characters of the input in lower case, so two inputs that name the same UUID differ at most
  in case and in the URN prefix.
\<close>
theorem uuid_parse_canonical:
  assumes "Parse s \<noteq> []"
  shows "length (Parse s) = 16 \<and> length s \<in> {36, 45} \<and>
    uuid_String (Parse s) = to_lower (drop (length s - 36) s)"
proof (cases "length s = 45")
  case True
  then have "Parse s = parse36 (drop 9 s)" and "length (drop 9 s) = 36"
    using assms by (auto simp: Parse_def split: if_splits)
  then show ?thesis using parse36_accepts [of "drop 9 s"] assms True by (simp add: uuid_String_def)
next
  case False
  then have "length s = 36" and "Parse s = parse36 s"
    using assms by (auto simp: Parse_def split: if_splits)
  then show ?thesis using parse36_accepts [of s] assms by (simp add: uuid_String_def)
qed

theorem uuid_parse_canonical_witness:
  "length (Parse ''6BA7B810-9dad-11d1-80b4-00c04fd430c8'') = 16 \<and>
   length ''6BA7B810-9dad-11d1-80b4-00c04fd430c8'' \<in> {36, 45} \<and>
   uuid_String (Parse ''6BA7B810-9dad-11d1-80b4-00c04fd430c8'') =
     to_lower (drop (length ''6BA7B810-9dad-11d1-80b4-00c04fd430c8'' - 36)
       ''6BA7B810-9dad-11d1-80b4-00c04fd430c8'')"
  by (rule uuid_parse_canonical)
     (simp add: Parse_def parse36_def parse_offsets_def xtob_def xvalues_def nth_append zero_16
       Let_def)

text \<open>
  What \<open>uuid.New\<close> returns: if the random source fills its buffer, the result is the 36
  character text of a version 4, RFC 4122 UUID that differs from the random bytes in the six
  stamped bits only; if the source fails, \<open>New\<close> panics.
\<close>
theorem uuid_new_form:
  assumes "rand_ok rd"
  shows "case uuid_New rd r of
      (Panics e, r') \<Rightarrow> rd 16 r = (Inl e, r')
    | (Returns s, r') \<Rightarrow> length s = 36 \<and> uuid_Version (Parse s) = (4, True) \<and>
        uuid_Variant (Parse s) = RFC4122 \<and>
        (\<exists>b. rd 16 r = (Inr b, r') \<and> length b = 16 \<and> s = uuid_String (stamp_random b) \<and>
          (\<forall>i < 16. i \<noteq> 6 \<and> i \<noteq> 8 \<longrightarrow> Parse s ! i = b ! i))"
proof (cases "rd 16 r")
  case (Pair res r')
  show ?thesis
  proof (cases res)
    case (Inl e)
    with Pair show ?thesis by (simp add: uuid_New_def NewRandom_def randomBits_def)
  next
    case (Inr b)
    have l: "length b = 16" using assms Pair Inr by (auto simp: rand_ok_def)
    with Pair Inr show ?thesis
      by (simp add: uuid_New_def NewRandom_def randomBits_def Parse_String stamp_random_fields)
         (simp add: uuid_String_def length_uuid_text stamp_random_def Let_def)
  qed
qed

theorem uuid_new_form_witness:
  "rand_ok (\<lambda>n r. (Inr (replicate n r), r + 1)) \<and>
   (case uuid_New (\<lambda>n r. (Inr (replicate n r), r + 1)) (255 :: byte) of
      (Panics e, r') \<Rightarrow> False
    | (Returns s, r') \<Rightarrow> r' = 0 \<and> length s = 36 \<and> uuid_Version (Parse s) = (4, True))"
proof -
  have h: "rand_ok (\<lambda>n r. (Inr (replicate n r), r + 1))" by (auto simp: rand_ok_def)
  from uuid_new_form [OF h, of "255 :: byte"] h show ?thesis
    by (auto split: prod.splits outcome.splits)
qed

text \<open>
  Two draws give the same petition id exactly when their 122 random bits agree.
\<close>
theorem uuid_new_collision:
  assumes "rand_ok rd" and "uuid_New rd r = (Returns s, r')" and "uuid_New rd q = (Returns t, q')"
  shows "s = t \<longleftrightarrow> (\<exists>a b. rd 16 r = (Inr a, r') \<and> rd 16 q = (Inr b, q') \<and>
    (\<forall>i < 16. i \<noteq> 6 \<and> i \<noteq> 8 \<longrightarrow> a ! i = b ! i) \<and>
    a ! 6 AND 0x0f = b ! 6 AND 0x0f \<and> a ! 8 AND 0x3f = b ! 8 AND 0x3f)"
proof -
  obtain a b where a: "rd 16 r = (Inr a, r')" "length a = 16" "s = uuid_String (stamp_random a)"
    and b: "rd 16 q = (Inr b, q')" "length b = 16" "t = uuid_String (stamp_random b)"
    using uuid_new_form [OF assms(1), of r] uuid_new_form [OF assms(1), of q] assms(2,3) by auto
  have "s = t \<longleftrightarrow> stamp_random a = stamp_random b"
    using uuid_string.enc_inj [of "stamp_random a" "stamp_random b"] a b by auto
  then show ?thesis using stamp_random_eq_iff [OF a(2) b(2)] a b by auto
qed

theorem uuid_new_collision_witness:
  "rand_ok (\<lambda>n r. (Inr (replicate n r), r + 1)) \<and>
   fst (uuid_New (\<lambda>n r. (Inr (replicate n r), r + 1)) (1 :: byte)) \<noteq>
   fst (uuid_New (\<lambda>n r. (Inr (replicate n r), r + 1)) (2 :: byte))"
proof -
  let ?rd = "\<lambda>n r. (Inr (replicate n r) :: gerror + bytes, r + 1 :: byte)"
  have h: "rand_ok ?rd" by (auto simp: rand_ok_def)
  have n: "uuid_New ?rd r = (Returns (uuid_String (stamp_random (replicate 16 r))), r + 1)" for r
    by (simp add: uuid_New_def NewRandom_def randomBits_def)
  show ?thesis using h uuid_new_collision [OF h n n, of 1 2] by (auto simp: n)
qed

end
