(* ===== verification/Url.thy ===== *)
theory Url
  imports Uuid
begin

text \<open>
  What the program uses of Go's \<open>net/url\<close> and \<open>strings\<close> (release 1.4, the one \<open>Godeps.json\<close>
  names): the \<open>URL\<close> struct, \<open>String\<close>, \<open>Parse\<close> and the escaping of path, user info and fragment.
  A petition keeps a URL, rewrites its host and scheme, prints it and has it parsed again by
  \<open>http.NewRequest\<close>; the BSON layer stores URLs as their \<open>String\<close> and reads them with \<open>Parse\<close>.
\<close>

subsection \<open>String helpers\<close>

definition HasPrefix :: "string \<Rightarrow> string \<Rightarrow> bool" where
  "HasPrefix s p \<longleftrightarrow> take (length p) s = p"

text \<open>\<open>split(s, c, cutc)\<close>: at the first \<open>c\<close>, which the second part keeps unless \<open>cutc\<close>.\<close>

definition split_at :: "char \<Rightarrow> bool \<Rightarrow> string \<Rightarrow> string \<times> string" where
  "split_at c cutc s =
     (let a = takeWhile (\<lambda>x. x \<noteq> c) s; b = dropWhile (\<lambda>x. x \<noteq> c) s
      in (a, if cutc then drop 1 b else b))"

lemma split_at_none: "c \<notin> set s \<Longrightarrow> split_at c k s = (s, [])"
proof -
  assume "c \<notin> set s"
  then have "\<forall>x \<in> set s. x \<noteq> c" by blast
  then have t: "takeWhile (\<lambda>x. x \<noteq> c) s = s" and d: "dropWhile (\<lambda>x. x \<noteq> c) s = []"
    by (simp_all add: takeWhile_eq_all_conv dropWhile_eq_Nil_conv)
  show ?thesis unfolding split_at_def Let_def t d by simp
qed

lemma split_at_append:
  "c \<notin> set a \<Longrightarrow> split_at c k (a @ c # b) = (a, if k then b else c # b)"
  by (auto simp: split_at_def Let_def takeWhile_append dropWhile_append)

definition is_alnum :: "char \<Rightarrow> bool" where
  "is_alnum c \<longleftrightarrow> (let n = (of_char c :: nat) in
     (65 \<le> n \<and> n \<le> 90) \<or> (97 \<le> n \<and> n \<le> 122) \<or> (48 \<le> n \<and> n \<le> 57))"

subsection \<open>The URL struct\<close>

record url =
  u_Scheme :: string
  u_Opaque :: string
  u_User :: "(string \<times> string option) option"
  u_Host :: string
  u_Path :: string
  u_RawQuery :: string
  u_Fragment :: string

definition empty_url :: url where
  "empty_url = \<lparr>u_Scheme = '''', u_Opaque = '''', u_User = None, u_Host = '''', u_Path = '''',
     u_RawQuery = '''', u_Fragment = ''''\<rparr>"

subsection \<open>Escaping\<close>

datatype encoding = encodePath | encodeUserPassword | encodeFragment

definition shouldEscape :: "char \<Rightarrow> encoding \<Rightarrow> bool" where
  "shouldEscape c mode =
     (if is_alnum c \<or> c \<in> set ''-_.~'' then False
      else if c \<in> set ''$&+,/:;=?@'' then
        (case mode of
           encodePath \<Rightarrow> c = CHR ''?''
         | encodeUserPassword \<Rightarrow> c = CHR ''@'' \<or> c = CHR ''/'' \<or> c = CHR '':''
         | encodeFragment \<Rightarrow> False)
      else True)"

definition hexdig_upper :: "nat \<Rightarrow> char" where
  "hexdig_upper d = (if d < 10 then char_of (48 + d) else char_of (55 + d))"

definition escape_char :: "encoding \<Rightarrow> char \<Rightarrow> string" where
  "escape_char mode c =
     (if shouldEscape c mode
      then [CHR ''%'', hexdig_upper (of_char c div 16), hexdig_upper (of_char c mod 16)]
      else [c])"

definition url_escape :: "string \<Rightarrow> encoding \<Rightarrow> string" where
  "url_escape s mode = concat (map (escape_char mode) s)"

definition unhex :: "char \<Rightarrow> nat option" where
  "unhex c = (let n = (of_char c :: nat) in
     if 48 \<le> n \<and> n \<le> 57 then Some (n - 48)
     else if 97 \<le> n \<and> n \<le> 102 then Some (n - 87)
     else if 65 \<le> n \<and> n \<le> 70 then Some (n - 55) else None)"

text \<open>An \<open>EscapeError\<close> names the first three bytes of the bad escape.\<close>

definition EscapeError :: "string \<Rightarrow> gerror" where
  "EscapeError s = ''invalid URL escape '' @ [CHR 34] @ take 3 s @ [CHR 34]"

fun url_unescape :: "string \<Rightarrow> gerror + string" where
  "url_unescape [] = Inr []"
| "url_unescape (c # s) =
     (if c = CHR ''%'' then
        (case s of
           a # b # rest \<Rightarrow>
             (case (unhex a, unhex b) of
                (Some x, Some y) \<Rightarrow>
                  (case url_unescape rest of Inl e \<Rightarrow> Inl e | Inr t \<Rightarrow> Inr (char_of (16 * x + y) # t))
              | _ \<Rightarrow> Inl (EscapeError (c # s)))
         | _ \<Rightarrow> Inl (EscapeError (c # s)))
      else (case url_unescape s of Inl e \<Rightarrow> Inl e | Inr t \<Rightarrow> Inr (c # t)))"

subsection \<open>Printing\<close>

definition userinfo_String :: "string \<times> string option \<Rightarrow> string" where
  "userinfo_String u =
     url_escape (fst u) encodeUserPassword @
     (case snd u of None \<Rightarrow> [] | Some p \<Rightarrow> '':'' @ url_escape p encodeUserPassword)"

definition url_String :: "url \<Rightarrow> string" where
  "url_String u =
     (if u_Scheme u \<noteq> [] then u_Scheme u @ '':'' else []) @
     (if u_Opaque u \<noteq> [] then u_Opaque u
      else
        (if u_Scheme u \<noteq> [] \<or> u_Host u \<noteq> [] \<or> u_User u \<noteq> None then
           ''//'' @ (case u_User u of None \<Rightarrow> [] | Some ui \<Rightarrow> userinfo_String ui @ ''@'') @ u_Host u
         else []) @
        (if u_Path u \<noteq> [] \<and> hd (u_Path u) \<noteq> CHR ''/'' \<and> u_Host u \<noteq> [] then ''/'' else []) @
        url_escape (u_Path u) encodePath) @
     (if u_RawQuery u \<noteq> [] then ''?'' @ u_RawQuery u else []) @
     (if u_Fragment u \<noteq> [] then ''#'' @ url_escape (u_Fragment u) encodeFragment else [])"

subsection \<open>Parsing\<close>

text \<open>\<open>getscheme\<close>: a scheme is a letter followed by letters, digits and \<open>+-.\<close>, up to a colon.\<close>

fun getscheme :: "string \<Rightarrow> string \<Rightarrow> string \<Rightarrow> gerror + (string \<times> string)" where
  "getscheme raw acc [] = Inr ([], raw)"
| "getscheme raw acc (c # s) =
     (let n = (of_char c :: nat) in
      if (97 \<le> n \<and> n \<le> 122) \<or> (65 \<le> n \<and> n \<le> 90) then getscheme raw (acc @ [c]) s
      else if (48 \<le> n \<and> n \<le> 57) \<or> c \<in> set ''+-.'' then
        (if acc = [] then Inr ([], raw) else getscheme raw (acc @ [c]) s)
      else if c = CHR '':'' then
        (if acc = [] then Inl ''missing protocol scheme'' else Inr (acc, s))
      else Inr ([], raw))"

definition parseAuthority :: "string \<Rightarrow> gerror + ((string \<times> string option) option \<times> string)" where
  "parseAuthority a =
     (if CHR ''@'' \<notin> set a then Inr (None, a)
      else
        (let host = rev (takeWhile (\<lambda>x. x \<noteq> CHR ''@'') (rev a));
             userinfo = take (length a - length host - 1) a
         in if CHR '':'' \<notin> set userinfo then
              (case url_unescape userinfo of Inl e \<Rightarrow> Inl e | Inr u \<Rightarrow> Inr (Some (u, None), host))
            else
              (case split_at (CHR '':'') True userinfo of (un, pw) \<Rightarrow>
                 (case (url_unescape un, url_unescape pw) of
                    (Inl e, _) \<Rightarrow> Inl e
                  | (Inr _, Inl e) \<Rightarrow> Inl e
                  | (Inr u, Inr p) \<Rightarrow> Inr (Some (u, Some p), host)))))"

text \<open>
  \<open>parse(rawurl, viaRequest)\<close>; \<open>url.Parse\<close> calls it with \<open>False\<close> after cutting the fragment,
  \<open>url.ParseRequestURI\<close>, which the HTTP server uses on the request line, with \<open>True\<close>.
\<close>

definition url_path_part :: "url \<Rightarrow> string \<Rightarrow> gerror + url" where
  "url_path_part u rest =
     (case url_unescape rest of Inl e \<Rightarrow> Inl e | Inr p \<Rightarrow> Inr (u\<lparr>u_Path := p\<rparr>))"

definition url_parse :: "string \<Rightarrow> bool \<Rightarrow> gerror + url" where
  "url_parse raw viaRequest =
     (if raw = [] \<and> viaRequest then Inl ''empty url''
      else if raw = ''*'' then Inr (empty_url\<lparr>u_Path := ''*''\<rparr>)
      else case getscheme raw [] raw of
          Inl e \<Rightarrow> Inl e
        | Inr (sch, rest0) \<Rightarrow>
            (case split_at (CHR ''?'') True rest0 of (rest, q) \<Rightarrow>
               let u = empty_url\<lparr>u_Scheme := to_lower sch, u_RawQuery := q\<rparr> in
               if \<not> HasPrefix rest ''/'' \<and> sch \<noteq> [] then Inr (u\<lparr>u_Opaque := rest\<rparr>)
               else if \<not> HasPrefix rest ''/'' \<and> viaRequest then Inl ''invalid URI for request''
               else if (sch \<noteq> [] \<or> (\<not> viaRequest \<and> \<not> HasPrefix rest ''///'')) \<and> HasPrefix rest ''//'' then
                 (case split_at (CHR ''/'') False (drop 2 rest) of (authority, path) \<Rightarrow>
                    (case parseAuthority authority of
                       Inl e \<Rightarrow> Inl e
                     | Inr (user, host) \<Rightarrow>
                         if CHR ''%'' \<in> set host then Inl ''hexadecimal escape in host''
                         else url_path_part (u\<lparr>u_User := user, u_Host := host\<rparr>) path))
               else url_path_part u rest))"

definition url_Error :: "string \<Rightarrow> gerror \<Rightarrow> gerror" where
  "url_Error raw e = ''parse '' @ raw @ '': '' @ e"

definition url_Parse :: "string \<Rightarrow> gerror + url" where
  "url_Parse raw =
     (case split_at (CHR ''#'') True raw of (s, frag) \<Rightarrow>
        (case url_parse s False of
           Inl e \<Rightarrow> Inl (url_Error s e)
         | Inr u \<Rightarrow>
             if frag = [] then Inr u
             else (case url_unescape frag of
                 Inl e \<Rightarrow> Inl (url_Error raw e)
               | Inr f \<Rightarrow> Inr (u\<lparr>u_Fragment := f\<rparr>))))"

definition url_ParseRequestURI :: "string \<Rightarrow> gerror + url" where
  "url_ParseRequestURI raw =
     (case url_parse raw True of Inl e \<Rightarrow> Inl (url_Error raw e) | Inr u \<Rightarrow> Inr u)"

subsection \<open>Escaping round trip\<close>

lemma hexdig_upper_cases:
  "d < 16 \<Longrightarrow> unhex (hexdig_upper d) = Some d \<and> is_alnum (hexdig_upper d)"
  by (drule less_16_cases, elim disjE)
     (simp_all add: unhex_def hexdig_upper_def is_alnum_def)

lemma of_char_nibbles: "(of_char c :: nat) div 16 < 16 \<and> (of_char c :: nat) mod 16 < 16"
proof -
  have "(of_char c :: nat) < 256" by simp
  then show ?thesis by (simp add: less_mult_imp_div_less)
qed

lemma percent_escapes: "shouldEscape CHR ''%'' m"
  by (simp add: shouldEscape_def is_alnum_def)

lemma url_unescape_escape_char:
  "url_unescape (escape_char m c @ t) =
     (case url_unescape t of Inl e \<Rightarrow> Inl e | Inr t \<Rightarrow> Inr (c # t))"
proof (cases "shouldEscape c m")
  case True
  have "(16 * (of_char c div 16) + of_char c mod 16 :: nat) = of_char c" by simp
  then have ch: "char_of (16 * (of_char c div 16) + of_char c mod 16 :: nat) = c"
    by (simp only: char_of_char)
  show ?thesis using True
    using hexdig_upper_cases [of "of_char c div 16"] hexdig_upper_cases [of "of_char c mod 16"]
      of_char_nibbles [of c]
    by (simp add: escape_char_def ch split: sum.splits)
next
  case False
  then have "c \<noteq> CHR ''%''" using percent_escapes by blast
  with False show ?thesis by (simp add: escape_char_def)
qed

lemma url_unescape_escape [codec_simps]: "url_unescape (url_escape s m) = Inr s"
  by (induction s) (simp_all add: url_escape_def url_unescape_escape_char)

interpretation path_escape: codec "\<lambda>s. url_escape s m" url_unescape Inr "\<lambda>_. True"
  for m by unfold_locales (simp_all add: url_unescape_escape)

lemma is_alnum_not: "is_alnum c \<Longrightarrow> c \<notin> set ''#?/:@ ''"
  by (auto simp: is_alnum_def)

lemma escape_char_path_chars:
  "x \<in> set (escape_char encodePath c) \<Longrightarrow> x \<noteq> CHR ''#'' \<and> x \<noteq> CHR ''?''"
  using hexdig_upper_cases [of "of_char c div 16"] hexdig_upper_cases [of "of_char c mod 16"]
    of_char_nibbles [of c] is_alnum_not [of x]
  by (auto simp: escape_char_def shouldEscape_def split: if_splits)

lemma url_escape_path_chars:
  "CHR ''#'' \<notin> set (url_escape p encodePath) \<and> CHR ''?'' \<notin> set (url_escape p encodePath)"
  using escape_char_path_chars by (fastforce simp: url_escape_def)

lemma url_escape_path_slash: "url_escape (CHR ''/'' # p) encodePath = CHR ''/'' # url_escape p encodePath"
  by (simp add: url_escape_def escape_char_def shouldEscape_def is_alnum_def)

lemma url_escape_Nil [simp]: "url_escape [] m = []"
  by (simp add: url_escape_def)

subsection \<open>Printing and parsing again\<close>

text \<open>
  The URLs a relayed request has: scheme \<open>http\<close> or \<open>https\<close>, no user info, a host that none of the
  delimiters can cut short, a path that is empty or absolute, a query with no fragment in it.
\<close>

definition relay_url :: "url \<Rightarrow> bool" where
  "relay_url u \<longleftrightarrow> u_Scheme u \<in> {''http'', ''https''} \<and> u_Opaque u = [] \<and> u_User u = None \<and>
     set (u_Host u) \<inter> set ''/?#@'' = {} \<and> (u_Path u = [] \<or> hd (u_Path u) = CHR ''/'') \<and>
     CHR ''#'' \<notin> set (u_RawQuery u) \<and> u_Fragment u = []"

lemma getscheme_http:
  "s \<in> {''http'', ''https''} \<Longrightarrow> getscheme raw [] (s @ CHR '':'' # rest) = Inr (s, rest)"
  by (auto simp: Let_def)

lemma url_String_relay:
  assumes "relay_url u"
  shows "url_String u = u_Scheme u @ CHR '':'' # ''//'' @ u_Host u @
    url_escape (u_Path u) encodePath @ (if u_RawQuery u \<noteq> [] then ''?'' @ u_RawQuery u else [])"
  using assms by (auto simp: url_String_def relay_url_def)

lemma url_Parse_String_relay:
  assumes "relay_url u"
  shows "url_Parse (url_String u) =
    (if CHR ''%'' \<in> set (u_Host u)
     then Inl (url_Error (url_String u) ''hexadecimal escape in host'') else Inr u)"
proof -
  let ?p = "url_escape (u_Path u) encodePath"
  let ?q = "if u_RawQuery u \<noteq> [] then ''?'' @ u_RawQuery u else []"
  let ?rest = "''//'' @ u_Host u @ ?p"
  note r = assms [unfolded relay_url_def]
  note esc = url_escape_path_chars [of "u_Path u"]
  have s: "url_String u = u_Scheme u @ CHR '':'' # ?rest @ ?q"
    by (simp add: url_String_relay [OF assms])
  have nohash: "CHR ''#'' \<notin> set (url_String u)"
    unfolding s using r esc by auto
  have noq: "CHR ''?'' \<notin> set ?rest" using r esc by auto
  have q: "split_at (CHR ''?'') True (?rest @ ?q) = (?rest, u_RawQuery u)"
    using split_at_none [OF noq, of True] split_at_append [OF noq, of True "u_RawQuery u"] by auto
  have slash: "split_at (CHR ''/'') False (u_Host u @ ?p) = (u_Host u, ?p)"
  proof (cases "u_Path u")
    case Nil
    then show ?thesis using r by (simp add: split_at_none)
  next
    case (Cons c p)
    then have "c = CHR ''/''" using r by simp
    with Cons show ?thesis using r by (simp add: url_escape_path_slash split_at_append)
  qed
  have auth: "parseAuthority (u_Host u) = Inr (None, u_Host u)"
    using r by (auto simp: parseAuthority_def)
  have sch: "getscheme (url_String u) [] (url_String u) = Inr (u_Scheme u, ?rest @ ?q)"
    unfolding s using r by (intro getscheme_http) simp
  have low: "to_lower (u_Scheme u) = u_Scheme u" "u_Scheme u \<noteq> []"
    using r by (auto simp: to_lower_def to_lower_char_def)
  have star: "url_String u \<noteq> ''*''" using s r by auto
  have "url_parse (url_String u) False =
      (if CHR ''%'' \<in> set (u_Host u) then Inl ''hexadecimal escape in host'' else Inr u)"
    using q slash auth sch low star r
    by (simp add: url_parse_def Let_def HasPrefix_def url_path_part_def url_unescape_escape empty_url_def)
  then show ?thesis
    using r by (simp add: url_Parse_def split_at_none [OF nohash])
qed

end
