(* ===== verification/Http.thy ===== *)
theory Http
  imports Url
begin

text \<open>
  What the program uses of \<open>net/http\<close>, \<open>fmt\<close> and \<open>path/filepath\<close>: header maps and the canonical
  form of their keys, requests and responses as data, the response writer with \<open>http.Error\<close>, the
  \<open>%q\<close> verb, \<open>filepath.Base\<close> and the routing of \<open>ServeMux\<close>.

  A header map is an association list without repeated keys, in the order a map iteration would
  give; the nil map is the empty one, which no operation of the program tells apart (neither
  \<open>Get\<close> nor \<open>Del\<close>, and the BSON layer writes both as an empty document).
\<close>

subsection \<open>Header\<close>

type_synonym header = "(string \<times> string list) list"

definition to_upper_char :: "char \<Rightarrow> char" where
  "to_upper_char c = (if 97 \<le> (of_char c :: nat) \<and> (of_char c :: nat) \<le> 122
     then char_of ((of_char c :: nat) - 32) else c)"

text \<open>\<open>CanonicalHeaderKey\<close>: upper case at the start and after each dash, lower case elsewhere.\<close>

fun canon_from :: "bool \<Rightarrow> string \<Rightarrow> string" where
  "canon_from upper [] = []"
| "canon_from upper (c # s) =
     (if upper then to_upper_char c else to_lower_char c) # canon_from (c = CHR ''-'') s"

definition CanonicalHeaderKey :: "string \<Rightarrow> string" where
  "CanonicalHeaderKey s = canon_from True s"

definition Header_Get :: "header \<Rightarrow> string \<Rightarrow> string" where
  "Header_Get h key =
     (case map_of h (CanonicalHeaderKey key) of Some (v # _) \<Rightarrow> v | _ \<Rightarrow> '''')"

definition Header_Del :: "header \<Rightarrow> string \<Rightarrow> header" where
  "Header_Del h key = filter (\<lambda>(k, _). k \<noteq> CanonicalHeaderKey key) h"

definition Header_Set :: "header \<Rightarrow> string \<Rightarrow> string \<Rightarrow> header" where
  "Header_Set h key value =
     Header_Del h key @ [(CanonicalHeaderKey key, [value])]"

definition header_ok :: "header \<Rightarrow> bool" where
  "header_ok h \<longleftrightarrow> distinct (map fst h)"

lemma map_of_Header_Del:
  "map_of (Header_Del h key) k = (if k = CanonicalHeaderKey key then None else map_of h k)"
  by (induction h) (auto simp: Header_Del_def)

lemma header_ok_Del [intro]: "header_ok h \<Longrightarrow> header_ok (Header_Del h key)"
  by (induction h) (auto simp: Header_Del_def header_ok_def)

lemma set_Header_Del: "set (Header_Del h key) = {kv \<in> set h. fst kv \<noteq> CanonicalHeaderKey key}"
  by (auto simp: Header_Del_def)

lemma Header_Del_comm: "Header_Del (Header_Del h a) b = Header_Del (Header_Del h b) a"
  by (auto simp: Header_Del_def intro: filter_cong)

lemma Header_Get_Del:
  "Header_Get (Header_Del h a) b =
     (if CanonicalHeaderKey b = CanonicalHeaderKey a then '''' else Header_Get h b)"
  by (simp add: Header_Get_def map_of_Header_Del)

lemma map_of_Header_Set:
  "map_of (Header_Set h key v) k = (if k = CanonicalHeaderKey key then Some [v] else map_of h k)"
  by (auto simp: Header_Set_def map_add_def map_of_Header_Del split: option.splits)

lemma Header_Get_Set: "CanonicalHeaderKey a = CanonicalHeaderKey b \<Longrightarrow> Header_Get (Header_Set h a v) b = v"
  by (simp add: Header_Get_def map_of_Header_Set)

lemma Header_Get_Set_other:
  "CanonicalHeaderKey a \<noteq> CanonicalHeaderKey b \<Longrightarrow> Header_Get (Header_Set h a v) b = Header_Get h b"
  by (simp add: Header_Get_def map_of_Header_Set)

subsection \<open>Requests and responses\<close>

text \<open>
  The request a server handler gets. \<open>rq_Body\<close> is what \<open>ioutil.ReadAll\<close> of its body returns.
\<close>

record http_request =
  rq_Method :: string
  rq_URL :: url
  rq_Proto :: string
  rq_Header :: header
  rq_Trailer :: header
  rq_Body :: "gerror + bytes"
  rq_RemoteAddr :: string
  rq_RequestURI :: string

text \<open>
  The request a client sends. \<open>o_Body\<close> is what is still unread in its body reader.
\<close>

record out_request =
  o_Method :: string
  o_URL :: url
  o_Host :: string
  o_Header :: header
  o_Trailer :: header
  o_Body :: bytes

record http_response =
  rs_StatusCode :: int
  rs_Proto :: string
  rs_Header :: header
  rs_Trailer :: header
  rs_Body :: "gerror + bytes"

text \<open>\<open>http.NewRequest\<close> with a body reader that is already a \<open>ReadCloser\<close>.\<close>

definition http_NewRequest :: "string \<Rightarrow> string \<Rightarrow> bytes \<Rightarrow> gerror + out_request" where
  "http_NewRequest method urlStr body =
     (case url_Parse urlStr of
        Inl e \<Rightarrow> Inl e
      | Inr u \<Rightarrow> Inr \<lparr>o_Method = method, o_URL = u, o_Host = u_Host u, o_Header = [],
          o_Trailer = [], o_Body = body\<rparr>)"

subsection \<open>The response writer\<close>

text \<open>
  \<open>w_code\<close> and \<open>w_sent\<close> are set by the first \<open>WriteHeader\<close>, explicit or by the first write; later
  changes of the header map are not sent.
\<close>

record resp_writer =
  w_Header :: header
  w_code :: "nat option"
  w_sent :: header
  w_body :: string

definition new_writer :: resp_writer where
  "new_writer = \<lparr>w_Header = [], w_code = None, w_sent = [], w_body = ''''\<rparr>"

definition w_Set :: "string \<Rightarrow> string \<Rightarrow> resp_writer \<Rightarrow> resp_writer" where
  "w_Set k v w = w\<lparr>w_Header := Header_Set (w_Header w) k v\<rparr>"

definition w_WriteHeader :: "nat \<Rightarrow> resp_writer \<Rightarrow> resp_writer" where
  "w_WriteHeader code w =
     (case w_code w of None \<Rightarrow> w\<lparr>w_code := Some code, w_sent := w_Header w\<rparr> | Some _ \<Rightarrow> w)"

definition w_Write :: "string \<Rightarrow> resp_writer \<Rightarrow> resp_writer" where
  "w_Write s w = (let w = w_WriteHeader 200 w in w\<lparr>w_body := w_body w @ s\<rparr>)"

definition http_Error :: "string \<Rightarrow> nat \<Rightarrow> resp_writer \<Rightarrow> resp_writer" where
  "http_Error msg code w =
     w_Write (msg @ [CHR 10])
       (w_WriteHeader code (w_Set ''Content-Type'' ''text/plain; charset=utf-8'' w))"

subsection \<open>Formatting\<close>

text \<open>
  The \<open>%q\<close> verb on text: Go quoting. Bytes from 128 up are kept, which is what Go does for
  printable UTF-8.
\<close>

definition quote_char :: "char \<Rightarrow> string" where
  "quote_char c =
     (let n = (of_char c :: nat) in
      if n = 34 then [CHR 92, CHR 34] else if n = 92 then [CHR 92, CHR 92]
      else if n = 7 then [CHR 92, CHR ''a''] else if n = 8 then [CHR 92, CHR ''b'']
      else if n = 12 then [CHR 92, CHR ''f''] else if n = 10 then [CHR 92, CHR ''n'']
      else if n = 13 then [CHR 92, CHR ''r''] else if n = 9 then [CHR 92, CHR ''t'']
      else if n = 11 then [CHR 92, CHR ''v'']
      else if n < 32 \<or> n = 127 then [CHR 92, CHR ''x''] @ [hexdig (n div 16), hexdig (n mod 16)]
      else [c])"

definition go_quote :: "string \<Rightarrow> string" where
  "go_quote s = [CHR 34] @ concat (map quote_char s) @ [CHR 34]"

subsection \<open>Paths\<close>

definition filepath_Base :: "string \<Rightarrow> string" where
  "filepath_Base path =
     (if path = [] then ''.''
      else let p = rev (dropWhile (\<lambda>c. c = CHR ''/'') (rev path));
               b = rev (takeWhile (\<lambda>c. c \<noteq> CHR ''/'') (rev p))
           in if b = [] then ''/'' else b)"

lemma filepath_Base_last:
  assumes "b \<noteq> []" and "CHR ''/'' \<notin> set b"
  shows "filepath_Base (p @ CHR ''/'' # b) = b" and "filepath_Base b = b"
proof -
  obtain x xs where x: "rev b = x # xs" using assms(1) by (cases "rev b") simp_all
  have "x \<in> set (rev b)" by (simp add: x)
  then have "x \<noteq> CHR ''/''" using assms(2) by (metis set_rev)
  then have d: "dropWhile (\<lambda>c. c = CHR ''/'') (rev b @ q) = rev b @ q" for q
    by (simp add: x)
  have all: "\<forall>c \<in> set (rev b). c \<noteq> CHR ''/''" using assms(2) by (metis set_rev)
  have t: "takeWhile (\<lambda>c. c \<noteq> CHR ''/'') (rev b @ CHR ''/'' # q) = rev b" for q
    using all by (subst takeWhile_append2) auto
  have t': "takeWhile (\<lambda>c. c \<noteq> CHR ''/'') (rev b) = rev b"
    using all by (simp add: takeWhile_eq_all_conv)
  show "filepath_Base (p @ CHR ''/'' # b) = b"
    using assms(1) d [of "CHR ''/'' # rev p"] t [of "rev p"]
    by (simp add: filepath_Base_def Let_def del: rev_is_Nil_conv)
  show "filepath_Base b = b"
    using assms(1) d [of "[]"] unfolding filepath_Base_def Let_def by (simp add: t')
qed

end
