(* ===== verification/Constants.thy ===== *)
theory Constants
  imports Http
begin

text \<open>\<open>constants.go\<close>: the header fields of the relayer, and that they are in canonical form.\<close>

definition RelayerHost :: string where "RelayerHost = ''X-Relayer-Host''"
definition RelayerProtocol :: string where "RelayerProtocol = ''X-Relayer-Protocol''"
definition RelayerTraceID :: string where "RelayerTraceID = ''X-Relayer-Traceid''"
definition RelayerTopic :: string where "RelayerTopic = ''X-Relayer-Topic''"
definition RelayerProxy :: string where "RelayerProxy = ''X-Relayer-Proxy''"
definition RelayerRetry :: string where "RelayerRetry = ''X-Relayer-Retry''"

lemmas relayer_defs = RelayerHost_def RelayerProtocol_def RelayerTraceID_def RelayerTopic_def
  RelayerProxy_def RelayerRetry_def

lemma relayer_canonical [simp]:
  "CanonicalHeaderKey RelayerHost = RelayerHost"
  "CanonicalHeaderKey RelayerProtocol = RelayerProtocol"
  "CanonicalHeaderKey RelayerTraceID = RelayerTraceID"
  "CanonicalHeaderKey RelayerTopic = RelayerTopic"
  "CanonicalHeaderKey RelayerProxy = RelayerProxy"
  "CanonicalHeaderKey RelayerRetry = RelayerRetry"
  by (simp_all add: relayer_defs CanonicalHeaderKey_def to_upper_char_def to_lower_char_def)

definition relayer_fields :: "string set" where
  "relayer_fields = {RelayerHost, RelayerProtocol, RelayerTraceID, RelayerTopic, RelayerProxy,
     RelayerRetry}"

lemma relayer_distinct [simp]:
  "distinct [RelayerHost, RelayerProtocol, RelayerTraceID, RelayerTopic, RelayerProxy, RelayerRetry]"
  by (simp add: relayer_defs)

end
