(* ===== verification/Petition.thy ===== *)
theory Petition
  imports Constants
begin

text \<open>
  \<open>petition.go\<close>: the \<open>Petition\<close> struct, \<open>newPetition\<close>, which makes one from the request a client
  sent, and \<open>Request\<close>, which makes the request for the target host from it.

  The random source \<open>rd\<close> of \<open>uuid.New\<close> and the clock reading \<open>now\<close> (nanoseconds) are arguments. A
  \<open>time.Time\<close> is its number of milliseconds since 1970, the precision \<open>bson.Now\<close> cuts it to.
\<close>

record petition =
  p_ID :: string
  p_TraceID :: string
  p_TargetHost :: string
  p_TargetScheme :: string
  p_Method :: string
  p_URL :: "url option"
  p_URLString :: string
  p_Proto :: string
  p_Header :: header
  p_Trailer :: header
  p_Body :: bytes
  p_RemoteAddr :: string
  p_RequestURI :: string
  p_Host :: string
  p_Created :: int

text \<open>\<open>time.Time{}\<close>, the zero value, is the start of year 1.\<close>

definition zero_time :: int where
  "zero_time = - 62135596800000"

definition empty_petition :: petition where
  "empty_petition = \<lparr>p_ID = '''', p_TraceID = '''', p_TargetHost = '''', p_TargetScheme = '''',
     p_Method = '''', p_URL = None, p_URLString = '''', p_Proto = '''', p_Header = [],
     p_Trailer = [], p_Body = [], p_RemoteAddr = '''', p_RequestURI = '''', p_Host = '''',
     p_Created = zero_time\<rparr>"

definition bson_Now :: "goint \<Rightarrow> int" where
  "bson_Now unixnano = sint unixnano sdiv 1000000"

subsection \<open>newPetition\<close>

text \<open>The scheme a protocol header asks for: an error for anything but \<open>http\<close> and \<open>https\<close>.\<close>

definition select_scheme :: "string \<Rightarrow> gerror + string" where
  "select_scheme protocol =
     (let scheme = to_lower protocol
      in if scheme = ''http'' \<or> scheme = ''https'' then Inr scheme
         else if scheme = '''' then Inr ''http''
         else Inl (''gridas: unsupported protocol '' @ scheme))"

text \<open>The hack for clients of older versions: a scheme in front of the host overrides the other.\<close>

definition strip_host_scheme :: "string \<Rightarrow> string \<Rightarrow> string \<times> string" where
  "strip_host_scheme targetHost scheme =
     (if HasPrefix targetHost ''https://'' then (drop (length ''https://'') targetHost, ''https'')
      else if HasPrefix targetHost ''http://'' then (drop (length ''http://'') targetHost, ''http'')
      else (targetHost, scheme))"

text \<open>
  \<open>newPetition\<close> returns the petition or the error, and the request with what is left of its header:
  the header map is shared, and every \<open>Del\<close> made before an early return stays made.
\<close>

definition newPetition ::
  "'r rand \<Rightarrow> goint \<Rightarrow> http_request \<Rightarrow> 'r \<Rightarrow> (gerror + petition) outcome \<times> http_request \<times> 'r" where
  "newPetition rd now original r =
     (let h = rq_Header original;
          targetHost = Header_Get h RelayerHost
      in if targetHost = '''' then
           (Returns (Inl (''gridas: Missing mandatory header '' @ RelayerHost)), original, r)
         else
           (let h1 = Header_Del h RelayerHost
            in case select_scheme (Header_Get h1 RelayerProtocol) of
                Inl e \<Rightarrow> (Returns (Inl e), original\<lparr>rq_Header := h1\<rparr>, r)
              | Inr scheme0 \<Rightarrow>
                  (let h2 = Header_Del h1 RelayerProtocol;
                       trace0 = Header_Get h2 RelayerTraceID;
                       traceID = (if trace0 = '''' then Header_Get h2 RelayerTopic else trace0);
                       h3 = Header_Del (Header_Del h2 RelayerTraceID) RelayerTopic;
                       h4 = Header_Del (Header_Del h3 RelayerProxy) RelayerRetry;
                       original' = original\<lparr>rq_Header := h4\<rparr>
                   in case strip_host_scheme targetHost scheme0 of (host, scheme) \<Rightarrow>
                        (case rq_Body original of
                           Inl err \<Rightarrow> (Returns (Inl err), original', r)
                         | Inr body \<Rightarrow>
                             (case uuid_New rd r of
                                (Panics e, r') \<Rightarrow> (Panics e, original', r')
                              | (Returns i, r') \<Rightarrow>
                                  (Returns (Inr
                                     \<lparr>p_ID = i, p_TraceID = traceID, p_TargetHost = host,
                                      p_TargetScheme = scheme, p_Method = rq_Method original,
                                      p_URL = Some (rq_URL original), p_URLString = '''',
                                      p_Proto = rq_Proto original, p_Header = h4,
                                      p_Trailer = rq_Trailer original, p_Body = body,
                                      p_RemoteAddr = rq_RemoteAddr original,
                                      p_RequestURI = rq_RequestURI original, p_Host = '''',
                                      p_Created = bson_Now now\<rparr>), original', r'))))))"

subsection \<open>Request\<close>

text \<open>
  \<open>Request\<close> writes the target into the petition's URL and the URL's text into \<open>URLString\<close>, then
  makes a new request and gives it the petition's header maps. A nil URL is a nil dereference.
\<close>

definition nil_deref :: string where
  "nil_deref = ''runtime error: invalid memory address or nil pointer dereference''"

definition petition_Request :: "petition \<Rightarrow> (gerror + out_request) outcome \<times> petition" where
  "petition_Request p =
     (case p_URL p of
        None \<Rightarrow> (Panics nil_deref, p)
      | Some u \<Rightarrow>
          (let u' = u\<lparr>u_Host := p_TargetHost p, u_Scheme := p_TargetScheme p\<rparr>;
               p' = p\<lparr>p_URL := Some u', p_URLString := url_String u'\<rparr>
           in case http_NewRequest (p_Method p) (p_URLString p') (p_Body p) of
                Inl err \<Rightarrow> (Returns (Inl err), p')
              | Inr req \<Rightarrow>
                  (Returns (Inr (req\<lparr>o_Header := p_Header p, o_Trailer := p_Trailer p\<rparr>)), p')))"

subsection \<open>What newPetition keeps of the header\<close>

lemma six_deletions:
  "Header_Del (Header_Del (Header_Del (Header_Del (Header_Del (Header_Del h RelayerHost)
     RelayerProtocol) RelayerTraceID) RelayerTopic) RelayerProxy) RelayerRetry =
   filter (\<lambda>(k, _). k \<notin> relayer_fields) h"
  by (auto simp: Header_Del_def relayer_fields_def intro!: filter_cong)

lemma select_scheme_cases:
  "select_scheme s =
     (if to_lower s \<in> {''http'', ''https''} then Inr (to_lower s)
      else if s = '''' then Inr ''http''
      else Inl (''gridas: unsupported protocol '' @ to_lower s))"
  by (simp add: select_scheme_def to_lower_def)

lemma strip_host_scheme_scheme:
  "strip_host_scheme h s = (h', s') \<Longrightarrow> s \<in> {''http'', ''https''} \<Longrightarrow> s' \<in> {''http'', ''https''}"
  by (auto simp: strip_host_scheme_def split: if_splits)

definition relay_trace :: "header \<Rightarrow> string" where
  "relay_trace h = (if Header_Get h RelayerTraceID = '''' then Header_Get h RelayerTopic
     else Header_Get h RelayerTraceID)"

lemma Header_Get_kept:
  "CanonicalHeaderKey a \<noteq> RelayerHost \<Longrightarrow> Header_Get (Header_Del h RelayerHost) a = Header_Get h a"
  "CanonicalHeaderKey a \<noteq> RelayerProtocol \<Longrightarrow>
     Header_Get (Header_Del h RelayerProtocol) a = Header_Get h a"
  by (simp_all add: Header_Get_Del)

lemma relayer_neq:
  "RelayerProtocol \<noteq> RelayerHost" "RelayerTraceID \<noteq> RelayerHost" "RelayerTopic \<noteq> RelayerHost"
  "RelayerTraceID \<noteq> RelayerProtocol" "RelayerTopic \<noteq> RelayerProtocol"
  by (simp_all add: relayer_defs)

text \<open>The whole of \<open>newPetition\<close> on one line per outcome.\<close>

lemma newPetition_eq:
  "newPetition rd now original r =
     (let h = rq_Header original; targetHost = Header_Get h RelayerHost;
          kept = filter (\<lambda>(k, _). k \<notin> relayer_fields) h
      in if targetHost = '''' then
           (Returns (Inl (''gridas: Missing mandatory header '' @ RelayerHost)), original, r)
         else case select_scheme (Header_Get h RelayerProtocol) of
             Inl e \<Rightarrow> (Returns (Inl e), original\<lparr>rq_Header := Header_Del h RelayerHost\<rparr>, r)
           | Inr scheme0 \<Rightarrow>
               (case rq_Body original of
                  Inl e \<Rightarrow> (Returns (Inl e), original\<lparr>rq_Header := kept\<rparr>, r)
                | Inr body \<Rightarrow>
                    (case uuid_New rd r of
                       (Panics e, r') \<Rightarrow> (Panics e, original\<lparr>rq_Header := kept\<rparr>, r')
                     | (Returns i, r') \<Rightarrow>
                         (Returns (Inr
                            \<lparr>p_ID = i, p_TraceID = relay_trace h,
                             p_TargetHost = fst (strip_host_scheme targetHost scheme0),
                             p_TargetScheme = snd (strip_host_scheme targetHost scheme0),
                             p_Method = rq_Method original,
                             p_URL = Some (rq_URL original), p_URLString = '''',
                             p_Proto = rq_Proto original, p_Header = kept,
                             p_Trailer = rq_Trailer original, p_Body = body,
                             p_RemoteAddr = rq_RemoteAddr original,
                             p_RequestURI = rq_RequestURI original, p_Host = '''',
                             p_Created = bson_Now now\<rparr>), original\<lparr>rq_Header := kept\<rparr>, r'))))"
  unfolding newPetition_def Let_def six_deletions
  by (simp add: Header_Get_kept relayer_neq relay_trace_def split: sum.split prod.split outcome.split)

subsection \<open>Properties\<close>

text \<open>
  When a request becomes a petition. \<open>newPetition\<close> succeeds exactly when the request names a
  target host, asks for no protocol or for http or https in any case, its body can be read and an
  id can be drawn; every other request is an error (or the panic of the random source), and no
  error draws an id.
\<close>
theorem petition_accepts:
  "(\<exists>p original' r'. newPetition rd now original r = (Returns (Inr p), original', r')) \<longleftrightarrow>
     Header_Get (rq_Header original) RelayerHost \<noteq> '''' \<and>
     to_lower (Header_Get (rq_Header original) RelayerProtocol) \<in> {'''', ''http'', ''https''} \<and>
     (\<exists>b. rq_Body original = Inr b) \<and> (\<exists>i r'. uuid_New rd r = (Returns i, r'))"
  unfolding newPetition_eq Let_def select_scheme_cases
  by (auto simp: to_lower_def split: sum.splits prod.splits outcome.splits)

text \<open>
  What a new petition holds: the id just drawn; the target host with a leading \<open>https://\<close> or
  \<open>http://\<close> cut off, such a prefix overriding the protocol header as the scheme, which is always
  http or https; the trace id from either header; the request's method, URL, body and trailer; and
  of the header every field but the relayer's six, in the same order with the same values.
\<close>
theorem petition_contents:
  assumes "newPetition rd now original r = (Returns (Inr p), original', r')"
  shows "uuid_New rd r = (Returns (p_ID p), r') \<and>
    (\<exists>s. select_scheme (Header_Get (rq_Header original) RelayerProtocol) = Inr s \<and>
       (p_TargetHost p, p_TargetScheme p) =
         strip_host_scheme (Header_Get (rq_Header original) RelayerHost) s) \<and>
    p_TargetScheme p \<in> {''http'', ''https''} \<and> p_TraceID p = relay_trace (rq_Header original) \<and>
    p_Method p = rq_Method original \<and> p_URL p = Some (rq_URL original) \<and>
    rq_Body original = Inr (p_Body p) \<and> p_Trailer p = rq_Trailer original \<and>
    p_Header p = filter (\<lambda>(k, _). k \<notin> relayer_fields) (rq_Header original) \<and>
    rq_Header original' = p_Header p"
proof -
  have s: "snd (strip_host_scheme h s) \<in> {''http'', ''https''}" if "select_scheme t = Inr s" for h s t
    using that strip_host_scheme_scheme [of h s] 
    by (auto simp: select_scheme_cases strip_host_scheme_def split: if_splits)
  show ?thesis
    using assms unfolding newPetition_eq Let_def
    by (auto split: sum.splits prod.splits outcome.splits if_splits dest: s)
qed

text \<open>A request line in origin form: an absolute path, an optional query, nothing else.\<close>

definition origin_form :: "url \<Rightarrow> bool" where
  "origin_form u \<longleftrightarrow> u_Opaque u = [] \<and> u_User u = None \<and> (\<exists>p. u_Path u = CHR ''/'' # p) \<and>
     CHR ''#'' \<notin> set (u_RawQuery u) \<and> u_Fragment u = []"

definition plain_host :: "string \<Rightarrow> bool" where
  "plain_host h \<longleftrightarrow> set h \<inter> set ''/?#@'' = {}"

lemma relay_url_target:
  "origin_form u \<Longrightarrow> plain_host h \<Longrightarrow> s \<in> {''http'', ''https''} \<Longrightarrow>
     relay_url (u\<lparr>u_Host := h, u_Scheme := s\<rparr>)"
  by (auto simp: relay_url_def origin_form_def plain_host_def)

lemma petition_Request_eq:
  assumes "p_URL p = Some u" and "origin_form u" and "plain_host (p_TargetHost p)"
    and "p_TargetScheme p \<in> {''http'', ''https''}"
  shows "petition_Request p =
    (let u' = u\<lparr>u_Host := p_TargetHost p, u_Scheme := p_TargetScheme p\<rparr>
     in (Returns
          (if CHR ''%'' \<in> set (p_TargetHost p)
           then Inl (url_Error (url_String u') ''hexadecimal escape in host'')
           else Inr \<lparr>o_Method = p_Method p, o_URL = u', o_Host = p_TargetHost p,
             o_Header = p_Header p, o_Trailer = p_Trailer p, o_Body = p_Body p\<rparr>),
         p\<lparr>p_URL := Some u', p_URLString := url_String u'\<rparr>))"
  using assms url_Parse_String_relay [OF relay_url_target [OF assms(2,3,4)]]
  by (simp add: petition_Request_def http_NewRequest_def Let_def)

text \<open>
  C12: The relayed request. From a request in origin form whose target host has none of the
  delimiters \<open>/?#@\<close> and no percent sign, the petition yields a request to exactly that host and
  scheme with the original method, path, query, trailer and body, and with the original header less
  the relayer's fields; printing the URL and parsing it back loses nothing.
\<close>
theorem relayed_request:
  assumes "newPetition rd now original r = (Returns (Inr p), original', r')"
    and "origin_form (rq_URL original)" and "plain_host (p_TargetHost p)"
    and "CHR ''%'' \<notin> set (p_TargetHost p)"
  shows "\<exists>req p'. petition_Request p = (Returns (Inr req), p') \<and>
    o_URL req = (rq_URL original)\<lparr>u_Host := p_TargetHost p, u_Scheme := p_TargetScheme p\<rparr> \<and>
    o_Host req = p_TargetHost p \<and> o_Method req = rq_Method original \<and>
    rq_Body original = Inr (o_Body req) \<and> o_Trailer req = rq_Trailer original \<and>
    o_Header req = filter (\<lambda>(k, _). k \<notin> relayer_fields) (rq_Header original) \<and>
    p_URLString p' = url_String (o_URL req)"
proof -
  have c: "p_TargetScheme p \<in> {''http'', ''https''}" "p_URL p = Some (rq_URL original)"
      "p_Method p = rq_Method original" "rq_Body original = Inr (p_Body p)"
      "p_Trailer p = rq_Trailer original"
      "p_Header p = filter (\<lambda>(k, _). k \<notin> relayer_fields) (rq_Header original)"
    using assms(1) unfolding newPetition_eq Let_def
    by (auto simp: select_scheme_cases strip_host_scheme_def
        split: sum.splits prod.splits outcome.splits if_splits)
  show ?thesis
    using petition_Request_eq [OF c(2) assms(2,3) c(1)] assms(4) c by (simp add: Let_def)
qed

definition sample_request :: http_request where
  "sample_request =
     \<lparr>rq_Method = ''GET'', rq_URL = empty_url\<lparr>u_Path := ''/path/sub path'', u_RawQuery := ''q=a&r=b''\<rparr>,
      rq_Proto = ''HTTP/1.1'',
      rq_Header = [(''X-Relayer-Host'', [''https://target:1234'']), (''X-Relayer-Topic'', [''trace'']),
        (''Accept'', [''text/html'', ''*/*''])],
      rq_Trailer = [], rq_Body = Inr [1, 2, 3, 0, 255], rq_RemoteAddr = ''10.0.0.1:999'',
      rq_RequestURI = ''/path/sub%20path?q=a&r=b''\<rparr>"

definition sample_rand :: "nat \<Rightarrow> byte \<Rightarrow> (gerror + bytes) \<times> byte" where
  "sample_rand n r = (Inr (replicate n r), r + 1)"

definition sample_petition :: "petition" where
  "sample_petition =
     \<lparr>p_ID = uuid_String (stamp_random (replicate 16 7)), p_TraceID = ''trace'',
      p_TargetHost = ''target:1234'', p_TargetScheme = ''https'', p_Method = ''GET'',
      p_URL = Some (rq_URL sample_request), p_URLString = '''', p_Proto = ''HTTP/1.1'',
      p_Header = [(''Accept'', [''text/html'', ''*/*''])], p_Trailer = [],
      p_Body = [1, 2, 3, 0, 255], p_RemoteAddr = ''10.0.0.1:999'',
      p_RequestURI = ''/path/sub%20path?q=a&r=b'', p_Host = '''', p_Created = 1\<rparr>"

lemma sample_newPetition:
  "\<exists>original'. newPetition sample_rand 1000000 sample_request 7 =
     (Returns (Inr sample_petition), original', 8)"
proof -
  have u: "uuid_New sample_rand 7 = (Returns (p_ID sample_petition), 8)"
    by (simp add: uuid_New_def NewRandom_def randomBits_def sample_rand_def sample_petition_def)
  have h: "Header_Get (rq_Header sample_request) RelayerHost = ''https://target:1234''"
      "Header_Get (rq_Header sample_request) RelayerProtocol = ''''"
      "relay_trace (rq_Header sample_request) = ''trace''"
      "filter (\<lambda>(k, _). k \<notin> relayer_fields) (rq_Header sample_request) = p_Header sample_petition"
    by (simp_all add: Header_Get_def relay_trace_def sample_request_def sample_petition_def
        relayer_fields_def relayer_defs CanonicalHeaderKey_def to_upper_char_def to_lower_char_def)
  have s: "select_scheme '''' = Inr ''http''"
      "strip_host_scheme ''https://target:1234'' ''http'' = (''target:1234'', ''https'')"
      "bson_Now 1000000 = 1" "rq_Body sample_request = Inr [1, 2, 3, 0, 255]"
    by (simp_all add: select_scheme_cases to_lower_def strip_host_scheme_def HasPrefix_def
        bson_Now_def sample_request_def)
  show ?thesis
    unfolding newPetition_eq Let_def h s u
    by (simp add: s sample_petition_def) (simp add: sample_request_def)
qed

lemma sample_origin_form: "origin_form (rq_URL sample_request)" "plain_host (p_TargetHost sample_petition)"
    "CHR ''%'' \<notin> set (p_TargetHost sample_petition)"
  by (simp_all add: origin_form_def plain_host_def sample_request_def sample_petition_def empty_url_def)

theorem petition_contents_witness:
  "\<exists>p original' r'. newPetition sample_rand 1000000 sample_request 7 =
      (Returns (Inr p), original', r') \<and> p_TargetHost p = ''target:1234'' \<and>
      p_TargetScheme p = ''https'' \<and> p_Header p = [(''Accept'', [''text/html'', ''*/*''])] \<and>
      rq_Header original' = p_Header p"
proof -
  obtain o' where run: "newPetition sample_rand 1000000 sample_request 7 =
      (Returns (Inr sample_petition), o', 8)"
    using sample_newPetition by blast
  from petition_contents [OF run] run show ?thesis by (auto simp: sample_petition_def)
qed

theorem relayed_request_witness:
  "\<exists>p original' r' req p'. newPetition sample_rand 1000000 sample_request 7 =
      (Returns (Inr p), original', r') \<and> petition_Request p = (Returns (Inr req), p') \<and>
      o_Host req = ''target:1234'' \<and> u_Path (o_URL req) = ''/path/sub path'' \<and>
      o_Body req = [1, 2, 3, 0, 255]"
proof -
  obtain o' where run: "newPetition sample_rand 1000000 sample_request 7 =
      (Returns (Inr sample_petition), o', 8)"
    using sample_newPetition by blast
  from relayed_request [OF run sample_origin_form] obtain req p' where
    "petition_Request sample_petition = (Returns (Inr req), p')"
    "o_URL req = (rq_URL sample_request)
       \<lparr>u_Host := p_TargetHost sample_petition, u_Scheme := p_TargetScheme sample_petition\<rparr>"
    "o_Host req = p_TargetHost sample_petition" "rq_Body sample_request = Inr (o_Body req)"
    by blast
  with run show ?thesis by (auto simp: sample_petition_def sample_request_def empty_url_def)
qed

end
