(* ===== verification/Reply.thy ===== *)
theory Reply
  imports Petition
begin

text \<open>
  \<open>reply.go\<close>: the \<open>Reply\<close> struct and \<open>newReply\<close>. The pair \<open>(resp, e)\<close> the HTTP client returns is a
  sum, an error or a response; \<open>now\<close> is the reading of the clock when the reply is done.
\<close>

record reply =
  r_ID :: string
  r_TraceID :: string
  r_Error :: string
  r_StatusCode :: int
  r_Proto :: string
  r_Header :: header
  r_Trailer :: header
  r_Body :: bytes
  r_Petition :: "petition option"
  r_Created :: int
  r_Done :: int

definition empty_reply :: reply where
  "empty_reply = \<lparr>r_ID = '''', r_TraceID = '''', r_Error = '''', r_StatusCode = 0, r_Proto = '''',
     r_Header = [], r_Trailer = [], r_Body = [], r_Petition = None, r_Created = zero_time,
     r_Done = zero_time\<rparr>"

text \<open>
  When reading the body fails, the code takes the text of \<open>e\<close>, which is nil on this path: the call
  \<open>e.Error()\<close> panics.
\<close>

definition newReply :: "gerror + http_response \<Rightarrow> petition \<Rightarrow> goint \<Rightarrow> reply outcome" where
  "newReply answer p now =
     (let reply = empty_reply\<lparr>r_ID := p_ID p, r_Petition := Some p, r_TraceID := p_TraceID p\<rparr>
      in case answer of
          Inl e \<Rightarrow> Returns (reply\<lparr>r_Error := e\<rparr>)
        | Inr resp \<Rightarrow>
            (let reply = reply\<lparr>r_StatusCode := rs_StatusCode resp, r_Proto := rs_Proto resp,
                   r_Header := rs_Header resp, r_Trailer := rs_Trailer resp\<rparr>
             in case rs_Body resp of
                 Inl err \<Rightarrow> Panics nil_deref
               | Inr body \<Rightarrow> Returns (reply\<lparr>r_Body := body, r_Done := bson_Now now\<rparr>)))"

lemma newReply_id: "newReply a p now = Returns r \<Longrightarrow> r_ID r = p_ID p \<and> r_Petition r = Some p"
  by (auto simp: newReply_def Let_def split: sum.splits)

text \<open>
  What a reply records: it carries the petition and its id and trace id; from a failed request
  only the error text, and from an answered one the status, protocol, headers, body and the time it
  was done, with no error text. It is no reply at all exactly when the answer's body cannot be
  read: then \<open>newReply\<close> dereferences a nil error and panics.
\<close>
theorem reply_records:
  "case newReply answer p now of
     Panics e \<Rightarrow> (\<exists>resp err. answer = Inr resp \<and> rs_Body resp = Inl err)
   | Returns r \<Rightarrow> r_ID r = p_ID p \<and> r_TraceID r = p_TraceID p \<and> r_Petition r = Some p \<and>
       (case answer of
          Inl e \<Rightarrow> r_Error r = e \<and> r_StatusCode r = 0 \<and> r_Body r = [] \<and> r_Done r = zero_time
        | Inr resp \<Rightarrow> r_Error r = '''' \<and> r_StatusCode r = rs_StatusCode resp \<and>
            r_Proto r = rs_Proto resp \<and> r_Header r = rs_Header resp \<and>
            r_Trailer r = rs_Trailer resp \<and> rs_Body resp = Inr (r_Body r) \<and>
            r_Done r = bson_Now now)"
  by (auto simp: newReply_def empty_reply_def Let_def split: sum.splits)

text \<open>
  A response whose body breaks off crashes the consumer: for every such response \<open>newReply\<close>
  panics, whatever its status, although the code means to record the error in the reply.
\<close>
theorem reply_body_error_panics:
  "newReply (Inr (resp\<lparr>rs_Body := Inl err\<rparr>)) p now = Panics nil_deref"
  by (simp add: newReply_def Let_def)

end
