(* ===== verification/Bson.thy ===== *)
theory Bson
  imports Codec
begin

text \<open>
  The values of BSON as \<open>labix.org/v2/mgo/bson\<close> has them: one constructor per element kind its
  \<open>addElem\<close> writes and its \<open>readElemTo\<close> reads. Numbers are kept at their width; a float is its
  64-bit pattern; a document is an ordered list of named values, since BSON keeps order and does
  not forbid repeated names.
\<close>

datatype bval =
    BFloat "64 word"
  | BStr string
  | BDoc "(string \<times> bval) list"
  | BArr "bval list"
  | BBin byte bytes
  | BUndefined
  | BObjectId bytes
  | BBool bool
  | BTime "64 word"
  | BNull
  | BRegEx string string
  | BJavaScript string
  | BSymbol string
  | BScoped string "(string \<times> bval) list"
  | BInt32 "32 word"
  | BTimestamp "64 word"
  | BInt64 "64 word"
  | BMaxKey
  | BMinKey

type_synonym bdoc = "(string \<times> bval) list"

text \<open>Encoding a Go \<open>int\<close>: 32 bits when the value fits, 64 otherwise (\<open>addElem\<close>, kind \<open>Int\<close>).\<close>

definition bson_int :: "int \<Rightarrow> bval" where
  "bson_int i =
     (if - (2 ^ 31) \<le> i \<and> i \<le> 2 ^ 31 - 1 then BInt32 (word_of_int i) else BInt64 (word_of_int i))"

end
