(* ===== verification/Documents.thy ===== *)
theory Documents
  imports Reply Bson
begin

text \<open>
  How the \<open>bson\<close> package maps the program's structs to documents and back: \<open>addStruct\<close> writes every
  exported field under its lower case name (the struct tags are for JSON only), and \<open>readDocTo\<close>
  starts from the zero struct and gives each element whose name is a field to \<open>readElemTo\<close>, which
  sets the field if the kinds are compatible and leaves it alone if they are not. A URL is stored
  as its text and parsed again when read; a parse error aborts the decoding.

  A float element, which \<open>readElemTo\<close> would convert to the nearest integer, does not occur in
  documents the program writes and leaves a number field alone here.
\<close>

subsection \<open>Writing\<close>

definition header_bval :: "header \<Rightarrow> bval" where
  "header_bval h = BDoc (map (\<lambda>(k, vs). (k, BArr (map BStr vs))) h)"

definition time_bval :: "int \<Rightarrow> bval" where
  "time_bval ms = BTime (word_of_int ms)"

definition url_bval :: "url option \<Rightarrow> bval" where
  "url_bval u = (case u of None \<Rightarrow> BNull | Some u \<Rightarrow> BStr (url_String u))"

definition petition_doc :: "petition \<Rightarrow> bdoc" where
  "petition_doc p =
     [(''id'', BStr (p_ID p)), (''traceid'', BStr (p_TraceID p)),
      (''targethost'', BStr (p_TargetHost p)), (''targetscheme'', BStr (p_TargetScheme p)),
      (''method'', BStr (p_Method p)), (''url'', url_bval (p_URL p)),
      (''urlstring'', BStr (p_URLString p)), (''proto'', BStr (p_Proto p)),
      (''header'', header_bval (p_Header p)), (''trailer'', header_bval (p_Trailer p)),
      (''body'', BBin 0 (p_Body p)), (''remoteaddr'', BStr (p_RemoteAddr p)),
      (''requesturi'', BStr (p_RequestURI p)), (''host'', BStr (p_Host p)),
      (''created'', time_bval (p_Created p))]"

definition reply_doc :: "reply \<Rightarrow> bdoc" where
  "reply_doc r =
     [(''id'', BStr (r_ID r)), (''traceid'', BStr (r_TraceID r)), (''error'', BStr (r_Error r)),
      (''statuscode'', bson_int (r_StatusCode r)), (''proto'', BStr (r_Proto r)),
      (''header'', header_bval (r_Header r)), (''trailer'', header_bval (r_Trailer r)),
      (''body'', BBin 0 (r_Body r)),
      (''petition'', case r_Petition r of None \<Rightarrow> BNull | Some p \<Rightarrow> BDoc (petition_doc p)),
      (''created'', time_bval (r_Created r)), (''done'', time_bval (r_Done r))]"

subsection \<open>Reading one element\<close>

text \<open>Each reader takes the element and the field's value before it: \<open>readElemTo(out, kind)\<close>.\<close>

definition string_of_bytes :: "bytes \<Rightarrow> string" where
  "string_of_bytes b = map (\<lambda>w. char_of (unat w)) b"

definition bytes_of_string :: "string \<Rightarrow> bytes" where
  "bytes_of_string s = map (\<lambda>c. word_of_nat (of_char c)) s"

definition bin_data :: "byte \<Rightarrow> bytes \<Rightarrow> bytes option" where
  "bin_data kind b = (if kind = 0 \<or> kind = 2 then Some b else None)"

fun read_string :: "bval \<Rightarrow> string \<Rightarrow> string" where
  "read_string (BStr s) old = s"
| "read_string (BSymbol s) old = s"
| "read_string (BObjectId b) old = string_of_bytes b"
| "read_string (BBin k b) old = (case bin_data k b of Some d \<Rightarrow> string_of_bytes d | None \<Rightarrow> old)"
| "read_string BNull old = ''''"
| "read_string _ old = old"

text \<open>
  A float read into an integer is cut towards zero; Go leaves to the machine what a value that does not fit
  gives, which is the least integer on amd64.
\<close>

definition float_int :: "64 word \<Rightarrow> int" where
  "float_int w =
     (let e = unat (take_bit 11 (drop_bit 52 w));
          m = uint (take_bit 52 w) + 2 ^ 52;
          n = (if e = 0 then 0 else if 1075 \<le> e then m * 2 ^ (e - 1075) else m div 2 ^ (1075 - e));
          i = (if bit w 63 then - n else n)
      in if e < 2047 \<and> - (2 ^ 63) \<le> i \<and> i < 2 ^ 63 then i else - (2 ^ 63))"

text \<open>An array read into a byte slice: its numbers, cut to 8 bits.\<close>

fun read_byte_elems :: "bval list \<Rightarrow> bytes" where
  "read_byte_elems [] = []"
| "read_byte_elems (v # vs) =
     (case v of
        BInt32 w \<Rightarrow> [ucast w]
      | BInt64 w \<Rightarrow> [ucast w]
      | BTimestamp w \<Rightarrow> [ucast w]
      | BFloat w \<Rightarrow> [word_of_int (float_int w)]
      | BMaxKey \<Rightarrow> [255]
      | BMinKey \<Rightarrow> [0]
      | BBool b \<Rightarrow> [if b then 1 else 0]
      | BNull \<Rightarrow> [0]
      | BDoc _ \<Rightarrow> [0]
      | _ \<Rightarrow> []) @ read_byte_elems vs"

fun read_bytes :: "bval \<Rightarrow> bytes \<Rightarrow> bytes" where
  "read_bytes (BBin k b) old = (case bin_data k b of Some d \<Rightarrow> d | None \<Rightarrow> old)"
| "read_bytes (BStr s) old = bytes_of_string s"
| "read_bytes (BSymbol s) old = bytes_of_string s"
| "read_bytes (BObjectId b) old = b"
| "read_bytes (BArr vs) old = read_byte_elems vs"
| "read_bytes BNull old = []"
| "read_bytes _ old = old"

fun read_int :: "bval \<Rightarrow> int \<Rightarrow> int" where
  "read_int (BInt32 w) old = sint w"
| "read_int (BInt64 w) old = sint w"
| "read_int (BTimestamp w) old = sint w"
| "read_int (BFloat w) old = float_int w"
| "read_int (BBool b) old = (if b then 1 else 0)"
| "read_int BMaxKey old = 2 ^ 63 - 1"
| "read_int BMinKey old = - (2 ^ 63)"
| "read_int BNull old = 0"
| "read_int _ old = old"

fun read_time :: "bval \<Rightarrow> int \<Rightarrow> int" where
  "read_time (BTime w) old = sint w"
| "read_time BNull old = zero_time"
| "read_time _ old = old"

text \<open>The values of a header map: \<open>[]string\<close>; an element that is no string is not appended.\<close>

fun read_values :: "bval list \<Rightarrow> string list" where
  "read_values [] = []"
| "read_values (v # vs) =
     (case v of
        BStr s \<Rightarrow> [s]
      | BSymbol s \<Rightarrow> [s]
      | BObjectId b \<Rightarrow> [string_of_bytes b]
      | BBin k b \<Rightarrow> (case bin_data k b of Some d \<Rightarrow> [string_of_bytes d] | None \<Rightarrow> [])
      | BNull \<Rightarrow> ['''']
      | BDoc _ \<Rightarrow> ['''']
      | _ \<Rightarrow> []) @ read_values vs"

definition header_put :: "string \<Rightarrow> string list \<Rightarrow> header \<Rightarrow> header" where
  "header_put k vs h =
     (if k \<in> fst ` set h then map (\<lambda>(k', vs'). if k' = k then (k', vs) else (k', vs')) h
      else h @ [(k, vs)])"

fun read_header_elems :: "bdoc \<Rightarrow> header \<Rightarrow> header" where
  "read_header_elems [] h = h"
| "read_header_elems ((k, v) # d) h =
     read_header_elems d
       (case v of
          BArr vs \<Rightarrow> header_put k (read_values vs) h
        | BNull \<Rightarrow> header_put k [] h
        | BDoc _ \<Rightarrow> header_put k [] h
        | _ \<Rightarrow> h)"

fun read_header :: "bval \<Rightarrow> header \<Rightarrow> header" where
  "read_header (BDoc d) old = read_header_elems d []"
| "read_header BNull old = []"
| "read_header _ old = old"

text \<open>
  A URL field takes a text, which is parsed, or a document of the struct's fields; \<open>Userinfo\<close> has
  no exported field, so a document there is an empty user.
\<close>

definition read_userinfo ::
  "bval \<Rightarrow> (string \<times> string option) option \<Rightarrow> (string \<times> string option) option" where
  "read_userinfo v old =
     (case v of BDoc _ \<Rightarrow> Some ('''', None) | BNull \<Rightarrow> None | _ \<Rightarrow> old)"

definition read_url_elem :: "string \<times> bval \<Rightarrow> url \<Rightarrow> url" where
  "read_url_elem kv u =
     (let (k, v) = kv in
      if k = ''scheme'' then u\<lparr>u_Scheme := read_string v (u_Scheme u)\<rparr>
      else if k = ''opaque'' then u\<lparr>u_Opaque := read_string v (u_Opaque u)\<rparr>
      else if k = ''user'' then u\<lparr>u_User := read_userinfo v (u_User u)\<rparr>
      else if k = ''host'' then u\<lparr>u_Host := read_string v (u_Host u)\<rparr>
      else if k = ''path'' then u\<lparr>u_Path := read_string v (u_Path u)\<rparr>
      else if k = ''rawquery'' then u\<lparr>u_RawQuery := read_string v (u_RawQuery u)\<rparr>
      else if k = ''fragment'' then u\<lparr>u_Fragment := read_string v (u_Fragment u)\<rparr>
      else u)"

definition parse_into :: "string \<Rightarrow> gerror + url option" where
  "parse_into s = (case url_Parse s of Inl e \<Rightarrow> Inl e | Inr u \<Rightarrow> Inr (Some u))"

fun read_url :: "bval \<Rightarrow> url option \<Rightarrow> gerror + url option" where
  "read_url (BStr s) old = parse_into s"
| "read_url (BSymbol s) old = parse_into s"
| "read_url (BObjectId b) old = parse_into (string_of_bytes b)"
| "read_url (BDoc d) old = Inr (Some (fold read_url_elem d empty_url))"
| "read_url BNull old = Inr None"
| "read_url _ old = Inr old"

subsection \<open>Reading a document\<close>

definition read_petition_elem :: "string \<Rightarrow> bval \<Rightarrow> petition \<Rightarrow> gerror + petition" where
  "read_petition_elem k v p =
     (if k = ''id'' then Inr (p\<lparr>p_ID := read_string v (p_ID p)\<rparr>)
      else if k = ''traceid'' then Inr (p\<lparr>p_TraceID := read_string v (p_TraceID p)\<rparr>)
      else if k = ''targethost'' then Inr (p\<lparr>p_TargetHost := read_string v (p_TargetHost p)\<rparr>)
      else if k = ''targetscheme'' then Inr (p\<lparr>p_TargetScheme := read_string v (p_TargetScheme p)\<rparr>)
      else if k = ''method'' then Inr (p\<lparr>p_Method := read_string v (p_Method p)\<rparr>)
      else if k = ''url'' then
        (case read_url v (p_URL p) of Inl e \<Rightarrow> Inl e | Inr u \<Rightarrow> Inr (p\<lparr>p_URL := u\<rparr>))
      else if k = ''urlstring'' then Inr (p\<lparr>p_URLString := read_string v (p_URLString p)\<rparr>)
      else if k = ''proto'' then Inr (p\<lparr>p_Proto := read_string v (p_Proto p)\<rparr>)
      else if k = ''header'' then Inr (p\<lparr>p_Header := read_header v (p_Header p)\<rparr>)
      else if k = ''trailer'' then Inr (p\<lparr>p_Trailer := read_header v (p_Trailer p)\<rparr>)
      else if k = ''body'' then Inr (p\<lparr>p_Body := read_bytes v (p_Body p)\<rparr>)
      else if k = ''remoteaddr'' then Inr (p\<lparr>p_RemoteAddr := read_string v (p_RemoteAddr p)\<rparr>)
      else if k = ''requesturi'' then Inr (p\<lparr>p_RequestURI := read_string v (p_RequestURI p)\<rparr>)
      else if k = ''host'' then Inr (p\<lparr>p_Host := read_string v (p_Host p)\<rparr>)
      else if k = ''created'' then Inr (p\<lparr>p_Created := read_time v (p_Created p)\<rparr>)
      else Inr p)"

fun read_petition_elems :: "bdoc \<Rightarrow> petition \<Rightarrow> gerror + petition" where
  "read_petition_elems [] p = Inr p"
| "read_petition_elems ((k, v) # d) p =
     (case read_petition_elem k v p of Inl e \<Rightarrow> Inl e | Inr p' \<Rightarrow> read_petition_elems d p')"

definition doc_petition :: "bdoc \<Rightarrow> gerror + petition" where
  "doc_petition d = read_petition_elems d empty_petition"

definition read_petition :: "bval \<Rightarrow> petition option \<Rightarrow> gerror + petition option" where
  "read_petition v old =
     (case v of
        BDoc d \<Rightarrow> (case doc_petition d of Inl e \<Rightarrow> Inl e | Inr p \<Rightarrow> Inr (Some p))
      | BNull \<Rightarrow> Inr None
      | _ \<Rightarrow> Inr old)"

definition read_reply_elem :: "string \<Rightarrow> bval \<Rightarrow> reply \<Rightarrow> gerror + reply" where
  "read_reply_elem k v r =
     (if k = ''id'' then Inr (r\<lparr>r_ID := read_string v (r_ID r)\<rparr>)
      else if k = ''traceid'' then Inr (r\<lparr>r_TraceID := read_string v (r_TraceID r)\<rparr>)
      else if k = ''error'' then Inr (r\<lparr>r_Error := read_string v (r_Error r)\<rparr>)
      else if k = ''statuscode'' then Inr (r\<lparr>r_StatusCode := read_int v (r_StatusCode r)\<rparr>)
      else if k = ''proto'' then Inr (r\<lparr>r_Proto := read_string v (r_Proto r)\<rparr>)
      else if k = ''header'' then Inr (r\<lparr>r_Header := read_header v (r_Header r)\<rparr>)
      else if k = ''trailer'' then Inr (r\<lparr>r_Trailer := read_header v (r_Trailer r)\<rparr>)
      else if k = ''body'' then Inr (r\<lparr>r_Body := read_bytes v (r_Body r)\<rparr>)
      else if k = ''petition'' then
        (case read_petition v (r_Petition r) of Inl e \<Rightarrow> Inl e | Inr p \<Rightarrow> Inr (r\<lparr>r_Petition := p\<rparr>))
      else if k = ''created'' then Inr (r\<lparr>r_Created := read_time v (r_Created r)\<rparr>)
      else if k = ''done'' then Inr (r\<lparr>r_Done := read_time v (r_Done r)\<rparr>)
      else Inr r)"

fun read_reply_elems :: "bdoc \<Rightarrow> reply \<Rightarrow> gerror + reply" where
  "read_reply_elems [] r = Inr r"
| "read_reply_elems ((k, v) # d) r =
     (case read_reply_elem k v r of Inl e \<Rightarrow> Inl e | Inr r' \<Rightarrow> read_reply_elems d r')"

definition doc_reply :: "bdoc \<Rightarrow> gerror + reply" where
  "doc_reply d = read_reply_elems d empty_reply"

subsection \<open>Round trips\<close>

lemma read_values_BStr [simp]: "read_values (map BStr vs) = vs"
  by (induction vs) simp_all

lemma read_header_elems_append:
  "distinct (map fst (h @ l)) \<Longrightarrow>
     read_header_elems (map (\<lambda>(k, vs). (k, BArr (map BStr vs))) l) h = h @ l"
proof (induction l arbitrary: h)
  case Nil
  then show ?case by simp
next
  case (Cons kv l)
  obtain k vs where kv: "kv = (k, vs)" by (cases kv)
  have "k \<notin> fst ` set h" using Cons.prems kv by auto
  then have put: "header_put k vs h = h @ [(k, vs)]" by (simp add: header_put_def)
  show ?case using Cons.IH [of "h @ [(k, vs)]"] Cons.prems kv put by simp
qed

lemma read_header_bval [codec_simps]: "header_ok h \<Longrightarrow> read_header (header_bval h) old = h"
  using read_header_elems_append [of "[]" h] by (simp add: header_bval_def header_ok_def)

definition time_ok :: "int \<Rightarrow> bool" where
  "time_ok ms \<longleftrightarrow> - (2 ^ 63) \<le> ms \<and> ms < 2 ^ 63"

lemma read_time_bval [codec_simps]: "time_ok ms \<Longrightarrow> read_time (time_bval ms) old = ms"
  by (simp add: time_ok_def time_bval_def signed_take_bit_int_eq_self signed_of_int)

lemma read_int_bval [codec_simps]:
  "- (2 ^ 63) \<le> i \<Longrightarrow> i < 2 ^ 63 \<Longrightarrow> read_int (bson_int i) old = i"
  by (auto simp: bson_int_def signed_of_int signed_take_bit_int_eq_self)

definition petition_storable :: "petition \<Rightarrow> bool" where
  "petition_storable p \<longleftrightarrow> header_ok (p_Header p) \<and> header_ok (p_Trailer p) \<and> time_ok (p_Created p)"

text \<open>The petition a document gives back: the same, but for a URL that went through its text.\<close>

definition reparsed :: "petition \<Rightarrow> gerror + petition" where
  "reparsed p =
     (case p_URL p of
        None \<Rightarrow> Inr p
      | Some u \<Rightarrow> (case url_Parse (url_String u) of
           Inl e \<Rightarrow> Inl e | Inr u' \<Rightarrow> Inr (p\<lparr>p_URL := Some u'\<rparr>)))"

lemma doc_petition_doc [codec_simps]:
  assumes "petition_storable p"
  shows "doc_petition (petition_doc p) = reparsed p"
  using assms
  by (cases "p_URL p")
     (simp_all add: doc_petition_def petition_doc_def read_petition_elem_def url_bval_def
       parse_into_def reparsed_def petition_storable_def read_header_bval read_time_bval
       bin_data_def empty_petition_def split: sum.split)

lemma doc_petition_id: "doc_petition (petition_doc p) = Inr q \<Longrightarrow> p_ID q = p_ID p"
  by (cases "p_URL p")
     (auto simp: doc_petition_def petition_doc_def read_petition_elem_def url_bval_def
       parse_into_def split: sum.splits)

text \<open>What a stored URL in origin form reads back as.\<close>

lemma url_String_origin:
  assumes "origin_form u" and "u_Host u = []" and "u_Scheme u = []"
  shows "url_String u = url_escape (u_Path u) encodePath @
    (if u_RawQuery u \<noteq> [] then ''?'' @ u_RawQuery u else [])"
  using assms by (auto simp: url_String_def origin_form_def)

lemma url_parse_origin:
  assumes "origin_form u" and "u_Host u = []" and "u_Scheme u = []"
  shows "url_Parse (url_String u) =
    (let s = url_String u; p = url_escape (u_Path u) encodePath in
     if HasPrefix p ''//'' \<and> \<not> HasPrefix p ''///'' then
       (case split_at (CHR ''/'') False (drop 2 p) of (authority, path) \<Rightarrow>
          (case parseAuthority authority of
             Inl e \<Rightarrow> Inl (url_Error s e)
           | Inr (user, host) \<Rightarrow>
               if CHR ''%'' \<in> set host then Inl (url_Error s ''hexadecimal escape in host'')
               else (case url_unescape path of
                   Inl e \<Rightarrow> Inl (url_Error s e)
                 | Inr q \<Rightarrow> Inr (empty_url\<lparr>u_RawQuery := u_RawQuery u, u_User := user,
                     u_Host := host, u_Path := q\<rparr>))))
     else Inr u)"
proof -
  let ?p = "url_escape (u_Path u) encodePath"
  let ?q = "if u_RawQuery u \<noteq> [] then ''?'' @ u_RawQuery u else []"
  note o = assms(1) [unfolded origin_form_def]
  note esc = url_escape_path_chars [of "u_Path u"]
  obtain p' where p': "u_Path u = CHR ''/'' # p'" using o by blast
  have p: "?p = CHR ''/'' # url_escape p' encodePath" by (simp add: p' url_escape_path_slash)
  note s = url_String_origin [OF assms]
  have nohash: "CHR ''#'' \<notin> set (url_String u)" unfolding s using o esc by auto
  have noq: "CHR ''?'' \<notin> set ?p" using esc by blast
  have q: "split_at (CHR ''?'') True (?p @ ?q) = (?p, u_RawQuery u)"
    using split_at_none [OF noq, of True] split_at_append [OF noq, of True "u_RawQuery u"] by auto
  have sch: "getscheme (url_String u) [] (url_String u) = Inr ([], url_String u)"
    unfolding s p by (simp add: Let_def)
  have ne: "url_String u \<noteq> ''*''" "HasPrefix ?p ''/''" unfolding s p by (simp_all add: HasPrefix_def)
  have u: "empty_url\<lparr>u_RawQuery := u_RawQuery u, u_Path := u_Path u\<rparr> = u"
    using o assms(2,3) by (simp add: empty_url_def)
  have low: "to_lower [] = []" by (simp add: to_lower_def)
  have ue: "empty_url\<lparr>u_Scheme := [], u_RawQuery := r\<rparr> = empty_url\<lparr>u_RawQuery := r\<rparr>" for r
    by (simp add: empty_url_def)
  have "url_parse (url_String u) False =
      (if HasPrefix ?p ''//'' \<and> \<not> HasPrefix ?p ''///'' then
         (case split_at (CHR ''/'') False (drop 2 ?p) of (authority, path) \<Rightarrow>
            (case parseAuthority authority of
               Inl e \<Rightarrow> Inl e
             | Inr (user, host) \<Rightarrow>
                 if CHR ''%'' \<in> set host then Inl ''hexadecimal escape in host''
                 else url_path_part (empty_url\<lparr>u_RawQuery := u_RawQuery u, u_User := user,
                       u_Host := host\<rparr>) path))
       else Inr u)"
    unfolding url_parse_def using sch q ne
    by (simp add: s [symmetric] low ue url_path_part_def url_unescape_escape u Let_def)
       (auto simp: s q low ue url_unescape_escape empty_url_def split: prod.split sum.split)
  then show ?thesis
    using o by (simp add: url_Parse_def split_at_none [OF nohash] url_path_part_def Let_def
        split: sum.split prod.split)
qed

lemma escape_slash_head:
  "(\<exists>t. url_escape p encodePath = CHR ''/'' # t \<and> P t) \<longleftrightarrow>
     (\<exists>q. p = CHR ''/'' # q \<and> P (url_escape q encodePath))"
proof (cases p)
  case Nil
  then show ?thesis by simp
next
  case (Cons c q)
  have "c \<noteq> CHR ''/'' \<Longrightarrow> hd (escape_char encodePath c) \<noteq> CHR ''/'' \<and> escape_char encodePath c \<noteq> []"
    by (simp add: escape_char_def)
  then have "c \<noteq> CHR ''/'' \<Longrightarrow> url_escape p encodePath \<noteq> CHR ''/'' # t" for t
    by (cases "escape_char encodePath c") (auto simp: Cons url_escape_def)
  then show ?thesis
    by (cases "c = CHR ''/''") (auto simp: Cons url_escape_path_slash)
qed

lemma HasPrefix_slash: "HasPrefix s (CHR ''/'' # k) \<longleftrightarrow> (\<exists>t. s = CHR ''/'' # t \<and> HasPrefix t k)"
  by (cases s) (auto simp: HasPrefix_def)

lemma HasPrefix_escape:
  "HasPrefix (url_escape p encodePath) ''//'' \<longleftrightarrow> HasPrefix p ''//''"
  "HasPrefix (url_escape p encodePath) ''///'' \<longleftrightarrow> HasPrefix p ''///''"
  unfolding HasPrefix_slash escape_slash_head by (auto simp: HasPrefix_def)

text \<open>Go reads a path that starts with exactly two slashes as an authority.\<close>

definition network_path :: "string \<Rightarrow> bool" where
  "network_path p \<longleftrightarrow> HasPrefix p ''//'' \<and> \<not> HasPrefix p ''///''"

lemma parseAuthority_empty: "parseAuthority a = Inr (None, []) \<Longrightarrow> a = []"
  by (auto simp: parseAuthority_def Let_def split: if_splits sum.splits prod.splits)

lemma network_path_changes:
  assumes "network_path p" and "split_at (CHR ''/'') False (drop 2 (url_escape p encodePath)) = (a, r)"
    and "parseAuthority a = Inr (None, [])" and "url_unescape r = Inr p"
  shows False
proof -
  let ?e = "url_escape p encodePath"
  have a: "a = []" using assms(3) by (rule parseAuthority_empty)
  obtain t where t: "?e = CHR ''/'' # CHR ''/'' # t"
    using assms(1) HasPrefix_escape [of p] by (auto simp: network_path_def HasPrefix_slash)
  have "takeWhile (\<lambda>x. x \<noteq> CHR ''/'') t = []" "r = t"
    using assms(2) a t by (auto simp: split_at_def Let_def takeWhile_eq_Nil_iff dropWhile_eq_self_iff)
  then consider "t = []" | s where "t = CHR ''/'' # s" by (cases t) (auto split: if_splits)
  then show False
  proof cases
    case 1
    then show False using assms(1,4) \<open>r = t\<close> by (simp add: network_path_def HasPrefix_def)
  next
    case 2
    then have "HasPrefix ?e ''///''" using t by (simp add: HasPrefix_def)
    then show False using assms(1) HasPrefix_escape [of p] by (simp add: network_path_def)
  qed
qed

lemma url_parse_origin_iff:
  assumes "origin_form u" and "u_Host u = []" and "u_Scheme u = []"
  shows "url_Parse (url_String u) = Inr u \<longleftrightarrow> \<not> network_path (u_Path u)"
proof (cases "network_path (u_Path u)")
  case True
  note o = assms(1) [unfolded origin_form_def]
  have "url_Parse (url_String u) \<noteq> Inr u"
  proof
    assume eq: "url_Parse (url_String u) = Inr u"
    obtain a r where ar: "split_at (CHR ''/'') False (drop 2 (url_escape (u_Path u) encodePath)) = (a, r)"
      by fastforce
    obtain us h where auth: "parseAuthority a = Inr (us, h)" and "url_unescape r = Inr (u_Path u)"
        "us = u_User u" "h = u_Host u"
      using eq True ar unfolding url_parse_origin [OF assms] Let_def network_path_def HasPrefix_escape
      by (cases u) (auto split: sum.splits prod.splits if_splits simp: empty_url_def)
    then show False using network_path_changes [OF True ar] o assms(2) by simp
  qed
  with True show ?thesis by simp
next
  case False
  then show ?thesis
    using url_parse_origin [OF assms] by (auto simp: network_path_def HasPrefix_escape Let_def)
qed

definition reply_storable :: "reply \<Rightarrow> bool" where
  "reply_storable rp \<longleftrightarrow> header_ok (r_Header rp) \<and> header_ok (r_Trailer rp) \<and>
     time_ok (r_Created rp) \<and> time_ok (r_Done rp) \<and>
     - (2 ^ 63) \<le> r_StatusCode rp \<and> r_StatusCode rp < 2 ^ 63"

lemma doc_reply_doc:
  assumes "reply_storable rp" and "r_Petition rp = Some p" and "doc_petition (petition_doc p) = Inr q"
  shows "doc_reply (reply_doc rp) = Inr (rp\<lparr>r_Petition := Some q\<rparr>)"
  using assms
  by (simp add: doc_reply_def reply_doc_def read_reply_elem_def read_petition_def empty_reply_def
      codec_simps bin_data_def reply_storable_def)

lemma url_escape_append: "url_escape (a @ b) m = url_escape a m @ url_escape b m"
  by (simp add: url_escape_def)

lemma escape_path_plain:
  "x \<in> {CHR ''/'', CHR ''@''} \<Longrightarrow> x \<notin> set s \<Longrightarrow> x \<notin> set (url_escape s encodePath)"
proof (induction s)
  case Nil
  then show ?case by simp
next
  case (Cons c s)
  have "x \<notin> set (escape_char encodePath c)"
    using Cons.prems hexdig_upper_cases [of "of_char c div 16"]
      hexdig_upper_cases [of "of_char c mod 16"] of_char_nibbles [of c]
      is_alnum_not [of "hexdig_upper (of_char c div 16)"]
      is_alnum_not [of "hexdig_upper (of_char c mod 16)"]
    by (auto simp: escape_char_def)
  then show ?case using Cons by (simp add: url_escape_def)
qed

lemma header_ok_filter: "header_ok h \<Longrightarrow> header_ok (filter P h)"
  by (simp add: header_ok_def distinct_map_filter)

lemma sdiv_million_bound:
  fixes x :: int
  shows "- (2 ^ 63) \<le> x \<Longrightarrow> x < 2 ^ 63 \<Longrightarrow> - (2 ^ 63) \<le> x sdiv 1000000 \<and> x sdiv 1000000 < 2 ^ 63"
proof -
  assume x: "- (2 ^ 63) \<le> x" "x < 2 ^ 63"
  have p: "0 \<le> y div 1000000 \<and> y div 1000000 \<le> y" if "0 \<le> y" for y :: int
    using that by linarith
  show ?thesis
  proof (cases "0 \<le> x")
    case True
    then have "x sdiv 1000000 = x div 1000000" by (auto simp: signed_divide_int_def sgn_if)
    then show ?thesis using p [OF True] x by linarith
  next
    case False
    then have "x sdiv 1000000 = - (- x div 1000000)" by (simp add: signed_divide_int_def sgn_if)
    moreover have "0 \<le> - x div 1000000" "- x div 1000000 \<le> - x"
      using p [of "- x"] False by simp_all
    moreover have "(0 :: int) < 2 ^ 63" by simp
    ultimately show ?thesis using x by linarith
  qed
qed

lemma time_ok_bson_Now: "time_ok (bson_Now now)"
proof -
  have "- (2 ^ 63) \<le> sint now" "sint now < 2 ^ 63"
    using sint_greater_eq [of now] sint_less [of now] by simp_all
  then show ?thesis unfolding time_ok_def bson_Now_def by (rule sdiv_million_bound)
qed

lemma reparsed_same:
  assumes "p_URL p = Some u"
  shows "reparsed p = Inr p \<longleftrightarrow> url_Parse (url_String u) = Inr u"
proof -
  have "p_URL (p\<lparr>p_URL := v\<rparr>) = v" for v by simp
  then have "p\<lparr>p_URL := Some v\<rparr> = p \<longleftrightarrow> v = u" for v
    using assms by (metis option.inject petition.surjective petition.update_convs(6))
  then show ?thesis by (simp add: reparsed_def assms split: sum.split)
qed

subsection \<open>Properties\<close>

text \<open>
  C11: A petition survives the store. Made from a request line in origin form with well-formed
  header maps, its document decodes to the very same petition, so that a restart relays what the
  first run would have relayed, except when the path starts with exactly two slashes: that URL
  text is read back as a host, and the petition differs or cannot be decoded at all.
\<close>
theorem petition_survives_store:
  assumes "newPetition rd now original r = (Returns (Inr p), original', r')"
    and "origin_form (rq_URL original)" and "u_Host (rq_URL original) = []"
    and "u_Scheme (rq_URL original) = []"
    and "header_ok (rq_Header original)" and "header_ok (rq_Trailer original)"
  shows "doc_petition (petition_doc p) = Inr p \<longleftrightarrow> \<not> network_path (u_Path (rq_URL original))"
proof -
  have c: "p_URL p = Some (rq_URL original)" "p_Trailer p = rq_Trailer original"
      "p_Header p = filter (\<lambda>(k, _). k \<notin> relayer_fields) (rq_Header original)"
      "p_Created p = bson_Now now"
    using assms(1) unfolding newPetition_eq Let_def
    by (auto split: sum.splits prod.splits outcome.splits if_splits)
  have st: "petition_storable p"
    using assms(5,6) by (simp add: petition_storable_def c header_ok_filter time_ok_bson_Now)
  show ?thesis
    using url_parse_origin_iff [OF assms(2,3,4)] reparsed_same [OF c(1)]
    by (simp add: doc_petition_doc [OF st])
qed

text \<open>
  The petition no restart can read. When a path starts with two slashes and a character that
  the printer escapes comes before the next slash, the stored URL text has a percent sign in its
  host part: decoding the document fails with the parser's error.
\<close>
theorem petition_unreadable:
  assumes "petition_storable p" and "p_URL p = Some u" and "origin_form u" and "u_Host u = []"
    and "u_Scheme u = []" and "u_Path u = ''//'' @ h @ CHR ''/'' # rest"
    and "CHR ''/'' \<notin> set h" and "CHR ''@'' \<notin> set h" and "c \<in> set h" and "shouldEscape c encodePath"
  shows "doc_petition (petition_doc p) =
    Inl (url_Error (url_String u) ''hexadecimal escape in host'')"
proof -
  let ?h = "url_escape h encodePath"
  have e: "url_escape (u_Path u) encodePath = ''//'' @ ?h @ CHR ''/'' # url_escape rest encodePath"
    using assms(6) by (simp add: url_escape_append url_escape_path_slash)
  have np: "network_path (u_Path u)"
    using assms(6,7,9) by (cases h) (auto simp: network_path_def HasPrefix_def)
  have sp: "split_at (CHR ''/'') False (drop 2 (url_escape (u_Path u) encodePath)) =
      (?h, CHR ''/'' # url_escape rest encodePath)"
    using e escape_path_plain [of _ h] assms(7,8) by (simp add: split_at_append)
  have auth: "parseAuthority ?h = Inr (None, ?h)"
    using escape_path_plain [of _ h] assms(7,8) by (simp add: parseAuthority_def)
  have pc: "CHR ''%'' \<in> set ?h"
    using assms(9,10) by (auto simp: url_escape_def escape_char_def intro!: bexI [of _ c])
  show ?thesis
    using url_parse_origin [OF assms(3,4,5)] np sp auth pc assms(2)
    by (simp add: doc_petition_doc [OF assms(1)] reparsed_def network_path_def HasPrefix_escape Let_def)
qed

text \<open>
  A reply survives the store: a reply with header maps without repeated keys, a status in the
  range of Go's \<open>int\<close> and a petition that reads back as \<open>q\<close> decodes to the same reply about \<open>q\<close>.
\<close>
theorem reply_survives_store:
  assumes "reply_storable rp" and "r_Petition rp = Some p" and "doc_petition (petition_doc p) = Inr q"
  shows "doc_reply (reply_doc rp) = Inr (rp\<lparr>r_Petition := Some q\<rparr>)"
  using doc_reply_doc [OF assms] .

theorem petition_survives_store_witness:
  "\<exists>p original' r'. newPetition sample_rand 1000000 sample_request 7 =
      (Returns (Inr p), original', r') \<and> doc_petition (petition_doc p) = Inr p"
proof -
  obtain o' where run: "newPetition sample_rand 1000000 sample_request 7 =
      (Returns (Inr sample_petition), o', 8)"
    using sample_newPetition by blast
  have "\<not> network_path (u_Path (rq_URL sample_request))" and "u_Host (rq_URL sample_request) = []"
    and "u_Scheme (rq_URL sample_request) = []" and "header_ok (rq_Header sample_request)"
    and "header_ok (rq_Trailer sample_request)"
    by (simp_all add: network_path_def HasPrefix_def sample_request_def empty_url_def header_ok_def)
  with petition_survives_store [OF run sample_origin_form(1)] run show ?thesis by blast
qed

definition odd_petition :: petition where
  "odd_petition = empty_petition\<lparr>p_URL := Some (empty_url\<lparr>u_Path := ''//a b/x''\<rparr>)\<rparr>"

theorem petition_unreadable_witness:
  "doc_petition (petition_doc odd_petition) =
     Inl (url_Error (url_String (empty_url\<lparr>u_Path := ''//a b/x''\<rparr>)) ''hexadecimal escape in host'')"
proof -
  let ?u = "empty_url\<lparr>u_Path := ''//a b/x''\<rparr>"
  have "petition_storable odd_petition" "p_URL odd_petition = Some ?u" "origin_form ?u"
      "u_Host ?u = []" "u_Scheme ?u = []" "u_Path ?u = ''//'' @ ''a b'' @ CHR ''/'' # ''x''"
    by (simp_all add: odd_petition_def petition_storable_def empty_petition_def header_ok_def
        time_ok_def zero_time_def origin_form_def empty_url_def)
  moreover have "CHR '' '' \<in> set ''a b''" "shouldEscape (CHR '' '') encodePath"
    by (simp_all add: shouldEscape_def is_alnum_def)
  ultimately show ?thesis
    by (intro petition_unreadable [where h = "''a b''" and rest = "''x''" and c = "CHR '' ''"]) simp_all
qed

definition sample_reply :: reply where
  "sample_reply =
     \<lparr>r_ID = p_ID sample_petition, r_TraceID = ''trace'', r_Error = '''', r_StatusCode = 204,
      r_Proto = ''HTTP/1.1'', r_Header = [(''Server'', [''x''])], r_Trailer = [], r_Body = [],
      r_Petition = Some sample_petition, r_Created = 1, r_Done = 3\<rparr>"

lemma sample_petition_survives: "doc_petition (petition_doc sample_petition) = Inr sample_petition"
proof -
  have "petition_storable sample_petition"
    by (simp add: petition_storable_def sample_petition_def header_ok_def time_ok_def)
  moreover have "reparsed sample_petition = Inr sample_petition"
    using url_parse_origin_iff [OF sample_origin_form(1)]
    by (subst reparsed_same [where u = "rq_URL sample_request"])
       (simp_all add: sample_petition_def sample_request_def network_path_def HasPrefix_def empty_url_def)
  ultimately show ?thesis by (simp add: doc_petition_doc)
qed

theorem reply_survives_store_witness: "doc_reply (reply_doc sample_reply) = Inr sample_reply"
proof -
  have "doc_reply (reply_doc sample_reply) = Inr (sample_reply\<lparr>r_Petition := Some sample_petition\<rparr>)"
    by (rule reply_survives_store [OF _ _ sample_petition_survives])
       (simp_all add: sample_reply_def header_ok_def time_ok_def reply_storable_def)
  then show ?thesis by (simp add: sample_reply_def)
qed

end
