(* ===== verification/Base64.thy ===== *)
theory Base64
  imports Codec
begin

text \<open>
  The standard base64 of \<open>encoding/base64\<close> as the program meets it: \<open>encoding/json\<close> writes byte
  slices with it, and the YAML resolver passes binary text through it. The decoder skips line
  breaks, and wants padded groups of four.
\<close>

definition b64_char :: "nat \<Rightarrow> char" where
  "b64_char n =
     (if n < 26 then char_of (65 + n) else if n < 52 then char_of (71 + n)
      else if n < 62 then char_of (n - 4) else if n = 62 then CHR ''+'' else CHR ''/'')"

definition b64_val :: "char \<Rightarrow> nat option" where
  "b64_val c = (let n = (of_char c :: nat) in
     if 65 \<le> n \<and> n \<le> 90 then Some (n - 65) else if 97 \<le> n \<and> n \<le> 122 then Some (n - 71)
     else if 48 \<le> n \<and> n \<le> 57 then Some (n + 4) else if n = 43 then Some 62
     else if n = 47 then Some 63 else None)"

fun b64_encode :: "nat list \<Rightarrow> string" where
  "b64_encode [] = []"
| "b64_encode [a] = [b64_char (a div 4), b64_char (a mod 4 * 16), CHR ''='', CHR ''='']"
| "b64_encode [a, b] =
     [b64_char (a div 4), b64_char (a mod 4 * 16 + b div 16), b64_char (b mod 16 * 4), CHR ''='']"
| "b64_encode (a # b # c # xs) =
     [b64_char (a div 4), b64_char (a mod 4 * 16 + b div 16), b64_char (b mod 16 * 4 + c div 64),
      b64_char (c mod 64)] @ b64_encode xs"

text \<open>One group of four characters; padding ends the text.\<close>

fun b64_groups :: "string \<Rightarrow> nat list option" where
  "b64_groups [] = Some []"
| "b64_groups (c1 # c2 # c3 # c4 # s) =
     (if c3 = CHR ''='' \<and> c4 = CHR ''='' then
        (if s \<noteq> [] then None
         else case (b64_val c1, b64_val c2) of
             (Some w, Some x) \<Rightarrow> Some [w * 4 + x div 16] | _ \<Rightarrow> None)
      else if c4 = CHR ''='' then
        (if s \<noteq> [] then None
         else case (b64_val c1, b64_val c2, b64_val c3) of
             (Some w, Some x, Some y) \<Rightarrow> Some [w * 4 + x div 16, x mod 16 * 16 + y div 4]
           | _ \<Rightarrow> None)
      else case (b64_val c1, b64_val c2, b64_val c3, b64_val c4, b64_groups s) of
          (Some w, Some x, Some y, Some z, Some r) \<Rightarrow>
            Some ((w * 4 + x div 16) # (x mod 16 * 16 + y div 4) # (y mod 4 * 64 + z) # r)
        | _ \<Rightarrow> None)"
| "b64_groups _ = None"

definition b64_decode :: "string \<Rightarrow> nat list option" where
  "b64_decode s = b64_groups (filter (\<lambda>c. c \<noteq> CHR 10 \<and> c \<noteq> CHR 13) s)"

definition base64_bytes :: "bytes \<Rightarrow> string" where
  "base64_bytes b = b64_encode (map unat b)"

definition base64_of_text :: "string \<Rightarrow> bytes option" where
  "base64_of_text s = map_option (map word_of_nat) (b64_decode s)"

subsection \<open>Round trip\<close>

lemma b64_char:
  assumes "n < 64"
  shows "b64_val (b64_char n) = Some n" and "b64_char n \<noteq> CHR ''=''"
    and "b64_char n \<noteq> CHR 10" and "b64_char n \<noteq> CHR 13"
proof -
  show v: "b64_val (b64_char n) = Some n"
    using assms by (auto simp: b64_char_def b64_val_def Let_def)
  have "b64_val (CHR ''='') = None" "b64_val (CHR 10) = None" "b64_val (CHR 13) = None"
    by (simp_all add: b64_val_def)
  with v show "b64_char n \<noteq> CHR ''=''" "b64_char n \<noteq> CHR 10" "b64_char n \<noteq> CHR 13" by auto
qed

lemma b64_quads:
  assumes "(a::nat) < 256" and "b < 256" and "c < 256"
  shows "a div 4 < 64" "a mod 4 * 16 < 64" "a mod 4 * 16 + b div 16 < 64" "b mod 16 * 4 < 64"
    "b mod 16 * 4 + c div 64 < 64" "c mod 64 < 64"
  using assms by (simp_all add: less_mult_imp_div_less) (linarith+)?

lemma b64_join:
  fixes b :: nat
  assumes "b < 256"
  shows "b div 16 div 16 = 0" "b div 16 mod 16 * 16 + b mod 16 = b" "b div 64 div 4 = 0"
    "b div 64 mod 4 * 64 + b mod 64 = b"
  using assms by (simp_all add: less_mult_imp_div_less div_mult2_eq [symmetric])

lemma b64_groups_encode:
  "\<forall>x \<in> set xs. x < 256 \<Longrightarrow> b64_groups (b64_encode xs) = Some xs"
proof (induction xs rule: b64_encode.induct)
  case (2 a)
  then show ?case using b64_quads [of a 0 0] by (simp add: b64_char)
next
  case (3 a b)
  then show ?case using b64_quads [of a b 0] by (simp add: b64_char b64_join)
next
  case (4 a b c xs)
  then show ?case using b64_quads [of a b c] by (simp add: b64_char b64_join)
qed simp

lemma b64_encode_no_break:
  "\<forall>x \<in> set xs. x < 256 \<Longrightarrow> \<forall>c \<in> set (b64_encode xs). c \<noteq> CHR 10 \<and> c \<noteq> CHR 13"
proof (induction xs rule: b64_encode.induct)
  case (2 a)
  then show ?case using b64_quads [of a 0 0] by (simp add: b64_char)
next
  case (3 a b)
  then show ?case using b64_quads [of a b 0] by (simp add: b64_char b64_join)
next
  case (4 a b c xs)
  then show ?case using b64_quads [of a b c] by (simp add: b64_char b64_join)
qed simp

lemma base64_round_trip [codec_simps]: "base64_of_text (base64_bytes b) = Some b"
proof -
  have lt: "\<forall>x \<in> set (map unat b). x < 256"
    by (auto intro: order.strict_trans2 [OF unsigned_less])
  have "filter (\<lambda>c. c \<noteq> CHR 10 \<and> c \<noteq> CHR 13) (b64_encode (map unat b)) = b64_encode (map unat b)"
    using b64_encode_no_break [OF lt] by (simp add: filter_id_conv)
  then show ?thesis
    using b64_groups_encode [OF lt]
    by (simp add: base64_of_text_def base64_bytes_def b64_decode_def comp_def)
qed

interpretation base64: codec base64_bytes base64_of_text Some "\<lambda>_. True"
  by unfold_locales (simp_all add: base64_round_trip)

end
