(* ===== verification/Yaml.thy ===== *)
theory Yaml
  imports Base64 Url
begin

text \<open>
  The decoding side of the vendored \<open>gopkg.in/yaml.v1\<close>: how \<open>resolve.go\<close> types a scalar and how
  \<open>decode.go\<close> stores one into a string, integer or boolean field. A document is the tree the decoder
  walks through: an alias carries what it stands for, theory \<open>YamlTree\<close> says how it is found.

  Floating point parsing (\<open>strconv.ParseFloat\<close>), the conversion of a float to \<open>int64\<close> and the
  test for valid UTF-8, with the special floats of \<open>math\<close>, are the arguments collected in \<open>yaml_lib\<close>.
\<close>

datatype ynode =
    YScalar (y_tag: string) (y_value: string) (y_implicit: bool)
  | YMapping "(ynode \<times> ynode) list"
  | YSequence "ynode list"
  | YAlias bool ynode
  | YBad gerror

text \<open>
  An alias also says whether its anchor may be merged: whether it is a mapping, or not known at all.
  \<open>YBad\<close> stands for the error that following an alias ends with.
\<close>

datatype 'f yval = YNull | YBool bool | YInt goint | YFloat 'f | YStr string

record 'f yaml_lib =
  yl_ParseFloat :: "string \<Rightarrow> 'f option"
  yl_int :: "'f \<Rightarrow> goint option"
  yl_utf8 :: "string \<Rightarrow> bool"
  yl_NaN :: 'f
  yl_PosInf :: 'f
  yl_NegInf :: 'f

subsection \<open>Tags\<close>

definition longTagPrefix :: string where "longTagPrefix = ''tag:yaml.org,2002:''"

definition yaml_STR_TAG :: string where "yaml_STR_TAG = longTagPrefix @ ''str''"
definition yaml_BOOL_TAG :: string where "yaml_BOOL_TAG = longTagPrefix @ ''bool''"
definition yaml_INT_TAG :: string where "yaml_INT_TAG = longTagPrefix @ ''int''"
definition yaml_FLOAT_TAG :: string where "yaml_FLOAT_TAG = longTagPrefix @ ''float''"
definition yaml_NULL_TAG :: string where "yaml_NULL_TAG = longTagPrefix @ ''null''"
definition yaml_MERGE_TAG :: string where "yaml_MERGE_TAG = longTagPrefix @ ''merge''"
definition yaml_BINARY_TAG :: string where "yaml_BINARY_TAG = longTagPrefix @ ''binary''"

lemmas yaml_tag_defs = yaml_STR_TAG_def yaml_BOOL_TAG_def yaml_INT_TAG_def yaml_FLOAT_TAG_def
  yaml_NULL_TAG_def yaml_MERGE_TAG_def yaml_BINARY_TAG_def longTagPrefix_def

lemma yaml_tags_distinct [simp]:
  "yaml_STR_TAG \<noteq> yaml_BINARY_TAG" "yaml_BOOL_TAG \<noteq> yaml_BINARY_TAG"
  "yaml_INT_TAG \<noteq> yaml_BINARY_TAG" "yaml_FLOAT_TAG \<noteq> yaml_BINARY_TAG"
  "yaml_NULL_TAG \<noteq> yaml_BINARY_TAG" "yaml_MERGE_TAG \<noteq> yaml_BINARY_TAG"
  "[] \<noteq> yaml_BINARY_TAG" "[] \<noteq> yaml_STR_TAG"
  by (simp_all add: yaml_tag_defs)

definition shortTag :: "string \<Rightarrow> string" where
  "shortTag tag = (if HasPrefix tag longTagPrefix then ''!!'' @ drop (length longTagPrefix) tag else tag)"

definition longTag :: "string \<Rightarrow> string" where
  "longTag tag = (if HasPrefix tag ''!!'' then longTagPrefix @ drop 2 tag else tag)"

definition resolvableTag :: "string \<Rightarrow> bool" where
  "resolvableTag tag \<longleftrightarrow> tag \<in> {'''', yaml_STR_TAG, yaml_BOOL_TAG, yaml_INT_TAG, yaml_FLOAT_TAG,
     yaml_NULL_TAG}"

subsection \<open>Integers\<close>

text \<open>\<open>strconv.ParseUint\<close> and \<open>ParseInt\<close>: digits of a base, base 0 taken from the prefix.\<close>

definition digit_val :: "char \<Rightarrow> nat option" where
  "digit_val c = (let n = (of_char c :: nat) in
     if 48 \<le> n \<and> n \<le> 57 then Some (n - 48) else if 97 \<le> n \<and> n \<le> 122 then Some (n - 87)
     else if 65 \<le> n \<and> n \<le> 90 then Some (n - 55) else None)"

fun parse_digits :: "nat \<Rightarrow> nat \<Rightarrow> string \<Rightarrow> nat option" where
  "parse_digits base acc [] = Some acc"
| "parse_digits base acc (c # s) =
     (case digit_val c of
        Some d \<Rightarrow> if d < base then parse_digits base (acc * base + d) s else None
      | None \<Rightarrow> None)"

definition ParseUint :: "string \<Rightarrow> nat \<Rightarrow> nat option" where
  "ParseUint s base =
     (let (b, t) =
        (if base \<noteq> 0 then (base, s)
         else if HasPrefix s ''0x'' \<or> HasPrefix s ''0X'' then (16, drop 2 s)
         else if HasPrefix s ''0'' then (8, s) else (10, s))
      in if t = [] then None
         else case parse_digits b 0 t of
             Some n \<Rightarrow> if n < 2 ^ 64 then Some n else None
           | None \<Rightarrow> None)"

definition ParseInt :: "string \<Rightarrow> nat \<Rightarrow> int option" where
  "ParseInt s base =
     (if s = [] then None
      else (let neg = (hd s = CHR ''-''); t = (if hd s = CHR ''+'' \<or> hd s = CHR ''-'' then tl s else s)
            in case ParseUint t base of
                 None \<Rightarrow> None
               | Some n \<Rightarrow>
                   if \<not> neg \<and> n \<ge> 2 ^ 63 then None else if neg \<and> n > 2 ^ 63 then None
                   else Some (if neg then - int n else int n)))"

subsection \<open>resolve\<close>

definition resolve_hint :: "string \<Rightarrow> char" where
  "resolve_hint s =
     (if s = [] then CHR ''N''
      else (let c = hd s in
        if c \<in> set ''+-'' then CHR ''S'' else if c \<in> set ''0123456789'' then CHR ''D''
        else if c \<in> set ''yYnNtTfFoO~'' then CHR ''M'' else if c = CHR ''.'' then CHR ''.''
        else CHR 0x00))"

definition resolve_true :: "string list" where
  "resolve_true = [''y'', ''Y'', ''yes'', ''Yes'', ''YES'', ''true'', ''True'', ''TRUE'', ''on'', ''On'', ''ON'']"

definition resolve_false :: "string list" where
  "resolve_false = [''n'', ''N'', ''no'', ''No'', ''NO'', ''false'', ''False'', ''FALSE'', ''off'', ''Off'', ''OFF'']"

definition resolve_null :: "string list" where
  "resolve_null = ['''', ''~'', ''null'', ''Null'', ''NULL'']"

definition resolve_nan :: "string list" where
  "resolve_nan = [''.nan'', ''.NaN'', ''.NAN'']"

definition resolve_pinf :: "string list" where
  "resolve_pinf = [''.inf'', ''.Inf'', ''.INF'', ''+.inf'', ''+.Inf'', ''+.INF'']"

definition resolve_ninf :: "string list" where
  "resolve_ninf = [''-.inf'', ''-.Inf'', ''-.INF'']"

definition resolveMap :: "'f yaml_lib \<Rightarrow> string \<Rightarrow> (string \<times> 'f yval) option" where
  "resolveMap L s =
     (if s \<in> set resolve_true then Some (yaml_BOOL_TAG, YBool True)
      else if s \<in> set resolve_false then Some (yaml_BOOL_TAG, YBool False)
      else if s \<in> set resolve_null then Some (yaml_NULL_TAG, YNull)
      else if s \<in> set resolve_nan then Some (yaml_FLOAT_TAG, YFloat (yl_NaN L))
      else if s \<in> set resolve_pinf then Some (yaml_FLOAT_TAG, YFloat (yl_PosInf L))
      else if s \<in> set resolve_ninf then Some (yaml_FLOAT_TAG, YFloat (yl_NegInf L))
      else if s = ''<<'' then Some (yaml_MERGE_TAG, YStr ''<<'') else None)"

definition resolve_number :: "'f yaml_lib \<Rightarrow> string \<Rightarrow> (string \<times> 'f yval) option" where
  "resolve_number L s =
     (let plain = filter (\<lambda>c. c \<noteq> CHR ''_'') s in
      case ParseInt plain 0 of
        Some i \<Rightarrow> Some (yaml_INT_TAG, YInt (word_of_int i))
      | None \<Rightarrow>
          (case yl_ParseFloat L plain of
             Some f \<Rightarrow> Some (yaml_FLOAT_TAG, YFloat f)
           | None \<Rightarrow>
               if HasPrefix plain ''0b'' then
                 map_option (\<lambda>i. (yaml_INT_TAG, YInt (word_of_int i))) (ParseInt (drop 2 plain) 2)
               else if HasPrefix plain ''-0b'' then
                 map_option (\<lambda>i. (yaml_INT_TAG, YInt (- word_of_int i))) (ParseInt (drop 3 plain) 2)
               else None))"

definition resolve_plain :: "'f yaml_lib \<Rightarrow> string \<Rightarrow> string \<Rightarrow> string \<times> 'f yval" where
  "resolve_plain L tag s =
     (let hint = resolve_hint s;
          early = (if hint \<noteq> CHR 0x00 \<and> tag \<noteq> yaml_STR_TAG \<and> tag \<noteq> yaml_BINARY_TAG then
             (case resolveMap L s of
                Some item \<Rightarrow> Some item
              | None \<Rightarrow>
                  if hint = CHR ''.'' then map_option (\<lambda>f. (yaml_FLOAT_TAG, YFloat f)) (yl_ParseFloat L s)
                  else if hint = CHR ''D'' \<or> hint = CHR ''S'' then resolve_number L s else None)
             else None)
      in case early of
           Some item \<Rightarrow> item
         | None \<Rightarrow>
             if tag = yaml_BINARY_TAG then (yaml_BINARY_TAG, YStr s)
             else if yl_utf8 L s then (yaml_STR_TAG, YStr s)
             else (yaml_BINARY_TAG, YStr (base64_bytes (map (\<lambda>c. word_of_nat (of_char c)) s))))"

text \<open>The deferred check of \<open>resolve\<close>: an explicit tag other than a string's must be met.\<close>

definition yaml_resolve :: "'f yaml_lib \<Rightarrow> string \<Rightarrow> string \<Rightarrow> gerror + (string \<times> 'f yval)" where
  "yaml_resolve L tag s =
     (if \<not> resolvableTag tag then Inr (tag, YStr s)
      else (let (rtag, out) = resolve_plain L tag s in
        if tag \<in> {'''', rtag, yaml_STR_TAG, yaml_BINARY_TAG} then Inr (rtag, out)
        else Inl (''YAML error: cannot decode '' @ shortTag rtag @ '' `'' @ s @ ''` as a '' @ shortTag tag)))"

subsection \<open>Scalars into fields\<close>

definition scalar_value ::
  "'f yaml_lib \<Rightarrow> string \<Rightarrow> string \<Rightarrow> bool \<Rightarrow> gerror + (string \<times> 'f yval)" where
  "scalar_value L tag s implicit =
     (if tag = '''' \<and> \<not> implicit then Inr (yaml_STR_TAG, YStr s)
      else case yaml_resolve L tag s of
          Inl e \<Rightarrow> Inl e
        | Inr (rtag, out) \<Rightarrow>
            if rtag = yaml_BINARY_TAG then
              (case out of
                 YStr b \<Rightarrow>
                   (case base64_of_text b of
                      None \<Rightarrow> Inl ''YAML error: !!binary value contains invalid base64 data''
                    | Some d \<Rightarrow> Inr (rtag, YStr (map (\<lambda>w. char_of (unat w)) d)))
               | _ \<Rightarrow> Inr (rtag, out))
            else Inr (rtag, out))"

definition into_string :: "string \<Rightarrow> string \<times> 'f yval \<Rightarrow> string \<Rightarrow> string" where
  "into_string s rv old =
     (case rv of
        (_, YNull) \<Rightarrow> ''''
      | (rtag, out) \<Rightarrow> (if rtag = yaml_BINARY_TAG then (case out of YStr b \<Rightarrow> b | _ \<Rightarrow> old) else s))"

definition into_int :: "'f yaml_lib \<Rightarrow> 'f yval \<Rightarrow> goint \<Rightarrow> goint" where
  "into_int L v old =
     (case v of
        YNull \<Rightarrow> 0
      | YInt i \<Rightarrow> i
      | YFloat f \<Rightarrow> (case yl_int L f of Some i \<Rightarrow> i | None \<Rightarrow> old)
      | _ \<Rightarrow> old)"

definition into_bool :: "'f yval \<Rightarrow> bool \<Rightarrow> bool" where
  "into_bool v old = (case v of YNull \<Rightarrow> False | YBool b \<Rightarrow> b | _ \<Rightarrow> old)"

text \<open>A field that is given a mapping or a sequence stays as it is.\<close>

fun set_string :: "'f yaml_lib \<Rightarrow> ynode \<Rightarrow> string \<Rightarrow> gerror + string" where
  "set_string L (YScalar tag s implicit) old =
     (case scalar_value L tag s implicit of Inl e \<Rightarrow> Inl e | Inr rv \<Rightarrow> Inr (into_string s rv old))"
| "set_string L (YAlias _ n) old = set_string L n old"
| "set_string L (YBad e) old = Inl e"
| "set_string L _ old = Inr old"

fun set_int :: "'f yaml_lib \<Rightarrow> ynode \<Rightarrow> goint \<Rightarrow> gerror + goint" where
  "set_int L (YScalar tag s implicit) old =
     (case scalar_value L tag s implicit of Inl e \<Rightarrow> Inl e | Inr (_, v) \<Rightarrow> Inr (into_int L v old))"
| "set_int L (YAlias _ n) old = set_int L n old"
| "set_int L (YBad e) old = Inl e"
| "set_int L _ old = Inr old"

fun set_bool :: "'f yaml_lib \<Rightarrow> ynode \<Rightarrow> bool \<Rightarrow> gerror + bool" where
  "set_bool L (YScalar tag s implicit) old =
     (case scalar_value L tag s implicit of Inl e \<Rightarrow> Inl e | Inr (_, v) \<Rightarrow> Inr (into_bool v old))"
| "set_bool L (YAlias _ n) old = set_bool L n old"
| "set_bool L (YBad e) old = Inl e"
| "set_bool L _ old = Inr old"

fun isMerge :: "ynode \<Rightarrow> bool" where
  "isMerge (YScalar tag s implicit) \<longleftrightarrow> s = ''<<'' \<and> (implicit \<or> tag = yaml_MERGE_TAG)"
| "isMerge _ \<longleftrightarrow> False"

end
