(* ===== verification/Config.thy ===== *)
theory Config
  imports Yaml
begin

text \<open>
  \<open>config/config.go\<close>: the \<open>Config\<close> struct and \<open>ReadConfig\<close>, with the part of the YAML package that
  fills the struct (\<open>mappingStruct\<close> and \<open>merge\<close> of \<open>decode.go\<close>): an entry whose key is exactly the
  lower case name of a field is decoded into that field, every other entry is passed over.
\<close>

record config =
  cfg_Port :: string
  cfg_QueueSize :: goint
  cfg_Consumers :: goint
  cfg_Mongo :: string
  cfg_Database :: string
  cfg_PetitionsColl :: string
  cfg_ResponsesColl :: string
  cfg_ErrorsColl :: string
  cfg_Instance :: string
  cfg_DebugMgo :: bool
  cfg_LogLevel :: string
  cfg_Timeout :: goint
  cfg_RetryTime :: goint
  cfg_Retries :: goint

definition zero_config :: config where
  "zero_config = \<lparr>cfg_Port = '''', cfg_QueueSize = 0, cfg_Consumers = 0, cfg_Mongo = '''',
     cfg_Database = '''', cfg_PetitionsColl = '''', cfg_ResponsesColl = '''', cfg_ErrorsColl = '''',
     cfg_Instance = '''', cfg_DebugMgo = False, cfg_LogLevel = '''', cfg_Timeout = 0,
     cfg_RetryTime = 0, cfg_Retries = 0\<rparr>"

definition config_keys :: "string list" where
  "config_keys = [''port'', ''queuesize'', ''consumers'', ''mongo'', ''database'', ''petitionscoll'',
     ''responsescoll'', ''errorscoll'', ''instance'', ''debugmgo'', ''loglevel'', ''timeout'',
     ''retrytime'', ''retries'']"

definition put :: "(gerror + 'a) \<Rightarrow> ('a \<Rightarrow> 'b) \<Rightarrow> gerror + 'b" where
  "put r f = (case r of Inl e \<Rightarrow> Inl e | Inr v \<Rightarrow> Inr (f v))"

definition config_entry :: "'f yaml_lib \<Rightarrow> string \<Rightarrow> ynode \<Rightarrow> config \<Rightarrow> gerror + config" where
  "config_entry L k n c =
     (if k = ''port'' then put (set_string L n (cfg_Port c)) (\<lambda>v. c\<lparr>cfg_Port := v\<rparr>)
      else if k = ''queuesize'' then put (set_int L n (cfg_QueueSize c)) (\<lambda>v. c\<lparr>cfg_QueueSize := v\<rparr>)
      else if k = ''consumers'' then put (set_int L n (cfg_Consumers c)) (\<lambda>v. c\<lparr>cfg_Consumers := v\<rparr>)
      else if k = ''mongo'' then put (set_string L n (cfg_Mongo c)) (\<lambda>v. c\<lparr>cfg_Mongo := v\<rparr>)
      else if k = ''database'' then put (set_string L n (cfg_Database c)) (\<lambda>v. c\<lparr>cfg_Database := v\<rparr>)
      else if k = ''petitionscoll'' then
        put (set_string L n (cfg_PetitionsColl c)) (\<lambda>v. c\<lparr>cfg_PetitionsColl := v\<rparr>)
      else if k = ''responsescoll'' then
        put (set_string L n (cfg_ResponsesColl c)) (\<lambda>v. c\<lparr>cfg_ResponsesColl := v\<rparr>)
      else if k = ''errorscoll'' then
        put (set_string L n (cfg_ErrorsColl c)) (\<lambda>v. c\<lparr>cfg_ErrorsColl := v\<rparr>)
      else if k = ''instance'' then put (set_string L n (cfg_Instance c)) (\<lambda>v. c\<lparr>cfg_Instance := v\<rparr>)
      else if k = ''debugmgo'' then put (set_bool L n (cfg_DebugMgo c)) (\<lambda>v. c\<lparr>cfg_DebugMgo := v\<rparr>)
      else if k = ''loglevel'' then put (set_string L n (cfg_LogLevel c)) (\<lambda>v. c\<lparr>cfg_LogLevel := v\<rparr>)
      else if k = ''timeout'' then put (set_int L n (cfg_Timeout c)) (\<lambda>v. c\<lparr>cfg_Timeout := v\<rparr>)
      else if k = ''retrytime'' then put (set_int L n (cfg_RetryTime c)) (\<lambda>v. c\<lparr>cfg_RetryTime := v\<rparr>)
      else if k = ''retries'' then put (set_int L n (cfg_Retries c)) (\<lambda>v. c\<lparr>cfg_Retries := v\<rparr>)
      else Inr c)"

text \<open>The key of an entry: a scalar read as a string; any other node is skipped.\<close>

fun entry_key :: "'f yaml_lib \<Rightarrow> ynode \<Rightarrow> gerror + string option" where
  "entry_key L (YScalar tag s implicit) = put (set_string L (YScalar tag s implicit) '''') Some"
| "entry_key L (YAlias _ n) = entry_key L n"
| "entry_key L (YBad e) = Inl e"
| "entry_key L _ = Inr None"

definition wantMap :: string where
  "wantMap = ''YAML error: map merge requires map or sequence of maps as the value''"

fun is_mapping :: "ynode \<Rightarrow> bool" where
  "is_mapping (YMapping _) = True"
| "is_mapping (YAlias m _) = m"
| "is_mapping _ = False"

text \<open>
  \<open>unmarshal\<close> into a \<open>Config\<close>: a null scalar resets it, any other scalar and a sequence leave it
  alone without an error, a mapping is taken entry by entry.
\<close>

fun unmarshal_config :: "'f yaml_lib \<Rightarrow> ynode \<Rightarrow> config \<Rightarrow> gerror + config"
  and mappingStruct :: "'f yaml_lib \<Rightarrow> (ynode \<times> ynode) list \<Rightarrow> config \<Rightarrow> gerror + config"
  and yaml_merge :: "'f yaml_lib \<Rightarrow> ynode \<Rightarrow> config \<Rightarrow> gerror + config"
  and merge_backwards :: "'f yaml_lib \<Rightarrow> ynode list \<Rightarrow> config \<Rightarrow> gerror + config"
where
  "unmarshal_config L (YScalar tag s implicit) c =
     put (scalar_value L tag s implicit) (\<lambda>(_, v). if v = YNull then zero_config else c)"
| "unmarshal_config L (YSequence ns) c = Inr c"
| "unmarshal_config L (YMapping es) c = mappingStruct L es c"
| "unmarshal_config L (YAlias m n) c = unmarshal_config L n c"
| "unmarshal_config L (YBad e) c = Inl e"
| "mappingStruct L [] c = Inr c"
| "mappingStruct L ((k, n) # es) c =
     (case (if isMerge k then yaml_merge L n c
            else case entry_key L k of
                Inl e \<Rightarrow> Inl e
              | Inr None \<Rightarrow> Inr c
              | Inr (Some key) \<Rightarrow> config_entry L key n c) of
        Inl e \<Rightarrow> Inl e
      | Inr c' \<Rightarrow> mappingStruct L es c')"
| "yaml_merge L (YMapping es) c = mappingStruct L es c"
| "yaml_merge L (YSequence ns) c = merge_backwards L ns c"
| "yaml_merge L (YAlias m n) c = (if m then unmarshal_config L n c else Inl wantMap)"
| "yaml_merge L (YScalar tag s implicit) c = Inl wantMap"
| "yaml_merge L (YBad e) c = Inl e"
| "merge_backwards L [] c = Inr c"
| "merge_backwards L (n # ns) c =
     (case merge_backwards L ns c of
        Inl e \<Rightarrow> Inl e
      | Inr c' \<Rightarrow> if is_mapping n then unmarshal_config L n c' else Inl wantMap)"

text \<open>\<open>yaml.Unmarshal\<close>: no document at all leaves the value alone.\<close>

definition yaml_Unmarshal ::
  "'f yaml_lib \<Rightarrow> (bytes \<Rightarrow> gerror + ynode option) \<Rightarrow> bytes \<Rightarrow> config \<Rightarrow> gerror + config" where
  "yaml_Unmarshal L parse data c =
     (case parse data of
        Inl e \<Rightarrow> Inl e
      | Inr None \<Rightarrow> Inr c
      | Inr (Some n) \<Rightarrow> unmarshal_config L n c)"

text \<open>
  \<open>ReadConfig\<close>. \<open>open_file\<close> is \<open>os.Open\<close>, giving what \<open>ioutil.ReadAll\<close> of the file returns.
\<close>

definition ReadConfig ::
  "'f yaml_lib \<Rightarrow> (bytes \<Rightarrow> gerror + ynode option) \<Rightarrow> (string \<Rightarrow> gerror + (gerror + bytes)) \<Rightarrow>
   string \<Rightarrow> gerror + config" where
  "ReadConfig L parse open_file filename =
     (case open_file filename of
        Inl err \<Rightarrow> Inl err
      | Inr contents \<Rightarrow>
          (case contents of
             Inl err \<Rightarrow> Inl err
           | Inr data \<Rightarrow>
               (case yaml_Unmarshal L parse data zero_config of
                  Inl err \<Rightarrow> Inl err
                | Inr cfg \<Rightarrow> Inr cfg)))"

subsection \<open>What an entry does\<close>

lemma config_entry_unknown: "k \<notin> set config_keys \<Longrightarrow> config_entry L k n c = Inr c"
  by (simp add: config_entry_def config_keys_def)

text \<open>A plain key is its own text; only null turns into the empty text.\<close>

lemma resolve_number_tag:
  "resolve_number L s = Some (rtag, v) \<Longrightarrow> v \<noteq> YNull \<and> rtag \<noteq> yaml_BINARY_TAG"
  by (auto simp: resolve_number_def Let_def split: option.splits if_splits)

lemma resolveMap_tag:
  "resolveMap L s = Some (rtag, v) \<Longrightarrow>
     (v = YNull \<longrightarrow> s \<in> set resolve_null) \<and> rtag \<noteq> yaml_BINARY_TAG"
  by (auto simp: resolveMap_def split: if_splits)

lemma resolve_plain_untagged:
  assumes "yl_utf8 L s" and "resolve_plain L [] s = (rtag, v)"
  shows "(v = YNull \<longrightarrow> s \<in> set resolve_null) \<and> rtag \<noteq> yaml_BINARY_TAG"
  using assms resolve_number_tag [of L s rtag v] resolveMap_tag [of L s rtag v]
  by (auto simp: resolve_plain_def Let_def split: option.splits if_splits)

lemma set_string_plain:
  assumes "yl_utf8 L s"
  shows "set_string L (YScalar [] s True) old = Inr s \<or>
    (set_string L (YScalar [] s True) old = Inr [] \<and> s \<in> set resolve_null)"
  using resolve_plain_untagged [OF assms]
  by (cases "resolve_plain L [] s"; cases "snd (resolve_plain L [] s)")
     (auto simp: scalar_value_def yaml_resolve_def resolvableTag_def into_string_def)

definition plain_entry :: "string \<times> ynode \<Rightarrow> ynode \<times> ynode" where
  "plain_entry kn = (YScalar '''' (fst kn) True, snd kn)"

text \<open>The entries of a document taken one after the other, the first error ending it.\<close>

fun config_entries :: "'f yaml_lib \<Rightarrow> (string \<times> ynode) list \<Rightarrow> config \<Rightarrow> gerror + config" where
  "config_entries L [] c = Inr c"
| "config_entries L ((k, n) # es) c =
     (case config_entry L k n c of Inl e \<Rightarrow> Inl e | Inr c' \<Rightarrow> config_entries L es c')"

lemma mappingStruct_plain:
  "\<forall>(k, n) \<in> set es. yl_utf8 L k \<and> k \<noteq> ''<<'' \<Longrightarrow>
     mappingStruct L (map plain_entry es) c =
     config_entries L (filter (\<lambda>(k, _). k \<in> set config_keys) es) c"
proof (induction es arbitrary: c)
  case Nil
  then show ?case by simp
next
  case (Cons kn es)
  obtain k n where kn: "kn = (k, n)" by (cases kn)
  have k: "yl_utf8 L k" "k \<noteq> ''<<''" using Cons.prems kn by auto
  have null: "k \<in> set resolve_null \<Longrightarrow> k \<notin> set config_keys" "[] \<notin> set config_keys"
    by (auto simp: resolve_null_def config_keys_def)
  have "(case entry_key L (YScalar [] k True) of Inl e \<Rightarrow> Inl e | Inr None \<Rightarrow> Inr c
      | Inr (Some key) \<Rightarrow> config_entry L key n c) = config_entry L k n c"
    using set_string_plain [OF k(1), of "[]"] null config_entry_unknown [of _ L n c]
    by (auto simp: put_def)
  then show ?case
    using Cons k kn config_entry_unknown [of k L n c]
    by (auto simp: plain_entry_def split: sum.split)
qed

text \<open>
  What the configuration file sets. For a document that is one mapping with plain keys, the
  configuration is the zero one changed by those entries whose key is exactly the lower case name
  of a field, in order; any other spelling of a key, such as \<open>retryTime\<close> or \<open>queueSize\<close>, sets
  nothing and is no error.
\<close>
theorem config_exact_keys:
  assumes "open_file filename = Inr (Inr data)"
    and "parse data = Inr (Some (YMapping (map plain_entry es)))"
    and "\<forall>(k, n) \<in> set es. yl_utf8 L k \<and> k \<noteq> ''<<''"
  shows "ReadConfig L parse open_file filename =
    config_entries L (filter (\<lambda>(k, _). k \<in> set config_keys) es) zero_config"
  using assms(1,2) mappingStruct_plain [OF assms(3), of zero_config]
  by (simp add: ReadConfig_def yaml_Unmarshal_def split: sum.split)

definition sample_yaml_lib :: "unit yaml_lib" where
  "sample_yaml_lib = \<lparr>yl_ParseFloat = (\<lambda>_. None), yl_int = (\<lambda>_. None), yl_utf8 = (\<lambda>_. True),
     yl_NaN = (), yl_PosInf = (), yl_NegInf = ()\<rparr>"

theorem config_exact_keys_witness:
  "ReadConfig sample_yaml_lib
     (\<lambda>_. Inr (Some (YMapping (map plain_entry
        [(''port'', YScalar '''' ''8080'' True), (''retryTime'', YScalar '''' ''1000'' True),
         (''retries'', YScalar '''' ''2'' True)]))))
     (\<lambda>_. Inr (Inr [])) ''gridas.yaml'' =
   Inr (zero_config\<lparr>cfg_Port := ''8080'', cfg_Retries := 2\<rparr>)"
proof -
  let ?es = "[(''port'', YScalar '''' ''8080'' True), (''retryTime'', YScalar '''' ''1000'' True),
    (''retries'', YScalar '''' ''2'' True)]"
  have v: "scalar_value sample_yaml_lib [] ''8080'' True = Inr (yaml_INT_TAG, YInt 8080)"
    "scalar_value sample_yaml_lib [] ''2'' True = Inr (yaml_INT_TAG, YInt 2)"
    by (simp_all add: scalar_value_def yaml_resolve_def resolvableTag_def resolve_plain_def Let_def
        resolve_hint_def resolveMap_def resolve_true_def resolve_false_def resolve_null_def
        resolve_nan_def resolve_pinf_def resolve_ninf_def resolve_number_def ParseInt_def
        ParseUint_def HasPrefix_def digit_val_def)
  show ?thesis
    by (subst config_exact_keys [where data = "[]" and es = ?es])
       (simp_all add: sample_yaml_lib_def config_keys_def config_entry_def put_def v
         [unfolded sample_yaml_lib_def] into_string_def into_int_def zero_config_def)
qed

end
