(* ===== verification/Platform.thy ===== *)
theory Platform
  imports Documents Config
begin

text \<open>
  What the program calls outside its own code: the clock and \<open>time.Sleep\<close>, the HTTP client, and the
  MongoDB session of \<open>labix.org/v2/mgo\<close>. They are one record of functions on an environment \<open>'e\<close>,
  an argument of every definition that uses them; nothing is assumed of them but what a theorem
  names. A world is the environment together with the calls made so far, in order, each with its
  result, so that the order of the effects can be stated.
\<close>

record 'e platform =
  pf_Now :: "'e \<Rightarrow> goint"
  pf_Sleep :: "goint \<Rightarrow> 'e \<Rightarrow> 'e"
  pf_Do :: "out_request \<Rightarrow> 'e \<Rightarrow> (gerror + http_response) \<times> bytes \<times> 'e"
  pf_Insert :: "string \<Rightarrow> bdoc \<Rightarrow> 'e \<Rightarrow> gerror option \<times> 'e"
  pf_Remove :: "string \<Rightarrow> string \<Rightarrow> 'e \<Rightarrow> gerror option \<times> 'e"
  pf_One :: "string \<Rightarrow> string \<Rightarrow> 'e \<Rightarrow> (gerror + bdoc) \<times> 'e"
  pf_Iter :: "string \<Rightarrow> 'e \<Rightarrow> (bdoc list \<times> gerror option) \<times> 'e"
  pf_Refresh :: "'e \<Rightarrow> 'e"

text \<open>
  \<open>pf_Do\<close> gives the answer and what it left unread of the request's body. \<open>pf_Iter\<close> gives the
  documents a cursor yields and the error it ends with. \<open>pf_Remove\<close> and \<open>pf_One\<close> select by id.
\<close>

datatype event =
    EvDo out_request "gerror + http_response"
  | EvSleep goint
  | EvClose http_response
  | EvInsert string bdoc "gerror option"
  | EvRemove string string "gerror option"
  | EvOne string string
  | EvIter string
  | EvRefresh

record 'e world =
  wd_env :: 'e
  wd_trace :: "event list"

definition emit :: "event \<Rightarrow> 'e \<Rightarrow> 'e world \<Rightarrow> 'e world" where
  "emit ev e w = w\<lparr>wd_env := e, wd_trace := wd_trace w @ [ev]\<rparr>"

lemma emit_simps [simp]:
  "wd_env (emit ev e w) = e" "wd_trace (emit ev e w) = wd_trace w @ [ev]"
  by (simp_all add: emit_def)

definition Sleep :: "'e platform \<Rightarrow> goint \<Rightarrow> 'e world \<Rightarrow> 'e world" where
  "Sleep P d w = emit (EvSleep d) (pf_Sleep P d (wd_env w)) w"

text \<open>\<open>Client.Do\<close>: the request comes back with its body reader where the transport left it.\<close>

definition Client_Do ::
  "'e platform \<Rightarrow> out_request \<Rightarrow> 'e world \<Rightarrow> (gerror + http_response) \<times> out_request \<times> 'e world" where
  "Client_Do P req w =
     (case pf_Do P req (wd_env w) of
        (answer, rest, e) \<Rightarrow> (answer, req\<lparr>o_Body := rest\<rparr>, emit (EvDo req answer) e w))"

definition Body_Close :: "http_response \<Rightarrow> 'e world \<Rightarrow> 'e world" where
  "Body_Close resp w = emit (EvClose resp) (wd_env w) w"

definition Coll_Insert ::
  "'e platform \<Rightarrow> string \<Rightarrow> bdoc \<Rightarrow> 'e world \<Rightarrow> gerror option \<times> 'e world" where
  "Coll_Insert P coll d w =
     (case pf_Insert P coll d (wd_env w) of (err, e) \<Rightarrow> (err, emit (EvInsert coll d err) e w))"

definition Coll_Remove ::
  "'e platform \<Rightarrow> string \<Rightarrow> string \<Rightarrow> 'e world \<Rightarrow> gerror option \<times> 'e world" where
  "Coll_Remove P coll i w =
     (case pf_Remove P coll i (wd_env w) of (err, e) \<Rightarrow> (err, emit (EvRemove coll i err) e w))"

definition Coll_One ::
  "'e platform \<Rightarrow> string \<Rightarrow> string \<Rightarrow> 'e world \<Rightarrow> (gerror + bdoc) \<times> 'e world" where
  "Coll_One P coll i w =
     (case pf_One P coll i (wd_env w) of (r, e) \<Rightarrow> (r, emit (EvOne coll i) e w))"

definition Coll_Iter ::
  "'e platform \<Rightarrow> string \<Rightarrow> 'e world \<Rightarrow> (bdoc list \<times> gerror option) \<times> 'e world" where
  "Coll_Iter P coll w =
     (case pf_Iter P coll (wd_env w) of (r, e) \<Rightarrow> (r, emit (EvIter coll) e w))"

definition Session_Refresh :: "'e platform \<Rightarrow> 'e world \<Rightarrow> 'e world" where
  "Session_Refresh P w = emit EvRefresh (pf_Refresh P (wd_env w)) w"

text \<open>The full names of the collections: \<open>Database.C(name)\<close> puts the database in front.\<close>

definition petitions_coll :: "config \<Rightarrow> string" where
  "petitions_coll cfg = cfg_Database cfg @ ''.'' @ cfg_Instance cfg @ cfg_PetitionsColl cfg"

definition responses_coll :: "config \<Rightarrow> string" where
  "responses_coll cfg = cfg_Database cfg @ ''.'' @ cfg_ResponsesColl cfg"

definition errors_coll :: "config \<Rightarrow> string" where
  "errors_coll cfg = cfg_Database cfg @ ''.'' @ cfg_ErrorsColl cfg"

subsection \<open>Documented behaviour of the calls\<close>

text \<open>
  The transport reads a request's body from its start, as much of it as it needs: what is left is its end.
\<close>

definition transport_ok :: "'e platform \<Rightarrow> bool" where
  "transport_ok P \<longleftrightarrow>
     (\<forall>q e answer rest e'. pf_Do P q e = (answer, rest, e') \<longrightarrow> (\<exists>read. o_Body q = read @ rest))"

definition doc_id :: "bdoc \<Rightarrow> string option" where
  "doc_id d = (case map_of d ''id'' of Some (BStr s) \<Rightarrow> Some s | _ \<Rightarrow> None)"

text \<open>
  The collections as the server has them, for a caller that is alone with them. An acknowledged
  insert adds the document, an acknowledged removal takes one with that id away; one that reports
  an error may have been carried out or not; a query returns documents of the collection; the other
  calls change nothing.
\<close>

type_synonym store = "string \<Rightarrow> bdoc list"

definition inserted :: "string \<Rightarrow> bdoc \<Rightarrow> store \<Rightarrow> store \<Rightarrow> bool" where
  "inserted c d s s' \<longleftrightarrow> s' = s(c := s c @ [d])"

definition removed :: "string \<Rightarrow> string \<Rightarrow> store \<Rightarrow> store \<Rightarrow> bool" where
  "removed c i s s' \<longleftrightarrow> (\<exists>xs d ys. s c = xs @ d # ys \<and> doc_id d = Some i \<and> s' = s(c := xs @ ys))"

definition insert_ok :: "'e platform \<Rightarrow> ('e \<Rightarrow> store) \<Rightarrow> bool" where
  "insert_ok P db \<longleftrightarrow>
     (\<forall>c d e err e'. pf_Insert P c d e = (err, e') \<longrightarrow>
        inserted c d (db e) (db e') \<or> (err \<noteq> None \<and> db e' = db e))"

definition remove_ok :: "'e platform \<Rightarrow> ('e \<Rightarrow> store) \<Rightarrow> bool" where
  "remove_ok P db \<longleftrightarrow>
     (\<forall>c i e err e'. pf_Remove P c i e = (err, e') \<longrightarrow>
        removed c i (db e) (db e') \<or> (err \<noteq> None \<and> db e' = db e))"

definition one_ok :: "'e platform \<Rightarrow> ('e \<Rightarrow> store) \<Rightarrow> bool" where
  "one_ok P db \<longleftrightarrow>
     (\<forall>c i e r e'. pf_One P c i e = (r, e') \<longrightarrow>
        db e' = db e \<and> (\<forall>d. r = Inr d \<longrightarrow> d \<in> set (db e c) \<and> doc_id d = Some i))"

definition iter_ok :: "'e platform \<Rightarrow> ('e \<Rightarrow> store) \<Rightarrow> bool" where
  "iter_ok P db \<longleftrightarrow>
     (\<forall>c e ds err e'. pf_Iter P c e = ((ds, err), e') \<longrightarrow>
        db e' = db e \<and> (\<exists>rest. db e c = ds @ rest \<and> (err = None \<longrightarrow> rest = [])))"

definition frame_ok :: "'e platform \<Rightarrow> ('e \<Rightarrow> store) \<Rightarrow> bool" where
  "frame_ok P db \<longleftrightarrow>
     (\<forall>e. db (pf_Refresh P e) = db e) \<and> (\<forall>d e. db (pf_Sleep P d e) = db e) \<and>
     (\<forall>q e a rest e'. pf_Do P q e = (a, rest, e') \<longrightarrow> db e' = db e)"

definition mongo_ok :: "'e platform \<Rightarrow> ('e \<Rightarrow> store) \<Rightarrow> bool" where
  "mongo_ok P db \<longleftrightarrow> insert_ok P db \<and> remove_ok P db \<and> one_ok P db \<and> iter_ok P db \<and> frame_ok P db"

lemma doc_id_petition [simp]: "doc_id (petition_doc p) = Some (p_ID p)"
  by (simp add: doc_id_def petition_doc_def)

lemma doc_id_reply [simp]: "doc_id (reply_doc r) = Some (r_ID r)"
  by (simp add: doc_id_def reply_doc_def)

lemma mongo_Insert:
  "mongo_ok P db \<Longrightarrow> Coll_Insert P c d w = (err, w') \<Longrightarrow>
     inserted c d (db (wd_env w)) (db (wd_env w')) \<or>
     (err \<noteq> None \<and> db (wd_env w') = db (wd_env w))"
  unfolding mongo_ok_def insert_ok_def Coll_Insert_def
  by (cases "pf_Insert P c d (wd_env w)") (simp, metis emit_simps(1))

lemma mongo_Remove:
  "mongo_ok P db \<Longrightarrow> Coll_Remove P c i w = (err, w') \<Longrightarrow>
     removed c i (db (wd_env w)) (db (wd_env w')) \<or>
     (err \<noteq> None \<and> db (wd_env w') = db (wd_env w))"
  unfolding mongo_ok_def remove_ok_def Coll_Remove_def
  by (cases "pf_Remove P c i (wd_env w)") (simp, metis emit_simps(1))

lemma mongo_frame:
  assumes "mongo_ok P db"
  shows "db (wd_env (Session_Refresh P w)) = db (wd_env w)"
    and "db (wd_env (Sleep P d w)) = db (wd_env w)"
    and "db (wd_env (Body_Close resp w)) = db (wd_env w)"
    and "Client_Do P q w = (a, q', w') \<Longrightarrow> db (wd_env w') = db (wd_env w)"
  using assms unfolding mongo_ok_def frame_ok_def
  by (simp_all add: Session_Refresh_def Sleep_def Body_Close_def)
     (cases "pf_Do P q (wd_env w)", auto simp: Client_Do_def)

subsection \<open>A platform in memory\<close>

text \<open>
  A concrete platform the laws hold of, for evaluating the program: collections in memory, scripted
  answers of the target hosts; the flag makes every insert fail.
\<close>

record mem =
  m_db :: store
  m_answers :: "(gerror + http_response) list"
  m_clock :: goint

fun take_out :: "string \<Rightarrow> bdoc list \<Rightarrow> bdoc list option" where
  "take_out i [] = None"
| "take_out i (d # ds) = (if doc_id d = Some i then Some ds else map_option ((#) d) (take_out i ds))"

definition mem_platform :: "bool \<Rightarrow> mem platform" where
  "mem_platform broken =
     \<lparr>pf_Now = m_clock,
      pf_Sleep = (\<lambda>d m. m\<lparr>m_clock := m_clock m + d\<rparr>),
      pf_Do = (\<lambda>q m. case m_answers m of
          [] \<Rightarrow> (Inl ''no such host'', o_Body q, m)
        | Inl e # as \<Rightarrow> (Inl e, o_Body q, m\<lparr>m_answers := as\<rparr>)
        | Inr r # as \<Rightarrow> (Inr r, [], m\<lparr>m_answers := as\<rparr>)),
      pf_Insert = (\<lambda>c d m. if broken then (Some ''not master'', m)
        else (None, m\<lparr>m_db := (m_db m)(c := m_db m c @ [d])\<rparr>)),
      pf_Remove = (\<lambda>c i m. case take_out i (m_db m c) of
          None \<Rightarrow> (Some ''not found'', m)
        | Some ds \<Rightarrow> (None, m\<lparr>m_db := (m_db m)(c := ds)\<rparr>)),
      pf_One = (\<lambda>c i m. case filter (\<lambda>d. doc_id d = Some i) (m_db m c) of
          [] \<Rightarrow> (Inl ''not found'', m) | d # _ \<Rightarrow> (Inr d, m)),
      pf_Iter = (\<lambda>c m. ((m_db m c, None), m)),
      pf_Refresh = (\<lambda>m. m)\<rparr>"

lemma take_out_Some:
  "take_out i ds = Some ds' \<Longrightarrow> \<exists>xs d ys. ds = xs @ d # ys \<and> doc_id d = Some i \<and> ds' = xs @ ys"
proof (induction ds arbitrary: ds')
  case Nil
  then show ?case by simp
next
  case (Cons d ds)
  show ?case
  proof (cases "doc_id d = Some i")
    case True
    then have "d # ds = [] @ d # ds \<and> doc_id d = Some i \<and> ds' = [] @ ds" using Cons.prems by simp
    then show ?thesis by blast
  next
    case False
    then obtain r where "take_out i ds = Some r" "ds' = d # r" using Cons.prems by auto
    with Cons.IH obtain xs d' ys where "ds = xs @ d' # ys" "doc_id d' = Some i" "r = xs @ ys" by blast
    then have "d # ds = (d # xs) @ d' # ys \<and> doc_id d' = Some i \<and> ds' = (d # xs) @ ys"
      using \<open>ds' = d # r\<close> by simp
    then show ?thesis by blast
  qed
qed

lemma mem_platform_mongo: "mongo_ok (mem_platform broken) m_db"
proof -
  have "insert_ok (mem_platform broken) m_db"
    by (auto simp: insert_ok_def mem_platform_def inserted_def)
  moreover have "remove_ok (mem_platform broken) m_db"
    by (auto simp: remove_ok_def mem_platform_def removed_def split: option.splits dest!: take_out_Some)
  moreover have "one_ok (mem_platform broken) m_db"
    by (auto simp: one_ok_def mem_platform_def filter_eq_Cons_iff split: list.splits)
  moreover have "iter_ok (mem_platform broken) m_db"
    by (simp add: iter_ok_def mem_platform_def)
  moreover have "frame_ok (mem_platform broken) m_db"
    by (auto simp: frame_ok_def mem_platform_def split: list.splits sum.splits)
  ultimately show ?thesis by (simp add: mongo_ok_def)
qed

lemma mem_platform_transport: "transport_ok (mem_platform broken)"
  by (auto simp: transport_ok_def mem_platform_def split: list.splits sum.splits)

definition sample_cfg :: config where
  "sample_cfg = zero_config\<lparr>cfg_Database := ''db'', cfg_PetitionsColl := ''p'',
     cfg_ResponsesColl := ''r'', cfg_ErrorsColl := ''e'', cfg_Instance := ''A_'', cfg_Retries := 2,
     cfg_RetryTime := 1000\<rparr>"

end
