(* ===== verification/Consumer.thy ===== *)
theory Consumer
  imports Platform
begin

text \<open>
  \<open>consumer.go\<close>: \<open>doRequest\<close>, which makes a request and retries it with doubling pauses, \<open>process\<close>,
  which does one petition from beginning to end, and \<open>Start\<close> and \<open>Stop\<close>. The loop \<open>relay\<close>, which
  runs in many goroutines at once, is in theory \<open>System\<close>.
\<close>

subsection \<open>doRequest\<close>

text \<open>No error and a status other than 503.\<close>

definition good_answer :: "gerror + http_response \<Rightarrow> bool" where
  "good_answer a = (case a of Inl _ \<Rightarrow> False | Inr resp \<Rightarrow> rs_StatusCode resp \<noteq> 503)"

text \<open>\<open>time.Duration(RetryTime) * time.Millisecond\<close>, in nanoseconds and 64 bits.\<close>

definition retry_time :: "config \<Rightarrow> goint" where
  "retry_time cfg = cfg_RetryTime cfg * 1000000"

text \<open>The \<open>for\<close> loop: \<open>n\<close> is how many rounds are left, \<open>a\<close> the last answer.\<close>

fun retry_loop ::
  "'e platform \<Rightarrow> nat \<Rightarrow> goint \<Rightarrow> out_request \<Rightarrow> gerror + http_response \<Rightarrow> 'e world \<Rightarrow>
   (gerror + http_response) \<times> 'e world" where
  "retry_loop P 0 t req a w = (a, w)"
| "retry_loop P (Suc n) t req a w =
     (case Client_Do P req (Sleep P t w) of
        (a', req', w') \<Rightarrow>
          if good_answer a' then (a', w') else retry_loop P n (t * 2) req' a' w')"

definition doRequest ::
  "'e platform \<Rightarrow> config \<Rightarrow> out_request \<Rightarrow> 'e world \<Rightarrow> (gerror + http_response) \<times> 'e world" where
  "doRequest P cfg req w =
     (case Client_Do P req w of
        (a, req', w') \<Rightarrow>
          if good_answer a then (a, w')
          else retry_loop P (nat (sint (cfg_Retries cfg))) (retry_time cfg) req' a w')"

subsection \<open>process\<close>

text \<open>The status decides whether the reply also goes to the errors collection.\<close>

definition bad_answer :: "gerror + http_response \<Rightarrow> bool" where
  "bad_answer a =
     (case a of Inl _ \<Rightarrow> True | Inr resp \<Rightarrow> rs_StatusCode resp < 200 \<or> rs_StatusCode resp \<ge> 300)"

definition refresh_if :: "'e platform \<Rightarrow> gerror option \<Rightarrow> 'e world \<Rightarrow> 'e world" where
  "refresh_if P err w = (case err of None \<Rightarrow> w | Some _ \<Rightarrow> Session_Refresh P w)"

text \<open>The deferred \<open>resp.Body.Close\<close>: it runs on every way out, a panic included.\<close>

definition close_answer :: "gerror + http_response \<Rightarrow> 'e world \<Rightarrow> 'e world" where
  "close_answer a w = (case a of Inl _ \<Rightarrow> w | Inr resp \<Rightarrow> Body_Close resp w)"

definition save_reply :: "'e platform \<Rightarrow> config \<Rightarrow> gerror + http_response \<Rightarrow> reply \<Rightarrow> 'e world \<Rightarrow> 'e world" where
  "save_reply P cfg a rp w =
     (let w1 = (if bad_answer a
                then (case Coll_Insert P (errors_coll cfg) (reply_doc rp) w of (e, w') \<Rightarrow> refresh_if P e w')
                else w);
          (err, w2) = Coll_Insert P (responses_coll cfg) (reply_doc rp) w1
      in refresh_if P err w2)"

definition remove_petition :: "'e platform \<Rightarrow> config \<Rightarrow> petition \<Rightarrow> 'e world \<Rightarrow> 'e world" where
  "remove_petition P cfg p w =
     (case Coll_Remove P (petitions_coll cfg) (p_ID p) w of (err, w') \<Rightarrow> refresh_if P err w')"

definition process ::
  "'e platform \<Rightarrow> config \<Rightarrow> petition \<Rightarrow> 'e world \<Rightarrow> unit outcome \<times> petition \<times> 'e world" where
  "process P cfg p w =
     (let start = bson_Now (pf_Now P (wd_env w)) in
      case petition_Request p of
        (Panics e, p') \<Rightarrow> (Panics e, p', w)
      | (Returns (Inl err), p') \<Rightarrow> (Returns (), p', w)
      | (Returns (Inr req), p') \<Rightarrow>
          (case doRequest P cfg req w of
             (a, w1) \<Rightarrow>
               (case newReply a p' (pf_Now P (wd_env w1)) of
                  Panics e \<Rightarrow> (Panics e, p', close_answer a w1)
                | Returns rp \<Rightarrow>
                    (let rp = rp\<lparr>r_Created := start\<rparr>;
                         w2 = save_reply P cfg a rp w1;
                         w3 = remove_petition P cfg p' w2
                     in (Returns (), p', close_answer a w3)))))"

subsection \<open>Start and Stop\<close>

text \<open>
  \<open>endChan\<close> is nil until \<open>Start\<close> makes it and can be closed once. \<open>cs_wg\<close> is the counter of the wait
  group, \<open>cs_loops\<close> how many goroutines were started with \<open>relay\<close>.
\<close>

datatype end_chan = NilChan | OpenChan | ClosedChan

record consumer =
  cs_n :: int
  cs_endChan :: end_chan
  cs_wg :: int
  cs_loops :: nat

definition new_consumer :: consumer where
  "new_consumer = \<lparr>cs_n = 0, cs_endChan = NilChan, cs_wg = 0, cs_loops = 0\<rparr>"

definition Start :: "goint \<Rightarrow> consumer \<Rightarrow> consumer outcome" where
  "Start n c =
     (let c1 = c\<lparr>cs_n := sint n, cs_endChan := OpenChan\<rparr>
      in if cs_wg c1 + sint n < 0 then Panics ''sync: negative WaitGroup counter''
         else Returns (c1\<lparr>cs_wg := cs_wg c1 + sint n, cs_loops := cs_loops c1 + nat (sint n)\<rparr>))"

definition consumer_Stop :: "consumer \<Rightarrow> consumer outcome" where
  "consumer_Stop c =
     (case cs_endChan c of
        NilChan \<Rightarrow> Panics ''close of nil channel''
      | ClosedChan \<Rightarrow> Panics ''close of closed channel''
      | OpenChan \<Rightarrow> Returns (c\<lparr>cs_endChan := ClosedChan\<rparr>))"

subsection \<open>The attempts of doRequest\<close>

text \<open>The events of the retries: for each, a pause twice as long as the one before, and the attempt.\<close>

fun retry_events :: "goint \<Rightarrow> (out_request \<times> (gerror + http_response)) list \<Rightarrow> event list" where
  "retry_events t [] = []"
| "retry_events t ((q, a) # qs) = EvSleep t # EvDo q a # retry_events (t * 2) qs"

definition attempts_end :: "nat \<Rightarrow> (gerror + http_response) list \<Rightarrow> (gerror + http_response) \<Rightarrow> bool" where
  "attempts_end n as r \<longleftrightarrow>
     length as \<le> n \<and> (\<forall>a \<in> set (butlast as). \<not> good_answer a) \<and>
     (good_answer r \<or> length as = n) \<and> (as \<noteq> [] \<longrightarrow> r = last as)"

lemma retry_loop_attempts:
  "retry_loop P n t req a w = (r, w') \<Longrightarrow> \<not> good_answer a \<Longrightarrow>
     \<exists>qs. wd_trace w' = wd_trace w @ retry_events t qs \<and> attempts_end n (map snd qs) r \<and>
       (qs = [] \<longrightarrow> r = a)"
proof (induction P n t req a w rule: retry_loop.induct)
  case (1 P t req a w)
  then show ?case by (intro exI [of _ "[]"]) (simp add: attempts_end_def)
next
  case (2 P n t req a w)
  obtain a1 req1 w1 where d: "Client_Do P req (Sleep P t w) = (a1, req1, w1)" by (metis prod_cases3)
  then have tr: "wd_trace w1 = wd_trace w @ [EvSleep t, EvDo req a1]"
    by (auto simp: Client_Do_def Sleep_def split: prod.splits)
  show ?case
  proof (cases "good_answer a1")
    case True
    then have "r = a1" "w' = w1" using "2.prems" d by simp_all
    with True tr show ?thesis by (intro exI [of _ "[(req, a1)]"]) (simp add: attempts_end_def)
  next
    case False
    then have "retry_loop P n (t * 2) req1 a1 w1 = (r, w')" using "2.prems" d by simp
    from "2.IH" [OF d [symmetric] _ False this False] obtain qs where
      qs: "wd_trace w' = wd_trace w1 @ retry_events (t * 2) qs" "attempts_end n (map snd qs) r"
        "qs = [] \<longrightarrow> r = a1"
      by blast
    show ?thesis
      using qs tr False by (intro exI [of _ "(req, a1) # qs"]) (auto simp: attempts_end_def)
  qed
qed

lemma doRequest_run:
  assumes "doRequest P cfg req w = (r, w')"
  shows "\<exists>a0 qs. wd_trace w' = wd_trace w @ EvDo req a0 # retry_events (retry_time cfg) qs \<and>
    attempts_end (Suc (nat (sint (cfg_Retries cfg)))) (a0 # map snd qs) r"
proof -
  obtain a1 req1 w1 where d: "Client_Do P req w = (a1, req1, w1)" by (metis prod_cases3)
  then have tr: "wd_trace w1 = wd_trace w @ [EvDo req a1]"
    by (auto simp: Client_Do_def split: prod.splits)
  show ?thesis
  proof (cases "good_answer a1")
    case True
    then show ?thesis
      using assms d tr
      by (intro exI [of _ a1] exI [of _ "[]"]) (simp add: doRequest_def attempts_end_def)
  next
    case False
    then have "retry_loop P (nat (sint (cfg_Retries cfg))) (retry_time cfg) req1 a1 w1 = (r, w')"
      using assms d by (simp add: doRequest_def)
    from retry_loop_attempts [OF this False] obtain qs where
      "wd_trace w' = wd_trace w1 @ retry_events (retry_time cfg) qs"
      "attempts_end (nat (sint (cfg_Retries cfg))) (map snd qs) r" "qs = [] \<longrightarrow> r = a1"
      by blast
    then show ?thesis
      using tr False
      by (intro exI [of _ a1] exI [of _ qs]) (auto simp: attempts_end_def)
  qed
qed

text \<open>What was paused between the attempts.\<close>

fun pauses :: "event list \<Rightarrow> goint list" where
  "pauses [] = []"
| "pauses (EvSleep d # es) = d # pauses es"
| "pauses (_ # es) = pauses es"

definition new_events :: "'e world \<Rightarrow> 'e world \<Rightarrow> event list" where
  "new_events w w' = drop (length (wd_trace w)) (wd_trace w')"

lemma pauses_retry: "pauses (retry_events t qs) = map (\<lambda>i. t * 2 ^ i) [0..<length qs]"
proof (induction t qs rule: retry_events.induct)
  case (2 t q a qs)
  have "map (\<lambda>i. t * 2 ^ i) [0..<Suc n] = t # map (\<lambda>i. t * 2 * 2 ^ i) [0..<n]" for n
    by (induction n) (simp_all add: mult.assoc)
  then show ?case using 2 by (simp del: upt_Suc)
qed simp

definition backoff :: "config \<Rightarrow> nat \<Rightarrow> goint" where
  "backoff cfg i = cfg_RetryTime cfg * 1000000 * 2 ^ i"

lemma backoff_exact:
  assumes "0 \<le> sint (cfg_RetryTime cfg)" and "sint (cfg_RetryTime cfg) * 1000000 * 2 ^ i < 2 ^ 63"
  shows "sint (backoff cfg i) = sint (cfg_RetryTime cfg) * 1000000 * 2 ^ i"
proof -
  let ?x = "sint (cfg_RetryTime cfg) * 1000000 * 2 ^ i"
  have "word_of_int (sint (cfg_RetryTime cfg)) = cfg_RetryTime cfg" by simp
  then have "backoff cfg i = word_of_int ?x"
    by (simp only: backoff_def wi_hom_mult [symmetric] word_of_int_power_hom [symmetric]) simp
  then have "sint (backoff cfg i) = signed_take_bit 63 ?x" by (simp only: signed_of_int) simp
  also have "\<dots> = ?x"
  proof (rule signed_take_bit_int_eq_self)
    have "0 \<le> ?x" using assms(1) by simp
    then show "- (2 ^ 63) \<le> ?x" by (rule order_trans [rotated]) simp
  qed (rule assms(2))
  finally show ?thesis .
qed

lemma backoff_zero: "58 \<le> i \<Longrightarrow> backoff cfg i = 0"
proof -
  assume "58 \<le> i"
  then obtain j where j: "i = 58 + j" by (auto simp: le_iff_add)
  have z: "(1000000 :: goint) * 2 ^ 58 = 0" by simp
  have "backoff cfg i = cfg_RetryTime cfg * ((1000000 * 2 ^ 58) * 2 ^ j)"
    by (simp only: backoff_def j power_add mult.assoc)
  then show ?thesis by (simp only: z mult_zero_left mult_zero_right)
qed

text \<open>The bodies the attempts send, and one body being what is left of another.\<close>

fun sent_bodies :: "event list \<Rightarrow> bytes list" where
  "sent_bodies [] = []"
| "sent_bodies (e # es) = (case e of EvDo q a \<Rightarrow> o_Body q # sent_bodies es | _ \<Rightarrow> sent_bodies es)"

definition rest_of :: "bytes \<Rightarrow> bytes \<Rightarrow> bool" where
  "rest_of b rest \<longleftrightarrow> (\<exists>read. b = read @ rest)"

lemma rest_of_refl: "rest_of b b"
  by (simp add: rest_of_def)

lemma rest_of_trans: "rest_of a b \<Longrightarrow> rest_of b c \<Longrightarrow> rest_of a c"
  unfolding rest_of_def by (metis append.assoc)

lemma transport_rest:
  assumes "transport_ok P" and "Client_Do P req w = (a, req', w')"
  shows "rest_of (o_Body req) (o_Body req')"
proof -
  obtain rest e where d: "pf_Do P req (wd_env w) = (a, rest, e)" "req' = req\<lparr>o_Body := rest\<rparr>"
    using assms(2) by (auto simp: Client_Do_def split: prod.splits)
  then show ?thesis using assms(1) unfolding transport_ok_def rest_of_def by fastforce
qed

lemma retry_loop_bodies:
  assumes "transport_ok P"
  shows "retry_loop P n t req a w = (r, w') \<Longrightarrow>
    \<exists>es. wd_trace w' = wd_trace w @ es \<and> sorted_wrt rest_of (o_Body req # sent_bodies es)"
proof (induction n arbitrary: t req a w)
  case 0
  then show ?case by (intro exI [of _ "[]"]) simp
next
  case (Suc n)
  obtain a1 req1 w1 where d: "Client_Do P req (Sleep P t w) = (a1, req1, w1)" by (metis prod_cases3)
  then have tr: "wd_trace w1 = wd_trace w @ [EvSleep t, EvDo req a1]"
    by (auto simp: Client_Do_def Sleep_def split: prod.splits)
  have rest: "rest_of (o_Body req) (o_Body req1)" by (rule transport_rest [OF assms d])
  show ?case
  proof (cases "good_answer a1")
    case True
    then show ?thesis using Suc.prems d tr by (intro exI [of _ "[EvSleep t, EvDo req a1]"]) (simp add: rest_of_refl)
  next
    case False
    then have "retry_loop P n (t * 2) req1 a1 w1 = (r, w')" using Suc.prems d by simp
    then obtain es where es: "wd_trace w' = wd_trace w1 @ es" "sorted_wrt rest_of (o_Body req1 # sent_bodies es)"
      using Suc.IH by blast
    then show ?thesis using tr rest
      by (intro exI [of _ "EvSleep t # EvDo req a1 # es"]) (auto intro: rest_of_refl rest_of_trans)
  qed
qed

subsection \<open>Properties of doRequest\<close>

text \<open>
  C13: The attempts. \<open>doRequest\<close> makes one attempt and then at most \<open>Retries\<close> more, each after a
  pause; it stops at the first answer that is no error and no 503, it gives up only when the retries
  are used up, and what it returns is the answer of the last attempt made.
\<close>
theorem doRequest_attempts:
  assumes "doRequest P cfg req w = (r, w')"
  shows "\<exists>a0 qs. new_events w w' = EvDo req a0 # retry_events (retry_time cfg) qs \<and>
    length qs \<le> nat (sint (cfg_Retries cfg)) \<and> r = last (a0 # map snd qs) \<and>
    (\<forall>a \<in> set (butlast (a0 # map snd qs)). \<not> good_answer a) \<and>
    (good_answer r \<or> length qs = nat (sint (cfg_Retries cfg)))"
  using doRequest_run [OF assms] unfolding new_events_def attempts_end_def by fastforce

text \<open>
  C14: The pauses. The pause before the \<open>i\<close>-th retry (from 0) is \<open>RetryTime\<close> milliseconds doubled
  \<open>i\<close> times, as long as that fits 63 bits of nanoseconds; the product wraps, and from the 59th
  retry on the pause is 0 whatever \<open>RetryTime\<close> is.
\<close>
theorem retry_backoff:
  assumes "doRequest P cfg req w = (r, w')"
  shows "\<exists>k \<le> nat (sint (cfg_Retries cfg)). pauses (new_events w w') = map (backoff cfg) [0..<k] \<and>
    (\<forall>i. (0 \<le> sint (cfg_RetryTime cfg) \<and> sint (cfg_RetryTime cfg) * 1000000 * 2 ^ i < 2 ^ 63 \<longrightarrow>
        sint (backoff cfg i) = sint (cfg_RetryTime cfg) * 1000000 * 2 ^ i) \<and>
      (58 \<le> i \<longrightarrow> backoff cfg i = 0))"
proof -
  obtain a0 qs where run: "wd_trace w' = wd_trace w @ EvDo req a0 # retry_events (retry_time cfg) qs"
      "attempts_end (Suc (nat (sint (cfg_Retries cfg)))) (a0 # map snd qs) r"
    using doRequest_run [OF assms] by blast
  have "pauses (new_events w w') = map (backoff cfg) [0..<length qs]"
    using run(1) by (simp add: new_events_def pauses_retry retry_time_def backoff_def [abs_def])
  moreover have "length qs \<le> nat (sint (cfg_Retries cfg))" using run(2) by (simp add: attempts_end_def)
  ultimately show ?thesis using backoff_exact backoff_zero by blast
qed

text \<open>
  C15: The body is sent once. The attempts of a request share one body reader, which nothing resets: the first attempt
  has the whole body, and every retry at most what the attempts before it have left of it. So when the first attempt
  reads it to its end, as the transport does for a host that takes the request before it answers 503, all retries
  send an empty body.
\<close>
theorem retry_body_once:
  assumes "transport_ok P" and "doRequest P cfg req w = (r, w')" and "pf_Do P req (wd_env w) = (a, rest, e)"
  shows "\<exists>bs. sent_bodies (new_events w w') = o_Body req # bs \<and> sorted_wrt rest_of (rest # bs) \<and>
    (rest = [] \<longrightarrow> set bs \<subseteq> {[]})"
proof -
  obtain a1 req1 w1 where d: "Client_Do P req w = (a1, req1, w1)" by (metis prod_cases3)
  then have tr: "wd_trace w1 = wd_trace w @ [EvDo req a1]"
    by (auto simp: Client_Do_def split: prod.splits)
  have rest: "o_Body req1 = rest" using assms(3) d by (auto simp: Client_Do_def)
  have nil: "set bs \<subseteq> {[]}" if "sorted_wrt rest_of ([] # bs)" for bs
    using that by (auto simp: rest_of_def)
  show ?thesis
  proof (cases "good_answer a1")
    case True
    then show ?thesis using assms(2) d tr by (intro exI [of _ "[]"]) (simp add: doRequest_def new_events_def)
  next
    case False
    then have loop: "retry_loop P (nat (sint (cfg_Retries cfg))) (retry_time cfg) req1 a1 w1 = (r, w')"
      using assms(2) d by (simp add: doRequest_def)
    obtain es where "wd_trace w' = wd_trace w1 @ es" "sorted_wrt rest_of (o_Body req1 # sent_bodies es)"
      using retry_loop_bodies [OF assms(1) loop] by blast
    then show ?thesis using tr rest nil [of "sent_bodies es"] by (intro exI [of _ "sent_bodies es"]) (auto simp: new_events_def)
  qed
qed

subsection \<open>The events of process\<close>

definition refresh_events :: "gerror option \<Rightarrow> event list" where
  "refresh_events err = (case err of None \<Rightarrow> [] | Some _ \<Rightarrow> [EvRefresh])"

lemma refresh_if_trace: "wd_trace (refresh_if P err w) = wd_trace w @ refresh_events err"
  by (simp add: refresh_if_def refresh_events_def Session_Refresh_def split: option.split)

lemma Coll_Insert_trace:
  "Coll_Insert P c d w = (err, w') \<Longrightarrow> wd_trace w' = wd_trace w @ [EvInsert c d err]"
  by (auto simp: Coll_Insert_def split: prod.splits)

lemma Coll_Remove_trace:
  "Coll_Remove P c i w = (err, w') \<Longrightarrow> wd_trace w' = wd_trace w @ [EvRemove c i err]"
  by (auto simp: Coll_Remove_def split: prod.splits)

definition error_copy :: "config \<Rightarrow> gerror + http_response \<Rightarrow> reply \<Rightarrow> gerror option \<Rightarrow> event list" where
  "error_copy cfg a rp e =
     (if bad_answer a then EvInsert (errors_coll cfg) (reply_doc rp) e # refresh_events e else [])"

lemma save_reply_trace:
  "\<exists>e1 e2. wd_trace (save_reply P cfg a rp w) = wd_trace w @ error_copy cfg a rp e1 @
     EvInsert (responses_coll cfg) (reply_doc rp) e2 # refresh_events e2"
proof -
  obtain e1 w1 where i1: "Coll_Insert P (errors_coll cfg) (reply_doc rp) w = (e1, w1)" by fastforce
  let ?w = "if bad_answer a then refresh_if P e1 w1 else w"
  obtain e2 w2 where i2: "Coll_Insert P (responses_coll cfg) (reply_doc rp) ?w = (e2, w2)" by fastforce
  have "save_reply P cfg a rp w = refresh_if P e2 w2"
    using i1 i2 by (auto simp: save_reply_def Let_def split: if_splits)
  moreover have "wd_trace ?w = wd_trace w @ error_copy cfg a rp e1"
    using Coll_Insert_trace [OF i1] by (simp add: error_copy_def refresh_if_trace)
  ultimately show ?thesis
    using Coll_Insert_trace [OF i2]
    by (intro exI [of _ e1] exI [of _ e2]) (simp add: refresh_if_trace)
qed

lemma remove_petition_trace:
  "\<exists>e. wd_trace (remove_petition P cfg p w) =
     wd_trace w @ EvRemove (petitions_coll cfg) (p_ID p) e # refresh_events e"
proof -
  obtain e w1 where r: "Coll_Remove P (petitions_coll cfg) (p_ID p) w = (e, w1)" by fastforce
  then show ?thesis
    using Coll_Remove_trace [OF r]
    by (intro exI [of _ e]) (simp add: remove_petition_def refresh_if_trace)
qed

definition close_events :: "gerror + http_response \<Rightarrow> event list" where
  "close_events a = (case a of Inl _ \<Rightarrow> [] | Inr resp \<Rightarrow> [EvClose resp])"

lemma close_answer_trace: "wd_trace (close_answer a w) = wd_trace w @ close_events a"
  by (simp add: close_answer_def close_events_def Body_Close_def split: sum.split)

lemma petition_Request_id: "p_ID (snd (petition_Request p)) = p_ID p"
  by (simp add: petition_Request_def Let_def split: option.split sum.split)

lemma doRequest_extends: "doRequest P cfg req w = (a, w1) \<Longrightarrow> \<exists>es. wd_trace w1 = wd_trace w @ es"
  using doRequest_run by blast

definition broken_body :: "gerror + http_response \<Rightarrow> bool" where
  "broken_body a = (case a of Inl _ \<Rightarrow> False | Inr resp \<Rightarrow> isl (rs_Body resp))"

lemma newReply_panics: "(\<exists>e. newReply a p now = Panics e) \<longleftrightarrow> broken_body a"
  by (auto simp: newReply_def broken_body_def Let_def split: sum.split)

lemma newReply_nil_deref: "newReply a p1 t = Panics e \<Longrightarrow> e = nil_deref"
  by (auto simp: newReply_def Let_def split: sum.splits)

lemma process_run:
  assumes "petition_Request p = (Returns (Inr req), p1)" and "doRequest P cfg req w = (a, w1)"
    and "newReply a p1 (pf_Now P (wd_env w1)) = Returns rp"
    and "rp' = rp\<lparr>r_Created := bson_Now (pf_Now P (wd_env w))\<rparr>"
  shows "process P cfg p w = (Returns (), p1,
    close_answer a (remove_petition P cfg p1 (save_reply P cfg a rp' w1)))"
  using assms by (simp add: process_def Let_def)

subsection \<open>Properties of process\<close>

text \<open>
  The order of \<open>process\<close>. After the last attempt come, in this order and exactly once each: a
  copy of the reply into the errors collection when the request failed or its status is not 2xx, the
  reply into the responses collection, the removal of the petition by its id, and the closing of the
  response body; each store operation that failed is followed by a session refresh and by the rest
  of the sequence all the same. So a petition is removed only after an insert of its reply.
\<close>
theorem process_order:
  assumes "petition_Request p = (Returns (Inr req), p1)" and "doRequest P cfg req w = (a, w1)"
    and "process P cfg p w = (Returns (), p', w')"
  shows "\<exists>rp e1 e2 e3. newReply a p1 (pf_Now P (wd_env w1)) = Returns rp \<and> p' = p1 \<and>
    (let rp' = rp\<lparr>r_Created := bson_Now (pf_Now P (wd_env w))\<rparr> in
     wd_trace w' = wd_trace w1 @ error_copy cfg a rp' e1 @
       EvInsert (responses_coll cfg) (reply_doc rp') e2 # refresh_events e2 @
       EvRemove (petitions_coll cfg) (p_ID p) e3 # refresh_events e3 @ close_events a)"
proof -
  obtain rp where rp: "newReply a p1 (pf_Now P (wd_env w1)) = Returns rp"
    using assms by (cases "newReply a p1 (pf_Now P (wd_env w1))") (auto simp: process_def Let_def)
  let ?rp = "rp\<lparr>r_Created := bson_Now (pf_Now P (wd_env w))\<rparr>"
  have run: "p' = p1" "w' = close_answer a (remove_petition P cfg p1 (save_reply P cfg a ?rp w1))"
    using assms(3) process_run [OF assms(1,2) rp refl] by auto
  have i: "p_ID p1 = p_ID p" using petition_Request_id [of p] assms(1) by simp
  obtain e1 e2 where s: "wd_trace (save_reply P cfg a ?rp w1) = wd_trace w1 @ error_copy cfg a ?rp e1 @
      EvInsert (responses_coll cfg) (reply_doc ?rp) e2 # refresh_events e2"
    using save_reply_trace by blast
  obtain e3 where "wd_trace (remove_petition P cfg p1 (save_reply P cfg a ?rp w1)) =
      wd_trace (save_reply P cfg a ?rp w1) @
      EvRemove (petitions_coll cfg) (p_ID p) e3 # refresh_events e3"
    using remove_petition_trace [of P cfg p1] i by auto
  then have "wd_trace w' = wd_trace w1 @ error_copy cfg a ?rp e1 @
      EvInsert (responses_coll cfg) (reply_doc ?rp) e2 # refresh_events e2 @
      EvRemove (petitions_coll cfg) (p_ID p) e3 # refresh_events e3 @ close_events a"
    by (simp add: run(2) close_answer_trace s)
  then show ?thesis using rp run(1) unfolding Let_def by blast
qed

text \<open>
  C16: When a petition stays in the store. \<open>process\<close> makes no store operation and no request at all
  when the request cannot be built, which it does not report to anyone, and none after the request
  when the response's body breaks off: then it panics with the nil dereference of \<open>newReply\<close>, after
  closing that body. In both cases the petition is still stored and will be enqueued again by the
  next start.
\<close>
theorem process_failures:
  "case petition_Request p of
     (Panics e, p1) \<Rightarrow> process P cfg p w = (Panics e, p1, w)
   | (Returns (Inl err), p1) \<Rightarrow> process P cfg p w = (Returns (), p1, w)
   | (Returns (Inr req), p1) \<Rightarrow>
       (case doRequest P cfg req w of (a, w1) \<Rightarrow>
          if broken_body a
          then \<exists>w'. process P cfg p w = (Panics nil_deref, p1, w') \<and>
            wd_trace w' = wd_trace w1 @ close_events a \<and> wd_env w' = wd_env w1
          else \<exists>w'. process P cfg p w = (Returns (), p1, w'))"
proof -
  obtain r p1 where pr: "petition_Request p = (r, p1)" by fastforce
  consider e where "r = Panics e" | e where "r = Returns (Inl e)" | req where "r = Returns (Inr req)"
    by (metis outcome.exhaust sum.exhaust)
  then show ?thesis
  proof cases
    case 3
    obtain a w1 where d: "doRequest P cfg req w = (a, w1)" by fastforce
    have cl: "wd_env (close_answer a w1) = wd_env w1"
      by (simp add: close_answer_def Body_Close_def split: sum.split)
    show ?thesis
    proof (cases "newReply a p1 (pf_Now P (wd_env w1))")
      case (Returns rp)
      then have "\<not> broken_body a" using newReply_panics [of a p1 "pf_Now P (wd_env w1)"] by simp
      then show ?thesis using pr 3 d process_run [OF _ d Returns refl] by simp
    next
      case (Panics e)
      then have "broken_body a" "e = nil_deref"
        using newReply_panics [of a p1 "pf_Now P (wd_env w1)"] newReply_nil_deref by blast+
      then show ?thesis using pr 3 d Panics cl by (simp add: process_def close_answer_trace)
    qed
  qed (simp_all add: process_def pr)
qed

subsection \<open>What process does to the collections\<close>

lemma retry_loop_store:
  assumes "mongo_ok P db"
  shows "retry_loop P n t req a w = (r, w') \<Longrightarrow> db (wd_env w') = db (wd_env w)"
proof (induction n arbitrary: t req a w)
  case (Suc n)
  obtain a1 req1 w1 where d: "Client_Do P req (Sleep P t w) = (a1, req1, w1)" by (metis prod_cases3)
  have "db (wd_env w1) = db (wd_env w)" using mongo_frame [OF assms] d by metis
  then show ?case using Suc d by (auto split: if_splits)
qed simp

lemma doRequest_store:
  assumes "mongo_ok P db" and "doRequest P cfg req w = (r, w')"
  shows "db (wd_env w') = db (wd_env w)"
proof -
  obtain a1 req1 w1 where d: "Client_Do P req w = (a1, req1, w1)" by (metis prod_cases3)
  have "db (wd_env w1) = db (wd_env w)" using mongo_frame(4) [OF assms(1) d] .
  then show ?thesis using assms(2) d retry_loop_store [OF assms(1)]
    by (auto simp: doRequest_def split: if_splits)
qed

lemma refresh_if_store: "mongo_ok P db \<Longrightarrow> db (wd_env (refresh_if P e w)) = db (wd_env w)"
  by (simp add: refresh_if_def mongo_frame split: option.split)

lemma close_answer_store: "wd_env (close_answer a w) = wd_env w"
  by (simp add: close_answer_def Body_Close_def split: sum.split)

text \<open>Every store operation of the run was acknowledged.\<close>

fun acked :: "event \<Rightarrow> bool" where
  "acked (EvInsert c d e) \<longleftrightarrow> e = None"
| "acked (EvRemove c i e) \<longleftrightarrow> e = None"
| "acked _ \<longleftrightarrow> True"

lemma save_reply_store:
  assumes "mongo_ok P db" and "errors_coll cfg \<noteq> responses_coll cfg"
    and "wd_trace (save_reply P cfg a rp w) = wd_trace w @ es" and "\<forall>ev \<in> set es. acked ev"
  shows "db (wd_env (save_reply P cfg a rp w)) =
    (db (wd_env w))(errors_coll cfg := db (wd_env w) (errors_coll cfg) @
        (if bad_answer a then [reply_doc rp] else []),
      responses_coll cfg := db (wd_env w) (responses_coll cfg) @ [reply_doc rp])"
proof -
  obtain e1 w1 where i1: "Coll_Insert P (errors_coll cfg) (reply_doc rp) w = (e1, w1)" by fastforce
  define wm where "wm = (if bad_answer a then refresh_if P e1 w1 else w)"
  obtain e2 w2 where i2: "Coll_Insert P (responses_coll cfg) (reply_doc rp) wm = (e2, w2)" by fastforce
  have sv: "save_reply P cfg a rp w = refresh_if P e2 w2"
    using i1 i2 by (auto simp: save_reply_def Let_def wm_def split: if_splits)
  have tr: "wd_trace wm = wd_trace w @ error_copy cfg a rp e1"
    using Coll_Insert_trace [OF i1] by (simp add: error_copy_def refresh_if_trace wm_def)
  have es: "es = error_copy cfg a rp e1 @ EvInsert (responses_coll cfg) (reply_doc rp) e2 # refresh_events e2"
    using assms(3) Coll_Insert_trace [OF i2] tr by (simp add: sv refresh_if_trace)
  have "e2 = None" using assms(4) es by simp
  then have s2: "inserted (responses_coll cfg) (reply_doc rp) (db (wd_env wm)) (db (wd_env w2))"
    using mongo_Insert [OF assms(1) i2] by simp
  have s1: "db (wd_env wm) = (db (wd_env w))(errors_coll cfg := db (wd_env w) (errors_coll cfg) @
        (if bad_answer a then [reply_doc rp] else []))"
  proof (cases "bad_answer a")
    case True
    then have "e1 = None" using assms(4) es by (simp add: error_copy_def)
    then have "inserted (errors_coll cfg) (reply_doc rp) (db (wd_env w)) (db (wd_env w1))"
      using mongo_Insert [OF assms(1) i1] by simp
    then show ?thesis by (simp add: wm_def True refresh_if_store [OF assms(1)] inserted_def)
  qed (simp add: wm_def)
  show ?thesis
    using s2 assms(2) by (simp add: sv refresh_if_store [OF assms(1)] inserted_def s1)
qed

lemma remove_petition_store:
  assumes "mongo_ok P db"
    and "wd_trace (remove_petition P cfg p w) = wd_trace w @ es" and "\<forall>ev \<in> set es. acked ev"
  shows "removed (petitions_coll cfg) (p_ID p) (db (wd_env w)) (db (wd_env (remove_petition P cfg p w)))"
proof -
  obtain e w1 where r: "Coll_Remove P (petitions_coll cfg) (p_ID p) w = (e, w1)" by fastforce
  then have rm: "remove_petition P cfg p w = refresh_if P e w1" by (simp add: remove_petition_def)
  have "es = EvRemove (petitions_coll cfg) (p_ID p) e # refresh_events e"
    using assms(2) Coll_Remove_trace [OF r] by (simp add: rm refresh_if_trace)
  then have "e = None" using assms(3) by simp
  then show ?thesis
    using mongo_Remove [OF assms(1) r] by (simp add: rm refresh_if_store [OF assms(1)])
qed

definition collections_apart :: "config \<Rightarrow> bool" where
  "collections_apart cfg \<longleftrightarrow> distinct [petitions_coll cfg, responses_coll cfg, errors_coll cfg]"

text \<open>
  C8: A petition becomes a reply. When every store operation of \<open>process\<close> is acknowledged, the
  responses collection has gained exactly the reply of this petition, the errors collection the
  same document if the outcome was bad and nothing otherwise, and the petitions collection has lost
  exactly one document with the petition's id.
\<close>
theorem process_stores:
  assumes "mongo_ok P db" and "collections_apart cfg"
    and "petition_Request p = (Returns (Inr req), p1)" and "doRequest P cfg req w = (a, w1)"
    and "\<not> broken_body a" and "process P cfg p w = (res, p', w')"
    and "\<forall>ev \<in> set (new_events w1 w'). acked ev"
  shows "\<exists>rp xs d ys. r_ID rp = p_ID p \<and> r_Petition rp = Some p1 \<and> doc_id d = Some (p_ID p) \<and>
    db (wd_env w) (petitions_coll cfg) = xs @ d # ys \<and>
    db (wd_env w') = (db (wd_env w))(petitions_coll cfg := xs @ ys,
      responses_coll cfg := db (wd_env w) (responses_coll cfg) @ [reply_doc rp],
      errors_coll cfg := db (wd_env w) (errors_coll cfg) @ (if bad_answer a then [reply_doc rp] else []))"
proof -
  obtain rp0 where rp0: "newReply a p1 (pf_Now P (wd_env w1)) = Returns rp0"
    using assms(5) newReply_panics [of a p1 "pf_Now P (wd_env w1)"]
    by (cases "newReply a p1 (pf_Now P (wd_env w1))") auto
  define rp where "rp = rp0\<lparr>r_Created := bson_Now (pf_Now P (wd_env w))\<rparr>"
  let ?w2 = "save_reply P cfg a rp w1"
  let ?w3 = "remove_petition P cfg p1 ?w2"
  have w': "w' = close_answer a ?w3"
    using assms(6) process_run [OF assms(3,4) rp0 rp_def] by auto
  have i: "p_ID p1 = p_ID p" using petition_Request_id [of p] assms(3) by simp
  have rp: "r_ID rp = p_ID p" "r_Petition rp = Some p1"
    using newReply_id [OF rp0] i by (simp_all add: rp_def)
  obtain es1 where t2: "wd_trace ?w2 = wd_trace w1 @ es1" using save_reply_trace by metis
  obtain es2 where t3: "wd_trace ?w3 = wd_trace ?w2 @ es2" using remove_petition_trace by metis
  have es: "new_events w1 w' = es1 @ es2 @ close_events a"
    by (simp add: new_events_def w' close_answer_trace t2 t3)
  have s0: "db (wd_env w1) = db (wd_env w)" by (rule doRequest_store [OF assms(1,4)])
  have ap: "petitions_coll cfg \<noteq> responses_coll cfg" "petitions_coll cfg \<noteq> errors_coll cfg"
      "errors_coll cfg \<noteq> responses_coll cfg"
    using assms(2) by (auto simp: collections_apart_def)
  note s2 = save_reply_store [OF assms(1) ap(3) t2]
  note s3 = remove_petition_store [OF assms(1) t3]
  have "removed (petitions_coll cfg) (p_ID p) (db (wd_env ?w2)) (db (wd_env w'))"
    using s3 assms(7) es by (simp add: w' close_answer_store i)
  then obtain xs d ys where "db (wd_env ?w2) (petitions_coll cfg) = xs @ d # ys"
      "doc_id d = Some (p_ID p)" "db (wd_env w') = (db (wd_env ?w2))(petitions_coll cfg := xs @ ys)"
    unfolding removed_def by blast
  moreover have "db (wd_env ?w2) = (db (wd_env w))(errors_coll cfg := db (wd_env w) (errors_coll cfg) @
        (if bad_answer a then [reply_doc rp] else []),
      responses_coll cfg := db (wd_env w) (responses_coll cfg) @ [reply_doc rp])"
    using s2 assms(7) es s0 by simp
  ultimately show ?thesis using rp ap
    by (intro exI [of _ rp] exI [of _ xs] exI [of _ d] exI [of _ ys]) (simp add: fun_upd_twist)
qed

text \<open>
  C17: A petition can be lost. When the store refuses the inserts but acknowledges the removal, as
  with a full or read-only responses collection, \<open>process\<close> ends normally with the petition gone and
  no reply stored anywhere.
\<close>
theorem process_loses_petition:
  assumes "mongo_ok P db" and "\<forall>c d e. \<exists>err. pf_Insert P c d e = (Some err, e)"
    and "petition_Request p = (Returns (Inr req), p1)" and "doRequest P cfg req w = (a, w1)"
    and "\<not> broken_body a" and "process P cfg p w = (res, p', w')"
    and "EvRemove (petitions_coll cfg) (p_ID p) None \<in> set (new_events w1 w')"
  shows "res = Returns () \<and>
    removed (petitions_coll cfg) (p_ID p) (db (wd_env w)) (db (wd_env w'))"
proof -
  obtain rp0 where rp0: "newReply a p1 (pf_Now P (wd_env w1)) = Returns rp0"
    using assms(5) newReply_panics [of a p1 "pf_Now P (wd_env w1)"]
    by (cases "newReply a p1 (pf_Now P (wd_env w1))") auto
  define rp where "rp = rp0\<lparr>r_Created := bson_Now (pf_Now P (wd_env w))\<rparr>"
  let ?w2 = "save_reply P cfg a rp w1"
  let ?w3 = "remove_petition P cfg p1 ?w2"
  have w': "res = Returns ()" "w' = close_answer a ?w3"
    using assms(6) process_run [OF assms(3,4) rp0 rp_def] by auto
  have i: "p_ID p1 = p_ID p" using petition_Request_id [of p] assms(3) by simp
  have ins: "db (wd_env w') = db (wd_env w)" if "Coll_Insert P c d w = (e, w')" for c d w e w'
  proof -
    obtain err where "pf_Insert P c d (wd_env w) = (Some err, wd_env w)" using assms(2) by blast
    then show ?thesis using that by (auto simp: Coll_Insert_def)
  qed
  have "db (wd_env ?w2) = db (wd_env w1)"
    by (auto simp: save_reply_def Let_def refresh_if_store [OF assms(1)] split: prod.split if_split dest!: ins)
  then have s2: "db (wd_env ?w2) = db (wd_env w)" using doRequest_store [OF assms(1,4)] by simp
  obtain e w4 where r: "Coll_Remove P (petitions_coll cfg) (p_ID p1) ?w2 = (e, w4)" by fastforce
  obtain e1 e2 where t2: "wd_trace ?w2 = wd_trace w1 @ error_copy cfg a rp e1 @
      EvInsert (responses_coll cfg) (reply_doc rp) e2 # refresh_events e2"
    using save_reply_trace by blast
  have w4: "?w3 = refresh_if P e w4" using r by (simp add: remove_petition_def)
  have "new_events w1 w' = (error_copy cfg a rp e1 @
      EvInsert (responses_coll cfg) (reply_doc rp) e2 # refresh_events e2) @
      EvRemove (petitions_coll cfg) (p_ID p) e # refresh_events e @ close_events a"
    using Coll_Remove_trace [OF r] t2
    by (simp add: new_events_def w'(2) close_answer_trace w4 refresh_if_trace i)
  then have "e = None"
    using assms(7)
    by (auto simp: error_copy_def refresh_events_def close_events_def split: if_splits option.splits sum.splits)
  then have "removed (petitions_coll cfg) (p_ID p) (db (wd_env w)) (db (wd_env w4))"
    using mongo_Remove [OF assms(1) r] by (simp add: s2 i)
  then show ?thesis
    using w' by (simp add: close_answer_store w4 refresh_if_store [OF assms(1)])
qed

text \<open>
  Starting and stopping. \<open>Start\<close> of a fresh consumer with a number that is not negative makes
  that many goroutines and a wait group counter equal to it, and panics for a negative number; \<open>Stop\<close>
  panics before \<open>Start\<close>, succeeds once after it and panics the second time.
\<close>
theorem consumer_start_stop:
  "(case Start n new_consumer of
      Panics e \<Rightarrow> sint n < 0
    | Returns c \<Rightarrow> 0 \<le> sint n \<and> cs_wg c = sint n \<and> int (cs_loops c) = sint n \<and>
        (case consumer_Stop c of
           Panics e \<Rightarrow> False
         | Returns c' \<Rightarrow> cs_endChan c' = ClosedChan \<and> cs_wg c' = cs_wg c \<and>
             consumer_Stop c' = Panics ''close of closed channel'')) \<and>
   consumer_Stop new_consumer = Panics ''close of nil channel''"
  by (auto simp: Start_def consumer_Stop_def new_consumer_def Let_def)

subsection \<open>A run\<close>

definition sample_out :: out_request where
  "sample_out = \<lparr>o_Method = ''POST'', o_URL = empty_url, o_Host = ''h'', o_Header = [], o_Trailer = [],
     o_Body = [1, 2]\<rparr>"

definition sample_resp :: "int \<Rightarrow> http_response" where
  "sample_resp code = \<lparr>rs_StatusCode = code, rs_Proto = ''HTTP/1.1'', rs_Header = [], rs_Trailer = [],
     rs_Body = Inr [7]\<rparr>"

definition sample_world :: "(gerror + http_response) list \<Rightarrow> mem world" where
  "sample_world as = \<lparr>wd_env = \<lparr>m_db = (\<lambda>_. [])(''db.A_p'' := [petition_doc sample_petition]),
     m_answers = as, m_clock = 0\<rparr>, wd_trace = []\<rparr>"

lemma sample_retry_run:
  "\<exists>w'. doRequest (mem_platform False) sample_cfg sample_out
      (sample_world [Inr (sample_resp 503), Inr (sample_resp 200)]) =
      (Inr (sample_resp 200), w') \<and>
    wd_trace w' = [EvDo sample_out (Inr (sample_resp 503)), EvSleep 1000000000,
      EvDo (sample_out\<lparr>o_Body := []\<rparr>) (Inr (sample_resp 200))]"
  by (simp add: doRequest_def Client_Do_def Sleep_def mem_platform_def sample_world_def sample_cfg_def
      good_answer_def sample_resp_def retry_time_def zero_config_def numeral_2_eq_2)

theorem doRequest_attempts_witness:
  "\<exists>r w' a0 qs. doRequest (mem_platform False) sample_cfg sample_out
      (sample_world [Inr (sample_resp 503), Inr (sample_resp 200)]) = (r, w') \<and>
    new_events (sample_world [Inr (sample_resp 503), Inr (sample_resp 200)]) w' =
      EvDo sample_out a0 # retry_events (retry_time sample_cfg) qs \<and> length qs \<le> 2"
proof -
  obtain w' where run: "doRequest (mem_platform False) sample_cfg sample_out
      (sample_world [Inr (sample_resp 503), Inr (sample_resp 200)]) = (Inr (sample_resp 200), w')"
    using sample_retry_run by blast
  have "nat (sint (cfg_Retries sample_cfg)) = 2" by (simp add: sample_cfg_def)
  with doRequest_attempts [OF run] run show ?thesis by metis
qed

theorem retry_backoff_witness:
  "\<exists>r w'. doRequest (mem_platform False) sample_cfg sample_out
      (sample_world [Inr (sample_resp 503), Inr (sample_resp 200)]) = (r, w') \<and>
    (\<exists>k \<le> 2. pauses (new_events (sample_world [Inr (sample_resp 503), Inr (sample_resp 200)]) w') =
      map (backoff sample_cfg) [0..<k]) \<and> sint (backoff sample_cfg 1) = 2000000000 \<and>
    backoff sample_cfg 58 = 0"
proof -
  obtain w' where run: "doRequest (mem_platform False) sample_cfg sample_out
      (sample_world [Inr (sample_resp 503), Inr (sample_resp 200)]) = (Inr (sample_resp 200), w')"
    using sample_retry_run by blast
  have "nat (sint (cfg_Retries sample_cfg)) = 2" "sint (cfg_RetryTime sample_cfg) = 1000"
    by (simp_all add: sample_cfg_def)
  with retry_backoff [OF run] run show ?thesis
    by (intro exI [of _ "Inr (sample_resp 200)"] exI [of _ w'])
       (auto dest: spec [of _ "1::nat"] spec [of _ "58::nat"])
qed

theorem retry_body_once_witness:
  "\<exists>r w'. doRequest (mem_platform False) sample_cfg sample_out
      (sample_world [Inr (sample_resp 503), Inr (sample_resp 200)]) = (r, w') \<and>
    sent_bodies (new_events (sample_world [Inr (sample_resp 503), Inr (sample_resp 200)]) w') = [[1, 2], []]"
proof -
  obtain w' where run: "doRequest (mem_platform False) sample_cfg sample_out
      (sample_world [Inr (sample_resp 503), Inr (sample_resp 200)]) = (Inr (sample_resp 200), w')"
    and tr: "wd_trace w' = [EvDo sample_out (Inr (sample_resp 503)), EvSleep 1000000000,
      EvDo (sample_out\<lparr>o_Body := []\<rparr>) (Inr (sample_resp 200))]"
    using sample_retry_run by blast
  let ?w = "sample_world [Inr (sample_resp 503), Inr (sample_resp 200)]"
  obtain e where "pf_Do (mem_platform False) sample_out (wd_env ?w) = (Inr (sample_resp 503), [], e)"
    by (simp add: mem_platform_def sample_world_def)
  from retry_body_once [OF mem_platform_transport run this] obtain bs where
    bs: "sent_bodies (new_events ?w w') = o_Body sample_out # bs" "set bs \<subseteq> {[]}" by blast
  have "new_events ?w w' = wd_trace w'" by (simp add: new_events_def) (simp add: sample_world_def)
  then have "length (sent_bodies (new_events ?w w')) = 2" by (simp add: tr)
  then obtain b where "bs = [b]" using bs(1) by (auto simp: length_Suc_conv)
  then show ?thesis using bs run by (auto simp: sample_out_def)
qed

definition sample_w1 :: "out_request \<Rightarrow> mem world" where
  "sample_w1 req = emit (EvDo req (Inr (sample_resp 404)))
     ((wd_env (sample_world []))) (sample_world [])"

lemma sample_Request: "\<exists>req p1. petition_Request sample_petition = (Returns (Inr req), p1)"
proof -
  have "p_URL sample_petition = Some (rq_URL sample_request)"
      "p_TargetScheme sample_petition \<in> {''http'', ''https''}"
    by (simp_all add: sample_petition_def)
  from petition_Request_eq [OF this(1) sample_origin_form(1,2) this(2)] sample_origin_form(3)
  show ?thesis by (simp add: Let_def)
qed

lemma sample_doRequest:
  "doRequest (mem_platform broken) sample_cfg req (sample_world [Inr (sample_resp 404)]) =
     (Inr (sample_resp 404), sample_w1 req)"
  by (simp add: doRequest_def Client_Do_def mem_platform_def sample_world_def good_answer_def
      sample_resp_def sample_w1_def emit_def)

lemma sample_body: "\<not> broken_body (Inr (sample_resp 404))"
  by (simp add: broken_body_def sample_resp_def)

lemma sample_process:
  assumes "petition_Request sample_petition = (Returns (Inr req), p1)"
  shows "\<exists>w'. process (mem_platform broken) sample_cfg sample_petition
      (sample_world [Inr (sample_resp 404)]) = (Returns (), p1, w')"
proof -
  obtain rp where "newReply (Inr (sample_resp 404)) p1 (pf_Now (mem_platform broken) (wd_env (sample_w1 req))) = Returns rp"
    using sample_body newReply_panics [of "Inr (sample_resp 404)" p1
        "pf_Now (mem_platform broken) (wd_env (sample_w1 req))"]
    by (cases "newReply (Inr (sample_resp 404)) p1 (pf_Now (mem_platform broken) (wd_env (sample_w1 req)))") auto
  from process_run [OF assms sample_doRequest this refl] show ?thesis by blast
qed

lemma sample_colls:
  "petitions_coll sample_cfg = ''db.A_p''" "responses_coll sample_cfg = ''db.r''"
  "errors_coll sample_cfg = ''db.e''" "collections_apart sample_cfg"
  by (simp_all add: petitions_coll_def responses_coll_def errors_coll_def sample_cfg_def
      collections_apart_def)

lemma sample_events:
  assumes "petition_Request sample_petition = (Returns (Inr req), p1)"
    and "process (mem_platform broken) sample_cfg sample_petition
      (sample_world [Inr (sample_resp 404)]) = (res, p', w')"
  shows "\<exists>rp. new_events (sample_w1 req) w' =
    (if broken then [EvInsert ''db.e'' (reply_doc rp) (Some ''not master''), EvRefresh,
        EvInsert ''db.r'' (reply_doc rp) (Some ''not master''), EvRefresh]
     else [EvInsert ''db.e'' (reply_doc rp) None, EvInsert ''db.r'' (reply_doc rp) None]) @
    [EvRemove ''db.A_p'' (p_ID sample_petition) None, EvClose (sample_resp 404)]"
proof -
  obtain rp where rp: "newReply (Inr (sample_resp 404)) p1
      (pf_Now (mem_platform broken) (wd_env (sample_w1 req))) = Returns rp"
    using sample_body newReply_panics [of "Inr (sample_resp 404)" p1
        "pf_Now (mem_platform broken) (wd_env (sample_w1 req))"]
    by (cases "newReply (Inr (sample_resp 404)) p1 (pf_Now (mem_platform broken) (wd_env (sample_w1 req)))") auto
  let ?rp = "rp\<lparr>r_Created := bson_Now (pf_Now (mem_platform broken)
    (wd_env (sample_world [Inr (sample_resp 404)])))\<rparr>"
  let ?w1 = "sample_w1 req"
  have w': "w' = close_answer (Inr (sample_resp 404)) (remove_petition (mem_platform broken) sample_cfg p1
      (save_reply (mem_platform broken) sample_cfg (Inr (sample_resp 404)) ?rp ?w1))"
    using assms(2) process_run [OF assms(1) sample_doRequest rp refl] by auto
  have i: "p_ID p1 = p_ID sample_petition" using petition_Request_id [of sample_petition] assms(1) by simp
  have bad: "bad_answer (Inr (sample_resp 404))" by (simp add: bad_answer_def sample_resp_def)
  show ?thesis
    by (intro exI [of _ ?rp])
       (simp add: w' close_answer_def Body_Close_def save_reply_def bad sample_colls Coll_Insert_def
         Coll_Remove_def remove_petition_def refresh_if_def Session_Refresh_def new_events_def
         mem_platform_def sample_w1_def sample_world_def i Let_def)
qed

theorem process_order_witness:
  "\<exists>req p1 w' rp e1 e2 e3. petition_Request sample_petition = (Returns (Inr req), p1) \<and>
    process (mem_platform False) sample_cfg sample_petition (sample_world [Inr (sample_resp 404)]) =
      (Returns (), p1, w') \<and>
    wd_trace w' = wd_trace (sample_w1 req) @ error_copy sample_cfg (Inr (sample_resp 404)) rp e1 @
      EvInsert (responses_coll sample_cfg) (reply_doc rp) e2 # refresh_events e2 @
      EvRemove (petitions_coll sample_cfg) (p_ID sample_petition) e3 # refresh_events e3 @
      close_events (Inr (sample_resp 404))"
proof -
  obtain req p1 where r: "petition_Request sample_petition = (Returns (Inr req), p1)"
    using sample_Request by blast
  obtain w' where p: "process (mem_platform False) sample_cfg sample_petition
      (sample_world [Inr (sample_resp 404)]) = (Returns (), p1, w')"
    using sample_process [OF r] by blast
  from process_order [OF r sample_doRequest p] r p show ?thesis
    unfolding Let_def by blast
qed

theorem process_stores_witness:
  "\<exists>req p1 w' rp. petition_Request sample_petition = (Returns (Inr req), p1) \<and>
    process (mem_platform False) sample_cfg sample_petition (sample_world [Inr (sample_resp 404)]) =
      (Returns (), p1, w') \<and> r_ID rp = p_ID sample_petition \<and>
    m_db (wd_env w') ''db.A_p'' = [] \<and> m_db (wd_env w') ''db.r'' = [reply_doc rp]"
proof -
  obtain req p1 where r: "petition_Request sample_petition = (Returns (Inr req), p1)"
    using sample_Request by blast
  obtain w' where p: "process (mem_platform False) sample_cfg sample_petition
      (sample_world [Inr (sample_resp 404)]) = (Returns (), p1, w')"
    using sample_process [OF r] by blast
  have "\<forall>ev \<in> set (new_events (sample_w1 req) w'). acked ev"
    using sample_events [OF r p] by auto
  from process_stores [OF mem_platform_mongo sample_colls(4) r sample_doRequest sample_body p this]
  obtain rp xs d ys where "r_ID rp = p_ID sample_petition"
      "[petition_doc sample_petition] = xs @ d # ys"
      "m_db (wd_env w') ''db.A_p'' = xs @ ys" "m_db (wd_env w') ''db.r'' = [reply_doc rp]"
    by (auto simp: sample_colls) (simp add: sample_world_def)
  then show ?thesis using r p by (intro exI conjI) (auto simp: Cons_eq_append_conv)
qed

theorem process_loses_petition_witness:
  "\<exists>req p1 w'. petition_Request sample_petition = (Returns (Inr req), p1) \<and>
    process (mem_platform True) sample_cfg sample_petition (sample_world [Inr (sample_resp 404)]) =
      (Returns (), p1, w') \<and>
    removed ''db.A_p'' (p_ID sample_petition) (m_db (wd_env (sample_world []))) (m_db (wd_env w'))"
proof -
  obtain req p1 where r: "petition_Request sample_petition = (Returns (Inr req), p1)"
    using sample_Request by blast
  obtain w' where p: "process (mem_platform True) sample_cfg sample_petition
      (sample_world [Inr (sample_resp 404)]) = (Returns (), p1, w')"
    using sample_process [OF r] by blast
  have ins: "\<forall>c d e. \<exists>err. pf_Insert (mem_platform True) c d e = (Some err, e)"
    by (simp add: mem_platform_def)
  have ev: "EvRemove (petitions_coll sample_cfg) (p_ID sample_petition) None
      \<in> set (new_events (sample_w1 req) w')"
    using sample_events [OF r p] by (auto simp: sample_colls)
  have "m_db (wd_env (sample_world [Inr (sample_resp 404)])) = m_db (wd_env (sample_world []))"
    by (simp add: sample_world_def)
  then show ?thesis
    using process_loses_petition [OF mem_platform_mongo ins r sample_doRequest sample_body p ev] r p
    by (auto simp: sample_colls)
qed

end
