(* ===== verification/Fifo.thy ===== *)
theory Fifo
  imports Prelude
begin

text \<open>
  The contract of a queue as its clients use it: an item that is taken in goes to the back, items
  come out at the front, and a queue gives nothing only when it is empty. Go's buffered channel and
  the ring buffer of \<open>mgo\<close> are interpretations. The client's view, proved once here: whatever the
  sequence of operations, what came out is the front of what was in and went in, in order.
\<close>

datatype 'a qop = Enq 'a | Deq

definition pushed :: "'a qop list \<Rightarrow> 'a list" where
  "pushed ops = concat (map (\<lambda>op. case op of Enq x \<Rightarrow> [x] | Deq \<Rightarrow> []) ops)"

lemma pushed_simps [simp]:
  "pushed [] = []" "pushed (Enq x # ops) = x # pushed ops" "pushed (Deq # ops) = pushed ops"
  by (simp_all add: pushed_def)

locale fifo =
  fixes enq :: "'a \<Rightarrow> 'q \<Rightarrow> 'q option"
    and deq :: "'q \<Rightarrow> ('a \<times> 'q) option"
    and content :: "'q \<Rightarrow> 'a list"
    and ok :: "'q \<Rightarrow> bool"
  assumes enq_Some: "ok q \<Longrightarrow> enq x q = Some q' \<Longrightarrow> ok q' \<and> content q' = content q @ [x]"
    and deq_None: "ok q \<Longrightarrow> deq q = None \<Longrightarrow> content q = []"
    and deq_Some: "ok q \<Longrightarrow> deq q = Some (x, q') \<Longrightarrow> ok q' \<and> content q = x # content q'"
begin

text \<open>A run of operations: what was taken in, what came out, and the queue after it.\<close>

fun run :: "'a qop list \<Rightarrow> 'q \<Rightarrow> 'a list \<times> 'a list \<times> 'q" where
  "run [] q = ([], [], q)"
| "run (Enq x # ops) q =
     (case enq x q of
        None \<Rightarrow> run ops q
      | Some q' \<Rightarrow> (case run ops q' of (ins, outs, q'') \<Rightarrow> (x # ins, outs, q'')))"
| "run (Deq # ops) q =
     (case deq q of
        None \<Rightarrow> run ops q
      | Some (x, q') \<Rightarrow> (case run ops q' of (ins, outs, q'') \<Rightarrow> (ins, x # outs, q'')))"

lemma run_fifo:
  "ok q \<Longrightarrow> run ops q = (ins, outs, q') \<Longrightarrow> ok q' \<and> content q @ ins = outs @ content q'"
proof (induction ops q arbitrary: ins outs q' rule: run.induct)
  case (1 q)
  then show ?case by simp
next
  case (2 x ops q)
  then show ?case
    by (fastforce split: option.splits prod.splits dest: enq_Some)
next
  case (3 ops q)
  then show ?case
    by (fastforce split: option.splits prod.splits dest: deq_Some)
qed

lemma run_order: "ok q \<Longrightarrow> content q = [] \<Longrightarrow> run ops q = (ins, outs, q') \<Longrightarrow> \<exists>rest. ins = outs @ rest"
  using run_fifo by fastforce

lemma deq_enq: "ok q \<Longrightarrow> content q = [] \<Longrightarrow> enq x q = Some q' \<Longrightarrow> \<exists>q''. deq q' = Some (x, q'')"
proof (cases "deq q'")
  case None
  assume "ok q" "content q = []" "enq x q = Some q'"
  then have "ok q'" "content q' = [x]" using enq_Some by auto
  then show ?thesis using deq_None None by fastforce
next
  case (Some p)
  assume "ok q" "content q = []" "enq x q = Some q'"
  then have "ok q'" "content q' = [x]" using enq_Some by auto
  then show ?thesis using deq_Some Some by (cases p) fastforce
qed

end

end
