(* ===== verification/Gochan.thy ===== *)
theory Gochan
  imports Fifo
begin

text \<open>
  A buffered Go channel: a capacity and the values in the buffer, oldest first. A send succeeds at
  once while the buffer has room (the case of a receiver that is already waiting is part of the
  steps in theory \<open>System\<close>), a receive while there is a value.
\<close>

record 'a gochan =
  ch_cap :: nat
  ch_buf :: "'a list"

definition make_chan :: "goint \<Rightarrow> 'a gochan outcome" where
  "make_chan n =
     (if sint n < 0 then Panics ''makechan: size out of range''
      else Returns \<lparr>ch_cap = nat (sint n), ch_buf = []\<rparr>)"

definition chan_put :: "'a \<Rightarrow> 'a gochan \<Rightarrow> 'a gochan option" where
  "chan_put x c = (if length (ch_buf c) < ch_cap c then Some (c\<lparr>ch_buf := ch_buf c @ [x]\<rparr>) else None)"

definition chan_get :: "'a gochan \<Rightarrow> ('a \<times> 'a gochan) option" where
  "chan_get c = (case ch_buf c of [] \<Rightarrow> None | x # xs \<Rightarrow> Some (x, c\<lparr>ch_buf := xs\<rparr>))"

definition chan_ok :: "'a gochan \<Rightarrow> bool" where
  "chan_ok c \<longleftrightarrow> length (ch_buf c) \<le> ch_cap c"

interpretation gc: fifo chan_put chan_get ch_buf chan_ok
  by unfold_locales
     (auto simp: chan_put_def chan_get_def chan_ok_def split: if_splits list.splits)

lemma chan_put_cap: "chan_put x c = Some c' \<Longrightarrow> ch_cap c' = ch_cap c"
  by (auto simp: chan_put_def split: if_splits)

lemma chan_get_cap: "chan_get c = Some (x, c') \<Longrightarrow> ch_cap c' = ch_cap c"
  by (auto simp: chan_get_def split: list.splits)

lemma chan_put_buf:
  "chan_put x c = Some c' \<Longrightarrow> ch_buf c' = ch_buf c @ [x] \<and> length (ch_buf c) < ch_cap c"
  by (auto simp: chan_put_def split: if_splits)

lemma chan_get_buf: "chan_get c = Some (x, c') \<Longrightarrow> ch_buf c = x # ch_buf c'"
  by (auto simp: chan_get_def split: list.splits)

lemma chan_put_None: "chan_put x c = None \<longleftrightarrow> ch_cap c \<le> length (ch_buf c)"
  by (auto simp: chan_put_def)

lemma chan_get_None: "chan_get c = None \<longleftrightarrow> ch_buf c = []"
  by (auto simp: chan_get_def split: list.splits)

lemma chan_ok_put: "chan_put x c = Some c' \<Longrightarrow> chan_ok c \<Longrightarrow> chan_ok c'"
  using gc.enq_Some [of c x c'] by simp

lemma chan_ok_get: "chan_get c = Some (x, c') \<Longrightarrow> chan_ok c \<Longrightarrow> chan_ok c'"
  using gc.deq_Some [of c x c'] by simp

lemma make_chan_ok: "make_chan n = Returns c \<Longrightarrow> chan_ok c \<and> ch_buf c = []"
  by (auto simp: make_chan_def chan_ok_def split: if_splits)

text \<open>
  The request channel keeps order and bound: through any sequence of sends that found room and
  receives, on a channel made with any capacity, the values received are a prefix of the values
  sent, in the order they were sent, and the rest, at most the capacity, is in the buffer.
\<close>
theorem channel_fifo:
  assumes "make_chan n = Returns c" and "gc.run ops c = (ins, outs, c')"
  shows "ins = outs @ ch_buf c' \<and> length (ch_buf c') \<le> ch_cap c'"
  using gc.run_fifo [OF _ assms(2)] make_chan_ok [OF assms(1)] by (simp add: chan_ok_def)

theorem channel_fifo_witness:
  "\<exists>c c'. make_chan 2 = Returns c \<and>
     gc.run [Enq (1::nat), Enq 2, Enq 3, Deq, Enq 4] c = ([1, 2, 4], [1], c') \<and> ch_buf c' = [2, 4]"
proof -
  let ?c = "\<lparr>ch_cap = 2, ch_buf = []\<rparr> :: nat gochan"
  have m: "make_chan 2 = Returns ?c" by (simp add: make_chan_def)
  have r: "gc.run [Enq (1::nat), Enq 2, Enq 3, Deq, Enq 4] ?c =
      ([1, 2, 4], [1], \<lparr>ch_cap = 2, ch_buf = [2, 4]\<rparr>)"
    by (simp add: chan_put_def chan_get_def)
  show ?thesis using channel_fifo [OF m r] m r by fastforce
qed

end
