(* ===== verification/Listener.thy ===== *)
theory Listener
  imports Platform Gochan
begin

text \<open>
  \<open>listener.go\<close>: the HTTP handler that stores a request as a petition and enqueues it, and the flag
  that stops it. The channel is the buffer \<open>ch\<close>; \<open>parked\<close> says whether a consumer is blocked in a
  receive, which lets a send through without room in the buffer.
\<close>

subsection \<open>The flag\<close>

definition listener_Stop :: "64 word \<Rightarrow> 64 word" where
  "listener_Stop stopping = 1"

definition Stopped :: "64 word \<Rightarrow> bool" where
  "Stopped stopping \<longleftrightarrow> stopping \<noteq> 0"

subsection \<open>ServeHTTP\<close>

text \<open>
  What a call leaves: the response, the buffer, the petition given to a waiting consumer directly,
  the random source, the world, and the text of a panic (which \<open>net/http\<close> catches).
\<close>

record ('e, 'r) served =
  sv_writer :: resp_writer
  sv_chan :: "petition gochan"
  sv_handed :: "petition option"
  sv_rand :: 'r
  sv_world :: "'e world"
  sv_panic :: "string option"

datatype sent = Handed | Buffered "petition gochan" | NotSent

definition try_send :: "bool \<Rightarrow> petition \<Rightarrow> petition gochan \<Rightarrow> sent" where
  "try_send parked p ch =
     (if parked then Handed
      else case chan_put p ch of Some ch' \<Rightarrow> Buffered ch' | None \<Rightarrow> NotSent)"

definition quoted :: "string \<Rightarrow> string" where "quoted s = go_quote s"

definition text_stopping :: string where
  "text_stopping = ''{'' @ quoted ''error'' @ '':'' @ quoted ''Server is shutting down'' @ ''}''"

definition text_busy :: string where
  "text_busy = ''{'' @ quoted ''error'' @ '':'' @ quoted ''Server is busy'' @ ''}''"

definition text_bad :: "gerror \<Rightarrow> string" where
  "text_bad e = ''{'' @ quoted ''error'' @ '': '' @ quoted e @ '' }''"

definition text_store :: "gerror \<Rightarrow> string \<Rightarrow> string" where
  "text_store e i = ''{'' @ quoted ''error'' @ '': '' @ quoted e @ '', '' @ quoted ''ref'' @ '':'' @ quoted i @ '' }''"

definition text_id :: "string \<Rightarrow> string" where
  "text_id i = ''{'' @ quoted ''id'' @ '':'' @ quoted i @ ''}'' @ [CHR 10]"

definition ServeHTTP ::
  "'e platform \<Rightarrow> 'r rand \<Rightarrow> config \<Rightarrow> 64 word \<Rightarrow> bool \<Rightarrow> petition gochan \<Rightarrow> http_request \<Rightarrow> 'r \<Rightarrow>
   'e world \<Rightarrow> ('e, 'r) served" where
  "ServeHTTP P rd cfg stopping parked ch req r w =
     (let wr = w_Set ''Content-Type'' ''application/json'' new_writer;
          sv = \<lparr>sv_writer = wr, sv_chan = ch, sv_handed = None, sv_rand = r, sv_world = w,
                sv_panic = None\<rparr>
      in if Stopped stopping then sv\<lparr>sv_writer := http_Error text_stopping 503 wr\<rparr>
         else case newPetition rd (pf_Now P (wd_env w)) req r of
             (Panics e, _, r') \<Rightarrow> sv\<lparr>sv_rand := r', sv_panic := Some e\<rparr>
           | (Returns (Inl e), _, r') \<Rightarrow>
               sv\<lparr>sv_rand := r', sv_writer := http_Error (text_bad e) 400 wr\<rparr>
           | (Returns (Inr p), _, r') \<Rightarrow>
               (let sv = sv\<lparr>sv_rand := r'\<rparr> in
                case Coll_Insert P (petitions_coll cfg) (petition_doc p) w of
                  (Some e, w1) \<Rightarrow>
                    sv\<lparr>sv_writer := http_Error (text_store e (p_ID p)) 500 wr,
                       sv_world := Session_Refresh P w1\<rparr>
                | (None, w1) \<Rightarrow>
                    (case try_send parked p ch of
                       Handed \<Rightarrow>
                         sv\<lparr>sv_handed := Some p, sv_writer := w_Write (text_id (p_ID p)) wr, sv_world := w1\<rparr>
                     | Buffered ch' \<Rightarrow>
                         sv\<lparr>sv_chan := ch', sv_writer := w_Write (text_id (p_ID p)) wr, sv_world := w1\<rparr>
                     | NotSent \<Rightarrow>
                         (case Coll_Remove P (petitions_coll cfg) (p_ID p) w1 of
                            (None, w2) \<Rightarrow>
                              sv\<lparr>sv_writer := http_Error text_busy 500 wr, sv_world := w2\<rparr>
                          | (Some _, w2) \<Rightarrow>
                              sv\<lparr>sv_writer := http_Error text_busy 500 wr,
                                 sv_world := Session_Refresh P w2\<rparr>))))"

subsection \<open>The responses\<close>

lemma writer_simps [simp]:
  "w_code (http_Error msg code (w_Set k v new_writer)) = Some code"
  "w_body (http_Error msg code (w_Set k v new_writer)) = msg @ [CHR 10]"
  "w_code (w_Write s (w_Set k v new_writer)) = Some 200"
  "w_body (w_Write s (w_Set k v new_writer)) = s"
  "w_code new_writer = None"
  "w_code (w_Set k v w) = w_code w"
  by (simp_all add: http_Error_def w_Write_def w_WriteHeader_def w_Set_def new_writer_def Let_def)

lemma Error_content_type:
  "Header_Get (w_sent (http_Error msg code (w_Set ''Content-Type'' v new_writer))) ''Content-Type'' =
     ''text/plain; charset=utf-8''"
  "Header_Get (w_sent (w_Write s (w_Set ''Content-Type'' v new_writer))) ''Content-Type'' = v"
  by (simp_all add: http_Error_def w_Write_def w_WriteHeader_def w_Set_def new_writer_def Let_def
      Header_Get_Set)

text \<open>The seven ways a call goes.\<close>

lemma ServeHTTP_cases [consumes 1, case_names stopped panicked malformed unstored handed buffered busy]:
  assumes sv: "sv = ServeHTTP P rd cfg stopping parked ch req r w"
  obtains
    "Stopped stopping" "sv_panic sv = None" "sv_handed sv = None" "sv_chan sv = ch" "sv_world sv = w"
    "sv_rand sv = r"
    "sv_writer sv = http_Error text_stopping 503 (w_Set ''Content-Type'' ''application/json'' new_writer)"
  | e q r' where "\<not> Stopped stopping" "newPetition rd (pf_Now P (wd_env w)) req r = (Panics e, q, r')"
    "sv_panic sv = Some e" "sv_handed sv = None" "sv_chan sv = ch" "sv_world sv = w"
    "sv_writer sv = w_Set ''Content-Type'' ''application/json'' new_writer"
  | e q r' where "\<not> Stopped stopping"
    "newPetition rd (pf_Now P (wd_env w)) req r = (Returns (Inl e), q, r')" "sv_panic sv = None"
    "sv_handed sv = None" "sv_chan sv = ch" "sv_world sv = w"
    "sv_writer sv = http_Error (text_bad e) 400 (w_Set ''Content-Type'' ''application/json'' new_writer)"
  | p q r' e w1 where "\<not> Stopped stopping"
    "newPetition rd (pf_Now P (wd_env w)) req r = (Returns (Inr p), q, r')"
    "Coll_Insert P (petitions_coll cfg) (petition_doc p) w = (Some e, w1)" "sv_panic sv = None"
    "sv_handed sv = None" "sv_chan sv = ch" "sv_world sv = Session_Refresh P w1"
    "sv_writer sv = http_Error (text_store e (p_ID p)) 500 (w_Set ''Content-Type'' ''application/json'' new_writer)"
  | p q r' w1 where "\<not> Stopped stopping"
    "newPetition rd (pf_Now P (wd_env w)) req r = (Returns (Inr p), q, r')"
    "Coll_Insert P (petitions_coll cfg) (petition_doc p) w = (None, w1)" "parked" "sv_panic sv = None"
    "sv_handed sv = Some p" "sv_chan sv = ch" "sv_world sv = w1"
    "sv_writer sv = w_Write (text_id (p_ID p)) (w_Set ''Content-Type'' ''application/json'' new_writer)"
  | p q r' w1 ch' where "\<not> Stopped stopping"
    "newPetition rd (pf_Now P (wd_env w)) req r = (Returns (Inr p), q, r')"
    "Coll_Insert P (petitions_coll cfg) (petition_doc p) w = (None, w1)" "\<not> parked"
    "chan_put p ch = Some ch'" "sv_panic sv = None" "sv_handed sv = None" "sv_chan sv = ch'"
    "sv_world sv = w1"
    "sv_writer sv = w_Write (text_id (p_ID p)) (w_Set ''Content-Type'' ''application/json'' new_writer)"
  | p q r' w1 e w2 where "\<not> Stopped stopping"
    "newPetition rd (pf_Now P (wd_env w)) req r = (Returns (Inr p), q, r')"
    "Coll_Insert P (petitions_coll cfg) (petition_doc p) w = (None, w1)" "\<not> parked"
    "chan_put p ch = None" "Coll_Remove P (petitions_coll cfg) (p_ID p) w1 = (e, w2)"
    "sv_panic sv = None" "sv_handed sv = None" "sv_chan sv = ch"
    "sv_world sv = (case e of None \<Rightarrow> w2 | Some _ \<Rightarrow> Session_Refresh P w2)"
    "sv_writer sv = http_Error text_busy 500 (w_Set ''Content-Type'' ''application/json'' new_writer)"
proof (cases "Stopped stopping")
  case True
  then show thesis by (intro that(1)) (simp_all add: sv ServeHTTP_def Let_def)
next
  case False
  obtain n q r' where n: "newPetition rd (pf_Now P (wd_env w)) req r = (n, q, r')" by (metis prod_cases3)
  note run = sv [unfolded ServeHTTP_def Let_def, simplified False n if_False prod.case]
  show thesis
  proof (cases n)
    case (Panics e)
    then show thesis by (intro that(2) [OF False n [unfolded Panics]]) (simp_all add: run)
  next
    case (Returns x)
    show thesis
    proof (cases x)
      case (Inl e)
      with Returns show thesis
        by (intro that(3) [OF False n [unfolded Returns Inl]]) (simp_all add: run)
    next
      case (Inr p)
      note np = n [unfolded Returns Inr]
      obtain e w1 where i: "Coll_Insert P (petitions_coll cfg) (petition_doc p) w = (e, w1)" by fastforce
      obtain e2 w2 where d: "Coll_Remove P (petitions_coll cfg) (p_ID p) w1 = (e2, w2)" by fastforce
      show thesis
      proof (cases e)
        case (Some err)
        then show thesis
          using i by (intro that(4) [OF False np]) (simp_all add: run Returns Inr)
      next
        case None
        note i = i [unfolded None]
        show thesis
        proof (cases parked)
          case True
          then show thesis
            by (intro that(5) [OF False np i]) (simp_all add: run Returns Inr i try_send_def)
        next
          case np': False
          show thesis
          proof (cases "chan_put p ch")
            case None
            then show thesis
              by (intro that(7) [OF False np i np' _ d])
                (simp_all add: run Returns Inr i try_send_def np' d split: option.split)
          next
            case (Some ch')
            then show thesis
              by (intro that(6) [OF False np i np' Some])
                (simp_all add: run Returns Inr i try_send_def np')
          qed
        qed
      qed
    qed
  qed
qed




text \<open>
  C9: Stored before acknowledged. With a store that does what it acknowledges, a client that gets 200
  has its petition, under the id it was told, both in the petitions collection and on its way to a
  consumer; and a client that gets anything else has nothing on its way.
\<close>
theorem listener_stores_first:
  assumes "mongo_ok P db" and "sv = ServeHTTP P rd cfg stopping parked ch req r w"
  shows "if w_code (sv_writer sv) = Some 200
    then \<exists>p. w_body (sv_writer sv) = text_id (p_ID p) \<and>
      (sv_handed sv = Some p \<or> ch_buf (sv_chan sv) = ch_buf ch @ [p]) \<and>
      inserted (petitions_coll cfg) (petition_doc p) (db (wd_env w)) (db (wd_env (sv_world sv)))
    else sv_handed sv = None \<and> sv_chan sv = ch"
proof -
  have ins: "Coll_Insert P c d w = (None, w1) \<Longrightarrow> inserted c d (db (wd_env w)) (db (wd_env w1))" for c d w1
    using mongo_Insert [OF assms(1), of c d w None w1] by simp
  show ?thesis
    using assms(2)
    by (cases rule: ServeHTTP_cases) (auto dest!: ins chan_put_buf)
qed

text \<open>
  Every error answer is \<open>text/plain\<close>: the handler asks for JSON first, but \<open>http.Error\<close> sets the
  content type again, so only the answer with an id goes out as \<open>application/json\<close>.
\<close>
theorem listener_content_type:
  "case w_code (sv_writer (ServeHTTP P rd cfg stopping parked ch req r w)) of
     None \<Rightarrow> sv_panic (ServeHTTP P rd cfg stopping parked ch req r w) \<noteq> None
   | Some code \<Rightarrow>
       Header_Get (w_sent (sv_writer (ServeHTTP P rd cfg stopping parked ch req r w))) ''Content-Type'' =
         (if code = 200 then ''application/json'' else ''text/plain; charset=utf-8'')"
  by (rule ServeHTTP_cases [OF refl, where P = P and rd = rd and cfg = cfg and stopping = stopping
        and parked = parked and ch = ch and req = req and r = r and w = w])
     (simp_all add: Error_content_type)

theorem listener_stores_first_witness:
  "\<exists>sv p. sv = ServeHTTP (mem_platform False) sample_rand sample_cfg 0 False
      \<lparr>ch_cap = 1, ch_buf = []\<rparr> sample_request 7
      \<lparr>wd_env = \<lparr>m_db = (\<lambda>_. []), m_answers = [], m_clock = 1000000\<rparr>, wd_trace = []\<rparr> \<and>
    w_body (sv_writer sv) = text_id (p_ID p) \<and>
    m_db (wd_env (sv_world sv)) (petitions_coll sample_cfg) = [petition_doc p]"
proof -
  let ?w = "\<lparr>wd_env = \<lparr>m_db = (\<lambda>_. []), m_answers = [], m_clock = 1000000\<rparr>, wd_trace = []\<rparr>"
  define sv where "sv = ServeHTTP (mem_platform False) sample_rand sample_cfg 0 False
      \<lparr>ch_cap = 1, ch_buf = []\<rparr> sample_request 7 ?w"
  obtain o' where run: "newPetition sample_rand 1000000 sample_request 7 =
      (Returns (Inr sample_petition), o', 8)"
    using sample_newPetition by blast
  have now: "pf_Now (mem_platform False) (wd_env ?w) = 1000000" by (simp add: mem_platform_def)
  have "w_code (sv_writer sv) = Some 200"
    by (simp add: sv_def ServeHTTP_def now [simplified] run Let_def Stopped_def try_send_def
        chan_put_def Coll_Insert_def mem_platform_def)
  with listener_stores_first [OF mem_platform_mongo sv_def] obtain p where
    "w_body (sv_writer sv) = text_id (p_ID p)"
    "inserted (petitions_coll sample_cfg) (petition_doc p) (m_db (wd_env ?w)) (m_db (wd_env (sv_world sv)))"
    by auto
  then show ?thesis using sv_def by (auto simp: inserted_def)
qed

end
