(* ===== verification/Recoverer.thy ===== *)
theory Recoverer
  imports Platform
begin

text \<open>
  \<open>recoverer.go\<close>: reading back the stored petitions and enqueueing them. The petitions are what
  \<open>Recover\<close> sends, in order; the sends themselves, which block while the channel is full, are steps
  in theory \<open>System\<close>.
\<close>

text \<open>
  \<open>iter.Next(&p)\<close> until it returns false, and then \<open>iter.Close\<close>: \<open>err\<close> is the error of the cursor at the end of
  its documents. A document that cannot be decoded ends the iteration. Its error is kept only if the iterator has
  none by then (\<open>if iter.err == nil\<close>), which it may: \<open>early\<close> is \<open>None\<close> if it has none, and else what
  \<open>Close\<close> makes of the one it has, which is no error when the end of the results has come as an empty reply. Theory
  \<open>MgoCursor\<close> has the iterator.
\<close>

fun recover_docs ::
  "bdoc list \<Rightarrow> gerror option \<Rightarrow> gerror option option \<Rightarrow> petition list \<times> gerror option" where
  "recover_docs [] err early = ([], err)"
| "recover_docs (d # ds) err early =
     (case doc_petition d of
        Inl e \<Rightarrow> ([], (case early of None \<Rightarrow> Some e | Some r \<Rightarrow> r))
      | Inr p \<Rightarrow> (case recover_docs ds err early of (ps, err') \<Rightarrow> (p # ps, err')))"

definition Recover ::
  "'e platform \<Rightarrow> config \<Rightarrow> gerror option option \<Rightarrow> 'e world \<Rightarrow> (petition list \<times> gerror option) \<times> 'e world" where
  "Recover P cfg early w =
     (case Coll_Iter P (petitions_coll cfg) w of
        ((ds, err), w') \<Rightarrow> (recover_docs ds err early, w'))"

lemma recover_docs_all:
  "\<forall>d \<in> set ds. doc_petition d = Inr (f d) \<Longrightarrow> recover_docs ds err early = (map f ds, err)"
  by (induction ds) simp_all

lemma recover_docs_stuck:
  "\<forall>d \<in> set ds. doc_petition d = Inr (f d) \<Longrightarrow> doc_petition bad = Inl e \<Longrightarrow>
     recover_docs (ds @ bad # rest) err early = (map f ds, (case early of None \<Rightarrow> Some e | Some r \<Rightarrow> r))"
  by (induction ds) simp_all

lemma mongo_Iter:
  assumes "mongo_ok P db" and "Coll_Iter P c w = ((ds, err), w')"
  shows "db (wd_env w') = db (wd_env w) \<and>
    (\<exists>rest. db (wd_env w) c = ds @ rest \<and> (err = None \<longrightarrow> rest = []))"
proof -
  have "pf_Iter P c (wd_env w) = ((ds, err), wd_env w')"
    using assms(2) by (auto simp: Coll_Iter_def split: prod.splits)
  then show ?thesis using assms(1) unfolding mongo_ok_def iter_ok_def by blast
qed

text \<open>
  Nothing stored is forgotten. When the petitions collection holds documents written by the
  program, each of which reads back as it was, and the cursor ends without an error, \<open>Recover\<close> sends
  exactly these petitions, each once, in the order of the collection, reports no error and changes
  nothing in the store.
\<close>
theorem recover_all:
  assumes "mongo_ok P db" and "db (wd_env w) (petitions_coll cfg) = map petition_doc ps"
    and "\<forall>p \<in> set ps. petition_storable p \<and> reparsed p = Inr p"
    and "Recover P cfg early w = ((qs, err), w')"
    and "snd (fst (Coll_Iter P (petitions_coll cfg) w)) = None"
  shows "qs = ps \<and> err = None \<and> db (wd_env w') = db (wd_env w)"
proof -
  obtain ds e w1 where i: "Coll_Iter P (petitions_coll cfg) w = ((ds, e), w1)" by (metis prod.exhaust)
  then have "e = None" using assms(5) by simp
  then have ds: "ds = map petition_doc ps" "db (wd_env w1) = db (wd_env w)"
    using mongo_Iter [OF assms(1) i] assms(2) by auto
  have "recover_docs (map petition_doc ps) None early = (ps, None)"
    using assms(3) by (induction ps) (simp_all add: doc_petition_doc)
  then show ?thesis using assms(4) i ds \<open>e = None\<close> by (simp add: Recover_def)
qed

text \<open>
  C18: One bad document stops the recovery. If a document of the petitions collection cannot be
  decoded, \<open>Recover\<close> enqueues only the petitions before it, however often it is run: nothing is removed, so the
  petitions after it are never reached. It returns the error of the document, unless the iterator had an error
  before: after an empty last reply it returns no error, and \<open>main\<close> goes on without the petitions behind the document.
\<close>
theorem recover_stuck:
  assumes "mongo_ok P db" and "db (wd_env w) (petitions_coll cfg) = map petition_doc ps @ bad # rest"
    and "\<forall>p \<in> set ps. petition_storable p \<and> reparsed p = Inr p" and "doc_petition bad = Inl e"
    and "Recover P cfg early w = ((qs, err), w')"
    and "snd (fst (Coll_Iter P (petitions_coll cfg) w)) = None"
  shows "qs = ps \<and> err = (case early of None \<Rightarrow> Some e | Some r \<Rightarrow> r) \<and> db (wd_env w') = db (wd_env w)"
proof -
  obtain ds e1 w1 where i: "Coll_Iter P (petitions_coll cfg) w = ((ds, e1), w1)" by (metis prod.exhaust)
  then have "e1 = None" using assms(6) by simp
  then have ds: "ds = map petition_doc ps @ bad # rest" "db (wd_env w1) = db (wd_env w)"
    using mongo_Iter [OF assms(1) i] assms(2) by auto
  have "recover_docs (map petition_doc ps @ bad # rest) None early = (ps, (case early of None \<Rightarrow> Some e | Some r \<Rightarrow> r))"
    using assms(3,4) by (induction ps) (simp_all add: doc_petition_doc)
  then show ?thesis using assms(5) i ds \<open>e1 = None\<close> by (simp add: Recover_def)
qed

definition recover_world :: "bdoc list \<Rightarrow> mem world" where
  "recover_world ds = \<lparr>wd_env = \<lparr>m_db = (\<lambda>_. [])(petitions_coll sample_cfg := ds), m_answers = [],
     m_clock = 0\<rparr>, wd_trace = []\<rparr>"

lemma sample_storable: "petition_storable sample_petition \<and> reparsed sample_petition = Inr sample_petition"
proof -
  have "petition_storable sample_petition"
    by (simp add: petition_storable_def sample_petition_def header_ok_def time_ok_def)
  then show ?thesis using sample_petition_survives doc_petition_doc [of sample_petition] by simp
qed

lemma recover_world_facts:
  "m_db (wd_env (recover_world ds)) (petitions_coll sample_cfg) = ds"
  "snd (fst (Coll_Iter (mem_platform b) (petitions_coll sample_cfg) (recover_world ds))) = None"
  by (simp_all add: recover_world_def Coll_Iter_def mem_platform_def)

theorem recover_all_witness:
  "\<exists>w'. Recover (mem_platform False) sample_cfg None (recover_world [petition_doc sample_petition]) =
     (([sample_petition], None), w')"
proof -
  obtain qs err w' where r: "Recover (mem_platform False) sample_cfg None
      (recover_world [petition_doc sample_petition]) = ((qs, err), w')" by (metis prod.exhaust)
  have "qs = [sample_petition] \<and> err = None \<and>
      m_db (wd_env w') = m_db (wd_env (recover_world [petition_doc sample_petition]))"
    by (rule recover_all [OF mem_platform_mongo _ _ r recover_world_facts(2)])
       (simp_all add: recover_world_facts sample_storable)
  with r show ?thesis by simp
qed

theorem recover_stuck_witness:
  "\<exists>w' e. doc_petition (petition_doc odd_petition) = Inl e \<and>
     Recover (mem_platform False) sample_cfg None
       (recover_world [petition_doc odd_petition, petition_doc sample_petition]) = (([], Some e), w') \<and>
     fst (Recover (mem_platform False) sample_cfg (Some None)
       (recover_world [petition_doc odd_petition, petition_doc sample_petition])) = ([], None)"
proof -
  obtain e where e: "doc_petition (petition_doc odd_petition) = Inl e"
  proof -
    let ?u = "empty_url\<lparr>u_Path := ''//a b/x''\<rparr>"
    have "url_Parse (url_String ?u) = Inl (url_Error (url_String ?u) ''hexadecimal escape in host'')"
      by code_simp
    then show thesis
      using that doc_petition_doc [of odd_petition]
      by (simp add: odd_petition_def reparsed_def petition_storable_def empty_petition_def
          header_ok_def time_ok_def zero_time_def)
  qed
  let ?w = "recover_world [petition_doc odd_petition, petition_doc sample_petition]"
  have run: "\<exists>w'. Recover (mem_platform False) sample_cfg early ?w = (([], (case early of None \<Rightarrow> Some e | Some r \<Rightarrow> r)), w')"
    for early
  proof -
    obtain qs err w' where r: "Recover (mem_platform False) sample_cfg early ?w = ((qs, err), w')" by (metis prod.exhaust)
    have "qs = [] \<and> err = (case early of None \<Rightarrow> Some e | Some r \<Rightarrow> r) \<and> m_db (wd_env w') = m_db (wd_env ?w)"
      by (rule recover_stuck [OF mem_platform_mongo _ _ e r recover_world_facts(2), where ps = "[]"
            and rest = "[petition_doc sample_petition]"])
         (simp_all add: recover_world_facts)
    with r show ?thesis by simp
  qed
  show ?thesis using run [of None] run [of "Some None"] e by auto
qed

end
