(* ===== verification/Transition.thy ===== *)
theory Transition
  imports Main
begin

text \<open>
  Transition systems: the states reachable from an initial one, and the contract of an invariant,
  which its client can assume of every reachable state. The second contract adds a potential: a
  measure no step raises and the steps of one part lower, so that part can only take so many.
\<close>

locale transition_system =
  fixes init :: "'s \<Rightarrow> bool"
    and step :: "'s \<Rightarrow> 's \<Rightarrow> bool"
begin

definition reachable :: "'s \<Rightarrow> bool" where
  "reachable s \<longleftrightarrow> (\<exists>s0. init s0 \<and> rtranclp step s0 s)"

lemma reachable_init: "init s \<Longrightarrow> reachable s"
  unfolding reachable_def by blast

lemma reachable_step: "reachable s \<Longrightarrow> step s s' \<Longrightarrow> reachable s'"
  unfolding reachable_def by (blast intro: rtranclp.rtrancl_into_rtrancl)

lemma reachable_steps: "reachable s \<Longrightarrow> rtranclp step s s' \<Longrightarrow> reachable s'"
  unfolding reachable_def by (blast intro: rtranclp_trans)

end

locale invariant = transition_system init step
  for init :: "'s \<Rightarrow> bool" and step :: "'s \<Rightarrow> 's \<Rightarrow> bool" +
  fixes inv :: "'s \<Rightarrow> bool"
  assumes inv_init: "init s \<Longrightarrow> inv s"
    and inv_step: "inv s \<Longrightarrow> step s s' \<Longrightarrow> inv s'"
begin

lemma inv_steps: "rtranclp step s s' \<Longrightarrow> inv s \<Longrightarrow> inv s'"
  by (induction rule: rtranclp_induct) (auto intro: inv_step)

lemma reachable_inv: "reachable s \<Longrightarrow> inv s"
  unfolding reachable_def using inv_init inv_steps by blast

end

locale potential =
  fixes part :: "'s \<Rightarrow> 's \<Rightarrow> bool"
    and rest :: "'s \<Rightarrow> 's \<Rightarrow> bool"
    and from_here :: "'s \<Rightarrow> bool"
    and pot :: "'s \<Rightarrow> nat"
  assumes part_lowers: "from_here s \<Longrightarrow> part s s' \<Longrightarrow> pot s' < pot s \<and> from_here s'"
    and rest_keeps: "from_here s \<Longrightarrow> rest s s' \<Longrightarrow> pot s' \<le> pot s \<and> from_here s'"
begin

text \<open>A run, with how many of its steps are of the part that lowers the potential.\<close>

inductive run :: "'s \<Rightarrow> nat \<Rightarrow> 's \<Rightarrow> bool" where
  run_refl: "run s 0 s"
| run_part: "run s n s' \<Longrightarrow> part s' s'' \<Longrightarrow> run s (Suc n) s''"
| run_rest: "run s n s' \<Longrightarrow> rest s' s'' \<Longrightarrow> run s n s''"

lemma run_bound: "run s n s' \<Longrightarrow> from_here s \<Longrightarrow> n + pot s' \<le> pot s \<and> from_here s'"
proof (induction rule: run.induct)
  case (run_part s n s' s'')
  then show ?case using part_lowers [of s' s''] by fastforce
next
  case (run_rest s n s' s'')
  then show ?case using rest_keeps [of s' s''] by fastforce
qed simp

end

end
