(* ===== verification/System.thy ===== *)
theory System
  imports Consumer Listener Recoverer Transition "HOL-Library.Multiset"
begin

text \<open>
  The running program: the consumer goroutines (\<open>relay\<close> of \<open>consumer.go\<close> with the steps of
  \<open>process\<close>), the requests being served (\<open>ServeHTTP\<close> of \<open>listener.go\<close>), the recoverer, and \<open>main\<close>
  with the signal handler, as one transition system over the channel, the store and the flags. A
  step is one operation on shared state; everything between two of them is local. Store operations
  that report an error may have been carried out or not, the answers of the target hosts are
  arbitrary, and steps of different goroutines interleave in any order.
\<close>

subsection \<open>States\<close>

text \<open>
  Where a consumer goroutine is: at the outer select, about to run the inner select, blocked in it,
  with a petition just received, with a reply to be copied to the errors collection, with a reply to
  be stored, with a petition to be removed, or ended.
\<close>

datatype wpc =
    WCheck | WSelect | WParked | WGot petition | WError petition reply | WReply petition reply
  | WRemove petition | WDone

datatype hpc = HInsert petition | HSend petition | HRemove petition | HDone

datatype recov = RTodo "petition list" "gerror option" | RDone | RFailed

text \<open>
  The last four fields are history: the ids ever drawn or found, the ids the program has accepted
  (answered with 200, or found in the store at the start), the ids a reply was inserted for, and the
  ids taken from the channel, in order.
\<close>

record sys =
  y_chan :: "petition gochan"
  y_workers :: "wpc list"
  y_handlers :: "hpc list"
  y_recov :: recov
  y_db :: store
  y_stopping :: "64 word"
  y_end :: end_chan
  y_wg :: int
  y_final :: bool
  y_down :: bool
  y_seen :: "string set"
  y_ok :: "string set"
  y_replied :: "string set"
  y_taken :: "string list"

subsection \<open>Steps of a consumer goroutine\<close>

inductive worker_step :: "config \<Rightarrow> sys \<Rightarrow> sys \<Rightarrow> bool" for cfg :: config where
  w_end: "\<not> y_down s \<Longrightarrow> y_workers s = us @ pc # vs \<Longrightarrow> pc \<in> {WCheck, WSelect, WParked} \<Longrightarrow>
    y_end s = ClosedChan \<Longrightarrow>
    worker_step cfg s (s\<lparr>y_workers := us @ WDone # vs, y_wg := y_wg s - 1\<rparr>)"
| w_default: "\<not> y_down s \<Longrightarrow> y_workers s = us @ WCheck # vs \<Longrightarrow> y_end s \<noteq> ClosedChan \<Longrightarrow>
    worker_step cfg s (s\<lparr>y_workers := us @ WSelect # vs\<rparr>)"
| w_receive: "\<not> y_down s \<Longrightarrow> y_workers s = us @ WSelect # vs \<Longrightarrow> chan_get (y_chan s) = Some (p, ch) \<Longrightarrow>
    worker_step cfg s (s\<lparr>y_workers := us @ WGot p # vs, y_chan := ch, y_taken := p_ID p # y_taken s\<rparr>)"
| w_park: "\<not> y_down s \<Longrightarrow> y_workers s = us @ WSelect # vs \<Longrightarrow> chan_get (y_chan s) = None \<Longrightarrow>
    y_end s \<noteq> ClosedChan \<Longrightarrow> worker_step cfg s (s\<lparr>y_workers := us @ WParked # vs\<rparr>)"
| w_unbuilt: "\<not> y_down s \<Longrightarrow> y_workers s = us @ WGot p # vs \<Longrightarrow>
    petition_Request p = (Returns (Inl e), p') \<Longrightarrow>
    worker_step cfg s (s\<lparr>y_workers := us @ WCheck # vs\<rparr>)"
| w_nil: "\<not> y_down s \<Longrightarrow> y_workers s = us @ WGot p # vs \<Longrightarrow> petition_Request p = (Panics e, p') \<Longrightarrow>
    worker_step cfg s (s\<lparr>y_down := True\<rparr>)"
| w_answered: "\<not> y_down s \<Longrightarrow> y_workers s = us @ WGot p # vs \<Longrightarrow>
    petition_Request p = (Returns (Inr req), p') \<Longrightarrow> newReply a p' now = Returns rp \<Longrightarrow>
    rp' = rp\<lparr>r_Created := start\<rparr> \<Longrightarrow>
    worker_step cfg s (s\<lparr>y_workers := us @ (if bad_answer a then WError p' rp' else WReply p' rp') # vs\<rparr>)"
| w_broken: "\<not> y_down s \<Longrightarrow> y_workers s = us @ WGot p # vs \<Longrightarrow>
    petition_Request p = (Returns (Inr req), p') \<Longrightarrow> newReply a p' now = Panics e \<Longrightarrow>
    worker_step cfg s (s\<lparr>y_down := True\<rparr>)"
| w_error_copy: "\<not> y_down s \<Longrightarrow> y_workers s = us @ WError p rp # vs \<Longrightarrow>
    inserted (errors_coll cfg) (reply_doc rp) (y_db s) db' \<or> db' = y_db s \<Longrightarrow>
    worker_step cfg s (s\<lparr>y_workers := us @ WReply p rp # vs, y_db := db'\<rparr>)"
| w_reply: "\<not> y_down s \<Longrightarrow> y_workers s = us @ WReply p rp # vs \<Longrightarrow>
    inserted (responses_coll cfg) (reply_doc rp) (y_db s) db' \<or> db' = y_db s \<Longrightarrow>
    worker_step cfg s (s\<lparr>y_workers := us @ WRemove p # vs, y_db := db',
      y_replied := insert (p_ID p) (y_replied s)\<rparr>)"
| w_remove: "\<not> y_down s \<Longrightarrow> y_workers s = us @ WRemove p # vs \<Longrightarrow>
    removed (petitions_coll cfg) (p_ID p) (y_db s) db' \<or> db' = y_db s \<Longrightarrow>
    worker_step cfg s (s\<lparr>y_workers := us @ WCheck # vs, y_db := db'\<rparr>)"

subsection \<open>Steps of a request being served\<close>

text \<open>
  A request passes the \<open>Stopped\<close> test and becomes a petition with an id not seen before; a request
  that is turned away changes nothing and is no step.
\<close>

inductive handler_step :: "config \<Rightarrow> sys \<Rightarrow> sys \<Rightarrow> bool" for cfg :: config where
  h_new: "\<not> y_down s \<Longrightarrow> y_recov s = RDone \<Longrightarrow> \<not> Stopped (y_stopping s) \<Longrightarrow> p_ID p \<notin> y_seen s \<Longrightarrow>
    handler_step cfg s (s\<lparr>y_handlers := y_handlers s @ [HInsert p], y_seen := insert (p_ID p) (y_seen s)\<rparr>)"
| h_insert: "\<not> y_down s \<Longrightarrow> y_handlers s = us @ HInsert p # vs \<Longrightarrow>
    inserted (petitions_coll cfg) (petition_doc p) (y_db s) db' \<Longrightarrow>
    handler_step cfg s (s\<lparr>y_handlers := us @ HSend p # vs, y_db := db'\<rparr>)"
| h_insert_error: "\<not> y_down s \<Longrightarrow> y_handlers s = us @ HInsert p # vs \<Longrightarrow>
    inserted (petitions_coll cfg) (petition_doc p) (y_db s) db' \<or> db' = y_db s \<Longrightarrow>
    handler_step cfg s (s\<lparr>y_handlers := us @ HDone # vs, y_db := db'\<rparr>)"
| h_handed: "\<not> y_down s \<Longrightarrow> y_handlers s = us @ HSend p # vs \<Longrightarrow> y_workers s = as @ WParked # bs \<Longrightarrow>
    handler_step cfg s (s\<lparr>y_handlers := us @ HDone # vs, y_workers := as @ WGot p # bs,
      y_ok := insert (p_ID p) (y_ok s), y_taken := p_ID p # y_taken s\<rparr>)"
| h_buffered: "\<not> y_down s \<Longrightarrow> y_handlers s = us @ HSend p # vs \<Longrightarrow> WParked \<notin> set (y_workers s) \<Longrightarrow>
    chan_put p (y_chan s) = Some ch \<Longrightarrow>
    handler_step cfg s (s\<lparr>y_handlers := us @ HDone # vs, y_chan := ch, y_ok := insert (p_ID p) (y_ok s)\<rparr>)"
| h_busy: "\<not> y_down s \<Longrightarrow> y_handlers s = us @ HSend p # vs \<Longrightarrow> WParked \<notin> set (y_workers s) \<Longrightarrow>
    chan_put p (y_chan s) = None \<Longrightarrow> handler_step cfg s (s\<lparr>y_handlers := us @ HRemove p # vs\<rparr>)"
| h_remove: "\<not> y_down s \<Longrightarrow> y_handlers s = us @ HRemove p # vs \<Longrightarrow>
    removed (petitions_coll cfg) (p_ID p) (y_db s) db' \<or> db' = y_db s \<Longrightarrow>
    handler_step cfg s (s\<lparr>y_handlers := us @ HDone # vs, y_db := db'\<rparr>)"

subsection \<open>Steps of the recoverer and of main\<close>

text \<open>The recoverer's sends block: without a waiting consumer or room in the buffer there is no step.\<close>

inductive recov_step :: "sys \<Rightarrow> sys \<Rightarrow> bool" where
  r_handed: "\<not> y_down s \<Longrightarrow> y_recov s = RTodo (p # ps) err \<Longrightarrow> y_workers s = as @ WParked # bs \<Longrightarrow>
    recov_step s (s\<lparr>y_recov := RTodo ps err, y_workers := as @ WGot p # bs, y_taken := p_ID p # y_taken s\<rparr>)"
| r_buffered: "\<not> y_down s \<Longrightarrow> y_recov s = RTodo (p # ps) err \<Longrightarrow> WParked \<notin> set (y_workers s) \<Longrightarrow>
    chan_put p (y_chan s) = Some ch \<Longrightarrow> recov_step s (s\<lparr>y_recov := RTodo ps err, y_chan := ch\<rparr>)"
| r_done: "\<not> y_down s \<Longrightarrow> y_recov s = RTodo [] None \<Longrightarrow> recov_step s (s\<lparr>y_recov := RDone\<rparr>)"
| r_failed: "\<not> y_down s \<Longrightarrow> y_recov s = RTodo [] (Some e) \<Longrightarrow>
    recov_step s (s\<lparr>y_recov := RFailed, y_down := True\<rparr>)"

text \<open>
  \<open>onEnd\<close> stops the listener and then the consumer; the goroutine of \<open>Start\<close> announces the end when
  the wait group is at zero, and \<open>main\<close>, once past the recovery, returns on that.
\<close>

inductive main_step :: "sys \<Rightarrow> sys \<Rightarrow> bool" where
  m_stop: "\<not> y_down s \<Longrightarrow> y_recov s = RDone \<Longrightarrow> \<not> Stopped (y_stopping s) \<Longrightarrow>
    main_step s (s\<lparr>y_stopping := listener_Stop (y_stopping s)\<rparr>)"
| m_close: "\<not> y_down s \<Longrightarrow> Stopped (y_stopping s) \<Longrightarrow> y_end s = OpenChan \<Longrightarrow>
    main_step s (s\<lparr>y_end := ClosedChan\<rparr>)"
| m_final: "\<not> y_down s \<Longrightarrow> y_wg s = 0 \<Longrightarrow> main_step s (s\<lparr>y_final := True\<rparr>)"
| m_exit: "\<not> y_down s \<Longrightarrow> y_recov s = RDone \<Longrightarrow> y_final s \<Longrightarrow> main_step s (s\<lparr>y_down := True\<rparr>)"

definition rest_step :: "config \<Rightarrow> sys \<Rightarrow> sys \<Rightarrow> bool" where
  "rest_step cfg s s' \<longleftrightarrow> handler_step cfg s s' \<or> recov_step s s' \<or> main_step s s'"

definition sys_step :: "config \<Rightarrow> sys \<Rightarrow> sys \<Rightarrow> bool" where
  "sys_step cfg s s' \<longleftrightarrow> worker_step cfg s s' \<or> rest_step cfg s s'"

subsection \<open>Initial states\<close>

text \<open>The ids in the petitions collection, and what the program itself leaves there.\<close>

definition stored :: "config \<Rightarrow> store \<Rightarrow> string \<Rightarrow> bool" where
  "stored cfg db i \<longleftrightarrow> (\<exists>d \<in> set (db (petitions_coll cfg)). doc_id d = Some i)"

definition program_docs :: "config \<Rightarrow> store \<Rightarrow> bool" where
  "program_docs cfg db \<longleftrightarrow>
     (\<exists>ps. db (petitions_coll cfg) = map petition_doc ps \<and> distinct (map p_ID ps))"

text \<open>
  After \<open>Start\<close>, with \<open>n\<close> goroutines and a channel of capacity \<open>cap\<close>, at the moment the recoverer has
  read its documents; \<open>err\<close> is what the cursor reports at its end and \<open>early\<close> what the iterator has before, as in
  theory \<open>Recoverer\<close>. What is in the store counts as accepted, whether or not the recoverer gets to it.
\<close>

definition sys_start :: "config \<Rightarrow> nat \<Rightarrow> nat \<Rightarrow> store \<Rightarrow> gerror option \<Rightarrow> gerror option option \<Rightarrow> sys" where
  "sys_start cfg n cap db err early =
     (let ids = {i. stored cfg db i};
          (todo, err') = recover_docs (db (petitions_coll cfg)) err early
      in \<lparr>y_chan = \<lparr>ch_cap = cap, ch_buf = []\<rparr>, y_workers = replicate n WCheck, y_handlers = [],
          y_recov = RTodo todo err', y_db = db, y_stopping = 0, y_end = OpenChan, y_wg = int n,
          y_final = False, y_down = False, y_seen = ids, y_ok = ids, y_replied = {}, y_taken = []\<rparr>)"

definition sys_init :: "config \<Rightarrow> sys \<Rightarrow> bool" where
  "sys_init cfg s \<longleftrightarrow> collections_apart cfg \<and>
     (\<exists>n cap db err early. program_docs cfg db \<and> s = sys_start cfg n cap db err early)"

inductive_cases worker_stepE: "worker_step cfg s s'"
inductive_cases handler_stepE: "handler_step cfg s s'"
inductive_cases recov_stepE: "recov_step s s'"
inductive_cases main_stepE: "main_step s s'"

subsection \<open>What store operations do to the stored ids\<close>

lemma stored_inserted:
  "inserted c d db db' \<Longrightarrow>
     stored cfg db' i \<longleftrightarrow> stored cfg db i \<or> (c = petitions_coll cfg \<and> doc_id d = Some i)"
  by (auto simp: inserted_def stored_def)

lemma stored_removed:
  "removed c j db db' \<Longrightarrow> stored cfg db' i \<Longrightarrow> stored cfg db i"
  "removed c j db db' \<Longrightarrow> stored cfg db i \<Longrightarrow> i \<noteq> j \<Longrightarrow> stored cfg db' i"
  unfolding removed_def stored_def by (auto split: if_splits) (metis Un_iff)+

lemma program_docs_insert:
  assumes "program_docs cfg db" and "inserted (petitions_coll cfg) (petition_doc p) db db'"
    and "\<not> stored cfg db (p_ID p)"
  shows "program_docs cfg db'"
proof -
  obtain ps where ps: "db (petitions_coll cfg) = map petition_doc ps" "distinct (map p_ID ps)"
    using assms(1) by (auto simp: program_docs_def)
  have "distinct (map p_ID (ps @ [p]))" using ps assms(3) by (auto simp: stored_def)
  moreover have "db' (petitions_coll cfg) = map petition_doc (ps @ [p])"
    using assms(2) ps(1) by (simp add: inserted_def)
  ultimately show ?thesis unfolding program_docs_def by blast
qed

lemma program_docs_other:
  assumes "program_docs cfg db" and "inserted c d db db'" and "c \<noteq> petitions_coll cfg"
  shows "program_docs cfg db'"
  using assms by (auto simp: program_docs_def inserted_def)

lemma program_docs_removed:
  assumes "program_docs cfg db" and "removed (petitions_coll cfg) i db db'"
  shows "program_docs cfg db'"
proof -
  obtain ps where ps: "db (petitions_coll cfg) = map petition_doc ps" "distinct (map p_ID ps)"
    using assms(1) by (auto simp: program_docs_def)
  obtain xs d ys where r: "db (petitions_coll cfg) = xs @ d # ys"
      "db' = db(petitions_coll cfg := xs @ ys)"
    using assms(2) by (auto simp: removed_def)
  obtain as p bs where "ps = as @ p # bs" "xs = map petition_doc as" "ys = map petition_doc bs"
    using ps(1) r(1) by (auto simp: map_eq_append_conv append_eq_map_conv Cons_eq_map_conv map_eq_Cons_conv)
  then have "db' (petitions_coll cfg) = map petition_doc (as @ bs)" "distinct (map p_ID (as @ bs))"
    using ps(2) r(2) by auto
  then show ?thesis unfolding program_docs_def by blast
qed

subsection \<open>The invariant\<close>

text \<open>The ids that wait: in the buffer, still to be recovered, or with a request being served.\<close>

fun h_ids :: "hpc \<Rightarrow> string list" where
  "h_ids (HInsert p) = [p_ID p]"
| "h_ids (HSend p) = [p_ID p]"
| "h_ids (HRemove p) = [p_ID p]"
| "h_ids HDone = []"

fun w_ids :: "wpc \<Rightarrow> string list" where
  "w_ids (WGot p) = [p_ID p]"
| "w_ids (WError p rp) = [p_ID p]"
| "w_ids (WReply p rp) = [p_ID p]"
| "w_ids (WRemove p) = [p_ID p]"
| "w_ids _ = []"

fun recov_ids :: "recov \<Rightarrow> string list" where
  "recov_ids (RTodo ps err) = map p_ID ps"
| "recov_ids _ = []"

definition queued_ids :: "sys \<Rightarrow> string list" where
  "queued_ids s = map p_ID (ch_buf (y_chan s)) @ recov_ids (y_recov s)"

definition handler_ids :: "sys \<Rightarrow> string list" where
  "handler_ids s = concat (map h_ids (y_handlers s))"

definition worker_ids :: "sys \<Rightarrow> string list" where
  "worker_ids s = concat (map w_ids (y_workers s))"

definition inv_tokens :: "sys \<Rightarrow> bool" where
  "inv_tokens s \<longleftrightarrow> distinct (queued_ids s @ handler_ids s @ y_taken s) \<and>
     set (queued_ids s @ handler_ids s @ y_taken s) \<subseteq> y_seen s"

definition inv_held :: "sys \<Rightarrow> bool" where
  "inv_held s \<longleftrightarrow> distinct (worker_ids s) \<and> set (worker_ids s) \<subseteq> set (y_taken s)"

definition inv_chan :: "sys \<Rightarrow> bool" where
  "inv_chan s \<longleftrightarrow> chan_ok (y_chan s) \<and> (WParked \<in> set (y_workers s) \<longrightarrow> ch_buf (y_chan s) = [])"

definition inv_stop :: "sys \<Rightarrow> bool" where
  "inv_stop s \<longleftrightarrow> y_wg s = int (length (filter (\<lambda>pc. pc \<noteq> WDone) (y_workers s))) \<and>
     (y_final s \<longrightarrow> y_wg s = 0) \<and> (WDone \<in> set (y_workers s) \<longrightarrow> y_end s = ClosedChan) \<and>
     (y_end s = ClosedChan \<longrightarrow> Stopped (y_stopping s))"

definition inv_docs :: "config \<Rightarrow> sys \<Rightarrow> bool" where
  "inv_docs cfg s \<longleftrightarrow> program_docs cfg (y_db s) \<and> (\<forall>i. stored cfg (y_db s) i \<longrightarrow> i \<in> y_seen s) \<and>
     (\<forall>p. HInsert p \<in> set (y_handlers s) \<longrightarrow> \<not> stored cfg (y_db s) (p_ID p))"

definition inv_queued :: "config \<Rightarrow> sys \<Rightarrow> bool" where
  "inv_queued cfg s \<longleftrightarrow> (\<forall>i \<in> set (queued_ids s). stored cfg (y_db s) i) \<and>
     (\<forall>p. HSend p \<in> set (y_handlers s) \<longrightarrow> stored cfg (y_db s) (p_ID p))"

definition inv_ok :: "config \<Rightarrow> sys \<Rightarrow> bool" where
  "inv_ok cfg s \<longleftrightarrow> y_ok s \<subseteq> y_seen s \<and> set (handler_ids s) \<inter> y_ok s = {} \<and>
     (\<forall>p. WRemove p \<in> set (y_workers s) \<longrightarrow> p_ID p \<in> y_replied s) \<and>
     (\<forall>i \<in> y_ok s. stored cfg (y_db s) i \<or> i \<in> y_replied s)"

lemmas ids_defs = queued_ids_def handler_ids_def worker_ids_def

text \<open>
  A step moves ids between these places, drops one or adds a fresh one; it never doubles an id.
\<close>

definition tokens :: "sys \<Rightarrow> string multiset" where
  "tokens s = mset (queued_ids s @ handler_ids s @ y_taken s)"

lemma inv_tokens_alt: "inv_tokens s \<longleftrightarrow> (\<forall>i. count (tokens s) i \<le> 1) \<and> set_mset (tokens s) \<subseteq> y_seen s"
  unfolding inv_tokens_def tokens_def set_mset_mset distinct_count_atmost_1
  by (metis count_greater_zero_iff count_inI le_less_linear less_one nat_le_linear not_less
      set_mset_mset zero_le_one le_antisym Suc_leI One_nat_def order_refl)

lemma tokens_worker:
  "worker_step cfg s s' \<Longrightarrow> tokens s' = tokens s \<and> y_seen s' = y_seen s"
  by (erule worker_stepE; auto simp: tokens_def ids_defs dest!: chan_get_buf)

lemma tokens_handler:
  "handler_step cfg s s' \<Longrightarrow>
     (tokens s' \<subseteq># tokens s \<and> y_seen s' = y_seen s) \<or>
     (\<exists>i. i \<notin> y_seen s \<and> tokens s' = add_mset i (tokens s) \<and> y_seen s' = insert i (y_seen s))"
  by (erule handler_stepE; auto simp: tokens_def ids_defs dest!: chan_put_buf)

lemma tokens_recov: "recov_step s s' \<Longrightarrow> tokens s' = tokens s \<and> y_seen s' = y_seen s"
  by (erule recov_stepE; auto simp: tokens_def ids_defs dest!: chan_put_buf)

lemma tokens_main: "main_step s s' \<Longrightarrow> tokens s' = tokens s \<and> y_seen s' = y_seen s"
  by (erule main_stepE; auto simp: tokens_def ids_defs)

lemma tokens_step:
  "sys_step cfg s s' \<Longrightarrow>
     (tokens s' \<subseteq># tokens s \<and> y_seen s' = y_seen s) \<or>
     (\<exists>i. i \<notin> y_seen s \<and> tokens s' = add_mset i (tokens s) \<and> y_seen s' = insert i (y_seen s))"
  unfolding sys_step_def rest_step_def
  by (elim disjE; (drule tokens_worker | drule tokens_handler | drule tokens_recov | drule tokens_main); simp)

lemma inv_tokens_step:
  assumes "inv_tokens s" and "sys_step cfg s s'"
  shows "inv_tokens s'"
  using tokens_step [OF assms(2)]
proof (elim disjE exE conjE)
  assume sub: "tokens s' \<subseteq># tokens s" "y_seen s' = y_seen s"
  then show ?thesis
    using assms(1) unfolding inv_tokens_alt
    by (metis mset_subset_eq_count order_trans set_mset_mono)
next
  fix i
  assume i: "i \<notin> y_seen s" "tokens s' = add_mset i (tokens s)" "y_seen s' = insert i (y_seen s)"
  then have "count (tokens s) i = 0" using assms(1) unfolding inv_tokens_alt by (meson count_inI subsetD)
  then show ?thesis using assms(1) i unfolding inv_tokens_alt by auto
qed

lemma Request_id: "petition_Request p = (r, p') \<Longrightarrow> p_ID p' = p_ID p"
  using petition_Request_id [of p] by simp

lemma inv_held_step:
  "inv_tokens s \<Longrightarrow> inv_held s \<Longrightarrow> sys_step cfg s s' \<Longrightarrow> inv_held s'"
  unfolding sys_step_def rest_step_def
proof (elim disjE)
  assume i: "inv_tokens s" "inv_held s"
  show "worker_step cfg s s' \<Longrightarrow> inv_held s'"
    by (erule worker_stepE;
        use i in \<open>auto simp: inv_held_def inv_tokens_def ids_defs dest!: chan_get_buf Request_id\<close>)
  show "handler_step cfg s s' \<Longrightarrow> inv_held s'"
    by (erule handler_stepE; use i in \<open>auto simp: inv_held_def inv_tokens_def ids_defs\<close>)
  show "recov_step s s' \<Longrightarrow> inv_held s'"
    by (erule recov_stepE; use i in \<open>auto simp: inv_held_def inv_tokens_def ids_defs\<close>)
  show "main_step s s' \<Longrightarrow> inv_held s'"
    by (erule main_stepE; use i in \<open>auto simp: inv_held_def ids_defs\<close>)
qed

lemma inv_chan_step:
  "inv_chan s \<Longrightarrow> sys_step cfg s s' \<Longrightarrow> inv_chan s'"
  unfolding sys_step_def rest_step_def
proof (elim disjE)
  assume i: "inv_chan s"
  show "worker_step cfg s s' \<Longrightarrow> inv_chan s'"
    by (erule worker_stepE; use i in
        \<open>auto simp: inv_chan_def chan_get_None dest: chan_ok_get chan_get_buf split: if_splits\<close>)
  show "handler_step cfg s s' \<Longrightarrow> inv_chan s'"
    by (erule handler_stepE; use i in \<open>auto simp: inv_chan_def dest: chan_ok_put\<close>)
  show "recov_step s s' \<Longrightarrow> inv_chan s'"
    by (erule recov_stepE; use i in \<open>auto simp: inv_chan_def dest: chan_ok_put\<close>)
  show "main_step s s' \<Longrightarrow> inv_chan s'"
    by (erule main_stepE; use i in \<open>simp add: inv_chan_def\<close>)
qed

lemma inv_stop_step:
  "inv_stop s \<Longrightarrow> sys_step cfg s s' \<Longrightarrow> inv_stop s'"
  unfolding sys_step_def rest_step_def
proof (elim disjE)
  assume i: "inv_stop s"
  show "worker_step cfg s s' \<Longrightarrow> inv_stop s'"
    by (erule worker_stepE; use i in \<open>auto simp: inv_stop_def\<close>)
  show "handler_step cfg s s' \<Longrightarrow> inv_stop s'"
    by (erule handler_stepE; use i in \<open>auto simp: inv_stop_def\<close>)
  show "recov_step s s' \<Longrightarrow> inv_stop s'"
    by (erule recov_stepE; use i in \<open>auto simp: inv_stop_def\<close>)
  show "main_step s s' \<Longrightarrow> inv_stop s'"
    by (erule main_stepE; use i in \<open>auto simp: inv_stop_def Stopped_def listener_Stop_def\<close>)
qed

lemma handler_tokens:
  assumes "inv_tokens s" and "y_handlers s = us @ h # vs" and "i \<in> set (h_ids h)"
  shows "i \<in> y_seen s" and "i \<notin> set (y_taken s)" and "i \<notin> set (queued_ids s)"
    and "h' \<in> set us \<union> set vs \<Longrightarrow> i \<notin> set (h_ids h')"
  using assms by (auto simp: inv_tokens_def handler_ids_def)

lemma handler_seen: "inv_tokens s \<Longrightarrow> y_handlers s = us @ h # vs \<Longrightarrow> set (h_ids h) \<subseteq> y_seen s"
  using handler_tokens(1) by blast

lemma apart:
  "collections_apart cfg \<Longrightarrow> errors_coll cfg \<noteq> petitions_coll cfg"
  "collections_apart cfg \<Longrightarrow> responses_coll cfg \<noteq> petitions_coll cfg"
  by (auto simp: collections_apart_def)

text \<open>A store operation of a goroutine that is not an insert into the petitions collection.\<close>

definition keeps_docs :: "config \<Rightarrow> store \<Rightarrow> store \<Rightarrow> bool" where
  "keeps_docs cfg db db' \<longleftrightarrow> (program_docs cfg db \<longrightarrow> program_docs cfg db') \<and>
     (\<forall>i. stored cfg db' i \<longrightarrow> stored cfg db i)"

lemma keeps_docs_refl: "keeps_docs cfg db db"
  by (simp add: keeps_docs_def)

lemma keeps_docs_other:
  "collections_apart cfg \<Longrightarrow> inserted (errors_coll cfg) d db db' \<or> db' = db \<Longrightarrow> keeps_docs cfg db db'"
  "collections_apart cfg \<Longrightarrow> inserted (responses_coll cfg) d db db' \<or> db' = db \<Longrightarrow> keeps_docs cfg db db'"
  using apart program_docs_other stored_inserted unfolding keeps_docs_def by metis+

lemma keeps_docs_removed:
  "removed (petitions_coll cfg) i db db' \<or> db' = db \<Longrightarrow> keeps_docs cfg db db'"
  using program_docs_removed stored_removed(1) unfolding keeps_docs_def by metis

lemma worker_keeps_docs:
  "collections_apart cfg \<Longrightarrow> worker_step cfg s s' \<Longrightarrow>
     keeps_docs cfg (y_db s) (y_db s') \<and> y_handlers s' = y_handlers s \<and> y_seen s' = y_seen s"
  by (erule worker_stepE; simp add: keeps_docs_refl keeps_docs_other keeps_docs_removed)

lemma inv_docs_step:
  assumes "inv_tokens s" and "inv_docs cfg s" and "collections_apart cfg" and "sys_step cfg s s'"
  shows "inv_docs cfg s'"
  using assms(4) unfolding sys_step_def rest_step_def
proof (elim disjE)
  note d = assms(2) [unfolded inv_docs_def]
  assume "worker_step cfg s s'"
  from worker_keeps_docs [OF assms(3) this] show ?thesis
    using d unfolding inv_docs_def keeps_docs_def by metis
next
  note d = assms(2) [unfolded inv_docs_def]
  have ins: "inv_docs cfg (s\<lparr>y_handlers := us @ h # vs, y_db := db'\<rparr>)"
    if "y_handlers s = us @ HInsert p # vs" "inserted (petitions_coll cfg) (petition_doc p) (y_db s) db'"
      "h \<in> {HSend p, HDone}" for us p vs db' h
  proof -
    have new: "\<not> stored cfg (y_db s) (p_ID p)" using d that(1) by simp
    have st: "stored cfg db' i \<longleftrightarrow> stored cfg (y_db s) i \<or> i = p_ID p" for i
      using stored_inserted [OF that(2)] by auto
    have "p_ID p \<in> y_seen s" using handler_tokens(1) [OF assms(1) that(1)] by simp
    moreover have "p_ID q \<noteq> p_ID p" if "HInsert q \<in> set us \<union> set vs" for q
      using handler_tokens(4) [OF assms(1) \<open>y_handlers s = _\<close> _ that] by auto
    moreover have "program_docs cfg db'" using program_docs_insert [OF _ that(2) new] d by simp
    ultimately show ?thesis using d that(1,3) st by (auto simp: inv_docs_def)
  qed
  have fewer: "inv_docs cfg (s\<lparr>y_handlers := us @ HDone # vs, y_db := db'\<rparr>)"
    if "y_handlers s = us @ h # vs" "keeps_docs cfg (y_db s) db'" for us h vs db'
    using d that by (auto simp: inv_docs_def keeps_docs_def)
  assume "handler_step cfg s s'"
  then show ?thesis
  proof (cases rule: handler_step.cases)
    case (h_insert us p vs db')
    then show ?thesis using ins by simp
  next
    case (h_insert_error us p vs db')
    then show ?thesis using ins [of us p vs db' HDone] fewer [of us "HInsert p" vs db'] keeps_docs_refl by auto
  next
    case (h_remove us p vs db')
    then show ?thesis using fewer [of us "HRemove p" vs db'] keeps_docs_removed by auto
  qed (use d in \<open>auto simp: inv_docs_def\<close>)
next
  assume "recov_step s s'"
  then show ?thesis by (rule recov_stepE; use assms(2) in \<open>auto simp: inv_docs_def\<close>)
next
  assume "main_step s s'"
  then show ?thesis by (rule main_stepE; use assms(2) in \<open>auto simp: inv_docs_def\<close>)
qed

text \<open>Which stored id a step can take away: one a reply was inserted for, or one turned away.\<close>

lemma worker_unstores:
  assumes "collections_apart cfg" and "inv_held s" and "worker_step cfg s s'"
    and "stored cfg (y_db s) i" and "\<not> stored cfg (y_db s') i"
  shows "i \<in> set (y_taken s) \<and> (\<exists>p. WRemove p \<in> set (y_workers s) \<and> i = p_ID p)"
  using assms(3)
proof (cases rule: worker_step.cases)
  case (w_remove us p vs db')
  then have "i = p_ID p" using assms(4,5) stored_removed(2) by fastforce
  then show ?thesis using w_remove assms(2) by (auto simp: inv_held_def worker_ids_def)
next
  case (w_error_copy us p rp vs db')
  then show ?thesis using assms(4,5) stored_inserted by fastforce
next
  case (w_reply us p rp vs db')
  then show ?thesis using assms(4,5) stored_inserted by fastforce
qed (use assms(4,5) in simp_all)

lemma handler_unstores:
  assumes "handler_step cfg s s'" and "stored cfg (y_db s) i" and "\<not> stored cfg (y_db s') i"
  shows "\<exists>us p vs. y_handlers s = us @ HRemove p # vs \<and> y_handlers s' = us @ HDone # vs \<and> i = p_ID p \<and>
    queued_ids s' = queued_ids s \<and> y_ok s' = y_ok s"
  using assms(1)
proof (cases rule: handler_step.cases)
  case (h_remove us p vs db')
  then have "i = p_ID p" using assms(2,3) stored_removed(2) by fastforce
  then show ?thesis using h_remove by (auto simp: queued_ids_def)
next
  case (h_insert us p vs db')
  then show ?thesis using assms(2,3) stored_inserted by fastforce
next
  case (h_insert_error us p vs db')
  then show ?thesis using assms(2,3) stored_inserted by fastforce
qed (use assms(2,3) in simp_all)

lemma worker_queued: "worker_step cfg s s' \<Longrightarrow> set (queued_ids s') \<subseteq> set (queued_ids s)"
  by (erule worker_stepE; auto simp: queued_ids_def dest!: chan_get_buf)

lemma recov_frame:
  "recov_step s s' \<Longrightarrow> set (queued_ids s') \<subseteq> set (queued_ids s) \<and> y_db s' = y_db s \<and>
     y_handlers s' = y_handlers s \<and> y_ok s' = y_ok s \<and> y_replied s' = y_replied s \<and>
     y_seen s' = y_seen s \<and> (\<forall>p. WRemove p \<in> set (y_workers s') \<longrightarrow> WRemove p \<in> set (y_workers s))"
  by (erule recov_stepE; auto simp: queued_ids_def dest!: chan_put_buf)

lemma main_frame:
  "main_step s s' \<Longrightarrow> queued_ids s' = queued_ids s \<and> y_db s' = y_db s \<and>
     y_handlers s' = y_handlers s \<and> y_workers s' = y_workers s \<and> y_ok s' = y_ok s \<and>
     y_replied s' = y_replied s \<and> y_seen s' = y_seen s"
  by (erule main_stepE; simp add: queued_ids_def)

lemma inv_queued_step:
  assumes "inv_tokens s" and "inv_held s" and "inv_queued cfg s" and "collections_apart cfg"
    and "sys_step cfg s s'"
  shows "inv_queued cfg s'"
  using assms(5) unfolding sys_step_def rest_step_def
proof (elim disjE)
  note q = assms(3) [unfolded inv_queued_def]
  assume w: "worker_step cfg s s'"
  have keep: "stored cfg (y_db s') i" if "stored cfg (y_db s) i" "i \<notin> set (y_taken s)" for i
    using worker_unstores [OF assms(4,2) w] that by blast
  have "i \<notin> set (y_taken s)" if "i \<in> set (queued_ids s) \<union> set (handler_ids s)" for i
    using that assms(1) by (auto simp: inv_tokens_def)
  moreover have "p_ID p \<in> set (handler_ids s)" if "HSend p \<in> set (y_handlers s)" for p
    using that by (force simp: handler_ids_def)
  ultimately show ?thesis
    using q keep worker_queued [OF w] worker_keeps_docs [OF assms(4) w] unfolding inv_queued_def by auto
next
  note q = assms(3) [unfolded inv_queued_def]
  assume h: "handler_step cfg s s'"
  have keep: "stored cfg (y_db s') i"
    if "stored cfg (y_db s) i" "i \<in> set (queued_ids s') \<or> (\<exists>p. HSend p \<in> set (y_handlers s') \<and> i = p_ID p)" for i
  proof (rule ccontr)
    note here = that
    assume "\<not> stored cfg (y_db s') i"
    from handler_unstores [OF h here(1) this] obtain us p vs where
      r: "y_handlers s = us @ HRemove p # vs" "y_handlers s' = us @ HDone # vs"
        "i = p_ID p" "queued_ids s' = queued_ids s"
      by blast
    show False
      using handler_tokens(3,4) [OF assms(1) r(1), of i] here(2) r(2-4) by fastforce
  qed
  have "stored cfg (y_db s) i \<or> stored cfg (y_db s') i"
    if "i \<in> set (queued_ids s') \<or> (\<exists>p. HSend p \<in> set (y_handlers s') \<and> i = p_ID p)" for i
    using h
  proof (cases rule: handler_step.cases)
    case (h_insert us p vs db')
    then show ?thesis using that q stored_inserted [OF h_insert(4)] by (auto simp: queued_ids_def)
  next
    case (h_buffered us p vs ch)
    then show ?thesis using that q by (auto simp: queued_ids_def dest!: chan_put_buf)
  qed (use that q in \<open>auto simp: queued_ids_def\<close>)
  with keep show ?thesis unfolding inv_queued_def by blast
next
  assume "recov_step s s'"
  from recov_frame [OF this] show ?thesis using assms(3) unfolding inv_queued_def by auto
next
  assume "main_step s s'"
  from main_frame [OF this] show ?thesis using assms(3) unfolding inv_queued_def by auto
qed

lemma worker_ok_frame:
  "worker_step cfg s s' \<Longrightarrow> y_ok s' = y_ok s \<and> y_replied s \<subseteq> y_replied s' \<and> y_seen s' = y_seen s \<and>
     y_handlers s' = y_handlers s \<and>
     (\<forall>p. WRemove p \<in> set (y_workers s') \<longrightarrow> WRemove p \<in> set (y_workers s) \<or> p_ID p \<in> y_replied s')"
  by (erule worker_stepE; auto)

lemma handler_ok_frame:
  "handler_step cfg s s' \<Longrightarrow> y_replied s' = y_replied s \<and> y_seen s \<subseteq> y_seen s' \<and>
     (\<forall>p. WRemove p \<in> set (y_workers s') \<longrightarrow> WRemove p \<in> set (y_workers s))"
  by (erule handler_stepE; auto)

lemma handler_ok_ids:
  assumes "inv_tokens s" and "inv_ok cfg s" and "handler_step cfg s s'"
  shows "y_ok s' \<subseteq> y_seen s' \<and> set (handler_ids s') \<inter> y_ok s' = {}"
  using assms(3)
proof (cases rule: handler_step.cases)
  case (h_handed us p vs as bs)
  then show ?thesis
    using assms(2) handler_tokens(1,4) [OF assms(1) h_handed(3), of "p_ID p"]
    by (auto simp: inv_ok_def handler_ids_def)
next
  case (h_buffered us p vs ch)
  then show ?thesis
    using assms(2) handler_tokens(1,4) [OF assms(1) h_buffered(3), of "p_ID p"]
    by (auto simp: inv_ok_def handler_ids_def)
qed (use assms(2) in \<open>auto simp: inv_ok_def handler_ids_def\<close>)

lemma handler_ok_new:
  "handler_step cfg s s' \<Longrightarrow> i \<in> y_ok s' \<Longrightarrow>
     i \<in> y_ok s \<or> (\<exists>p. HSend p \<in> set (y_handlers s) \<and> i = p_ID p \<and> y_db s' = y_db s)"
  by (erule handler_stepE; auto)

lemma inv_ok_step:
  assumes "inv_tokens s" and "inv_held s" and "inv_queued cfg s" and "inv_ok cfg s"
    and "collections_apart cfg" and "sys_step cfg s s'"
  shows "inv_ok cfg s'"
  using assms(6) unfolding sys_step_def rest_step_def
proof (elim disjE)
  note o = assms(4) [unfolded inv_ok_def]
  assume w: "worker_step cfg s s'"
  have "stored cfg (y_db s') i \<or> i \<in> y_replied s'" if "i \<in> y_ok s" for i
  proof (cases "stored cfg (y_db s) i \<and> \<not> stored cfg (y_db s') i")
    case True
    then show ?thesis using worker_unstores [OF assms(5,2) w] worker_ok_frame [OF w] o by blast
  next
    case False
    then show ?thesis using o that worker_ok_frame [OF w] by blast
  qed
  then show ?thesis
    using o worker_ok_frame [OF w] unfolding inv_ok_def by (auto simp: handler_ids_def)
next
  note o = assms(4) [unfolded inv_ok_def]
  assume h: "handler_step cfg s s'"
  have "stored cfg (y_db s') i \<or> i \<in> y_replied s'" if "i \<in> y_ok s'" for i
    using handler_ok_new [OF h that]
  proof (elim disjE exE conjE)
    assume i: "i \<in> y_ok s"
    show ?thesis
    proof (rule ccontr)
      assume n: "\<not> ?thesis"
      then have "stored cfg (y_db s) i" using o i handler_ok_frame [OF h] by blast
      with n obtain us p vs where "y_handlers s = us @ HRemove p # vs" "i = p_ID p"
        using handler_unstores [OF h] by blast
      then have "i \<in> set (handler_ids s)" by (simp add: handler_ids_def)
      then show False using o i by blast
    qed
  next
    fix p
    assume "HSend p \<in> set (y_handlers s)" "i = p_ID p" "y_db s' = y_db s"
    then show ?thesis using assms(3) by (simp add: inv_queued_def)
  qed
  then show ?thesis
    using o handler_ok_frame [OF h] handler_ok_ids [OF assms(1,4) h] unfolding inv_ok_def by auto
next
  assume "recov_step s s'"
  from recov_frame [OF this] show ?thesis using assms(4) unfolding inv_ok_def by (auto simp: handler_ids_def)
next
  assume "main_step s s'"
  from main_frame [OF this] show ?thesis using assms(4) unfolding inv_ok_def by (auto simp: handler_ids_def)
qed

subsection \<open>The initial state\<close>

lemma recover_docs_ids:
  assumes "recover_docs (map petition_doc ps) err early = (todo, err')"
  shows "\<exists>n. map p_ID todo = map p_ID (take n ps)"
  using assms
proof (induction ps arbitrary: todo err')
  case (Cons p ps)
  show ?case
  proof (cases "doc_petition (petition_doc p)")
    case (Inl e)
    then show ?thesis using Cons.prems by (intro exI [of _ 0]) simp
  next
    case (Inr q)
    obtain t e where r: "recover_docs (map petition_doc ps) err early = (t, e)" by fastforce
    then obtain n where "map p_ID t = map p_ID (take n ps)" using Cons.IH by blast
    moreover have "p_ID q = p_ID p" using doc_petition_id [OF Inr] .
    ultimately show ?thesis using Cons.prems Inr r by (intro exI [of _ "Suc n"]) auto
  qed
qed simp

definition sys_inv :: "config \<Rightarrow> sys \<Rightarrow> bool" where
  "sys_inv cfg s \<longleftrightarrow> collections_apart cfg \<and> inv_tokens s \<and> inv_held s \<and> inv_chan s \<and> inv_stop s \<and>
     inv_docs cfg s \<and> inv_queued cfg s \<and> inv_ok cfg s"

lemma sys_inv_init:
  assumes "sys_init cfg s"
  shows "sys_inv cfg s"
proof -
  obtain n cap db err early where i: "collections_apart cfg" "program_docs cfg db"
      "s = sys_start cfg n cap db err early"
    using assms by (auto simp: sys_init_def)
  obtain ps where ps: "db (petitions_coll cfg) = map petition_doc ps" "distinct (map p_ID ps)"
    using i(2) by (auto simp: program_docs_def)
  obtain todo err' where r: "recover_docs (map petition_doc ps) err early = (todo, err')" by fastforce
  obtain k where k: "map p_ID todo = take k (map p_ID ps)"
    using recover_docs_ids [OF r] by (auto simp: take_map)
  have st: "stored cfg db j \<longleftrightarrow> j \<in> p_ID ` set ps" for j by (auto simp: stored_def ps(1))
  have "distinct (take k (map p_ID ps))" using ps(2) by (rule distinct_take)
  moreover have "set (take k (map p_ID ps)) \<subseteq> set (map p_ID ps)" by (rule set_take_subset)
  ultimately have todo: "distinct (map p_ID todo)" "p_ID ` set todo \<subseteq> {j. stored cfg db j}"
    using st unfolding k [symmetric] by auto
  have s: "s = \<lparr>y_chan = \<lparr>ch_cap = cap, ch_buf = []\<rparr>, y_workers = replicate n WCheck, y_handlers = [],
      y_recov = RTodo todo err', y_db = db, y_stopping = 0, y_end = OpenChan, y_wg = int n,
      y_final = False, y_down = False, y_seen = {j. stored cfg db j}, y_ok = {j. stored cfg db j},
      y_replied = {}, y_taken = []\<rparr>"
    by (simp add: i(3) sys_start_def ps(1) r Let_def)
  have "inv_tokens s" using todo by (simp add: s inv_tokens_def ids_defs)
  moreover have "inv_held s" by (simp add: s inv_held_def ids_defs map_replicate_const)
  moreover have "inv_chan s" by (simp add: s inv_chan_def chan_ok_def)
  moreover have "inv_stop s" by (simp add: s inv_stop_def)
  moreover have "inv_docs cfg s" using i(2) by (simp add: s inv_docs_def)
  moreover have "inv_queued cfg s" using todo(2) by (auto simp: s inv_queued_def ids_defs)
  moreover have "inv_ok cfg s" by (simp add: s inv_ok_def ids_defs)
  ultimately show ?thesis using i(1) by (simp add: sys_inv_def)
qed

lemma sys_inv_step: "sys_inv cfg s \<Longrightarrow> sys_step cfg s s' \<Longrightarrow> sys_inv cfg s'"
  unfolding sys_inv_def
  by (intro conjI; elim conjE;
      (assumption | rule inv_tokens_step | rule inv_held_step | rule inv_chan_step | rule inv_stop_step
        | rule inv_docs_step | rule inv_queued_step | rule inv_ok_step); assumption)

interpretation sys: invariant "sys_init cfg" "sys_step cfg" "sys_inv cfg" for cfg
  by unfold_locales (rule sys_inv_init, assumption, rule sys_inv_step)

definition sys_reachable :: "config \<Rightarrow> sys \<Rightarrow> bool" where
  "sys_reachable cfg s \<longleftrightarrow> (\<exists>s0. sys_init cfg s0 \<and> rtranclp (sys_step cfg) s0 s)"

lemma sys_reachable_inv: "sys_reachable cfg s \<Longrightarrow> sys_inv cfg s"
  using sys.reachable_inv [of cfg s] by (simp add: sys_reachable_def sys.reachable_def)

subsection \<open>The end\<close>

fun w_weight :: "wpc \<Rightarrow> nat" where
  "w_weight WDone = 0"
| "w_weight WCheck = 1"
| "w_weight (WRemove p) = 2"
| "w_weight (WReply p rp) = 3"
| "w_weight (WError p rp) = 4"
| "w_weight (WGot p) = 5"
| "w_weight WSelect = 6"
| "w_weight WParked = 6"

definition sys_weight :: "sys \<Rightarrow> nat" where
  "sys_weight s = (if y_down s then 0 else Suc (sum_list (map w_weight (y_workers s))))"

definition closed :: "sys \<Rightarrow> bool" where
  "closed s \<longleftrightarrow> y_end s = ClosedChan"

lemma worker_lowers:
  "closed s \<Longrightarrow> worker_step cfg s s' \<Longrightarrow> sys_weight s' < sys_weight s \<and> closed s'"
  by (erule worker_stepE; auto simp: sys_weight_def closed_def)

lemma rest_keeps_weight:
  "closed s \<Longrightarrow> rest_step cfg s s' \<Longrightarrow> sys_weight s' \<le> sys_weight s \<and> closed s'"
  unfolding rest_step_def
proof (elim disjE)
  assume c: "closed s"
  show "handler_step cfg s s' \<Longrightarrow> sys_weight s' \<le> sys_weight s \<and> closed s'"
    by (erule handler_stepE; use c in \<open>auto simp: sys_weight_def closed_def\<close>)
  show "recov_step s s' \<Longrightarrow> sys_weight s' \<le> sys_weight s \<and> closed s'"
    by (erule recov_stepE; use c in \<open>auto simp: sys_weight_def closed_def\<close>)
  show "main_step s s' \<Longrightarrow> sys_weight s' \<le> sys_weight s \<and> closed s'"
    by (erule main_stepE; use c in \<open>auto simp: sys_weight_def closed_def\<close>)
qed

interpretation ending: potential "worker_step cfg" "rest_step cfg" closed sys_weight for cfg
  by unfold_locales (use worker_lowers rest_keeps_weight in blast)+

text \<open>The goroutines that can still take a petition once the channel of the end is closed.\<close>

fun can_take :: "wpc \<Rightarrow> bool" where
  "can_take WSelect = True"
| "can_take WParked = True"
| "can_take _ = False"

definition takes_left :: "sys \<Rightarrow> nat" where
  "takes_left s = length (y_taken s) + length (filter can_take (y_workers s))"

lemma takes_left_step: "closed s \<Longrightarrow> sys_step cfg s s' \<Longrightarrow> takes_left s' \<le> takes_left s \<and> closed s'"
  unfolding sys_step_def rest_step_def
proof (elim disjE)
  assume c: "closed s"
  show "worker_step cfg s s' \<Longrightarrow> takes_left s' \<le> takes_left s \<and> closed s'"
    by (erule worker_stepE; use c in \<open>auto simp: takes_left_def closed_def\<close>)
  show "handler_step cfg s s' \<Longrightarrow> takes_left s' \<le> takes_left s \<and> closed s'"
    by (erule handler_stepE; use c in \<open>auto simp: takes_left_def closed_def\<close>)
  show "recov_step s s' \<Longrightarrow> takes_left s' \<le> takes_left s \<and> closed s'"
    by (erule recov_stepE; use c in \<open>auto simp: takes_left_def closed_def\<close>)
  show "main_step s s' \<Longrightarrow> takes_left s' \<le> takes_left s \<and> closed s'"
    by (erule main_stepE; use c in \<open>auto simp: takes_left_def closed_def\<close>)
qed

interpretation taking: potential "\<lambda>_ _. False" "sys_step cfg" closed takes_left for cfg
  by unfold_locales (use takes_left_step in blast)+

lemma ending_run_steps: "ending.run cfg s n s' \<Longrightarrow> taking.run cfg s 0 s' \<and> rtranclp (sys_step cfg) s s'"
proof (induction rule: ending.run.induct)
  case (run_refl s)
  then show ?case by (simp add: taking.run_refl)
next
  case (run_part s n s' s'')
  then have "sys_step cfg s' s''" by (simp add: sys_step_def)
  then show ?case using run_part by (blast intro: taking.run_rest rtranclp.rtrancl_into_rtrancl)
next
  case (run_rest s n s' s'')
  then have "sys_step cfg s' s''" by (simp add: sys_step_def)
  then show ?case using run_rest by (blast intro: taking.run_rest rtranclp.rtrancl_into_rtrancl)
qed

lemma worker_can_step:
  assumes "\<not> y_down s" and "y_end s = ClosedChan" and "pc \<in> set (y_workers s)" and "pc \<noteq> WDone"
  shows "\<exists>s'. worker_step cfg s s'"
proof -
  obtain us vs where w: "y_workers s = us @ pc # vs" using assms(3) by (meson split_list)
  show ?thesis
  proof (cases pc)
    case (WGot p)
    obtain r p' where r: "petition_Request p = (r, p')" by fastforce
    consider e where "r = Panics e" | e where "r = Returns (Inl e)" | req where "r = Returns (Inr req)"
      by (metis outcome.exhaust sum.exhaust)
    then show ?thesis
    proof cases
      case 1
      then show ?thesis using w_nil [OF assms(1)] w WGot r by blast
    next
      case 2
      then show ?thesis using w_unbuilt [OF assms(1)] w WGot r by blast
    next
      case 3
      obtain rp where "newReply (Inl []) p' 0 = Returns rp" by (simp add: newReply_def Let_def)
      then show ?thesis using w_answered [OF assms(1)] w WGot r 3 by blast
    qed
  next
    case (WError p rp)
    then show ?thesis using w_error_copy [OF assms(1), of us p rp vs cfg] w by blast
  next
    case (WReply p rp)
    then show ?thesis using w_reply [OF assms(1), of us p rp vs cfg] w by blast
  next
    case (WRemove p)
    then show ?thesis using w_remove [OF assms(1), of us p vs cfg] w by blast
  qed (use w assms(4) w_end [OF assms(1) w _ assms(2)] in auto)
qed

text \<open>The ids that wait to be taken or have been taken; no step loses one.\<close>

definition brought :: "sys \<Rightarrow> string set" where
  "brought s = set (queued_ids s) \<union> set (y_taken s)"

lemma brought_step: "sys_step cfg s s' \<Longrightarrow> brought s \<subseteq> brought s'"
  unfolding sys_step_def rest_step_def
proof (elim disjE)
  show "worker_step cfg s s' \<Longrightarrow> brought s \<subseteq> brought s'"
    by (erule worker_stepE; auto simp: brought_def queued_ids_def dest!: chan_get_buf)
  show "handler_step cfg s s' \<Longrightarrow> brought s \<subseteq> brought s'"
    by (erule handler_stepE; auto simp: brought_def queued_ids_def dest!: chan_put_buf)
  show "recov_step s s' \<Longrightarrow> brought s \<subseteq> brought s'"
    by (erule recov_stepE; auto simp: brought_def queued_ids_def dest!: chan_put_buf)
  show "main_step s s' \<Longrightarrow> brought s \<subseteq> brought s'"
    by (erule main_stepE; auto simp: brought_def queued_ids_def)
qed

lemma brought_steps: "rtranclp (sys_step cfg) s s' \<Longrightarrow> brought s \<subseteq> brought s'"
  by (induction rule: rtranclp_induct) (auto dest: brought_step)

lemma recover_docs_complete:
  "list_all (\<lambda>d. \<exists>p. doc_petition d = Inr p) (map petition_doc ps) \<Longrightarrow>
     map p_ID (fst (recover_docs (map petition_doc ps) err early)) = map p_ID ps"
  by (induction ps) (auto simp: doc_petition_id split: prod.split)

lemma start_brought:
  assumes "program_docs cfg db" and "list_all (\<lambda>d. \<exists>p. doc_petition d = Inr p) (db (petitions_coll cfg))"
  shows "{i. stored cfg db i} \<subseteq> brought (sys_start cfg n cap db err early)"
proof -
  obtain ps where ps: "db (petitions_coll cfg) = map petition_doc ps" using assms(1) by (auto simp: program_docs_def)
  have "map p_ID (fst (recover_docs (map petition_doc ps) err early)) = map p_ID ps"
    using recover_docs_complete assms(2) by (simp add: ps)
  then have "p_ID ` set (fst (recover_docs (map petition_doc ps) err early)) = p_ID ` set ps" by (metis set_map)
  then show ?thesis
    by (auto simp: brought_def queued_ids_def sys_start_def stored_def ps Let_def split: prod.split)
qed

subsection \<open>Properties\<close>

text \<open>
  C2: Each petition is taken once. In every reachable state, whatever the interleaving of requests,
  recovery and consumers, no id has been taken from the channel twice, no two goroutines hold the
  same petition, and what still waits in the buffer, with the recoverer or with a request is neither
  doubled nor already taken: recovering before the listener starts enqueues nothing twice.
\<close>
theorem taken_once:
  assumes "sys_reachable cfg s"
  shows "distinct (queued_ids s @ handler_ids s @ y_taken s) \<and> distinct (worker_ids s) \<and>
    set (worker_ids s) \<subseteq> set (y_taken s)"
  using sys_reachable_inv [OF assms] by (simp add: sys_inv_def inv_tokens_def inv_held_def)

text \<open>
  C1: No accepted petition is lost, at any point where the process may die. In every reachable state
  each petition that was answered with 200, or was in the store at the start, is still in the
  petitions collection or a consumer has made the insertion of its reply (whether the store took it
  or refused it, as \<open>process\<close> goes on in both cases); and every petition waiting in the buffer or
  with the recoverer is in the collection.
\<close>
theorem accepted_not_lost:
  assumes "sys_reachable cfg s"
  shows "(\<forall>i \<in> y_ok s. stored cfg (y_db s) i \<or> i \<in> y_replied s) \<and>
    (\<forall>i \<in> set (queued_ids s). stored cfg (y_db s) i)"
  using sys_reachable_inv [OF assms] by (simp add: sys_inv_def inv_queued_def inv_ok_def)

text \<open>
  C4: A restart brings back every accepted petition. Whatever state the process was in when it died, a new
  process can start from the store it left. If all documents of the petitions collection can be decoded, the
  recoverer of the new process has all of them to send; and in every state the new process gets to with the recovery
  done, each petition that was accepted by the old one and has no reply yet has been enqueued: it has been taken by a consumer
  of the new process or waits in its channel.
\<close>
theorem restart_recovers:
  assumes "sys_reachable cfg s" and "list_all (\<lambda>d. \<exists>p. doc_petition d = Inr p) (y_db s (petitions_coll cfg))"
    and "rtranclp (sys_step cfg) (sys_start cfg n cap (y_db s) err early) t" and "y_recov t = RDone"
  shows "sys_init cfg (sys_start cfg n cap (y_db s) err early) \<and>
    y_ok s - y_replied s \<subseteq> set (y_taken t) \<union> p_ID ` set (ch_buf (y_chan t))"
proof -
  let ?s0 = "sys_start cfg n cap (y_db s) err early"
  note inv = sys_reachable_inv [OF assms(1), unfolded sys_inv_def inv_docs_def inv_ok_def]
  then have init: "sys_init cfg ?s0" unfolding sys_init_def by blast
  have "y_ok s - y_replied s \<subseteq> {i. stored cfg (y_db s) i}" using inv by blast
  also have "\<dots> \<subseteq> brought ?s0" by (rule start_brought) (use inv assms(2) in blast)+
  also have "\<dots> \<subseteq> brought t" by (rule brought_steps [OF assms(3)])
  finally show ?thesis using init assms(4) by (simp add: brought_def queued_ids_def Un_commute)
qed

text \<open>
  The channel and its receivers. In every reachable state the buffer is within its capacity, and
  a consumer is blocked in a receive only while the buffer is empty, so a request is turned away as
  busy only when the buffer is full and no consumer waits.
\<close>
theorem channel_bounded:
  assumes "sys_reachable cfg s"
  shows "length (ch_buf (y_chan s)) \<le> ch_cap (y_chan s) \<and>
    (WParked \<in> set (y_workers s) \<longrightarrow> ch_buf (y_chan s) = [])"
  using sys_reachable_inv [OF assms] by (simp add: sys_inv_def inv_chan_def chan_ok_def)

text \<open>
  C5: The end is announced only at the end. In every reachable state the counter of the wait group
  is the number of goroutines still running; so when the end has been announced all of them have
  ended, none ends before \<open>Stop\<close> closed its channel, and that happens only after the listener was
  stopped. So with at least one goroutine the end is announced only after the listener was stopped and the
  channel closed; with none it may be announced at once.
\<close>
theorem end_announced:
  assumes "sys_reachable cfg s"
  shows "y_wg s = int (length (filter (\<lambda>pc. pc \<noteq> WDone) (y_workers s))) \<and>
    (y_final s \<longrightarrow> set (y_workers s) \<subseteq> {WDone}) \<and>
    (WDone \<in> set (y_workers s) \<longrightarrow> y_end s = ClosedChan \<and> Stopped (y_stopping s)) \<and>
    (y_final s \<and> y_workers s \<noteq> [] \<longrightarrow> y_end s = ClosedChan \<and> Stopped (y_stopping s)) \<and>
    (\<not> y_down s \<and> y_workers s = [] \<longrightarrow> main_step s (s\<lparr>y_final := True\<rparr>))"
proof -
  have i: "inv_stop s" using sys_reachable_inv [OF assms] by (simp add: sys_inv_def)
  moreover have "set (y_workers s) \<subseteq> {WDone}" if "y_wg s = 0"
  proof -
    have "filter (\<lambda>pc. pc \<noteq> WDone) (y_workers s) = []" using i that by (simp add: inv_stop_def)
    then show ?thesis by (auto simp: filter_empty_conv)
  qed
  ultimately have "(y_final s \<longrightarrow> set (y_workers s) \<subseteq> {WDone}) \<and>
      (WDone \<in> set (y_workers s) \<longrightarrow> y_end s = ClosedChan \<and> Stopped (y_stopping s))"
    by (auto simp: inv_stop_def)
  moreover have "main_step s (s\<lparr>y_final := True\<rparr>)" if "\<not> y_down s" "y_workers s = []"
    by (rule m_final) (use i that in \<open>simp_all add: inv_stop_def\<close>)
  ultimately show ?thesis using i by (cases "y_workers s") (auto simp: inv_stop_def)
qed

lemma weight_bound: "sys_weight s \<le> Suc (6 * length (y_workers s))"
proof -
  have "w_weight pc \<le> 6" for pc by (cases pc) simp_all
  then have "sum_list (map w_weight ws) \<le> 6 * length ws" for ws
    by (induction ws) (simp_all add: add_le_mono)
  then show ?thesis by (simp add: sys_weight_def)
qed

text \<open>
  C3: Shutdown ends. Once \<open>Stop\<close> has closed its channel, the consumer goroutines together can take at
  most six steps each and one, whatever the requests still being served do; each goroutine takes at
  most one more petition; and as long as the process is up, some goroutine can take a step or all
  have ended and the end can be announced. So every fair run comes to an end.
\<close>
theorem shutdown_ends:
  assumes "sys_reachable cfg s" and "y_end s = ClosedChan" and "ending.run cfg s n s'"
  shows "n \<le> Suc (6 * length (y_workers s)) \<and>
    length (y_taken s') \<le> length (y_taken s) + length (y_workers s) \<and>
    (y_down s' \<or> (\<exists>s''. worker_step cfg s' s'') \<or>
      (set (y_workers s') \<subseteq> {WDone} \<and> main_step s' (s'\<lparr>y_final := True\<rparr>)))"
proof -
  have c: "closed s" using assms(2) by (simp add: closed_def)
  have b: "n + sys_weight s' \<le> sys_weight s" "closed s'"
    using ending.run_bound [OF assms(3) c] by auto
  have t: "taking.run cfg s 0 s'" "rtranclp (sys_step cfg) s s'"
    using ending_run_steps [OF assms(3)] by auto
  have "0 + takes_left s' \<le> takes_left s" using taking.run_bound [OF t(1) c] by blast
  then have tk: "length (y_taken s') \<le> length (y_taken s) + length (y_workers s)"
    unfolding takes_left_def using length_filter_le [of can_take "y_workers s"] by linarith
  have "sys_reachable cfg s'"
    using assms(1) t(2) unfolding sys_reachable_def by (blast intro: rtranclp_trans)
  then have i: "inv_stop s'" using sys_reachable_inv by (auto simp: sys_inv_def)
  have "y_down s' \<or> (\<exists>s''. worker_step cfg s' s'') \<or>
      (set (y_workers s') \<subseteq> {WDone} \<and> main_step s' (s'\<lparr>y_final := True\<rparr>))"
  proof (cases "set (y_workers s') \<subseteq> {WDone}")
    case True
    then have "filter (\<lambda>pc. pc \<noteq> WDone) (y_workers s') = []" by (auto simp: filter_empty_conv)
    then have "y_wg s' = 0" using i by (simp add: inv_stop_def)
    then show ?thesis using True m_final by blast
  next
    case False
    then show ?thesis using worker_can_step b(2) by (auto simp: closed_def)
  qed
  moreover have "n \<le> Suc (6 * length (y_workers s))" using b(1) weight_bound [of s] by linarith
  ultimately show ?thesis using tk by blast
qed

subsection \<open>A run\<close>

definition sample_store :: store where
  "sample_store = (\<lambda>_. [])(petitions_coll sample_cfg := [petition_doc sample_petition])"

definition sample_sys :: sys where
  "sample_sys = sys_start sample_cfg 1 1 sample_store None None"

lemma sample_program_docs: "program_docs sample_cfg sample_store"
  unfolding program_docs_def by (rule exI [of _ "[sample_petition]"]) (simp add: sample_store_def)

lemma sample_apart: "collections_apart sample_cfg"
  by (simp add: collections_apart_def petitions_coll_def responses_coll_def errors_coll_def sample_cfg_def)

lemma sample_sys_reachable: "sys_reachable sample_cfg sample_sys"
  unfolding sys_reachable_def sys_init_def sample_sys_def
  using sample_program_docs sample_apart by blast

lemma sample_stored: "{i. stored sample_cfg sample_store i} = {p_ID sample_petition}"
  by (auto simp: stored_def sample_store_def)

lemma sample_sys_eq:
  "sample_sys = \<lparr>y_chan = \<lparr>ch_cap = 1, ch_buf = []\<rparr>, y_workers = [WCheck], y_handlers = [],
     y_recov = RTodo [sample_petition] None, y_db = sample_store, y_stopping = 0, y_end = OpenChan,
     y_wg = 1, y_final = False, y_down = False, y_seen = {p_ID sample_petition},
     y_ok = {p_ID sample_petition}, y_replied = {}, y_taken = []\<rparr>"
proof -
  have "recover_docs (sample_store (petitions_coll sample_cfg)) None None = ([sample_petition], None)"
    by (simp add: sample_store_def sample_petition_survives)
  then show ?thesis
    by (simp add: sample_sys_def sys_start_def sample_stored Let_def)
qed

lemma recov_sys_step: "recov_step s s' \<Longrightarrow> sys_step cfg s s'"
  and main_sys_step: "main_step s s' \<Longrightarrow> sys_step cfg s s'"
  by (simp_all add: sys_step_def rest_step_def)

theorem taken_once_witness:
  "distinct (queued_ids sample_sys @ handler_ids sample_sys @ y_taken sample_sys) \<and>
     queued_ids sample_sys = [p_ID sample_petition]"
  using taken_once [OF sample_sys_reachable] by (simp add: sample_sys_eq ids_defs)

theorem accepted_not_lost_witness:
  "p_ID sample_petition \<in> y_ok sample_sys \<and> p_ID sample_petition \<notin> y_replied sample_sys \<and>
     stored sample_cfg (y_db sample_sys) (p_ID sample_petition)"
  using accepted_not_lost [OF sample_sys_reachable] by (simp add: sample_sys_eq)

theorem restart_recovers_witness:
  "\<exists>t. rtranclp (sys_step sample_cfg) (sys_start sample_cfg 1 1 (y_db sample_sys) None None) t \<and> y_recov t = RDone \<and>
     p_ID sample_petition \<in> set (y_taken t) \<union> p_ID ` set (ch_buf (y_chan t))"
proof -
  have s: "sys_start sample_cfg 1 1 (y_db sample_sys) None None = sample_sys"
    by (simp add: sample_sys_eq flip: sample_sys_def [unfolded One_nat_def])
  let ?s1 = "sample_sys\<lparr>y_recov := RTodo [] None, y_chan := \<lparr>ch_cap = 1, ch_buf = [sample_petition]\<rparr>\<rparr>"
  let ?s2 = "?s1\<lparr>y_recov := RDone\<rparr>"
  have 1: "recov_step sample_sys ?s1" by (rule r_buffered) (simp_all add: sample_sys_eq chan_put_def)
  have 2: "recov_step ?s1 ?s2" by (rule r_done) (simp_all add: sample_sys_eq)
  have run: "rtranclp (sys_step sample_cfg) (sys_start sample_cfg 1 1 (y_db sample_sys) None None) ?s2"
    unfolding s by (rule rtranclp.rtrancl_into_rtrancl [OF r_into_rtranclp [of "sys_step sample_cfg", OF
            recov_sys_step [OF 1]] recov_sys_step [OF 2]])
  have "list_all (\<lambda>d. \<exists>p. doc_petition d = Inr p) (y_db sample_sys (petitions_coll sample_cfg))"
    using sample_petition_survives by (auto simp: sample_sys_eq sample_store_def)
  from restart_recovers [OF sample_sys_reachable this run] run show ?thesis
    by (intro exI [of _ ?s2]) (simp add: sample_sys_eq)
qed

theorem channel_bounded_witness:
  "length (ch_buf (y_chan sample_sys)) \<le> ch_cap (y_chan sample_sys) \<and> ch_cap (y_chan sample_sys) = 1"
  using channel_bounded [OF sample_sys_reachable] by (simp add: sample_sys_eq)

theorem end_announced_witness:
  "y_wg sample_sys = int (length (filter (\<lambda>pc. pc \<noteq> WDone) (y_workers sample_sys))) \<and>
     y_wg sample_sys = 1"
  using end_announced [OF sample_sys_reachable] by (simp add: sample_sys_eq)

text \<open>The sample after the recovery, with the petition in the buffer and both stops done.\<close>

definition sample_closed :: sys where
  "sample_closed = sample_sys\<lparr>y_recov := RDone, y_chan := \<lparr>ch_cap = 1, ch_buf = [sample_petition]\<rparr>,
     y_stopping := 1, y_end := ClosedChan\<rparr>"

lemma sample_closed_reachable: "sys_reachable sample_cfg sample_closed"
proof -
  let ?s1 = "sample_sys\<lparr>y_recov := RTodo [] None, y_chan := \<lparr>ch_cap = 1, ch_buf = [sample_petition]\<rparr>\<rparr>"
  let ?s2 = "?s1\<lparr>y_recov := RDone\<rparr>"
  let ?s3 = "?s2\<lparr>y_stopping := listener_Stop (y_stopping ?s2)\<rparr>"
  let ?s4 = "?s3\<lparr>y_end := ClosedChan\<rparr>"
  have 1: "recov_step sample_sys ?s1"
    by (rule r_buffered) (simp_all add: sample_sys_eq chan_put_def)
  have 2: "recov_step ?s1 ?s2" by (rule r_done) (simp_all add: sample_sys_eq)
  have 3: "main_step ?s2 ?s3" by (rule m_stop) (simp_all add: sample_sys_eq Stopped_def)
  have 4: "main_step ?s3 ?s4"
    by (rule m_close) (simp_all add: sample_sys_eq Stopped_def listener_Stop_def)
  have "rtranclp (sys_step sample_cfg) sample_sys ?s4"
    by (rule rtranclp.rtrancl_into_rtrancl [OF rtranclp.rtrancl_into_rtrancl [OF
          rtranclp.rtrancl_into_rtrancl [OF r_into_rtranclp [of "sys_step sample_cfg", OF
            recov_sys_step [OF 1]] recov_sys_step [OF 2]] main_sys_step [OF 3]] main_sys_step [OF 4]])
  moreover have "?s4 = sample_closed" by (simp add: sample_closed_def listener_Stop_def)
  ultimately show ?thesis
    using sample_sys_reachable unfolding sys_reachable_def by (metis rtranclp_trans)
qed

theorem shutdown_ends_witness:
  "\<exists>s'. ending.run sample_cfg sample_closed 1 s' \<and> 1 \<le> Suc (6 * length (y_workers sample_closed)) \<and>
     set (y_workers s') \<subseteq> {WDone} \<and> main_step s' (s'\<lparr>y_final := True\<rparr>)"
proof -
  let ?s' = "sample_closed\<lparr>y_workers := [] @ WDone # [], y_wg := y_wg sample_closed - 1\<rparr>"
  have "worker_step sample_cfg sample_closed ?s'"
    by (rule w_end [where pc = WCheck]) (simp_all add: sample_closed_def sample_sys_eq)
  then have run: "ending.run sample_cfg sample_closed 1 ?s'"
    using ending.run_part [OF ending.run_refl] by (metis One_nat_def)
  have c: "y_end sample_closed = ClosedChan" by (simp add: sample_closed_def)
  have "\<not> y_down ?s'" by (simp add: sample_closed_def sample_sys_eq)
  moreover have "\<nexists>s''. worker_step sample_cfg ?s' s''"
    by (auto elim!: worker_stepE simp: Cons_eq_append_conv)
  ultimately show ?thesis
    using shutdown_ends [OF sample_closed_reachable c run] run by blast
qed

end
