(* ===== verification/Refinement.thy ===== *)
theory Refinement
  imports System
begin

text \<open>
  The steps of theory \<open>System\<close> are the program's: a whole call of \<open>process\<close> or of \<open>ServeHTTP\<close>, run on a
  store that does what it acknowledges, is a sequence of steps of its goroutine.
\<close>

lemma mongo_Insert_or:
  assumes "mongo_ok P db" and "Coll_Insert P c d w = (e, w')"
  shows "inserted c d (db (wd_env w)) (db (wd_env w')) \<or> db (wd_env w') = db (wd_env w)"
  using mongo_Insert [OF assms] by blast

lemma mongo_Remove_or:
  assumes "mongo_ok P db" and "Coll_Remove P c i w = (e, w')"
  shows "removed c i (db (wd_env w)) (db (wd_env w')) \<or> db (wd_env w') = db (wd_env w)"
  using mongo_Remove [OF assms] by blast

lemma save_reply_split:
  assumes "mongo_ok P db"
  shows "\<exists>dbm. (if bad_answer a
      then inserted (errors_coll cfg) (reply_doc rp) (db (wd_env w)) dbm \<or> dbm = db (wd_env w)
      else dbm = db (wd_env w)) \<and>
    (inserted (responses_coll cfg) (reply_doc rp) dbm (db (wd_env (save_reply P cfg a rp w))) \<or>
      db (wd_env (save_reply P cfg a rp w)) = dbm)"
proof -
  obtain e1 w1 where i1: "Coll_Insert P (errors_coll cfg) (reply_doc rp) w = (e1, w1)" by fastforce
  define wm where "wm = (if bad_answer a then refresh_if P e1 w1 else w)"
  obtain e2 w2 where i2: "Coll_Insert P (responses_coll cfg) (reply_doc rp) wm = (e2, w2)" by fastforce
  have sv: "save_reply P cfg a rp w = refresh_if P e2 w2"
    using i1 i2 by (auto simp: save_reply_def Let_def wm_def split: if_splits)
  have "if bad_answer a
      then inserted (errors_coll cfg) (reply_doc rp) (db (wd_env w)) (db (wd_env wm)) \<or>
        db (wd_env wm) = db (wd_env w)
      else db (wd_env wm) = db (wd_env w)"
    using mongo_Insert_or [OF assms i1] by (simp add: wm_def refresh_if_store [OF assms])
  moreover have "inserted (responses_coll cfg) (reply_doc rp) (db (wd_env wm))
        (db (wd_env (save_reply P cfg a rp w))) \<or>
      db (wd_env (save_reply P cfg a rp w)) = db (wd_env wm)"
    using mongo_Insert_or [OF assms i2] by (simp add: sv refresh_if_store [OF assms])
  ultimately show ?thesis by blast
qed

lemma remove_petition_split:
  assumes "mongo_ok P db"
  shows "removed (petitions_coll cfg) (p_ID p) (db (wd_env w)) (db (wd_env (remove_petition P cfg p w))) \<or>
    db (wd_env (remove_petition P cfg p w)) = db (wd_env w)"
proof -
  obtain e w1 where r: "Coll_Remove P (petitions_coll cfg) (p_ID p) w = (e, w1)" by fastforce
  then show ?thesis
    using mongo_Remove_or [OF assms r] by (simp add: remove_petition_def refresh_if_store [OF assms])
qed

text \<open>
  C6: \<open>process\<close> is a sequence of consumer steps. When a goroutine holds a petition and the store is
  the one \<open>process\<close> runs on, the call corresponds to steps of that goroutine alone that end with the
  same store: back at the outer select if the call returns, and with the process down if it panics.
\<close>
theorem process_refines:
  assumes "mongo_ok P db" and "process P cfg p w = (res, p', w')"
    and "\<not> y_down s" and "y_workers s = us @ WGot p # vs" and "y_db s = db (wd_env w)"
  shows "\<exists>s'. rtranclp (worker_step cfg) s s' \<and> y_db s' = db (wd_env w') \<and>
    (case res of
       Returns _ \<Rightarrow> y_workers s' = us @ WCheck # vs \<and> \<not> y_down s'
     | Panics _ \<Rightarrow> y_down s') \<and>
    y_chan s' = y_chan s \<and> y_handlers s' = y_handlers s \<and> y_recov s' = y_recov s \<and> y_taken s' = y_taken s"
proof -
  obtain r p1 where r: "petition_Request p = (r, p1)" by fastforce
  consider e where "r = Panics e" | e where "r = Returns (Inl e)" | req where "r = Returns (Inr req)"
    by (metis outcome.exhaust sum.exhaust)
  then show ?thesis
  proof cases
    case (1 e)
    then have run: "res = Panics e" "w' = w" using assms(2) r by (simp_all add: process_def)
    have "worker_step cfg s (s\<lparr>y_down := True\<rparr>)" using w_nil [OF assms(3,4)] r 1 by blast
    then show ?thesis using run assms(5) by (intro exI [of _ "s\<lparr>y_down := True\<rparr>"]) auto
  next
    case (2 e)
    then have run: "res = Returns ()" "w' = w" using assms(2) r by (simp_all add: process_def)
    have "worker_step cfg s (s\<lparr>y_workers := us @ WCheck # vs\<rparr>)" using w_unbuilt [OF assms(3,4)] r 2 by blast
    then show ?thesis using run assms(3,5)
      by (intro exI [of _ "s\<lparr>y_workers := us @ WCheck # vs\<rparr>"]) auto
  next
    case (3 req)
    note rq = r [unfolded 3]
    obtain a w1 where d: "doRequest P cfg req w = (a, w1)" by fastforce
    have s1: "db (wd_env w1) = y_db s" using doRequest_store [OF assms(1) d] assms(5) by simp
    show ?thesis
    proof (cases "newReply a p1 (pf_Now P (wd_env w1))")
      case (Panics e)
      then have run: "res = Panics e" "w' = close_answer a w1"
        using assms(2) rq d by (auto simp: process_def Let_def)
      have "worker_step cfg s (s\<lparr>y_down := True\<rparr>)" using w_broken [OF assms(3,4) rq Panics] .
      then show ?thesis using run s1
        by (intro exI [of _ "s\<lparr>y_down := True\<rparr>"]) (auto simp: close_answer_store)
    next
      case (Returns rp0)
      define rp where "rp = rp0\<lparr>r_Created := bson_Now (pf_Now P (wd_env w))\<rparr>"
      let ?w2 = "save_reply P cfg a rp w1"
      let ?w3 = "remove_petition P cfg p1 ?w2"
      have run: "res = Returns ()" "w' = close_answer a ?w3"
        using assms(2) process_run [OF rq d Returns rp_def] by auto
      obtain dbm where m: "if bad_answer a
          then inserted (errors_coll cfg) (reply_doc rp) (y_db s) dbm \<or> dbm = y_db s else dbm = y_db s"
        "inserted (responses_coll cfg) (reply_doc rp) dbm (db (wd_env ?w2)) \<or> db (wd_env ?w2) = dbm"
        using save_reply_split [OF assms(1), of a cfg rp w1] unfolding s1 by blast
      let ?t0 = "s\<lparr>y_workers := us @ (if bad_answer a then WError p1 rp else WReply p1 rp) # vs\<rparr>"
      let ?t1 = "s\<lparr>y_workers := us @ WReply p1 rp # vs, y_db := dbm\<rparr>"
      let ?t2 = "?t1\<lparr>y_workers := us @ WRemove p1 # vs, y_db := db (wd_env ?w2),
        y_replied := insert (p_ID p1) (y_replied ?t1)\<rparr>"
      let ?t3 = "?t2\<lparr>y_workers := us @ WCheck # vs, y_db := db (wd_env ?w3)\<rparr>"
      have "worker_step cfg s ?t0" by (rule w_answered [OF assms(3,4) rq Returns rp_def])
      moreover have "rtranclp (worker_step cfg) ?t0 ?t1"
      proof (cases "bad_answer a")
        case True
        have "worker_step cfg ?t0 (?t0\<lparr>y_workers := us @ WReply p1 rp # vs, y_db := dbm\<rparr>)"
          using m(1) True assms(3) by (intro w_error_copy) simp_all
        then show ?thesis by auto
      next
        case False
        then have "?t1 = ?t0" using m(1) by simp
        then show ?thesis by simp
      qed
      moreover have "worker_step cfg ?t1 ?t2"
        using m(2) assms(3) by (intro w_reply [where rp = rp]) simp_all
      moreover have "worker_step cfg ?t2 ?t3"
        using remove_petition_split [OF assms(1), of cfg p1 ?w2] assms(3)
        by (intro w_remove [where p = p1]) simp_all
      ultimately have "rtranclp (worker_step cfg) s ?t3"
        by (blast intro: converse_rtranclp_into_rtranclp rtranclp_trans rtranclp.rtrancl_into_rtrancl)
      then show ?thesis
        using run assms(3) by (intro exI [of _ ?t3]) (simp add: close_answer_store)
    qed
  qed
qed

text \<open>
  C7: \<open>ServeHTTP\<close> is a sequence of request steps. On the buffer and the store of a running program,
  with a new id, a call that does not panic corresponds to steps of that request alone that end with
  the same store and the same buffer, the petition handed to a blocked consumer if there is one; its
  id is among the accepted ones exactly when the answer is 200.
\<close>
theorem listener_refines:
  assumes "mongo_ok P db" and "sv = ServeHTTP P rd cfg (y_stopping s) parked (y_chan s) req r w"
    and "\<not> y_down s" and "y_recov s = RDone" and "y_db s = db (wd_env w)"
    and "parked = (WParked \<in> set (y_workers s))" and "sv_panic sv = None"
    and "\<forall>p q r'. newPetition rd (pf_Now P (wd_env w)) req r = (Returns (Inr p), q, r') \<longrightarrow> p_ID p \<notin> y_seen s"
    and "y_ok s \<subseteq> y_seen s"
  shows "\<exists>s'. rtranclp (handler_step cfg) s s' \<and> y_db s' = db (wd_env (sv_world sv)) \<and>
    y_chan s' = sv_chan sv \<and> (sv_handed sv = None \<longrightarrow> y_workers s' = y_workers s) \<and>
    (\<forall>p. sv_handed sv = Some p \<longrightarrow> WGot p \<in> set (y_workers s')) \<and>
    (w_code (sv_writer sv) = Some 200 \<longleftrightarrow> y_ok s' \<noteq> y_ok s)"
  using assms(2)
proof (cases rule: ServeHTTP_cases)
  case stopped
  then show ?thesis using assms(5) by (intro exI [of _ s]) simp
next
  case (panicked e q r')
  then show ?thesis using assms(7) by simp
next
  case (malformed e q r')
  then show ?thesis using assms(5) by (intro exI [of _ s]) simp
next
  case (unstored p q r' e w1)
  let ?s1 = "s\<lparr>y_handlers := y_handlers s @ [HInsert p], y_seen := insert (p_ID p) (y_seen s)\<rparr>"
  let ?s2 = "?s1\<lparr>y_handlers := y_handlers s @ HDone # [], y_db := db (wd_env w1)\<rparr>"
  have 1: "handler_step cfg s ?s1" using h_new assms(3,4,8) unstored(1,2) by blast
  have 2: "handler_step cfg ?s1 ?s2"
    using mongo_Insert_or [OF assms(1) unstored(3)] assms(3,5) by (intro h_insert_error [where p = p]) auto
  have "rtranclp (handler_step cfg) s ?s2"
    using 1 2 by (blast intro: converse_rtranclp_into_rtranclp r_into_rtranclp)
  then show ?thesis
    using unstored mongo_frame(1) [OF assms(1), of w1] by (intro exI [of _ ?s2]) simp
next
  case (handed p q r' w1)
  obtain as bs where w: "y_workers s = as @ WParked # bs"
    using handed(4) assms(6) by (meson split_list)
  let ?s1 = "s\<lparr>y_handlers := y_handlers s @ [HInsert p], y_seen := insert (p_ID p) (y_seen s)\<rparr>"
  let ?s2 = "?s1\<lparr>y_handlers := y_handlers s @ HSend p # [], y_db := db (wd_env w1)\<rparr>"
  let ?s3 = "?s2\<lparr>y_handlers := y_handlers s @ HDone # [], y_workers := as @ WGot p # bs,
      y_ok := insert (p_ID p) (y_ok ?s2), y_taken := p_ID p # y_taken ?s2\<rparr>"
  have n: "p_ID p \<notin> y_seen s" using assms(8) handed(2) by blast
  have 1: "handler_step cfg s ?s1" using h_new assms(3,4) n handed(1) by blast
  have 2: "handler_step cfg ?s1 ?s2"
    using mongo_Insert [OF assms(1) handed(3)] assms(3,5) by (intro h_insert [where p = p]) auto
  have 3: "handler_step cfg ?s2 ?s3" using assms(3) w by (intro h_handed) simp_all
  have "rtranclp (handler_step cfg) s ?s3"
    using 1 2 3 by (blast intro: converse_rtranclp_into_rtranclp r_into_rtranclp)
  then show ?thesis using handed n assms(9) by (intro exI [of _ ?s3]) auto
next
  case (buffered p q r' w1 ch')
  let ?s1 = "s\<lparr>y_handlers := y_handlers s @ [HInsert p], y_seen := insert (p_ID p) (y_seen s)\<rparr>"
  let ?s2 = "?s1\<lparr>y_handlers := y_handlers s @ HSend p # [], y_db := db (wd_env w1)\<rparr>"
  let ?s3 = "?s2\<lparr>y_handlers := y_handlers s @ HDone # [], y_chan := ch',
      y_ok := insert (p_ID p) (y_ok ?s2)\<rparr>"
  have n: "p_ID p \<notin> y_seen s" using assms(8) buffered(2) by blast
  have 1: "handler_step cfg s ?s1" using h_new assms(3,4) n buffered(1) by blast
  have 2: "handler_step cfg ?s1 ?s2"
    using mongo_Insert [OF assms(1) buffered(3)] assms(3,5) by (intro h_insert [where p = p]) auto
  have 3: "handler_step cfg ?s2 ?s3"
    using assms(3,6) buffered(4,5) by (intro h_buffered [where p = p]) simp_all
  have "rtranclp (handler_step cfg) s ?s3"
    using 1 2 3 by (blast intro: converse_rtranclp_into_rtranclp r_into_rtranclp)
  then show ?thesis using buffered n assms(9) by (intro exI [of _ ?s3]) auto
next
  case (busy p q r' w1 e w2)
  let ?s1 = "s\<lparr>y_handlers := y_handlers s @ [HInsert p], y_seen := insert (p_ID p) (y_seen s)\<rparr>"
  let ?s2 = "?s1\<lparr>y_handlers := y_handlers s @ HSend p # [], y_db := db (wd_env w1)\<rparr>"
  let ?s3 = "?s2\<lparr>y_handlers := y_handlers s @ HRemove p # []\<rparr>"
  let ?s4 = "?s3\<lparr>y_handlers := y_handlers s @ HDone # [], y_db := db (wd_env w2)\<rparr>"
  have 1: "handler_step cfg s ?s1" using h_new assms(3,4,8) busy(1,2) by blast
  have 2: "handler_step cfg ?s1 ?s2"
    using mongo_Insert [OF assms(1) busy(3)] assms(3,5) by (intro h_insert [where p = p]) auto
  have 3: "handler_step cfg ?s2 ?s3"
    using assms(3,6) busy(4,5) by (intro h_busy [where p = p]) simp_all
  have 4: "handler_step cfg ?s3 ?s4"
    using mongo_Remove_or [OF assms(1) busy(6)] assms(3) by (intro h_remove [where p = p]) auto
  have "rtranclp (handler_step cfg) s ?s4"
    using 1 2 3 4 by (blast intro: converse_rtranclp_into_rtranclp r_into_rtranclp)
  moreover have "db (wd_env (sv_world sv)) = db (wd_env w2)"
    using busy mongo_frame(1) [OF assms(1), of w2] by (simp split: option.split)
  ultimately show ?thesis using busy by (intro exI [of _ ?s4]) simp
qed

theorem process_refines_witness:
  "\<exists>w' p1 s'. process (mem_platform False) sample_cfg sample_petition
      (sample_world [Inr (sample_resp 404)]) = (Returns (), p1, w') \<and>
    rtranclp (worker_step sample_cfg)
      (sample_sys\<lparr>y_workers := [WGot sample_petition],
         y_db := m_db (wd_env (sample_world [Inr (sample_resp 404)]))\<rparr>) s' \<and>
    y_db s' = m_db (wd_env w') \<and> y_workers s' = [WCheck]"
proof -
  let ?w = "sample_world [Inr (sample_resp 404)]"
  let ?s = "sample_sys\<lparr>y_workers := [] @ WGot sample_petition # [], y_db := m_db (wd_env ?w)\<rparr>"
  obtain req p1 where r: "petition_Request sample_petition = (Returns (Inr req), p1)"
    using sample_Request by blast
  obtain w' where p: "process (mem_platform False) sample_cfg sample_petition ?w = (Returns (), p1, w')"
    using sample_process [OF r] by blast
  have "\<not> y_down ?s" by (simp add: sample_sys_eq)
  from process_refines [OF mem_platform_mongo p this, where us = "[]" and vs = "[]"] p
  show ?thesis by fastforce
qed

theorem listener_refines_witness:
  "\<exists>sv s'. sv = ServeHTTP (mem_platform False) sample_rand sample_cfg 0 False
      \<lparr>ch_cap = 1, ch_buf = []\<rparr> sample_request 7
      \<lparr>wd_env = \<lparr>m_db = (\<lambda>_. []), m_answers = [], m_clock = 1000000\<rparr>, wd_trace = []\<rparr> \<and>
    rtranclp (handler_step sample_cfg)
      (sample_sys\<lparr>y_recov := RDone, y_db := (\<lambda>_. []), y_seen := {}, y_ok := {}\<rparr>) s' \<and>
    y_chan s' = sv_chan sv \<and> y_db s' = m_db (wd_env (sv_world sv))"
proof -
  let ?w = "\<lparr>wd_env = \<lparr>m_db = (\<lambda>_. []), m_answers = [], m_clock = 1000000\<rparr>, wd_trace = []\<rparr>"
  let ?s = "sample_sys\<lparr>y_recov := RDone, y_db := (\<lambda>_. []), y_seen := {}, y_ok := {}\<rparr>"
  define sv where "sv = ServeHTTP (mem_platform False) sample_rand sample_cfg (y_stopping ?s) False
      (y_chan ?s) sample_request 7 ?w"
  obtain o' where run: "newPetition sample_rand 1000000 sample_request 7 =
      (Returns (Inr sample_petition), o', 8)"
    using sample_newPetition by blast
  have now: "pf_Now (mem_platform False) (wd_env ?w) = 1000000" by (simp add: mem_platform_def)
  have "sv_panic sv = None"
    by (simp add: sv_def ServeHTTP_def now [simplified] run Let_def Stopped_def try_send_def
        chan_put_def Coll_Insert_def mem_platform_def sample_sys_eq)
  with listener_refines [OF mem_platform_mongo sv_def] obtain s' where
    "rtranclp (handler_step sample_cfg) ?s s'" "y_db s' = m_db (wd_env (sv_world sv))"
    "y_chan s' = sv_chan sv"
    by (auto simp: sample_sys_eq)
  then show ?thesis by (auto simp: sv_def sample_sys_eq)
qed

end
