(* ===== verification/Replyer.thy ===== *)
theory Replyer
  imports Platform "HOL-Library.Char_ord" "HOL-Library.List_Lexorder"
begin

text \<open>
  \<open>replyer.go\<close>: the HTTP handler that looks a reply up by the last element of the path and returns it
  as JSON, with what it uses of \<open>encoding/json\<close>: the members of a struct under their tags, in order,
  maps with sorted keys, byte slices in base64, and \<open>MarshalIndent\<close>.

  The text of a time is an argument \<open>tm\<close>, since it depends on the local time zone; it fails for years
  that RFC 3339 cannot write. Bytes from 128 up are written as they are.
\<close>

subsection \<open>JSON\<close>

datatype json = JNull | JStr string | JInt int | JArr "json list" | JObj "(string \<times> json) list"

definition json_char :: "char \<Rightarrow> string" where
  "json_char c =
     (let n = (of_char c :: nat) in
      if n = 34 \<or> n = 92 then [CHR 92, c]
      else if n = 10 then [CHR 92, CHR ''n''] else if n = 13 then [CHR 92, CHR ''r'']
      else if n < 32 \<or> c \<in> set ''<>&'' then
        [CHR 92, CHR ''u'', CHR ''0'', CHR ''0'', hexdig (n div 16), hexdig (n mod 16)]
      else [c])"

definition json_string :: "string \<Rightarrow> string" where
  "json_string s = [CHR 34] @ concat (map json_char s) @ [CHR 34]"

definition json_int :: "int \<Rightarrow> string" where
  "json_int i = (if i < 0 then CHR ''-'' # itoa (nat (- i)) else itoa (nat i))"

definition json_nl :: "nat \<Rightarrow> string" where
  "json_nl depth = CHR 10 # replicate depth (CHR '' '')"

text \<open>\<open>MarshalIndent(v, "", " ")\<close>: one blank per level, empty arrays and objects on one line.\<close>

fun json_text :: "nat \<Rightarrow> json \<Rightarrow> string"
  and json_items :: "nat \<Rightarrow> json list \<Rightarrow> string"
  and json_members :: "nat \<Rightarrow> (string \<times> json) list \<Rightarrow> string"
where
  "json_text d JNull = ''null''"
| "json_text d (JStr s) = json_string s"
| "json_text d (JInt i) = json_int i"
| "json_text d (JArr vs) = (if vs = [] then ''[]'' else ''['' @ json_items d vs @ json_nl d @ '']'')"
| "json_text d (JObj ms) = (if ms = [] then ''{}'' else ''{'' @ json_members d ms @ json_nl d @ ''}'')"
| "json_items d [] = ''''"
| "json_items d (v # vs) =
     json_nl (Suc d) @ json_text (Suc d) v @ (if vs = [] then '''' else '','') @ json_items d vs"
| "json_members d [] = ''''"
| "json_members d ((k, v) # ms) =
     json_nl (Suc d) @ json_string k @ '': '' @ json_text (Suc d) v @
     (if ms = [] then '''' else '','') @ json_members d ms"

fun json_member :: "string \<Rightarrow> json \<Rightarrow> json option" where
  "json_member k (JObj ms) = map_of ms k"
| "json_member k _ = None"

subsection \<open>Replies as JSON\<close>

definition header_json :: "header \<Rightarrow> json" where
  "header_json h = JObj (map (\<lambda>(k, vs). (k, JArr (map JStr vs))) (sort_key fst h))"

definition petition_json :: "(int \<Rightarrow> gerror + string) \<Rightarrow> petition \<Rightarrow> gerror + json" where
  "petition_json tm p =
     (case tm (p_Created p) of
        Inl e \<Rightarrow> Inl e
      | Inr created \<Rightarrow> Inr (JObj
          [(''id'', JStr (p_ID p)), (''traceid'', JStr (p_TraceID p)),
           (''targethost'', JStr (p_TargetHost p)), (''targetscheme'', JStr (p_TargetScheme p)),
           (''method'', JStr (p_Method p)), (''urlstring'', JStr (p_URLString p)),
           (''proto'', JStr (p_Proto p)), (''header'', header_json (p_Header p)),
           (''trailer'', header_json (p_Trailer p)), (''body'', JStr (base64_bytes (p_Body p))),
           (''remoteaddr'', JStr (p_RemoteAddr p)), (''requesturi'', JStr (p_RequestURI p)),
           (''host'', JStr (p_Host p)), (''created'', JStr created)]))"

definition reply_json :: "(int \<Rightarrow> gerror + string) \<Rightarrow> reply \<Rightarrow> gerror + json" where
  "reply_json tm r =
     (case (case r_Petition r of None \<Rightarrow> Inr JNull | Some p \<Rightarrow> petition_json tm p) of
        Inl e \<Rightarrow> Inl e
      | Inr petition \<Rightarrow>
          (case tm (r_Created r) of
             Inl e \<Rightarrow> Inl e
           | Inr created \<Rightarrow>
               (case tm (r_Done r) of
                  Inl e \<Rightarrow> Inl e
                | Inr done_at \<Rightarrow> Inr (JObj
                    [(''id'', JStr (r_ID r)), (''traceid'', JStr (r_TraceID r)),
                     (''error'', JStr (r_Error r)), (''statuscode'', JInt (r_StatusCode r)),
                     (''proto'', JStr (r_Proto r)), (''header'', header_json (r_Header r)),
                     (''trailer'', header_json (r_Trailer r)),
                     (''body'', JStr (base64_bytes (r_Body r))), (''petition'', petition),
                     (''created'', JStr created), (''done'', JStr done_at)]))))"

subsection \<open>The handler\<close>

definition reply_ServeHTTP ::
  "'e platform \<Rightarrow> (int \<Rightarrow> gerror + string) \<Rightarrow> config \<Rightarrow> string \<Rightarrow> 'e world \<Rightarrow> resp_writer \<times> 'e world" where
  "reply_ServeHTTP P tm cfg path w =
     (let base = filepath_Base path in
      case Coll_One P (responses_coll cfg) base w of
        (found, w') \<Rightarrow>
          (case (case found of Inl e \<Rightarrow> Inl e | Inr d \<Rightarrow> doc_reply d) of
             Inl e \<Rightarrow> (http_Error e 404 new_writer, w')
           | Inr rpl \<Rightarrow>
               (case reply_json tm rpl of
                  Inl e \<Rightarrow> (http_Error e 500 new_writer, w')
                | Inr tree \<Rightarrow>
                    (w_Write (json_text 0 tree) (w_Set ''Content-Type'' ''application/json'' new_writer),
                     w'))))"

subsection \<open>Properties\<close>

lemma Write_new_writer [simp]:
  "w_code (w_Write s (w_Set k v new_writer)) = Some 200"
  "w_body (w_Write s (w_Set k v new_writer)) = s"
  by (simp_all add: w_Write_def w_WriteHeader_def w_Set_def new_writer_def Let_def)

lemma reply_json_body:
  "reply_json tm r = Inr tree \<Longrightarrow> json_member ''body'' tree = Some (JStr (base64_bytes (r_Body r))) \<and>
     json_member ''id'' tree = Some (JStr (r_ID r)) \<and>
     json_member ''statuscode'' tree = Some (JInt (r_StatusCode r))"
  by (auto simp: reply_json_def split: sum.splits option.splits)

text \<open>
  C37: What is served is what was stored. When the only document with the id of a reply is the one
  the program stored for it, and its petition reads back as \<open>q\<close>, a request for \<open>.../id\<close> whose lookup succeeds gets the JSON of that very
  reply: its id, its status and a body whose base64 decodes to the bytes the target host sent.
\<close>
theorem reply_served:
  assumes "mongo_ok P db"
    and "\<forall>d \<in> set (db (wd_env w) (responses_coll cfg)). doc_id d = Some (r_ID rp) \<longrightarrow> d = reply_doc rp"
    and "reply_storable rp" and "r_Petition rp = Some p" and "doc_petition (petition_doc p) = Inr q"
    and "reply_json tm (rp\<lparr>r_Petition := Some q\<rparr>) = Inr tree"
    and "r_ID rp \<noteq> []" and "CHR ''/'' \<notin> set (r_ID rp)"
    and "\<exists>d. fst (Coll_One P (responses_coll cfg) (r_ID rp) w) = Inr d"
  shows "\<exists>wr w' t. reply_ServeHTTP P tm cfg (path @ CHR ''/'' # r_ID rp) w = (wr, w') \<and>
    w_code wr = Some 200 \<and> w_body wr = json_text 0 tree \<and>
    json_member ''id'' tree = Some (JStr (r_ID rp)) \<and>
    json_member ''statuscode'' tree = Some (JInt (r_StatusCode rp)) \<and>
    json_member ''body'' tree = Some (JStr t) \<and> base64_of_text t = Some (r_Body rp)"
proof -
  have base: "filepath_Base (path @ CHR ''/'' # r_ID rp) = r_ID rp"
    by (rule filepath_Base_last(1) [OF assms(7,8)])
  obtain d w1 where one: "Coll_One P (responses_coll cfg) (r_ID rp) w = (Inr d, w1)"
    using assms(9) by (metis prod.collapse)
  then have "pf_One P (responses_coll cfg) (r_ID rp) (wd_env w) = (Inr d, wd_env w1)"
    by (auto simp: Coll_One_def split: prod.splits)
  then have "d \<in> set (db (wd_env w) (responses_coll cfg)) \<and> doc_id d = Some (r_ID rp)"
    using assms(1) unfolding mongo_ok_def one_ok_def by blast
  then have d: "d = reply_doc rp" using assms(2) by blast
  show ?thesis
    using reply_json_body [OF assms(6)] assms(6)
    by (simp add: reply_ServeHTTP_def Let_def base one d base64_round_trip
        doc_reply_doc [OF assms(3,4,5)])
qed

definition sample_time :: "int \<Rightarrow> gerror + string" where
  "sample_time ms = Inr (json_int ms)"

theorem reply_served_witness:
  "\<exists>wr w' t. reply_ServeHTTP (mem_platform False) sample_time sample_cfg
      (''/responses'' @ CHR ''/'' # r_ID sample_reply)
      \<lparr>wd_env = \<lparr>m_db = (\<lambda>_. [reply_doc sample_reply]), m_answers = [], m_clock = 0\<rparr>, wd_trace = []\<rparr> =
        (wr, w') \<and> w_code wr = Some 200 \<and> base64_of_text t = Some []"
proof -
  let ?w = "\<lparr>wd_env = \<lparr>m_db = (\<lambda>_. [reply_doc sample_reply]), m_answers = [], m_clock = 0\<rparr>, wd_trace = []\<rparr>"
  have st: "reply_storable sample_reply" "r_Petition sample_reply = Some sample_petition"
    "sample_reply\<lparr>r_Petition := Some sample_petition\<rparr> = sample_reply"
    by (simp_all add: sample_reply_def reply_storable_def header_ok_def time_ok_def)
  obtain tree where tree:
      "reply_json sample_time (sample_reply\<lparr>r_Petition := Some sample_petition\<rparr>) = Inr tree"
    by (simp add: reply_json_def petition_json_def sample_time_def split: option.split)
  have i: "r_ID sample_reply \<noteq> [] \<and> CHR ''/'' \<notin> set (r_ID sample_reply)"
    by (simp add: sample_reply_def sample_petition_def) code_simp
  have one: "\<exists>d. fst (Coll_One (mem_platform False) (responses_coll sample_cfg) (r_ID sample_reply) ?w) = Inr d"
    by (simp add: Coll_One_def mem_platform_def)
  have "r_Body sample_reply = []" by (simp add: sample_reply_def)
  with reply_served [OF mem_platform_mongo _ st(1,2) sample_petition_survives tree _ _ one] i
  show ?thesis by fastforce
qed

end
