(* ===== verification/Mylog.thy ===== *)
theory Mylog
  imports Prelude
begin

text \<open>
  \<open>mylog/mylog.go\<close>: the log level, an \<open>int32\<close>, and the writers. The two sinks are the lines written
  to the standard output logger and the messages handed to syslog; whether syslog takes a message
  is the argument \<open>sys\<close>. A message is its formatted text.
\<close>

record log_state =
  lg_level :: "32 word"
  lg_out :: "string list"
  lg_sys :: "string list"

definition ALERT :: "32 word" where "ALERT = 0"
definition INFO :: "32 word" where "INFO = 6"
definition DEBUG :: "32 word" where "DEBUG = 7"

definition init_log :: log_state where
  "init_log = \<lparr>lg_level = 0, lg_out = [], lg_sys = []\<rparr>"

definition SetLevelInt :: "32 word \<Rightarrow> log_state \<Rightarrow> log_state" where
  "SetLevelInt lvl s = s\<lparr>lg_level := lvl\<rparr>"

definition SetLevel :: "string \<Rightarrow> log_state \<Rightarrow> log_state outcome" where
  "SetLevel lvl s =
     (if lvl = ''alert'' then Returns (SetLevelInt ALERT s)
      else if lvl = ''info'' then Returns (SetLevelInt INFO s)
      else if lvl = ''debug'' then Returns (SetLevelInt DEBUG s)
      else Panics (''unknown log level: '' @ lvl))"

definition dbgLog_Output :: "string \<Rightarrow> log_state \<Rightarrow> log_state" where
  "dbgLog_Output str s = s\<lparr>lg_out := lg_out s @ [str]\<rparr>"

definition log_Debug :: "string \<Rightarrow> log_state \<Rightarrow> log_state" where
  "log_Debug str s = (if DEBUG \<le>s lg_level s then dbgLog_Output str s else s)"

definition log_Info :: "string \<Rightarrow> log_state \<Rightarrow> log_state" where
  "log_Info str s = (if INFO \<le>s lg_level s then dbgLog_Output str s else s)"

definition log_alert :: "(string \<Rightarrow> gerror option) \<Rightarrow> string \<Rightarrow> log_state \<Rightarrow> log_state" where
  "log_alert sys str s =
     (let s1 = (case sys str of
            Some err \<Rightarrow> dbgLog_Output err s
          | None \<Rightarrow> s\<lparr>lg_sys := lg_sys s @ [str]\<rparr>)
      in dbgLog_Output str s1)"

subsection \<open>The severities as an order\<close>

text \<open>What the numbers mean: a message is written when its severity is within the level.\<close>

datatype severity = SevAlert | SevInfo | SevDebug

instantiation severity :: linorder
begin

definition sev_rank :: "severity \<Rightarrow> nat" where
  "sev_rank v = (case v of SevAlert \<Rightarrow> 0 | SevInfo \<Rightarrow> 1 | SevDebug \<Rightarrow> 2)"

definition less_eq_severity :: "severity \<Rightarrow> severity \<Rightarrow> bool" where
  "less_eq_severity a b \<longleftrightarrow> sev_rank a \<le> sev_rank b"

definition less_severity :: "severity \<Rightarrow> severity \<Rightarrow> bool" where
  "less_severity a b \<longleftrightarrow> sev_rank a < sev_rank b"

instance
  by standard (auto simp: less_eq_severity_def less_severity_def sev_rank_def split: severity.splits)

end

definition level_name :: "severity \<Rightarrow> string" where
  "level_name v = (case v of SevAlert \<Rightarrow> ''alert'' | SevInfo \<Rightarrow> ''info'' | SevDebug \<Rightarrow> ''debug'')"

definition level_num :: "severity \<Rightarrow> 32 word" where
  "level_num v = (case v of SevAlert \<Rightarrow> ALERT | SevInfo \<Rightarrow> INFO | SevDebug \<Rightarrow> DEBUG)"

definition log_at :: "(string \<Rightarrow> gerror option) \<Rightarrow> severity \<Rightarrow> string \<Rightarrow> log_state \<Rightarrow> log_state" where
  "log_at sys v = (case v of SevAlert \<Rightarrow> log_alert sys | SevInfo \<Rightarrow> log_Info | SevDebug \<Rightarrow> log_Debug)"

lemma level_num_le: "level_num a \<le>s level_num b \<longleftrightarrow> a \<le> b"
  by (cases a; cases b)
     (simp_all add: level_num_def ALERT_def INFO_def DEBUG_def less_eq_severity_def sev_rank_def
       word_sle_eq)

text \<open>The line \<open>str\<close> was written: it ends what is new in the output, and the level is the same.\<close>

definition line_written :: "string \<Rightarrow> log_state \<Rightarrow> log_state \<Rightarrow> bool" where
  "line_written str s s' \<longleftrightarrow> lg_level s' = lg_level s \<and> (\<exists>pre. lg_out s' = lg_out s @ pre @ [str])"

lemma log_at_level:
  "lg_level s = level_num l \<Longrightarrow>
     if v \<le> l then line_written str s (log_at sys v str s) else log_at sys v str s = s"
  using level_num_le [of v l]
  by (cases v) (auto simp: log_at_def log_alert_def log_Info_def log_Debug_def Let_def
      dbgLog_Output_def level_num_def less_eq_severity_def sev_rank_def line_written_def
      split: option.split)

lemma SetLevel_name: "SetLevel (level_name l) s = Returns (SetLevelInt (level_num l) s)"
  by (cases l) (simp_all add: SetLevel_def level_name_def level_num_def)

lemma SetLevel_unknown:
  "name \<notin> range level_name \<Longrightarrow> SetLevel name s = Panics (''unknown log level: '' @ name)"
proof -
  assume "name \<notin> range level_name"
  then have "name \<noteq> level_name SevAlert" "name \<noteq> level_name SevInfo" "name \<noteq> level_name SevDebug"
    by blast+
  then show ?thesis by (simp add: SetLevel_def level_name_def)
qed

text \<open>
  The log levels. Setting the level succeeds exactly for \<open>alert\<close>, \<open>info\<close> and \<open>debug\<close>, every other
  name, the empty one of a file without a level included, being a panic; and from then on a message
  is written when its severity is within the level set, an alert always, and is dropped without a
  trace otherwise.
\<close>
theorem log_levels:
  "case SetLevel name s of
     Panics e \<Rightarrow> name \<notin> range level_name
   | Returns s' \<Rightarrow> (\<exists>l. name = level_name l \<and> (\<forall>v str.
       if v \<le> l then line_written str s' (log_at sys v str s') else log_at sys v str s' = s'))"
proof (cases "name \<in> range level_name")
  case True
  then obtain l where l: "name = level_name l" by blast
  have "SetLevel name s = Returns (SetLevelInt (level_num l) s)"
    unfolding l by (rule SetLevel_name)
  moreover have "lg_level (SetLevelInt (level_num l) s) = level_num l" by (simp add: SetLevelInt_def)
  ultimately show ?thesis using log_at_level [of _ l] l by auto
next
  case False
  then show ?thesis using SetLevel_unknown [of name s] by simp
qed

end
