(* ===== verification/Gridas.thy ===== *)
theory Gridas
  imports Refinement Replyer Mylog
begin

text \<open>
  \<open>gridas/gridas.go\<close>: what \<open>main\<close> does until it serves, and the routing of its two handlers by the
  \<open>ServeMux\<close> of \<open>net/http\<close>. What happens from then on, the shutdown included, is theory \<open>System\<close>.
\<close>

subsection \<open>Routing\<close>

text \<open>\<open>path.Clean\<close> of a rooted path: empty and dot elements go, dot-dot takes the one before it.\<close>

fun split_slash :: "string \<Rightarrow> string \<Rightarrow> string list" where
  "split_slash acc [] = [acc]"
| "split_slash acc (c # s) =
     (if c = CHR ''/'' then acc # split_slash [] s else split_slash (acc @ [c]) s)"

fun clean_elems :: "string list \<Rightarrow> string list \<Rightarrow> string list" where
  "clean_elems out [] = out"
| "clean_elems out (e # es) =
     (if e = [] \<or> e = ''.'' then clean_elems out es
      else if e = ''..'' then clean_elems (butlast out) es
      else clean_elems (out @ [e]) es)"

definition path_Clean :: "string \<Rightarrow> string" where
  "path_Clean p =
     (let es = clean_elems [] (split_slash [] p)
      in if es = [] then ''/'' else concat (map (\<lambda>e. CHR ''/'' # e) es))"

definition cleanPath :: "string \<Rightarrow> string" where
  "cleanPath p =
     (if p = [] then ''/''
      else (let p = (if hd p = CHR ''/'' then p else CHR ''/'' # p); np = path_Clean p
            in if last p = CHR ''/'' \<and> np \<noteq> ''/'' then np @ ''/'' else np))"

datatype route = ToListener | ToReplyer string | Redirect string | NotFound

text \<open>
  The handlers are registered for \<open>/\<close> and \<open>/responses/\<close>; the longest matching pattern wins, a path
  that is not clean is redirected, except for \<open>CONNECT\<close>, and \<open>/responses\<close> is redirected to the
  pattern with the slash. \<open>StripPrefix\<close> cuts the pattern off the path the replyer sees.
\<close>

definition mux_match :: "string \<Rightarrow> route" where
  "mux_match path =
     (if HasPrefix path ''/responses/'' then ToReplyer (drop (length ''/responses/'') path)
      else if path = ''/responses'' then Redirect ''/responses/''
      else if HasPrefix path ''/'' then ToListener else NotFound)"

definition mux_route :: "string \<Rightarrow> string \<Rightarrow> route" where
  "mux_route method path =
     (if method \<noteq> ''CONNECT'' \<and> cleanPath path \<noteq> path then Redirect (cleanPath path)
      else mux_match path)"

lemma clean_elems_ne:
  "(\<And>e. e \<in> set out \<Longrightarrow> e \<noteq> [] \<and> CHR ''/'' \<notin> set e) \<Longrightarrow>
     (\<And>e. e \<in> set es \<Longrightarrow> CHR ''/'' \<notin> set e) \<Longrightarrow>
     x \<in> set (clean_elems out es) \<Longrightarrow> x \<noteq> [] \<and> CHR ''/'' \<notin> set x"
proof (induction es arbitrary: out)
  case Nil
  then show ?case by simp
next
  case (Cons e es)
  have es: "\<And>e. e \<in> set es \<Longrightarrow> CHR ''/'' \<notin> set e" "CHR ''/'' \<notin> set e"
    using Cons.prems(2) by simp_all
  show ?case
  proof (cases "e = [] \<or> e = ''.''")
    case True
    then show ?thesis using Cons.IH [OF Cons.prems(1) es(1)] Cons.prems(3) by auto
  next
    case ne: False
    show ?thesis
    proof (cases "e = ''..''")
      case True
      have "\<And>e. e \<in> set (butlast out) \<Longrightarrow> e \<noteq> [] \<and> CHR ''/'' \<notin> set e"
        using Cons.prems(1) in_set_butlastD by metis
      then show ?thesis using Cons.IH [OF _ es(1), of "butlast out"] Cons.prems(3) True by simp
    next
      case False
      have "\<And>e'. e' \<in> set (out @ [e]) \<Longrightarrow> e' \<noteq> [] \<and> CHR ''/'' \<notin> set e'"
        using Cons.prems(1) es(2) ne by auto
      then show ?thesis using Cons.IH [OF _ es(1), of "out @ [e]"] Cons.prems(3) ne False by simp
    qed
  qed
qed

lemma split_slash_elems:
  "CHR ''/'' \<notin> set acc \<Longrightarrow> \<forall>e \<in> set (split_slash acc s). CHR ''/'' \<notin> set e"
  by (induction acc s rule: split_slash.induct) auto

lemma cleanPath_head: "\<not> HasPrefix (cleanPath p) ''//''"
proof -
  have np: "\<not> HasPrefix (path_Clean q) ''//'' \<and> path_Clean q \<noteq> []" for q
  proof -
    let ?es = "clean_elems [] (split_slash [] q)"
    have "\<forall>e \<in> set ?es. e \<noteq> [] \<and> CHR ''/'' \<notin> set e"
      using clean_elems_ne [of "[]" "split_slash [] q"] split_slash_elems [of "[]" q] by auto
    then show ?thesis
      by (cases ?es; cases "hd ?es") (auto simp: path_Clean_def Let_def HasPrefix_def)
  qed
  have app: "\<not> HasPrefix (q @ ''/'') ''//''" if "\<not> HasPrefix q ''//''" "q \<noteq> ''/''" "q \<noteq> []" for q
    using that by (cases q; cases "tl q") (auto simp: HasPrefix_def)
  show ?thesis
    using np app by (simp add: cleanPath_def Let_def) (simp add: HasPrefix_def)
qed

text \<open>
  What the listener gets to see. A request is routed to the listener only if its path starts with
  a slash and is neither \<open>/responses\<close> nor under it, and, unless its method is \<open>CONNECT\<close>, only if its
  path is clean; such a path is never one that the store would read back as a host. So of the
  petitions accepted through the program's routes only those of \<open>CONNECT\<close> requests can fail to
  survive the store.
\<close>
theorem routed_to_listener:
  assumes "mux_route method path = ToListener"
  shows "HasPrefix path ''/'' \<and> \<not> HasPrefix path ''/responses/'' \<and> path \<noteq> ''/responses'' \<and>
    (method = ''CONNECT'' \<or> (cleanPath path = path \<and> \<not> network_path path))"
  using assms cleanPath_head [of path]
  by (auto simp: mux_route_def mux_match_def network_path_def split: if_splits)

text \<open>
  What the replyer gets to see. A GET of \<open>/responses/id\<close>, for an id without slashes that is
  neither a dot nor two dots, is routed to the replyer, which looks up exactly this id.
\<close>
theorem routed_to_replyer:
  assumes "i \<noteq> []" and "CHR ''/'' \<notin> set i" and "i \<noteq> ''.''" and "i \<noteq> ''..''"
  shows "mux_route ''GET'' (''/responses/'' @ i) = ToReplyer i \<and> filepath_Base i = i"
proof -
  have sp: "CHR ''/'' \<notin> set s \<Longrightarrow> split_slash acc s = [acc @ s]" for acc s
    by (induction acc s rule: split_slash.induct) auto
  have "split_slash [] (''/responses/'' @ i) = [[], ''responses'', i]"
    using assms(2) by (simp add: sp)
  then have "path_Clean (''/responses/'' @ i) = ''/responses/'' @ i"
    using assms by (simp add: path_Clean_def Let_def)
  moreover have "last i \<noteq> CHR ''/''" using assms(1,2) by (metis last_in_set)
  ultimately have "cleanPath (''/responses/'' @ i) = ''/responses/'' @ i"
    using assms(1) by (simp add: cleanPath_def Let_def)
  then show ?thesis
    using filepath_Base_last(2) [OF assms(1,2)]
    by (simp add: mux_route_def mux_match_def HasPrefix_def)
qed

theorem routed_to_listener_witness:
  "mux_route ''POST'' ''/a/b'' = ToListener \<and> \<not> network_path ''/a/b''"
proof -
  have r: "mux_route ''POST'' ''/a/b'' = ToListener"
    by (simp add: mux_route_def mux_match_def HasPrefix_def cleanPath_def path_Clean_def Let_def)
  from routed_to_listener [OF r] r show ?thesis by simp
qed

theorem routed_to_replyer_witness:
  "mux_route ''GET'' (''/responses/'' @ ''ab-1'') = ToReplyer ''ab-1''"
  using routed_to_replyer [of "''ab-1''"] by simp

subsection \<open>Starting\<close>

text \<open>
  How far \<open>main\<close> gets: it exits with a status, panics, or serves with the channel, the consumer and
  the petitions its recoverer sent.
\<close>

datatype boot = Exits int | Crashes string | Serves "petition gochan" consumer "petition list" log_state

definition main_boot ::
  "(gerror + config) \<Rightarrow> (string \<Rightarrow> gerror option) \<Rightarrow> (string \<Rightarrow> gerror option) \<Rightarrow> 'e platform \<Rightarrow>
   gerror option option \<Rightarrow> 'e world \<Rightarrow> boot \<times> 'e world" where
  "main_boot read sys dial P early w =
     (case read of
        Inl err \<Rightarrow> (Exits (- 1), w)
      | Inr cfg \<Rightarrow>
          (case SetLevel (cfg_LogLevel cfg) init_log of
             Panics e \<Rightarrow> (Crashes e, w)
           | Returns lg \<Rightarrow>
               (let lg = log_at sys SevAlert ''hello World!'' lg in
                case make_chan (cfg_QueueSize cfg) of
                  Panics e \<Rightarrow> (Crashes e, w)
                | Returns ch \<Rightarrow>
                    (case dial (cfg_Mongo cfg) of
                       Some err \<Rightarrow> (Crashes err, w)
                     | None \<Rightarrow>
                         (case Start (cfg_Consumers cfg) new_consumer of
                            Panics e \<Rightarrow> (Crashes e, w)
                          | Returns c \<Rightarrow>
                              (case Recover P cfg early w of
                                 ((ps, Some err), w') \<Rightarrow> (Exits (- 1), w')
                               | ((ps, None), w') \<Rightarrow> (Serves ch c ps lg, w')))))))"

text \<open>
  What it takes to start. The program serves exactly when its configuration can be read and names
  one of the three log levels, the queue size and the number of consumers are not negative, the
  database can be dialled and the recovery ends without an error; it then has an empty channel of
  the configured size, as many consumers as configured, and everything recovered on its way.
\<close>
theorem main_serves:
  "((\<exists>ch c ps lg w'. main_boot read sys dial P early w = (Serves ch c ps lg, w')) \<longleftrightarrow>
     (\<exists>cfg ps w'. read = Inr cfg \<and> cfg_LogLevel cfg \<in> range level_name \<and> 0 \<le> sint (cfg_QueueSize cfg) \<and>
       0 \<le> sint (cfg_Consumers cfg) \<and> dial (cfg_Mongo cfg) = None \<and> Recover P cfg early w = ((ps, None), w'))) \<and>
   (case main_boot read sys dial P early w of
      (Serves ch c ps lg, w') \<Rightarrow> (\<exists>cfg. read = Inr cfg \<and> ch_buf ch = [] \<and>
        int (ch_cap ch) = sint (cfg_QueueSize cfg) \<and> int (cs_loops c) = sint (cfg_Consumers cfg) \<and>
        cs_wg c = sint (cfg_Consumers cfg) \<and> fst (Recover P cfg early w) = (ps, None))
    | _ \<Rightarrow> True)"
proof (cases "\<exists>cfg l. read = Inr cfg \<and> cfg_LogLevel cfg = level_name l")
  case False
  have no: "main_boot read sys dial P early w \<noteq> (Serves ch c ps lg, w')" for ch c ps lg w'
  proof (cases read)
    case (Inr cfg)
    then have "cfg_LogLevel cfg \<notin> range level_name" using False by blast
    then show ?thesis by (simp add: main_boot_def Inr SetLevel_unknown)
  qed (simp add: main_boot_def)
  then show ?thesis
    using False by (auto simp: no split: prod.split boot.split)
next
  case True
  then obtain cfg l where cfg: "read = Inr cfg" "cfg_LogLevel cfg = level_name l" by blast
  obtain ps e w1 where r: "Recover P cfg early w = ((ps, e), w1)" by (metis prod.exhaust)
  show ?thesis
    using cfg r
    by (cases "sint (cfg_QueueSize cfg) < 0"; cases "dial (cfg_Mongo cfg)";
        cases "sint (cfg_Consumers cfg) < 0"; cases e)
      (auto simp: main_boot_def SetLevel_name make_chan_def Start_def new_consumer_def Let_def)
qed

end
