(* ===== verification/UuidTime.thy ===== *)
theory UuidTime
  imports Uuid
begin

text \<open>
  The stateful half of the uuid package: the clock (\<open>lasttime\<close>, \<open>clock_seq\<close>), the node id and
  the cached interfaces, kept in \<open>uuid_pkg\<close>; the time based UUIDs (version 1) and the DCE security
  UUIDs (version 2) built from them, and the readers of their fields.

  The clock reading is the argument \<open>un\<close> (\<open>UnixNano\<close>, an \<open>int64\<close>), the random source \<open>rd\<close> is
  as in theory \<open>Uuid\<close>, and \<open>net.Interfaces\<close> is the argument \<open>nets\<close>. The mutex \<open>mu\<close> makes every
  operation one step of the state, which is what explicit state passing says.
\<close>

subsection \<open>Package state\<close>

record iface =
  if_Name :: string
  if_HardwareAddr :: bytes

record uuid_pkg =
  lasttime :: "64 word"
  clock_seq :: "16 word"
  interfaces :: "iface list option"
  ifname :: string
  nodeID :: bytes

definition uuid_pkg_init :: uuid_pkg where
  "uuid_pkg_init =
     \<lparr>lasttime = 0, clock_seq = 0, interfaces = None, ifname = '''', nodeID = []\<rparr>"

subsection \<open>Big-endian integers\<close>

definition PutUint32 :: "32 word \<Rightarrow> bytes" where
  "PutUint32 v = [ucast (drop_bit 24 v), ucast (drop_bit 16 v), ucast (drop_bit 8 v), ucast v]"

definition PutUint16 :: "16 word \<Rightarrow> bytes" where
  "PutUint16 v = [ucast (drop_bit 8 v), ucast v]"

definition be_Uint32 :: "bytes \<Rightarrow> 32 word" where
  "be_Uint32 b = ucast (b ! 3) OR push_bit 8 (ucast (b ! 2)) OR push_bit 16 (ucast (b ! 1)) OR
     push_bit 24 (ucast (b ! 0))"

definition be_Uint16 :: "bytes \<Rightarrow> 16 word" where
  "be_Uint16 b = ucast (b ! 1) OR push_bit 8 (ucast (b ! 0))"

subsection \<open>The clock\<close>

type_synonym Time = goint

definition g1582ns100 :: "64 word" where
  "g1582ns100 = (2440587 - 2299160) * 86400 * 10000000"

definition UnixTime :: "Time \<Rightarrow> goint \<times> goint" where
  "UnixTime t =
     (let sec = sint (t - g1582ns100);
          nsec = (sec smod 10000000) * 100
      in (word_of_int (sec sdiv 10000000), word_of_int nsec))"

definition setClockSequence ::
  "'r rand \<Rightarrow> goint \<Rightarrow> 'r \<Rightarrow> uuid_pkg \<Rightarrow> unit outcome \<times> 'r \<times> uuid_pkg" where
  "setClockSequence rd seq r st =
     (case (if seq = - 1 then
              (case randomBits rd 2 r of
                 (Panics e, r') \<Rightarrow> (Panics e, r')
               | (Returns b, r') \<Rightarrow> (Returns (push_bit 8 (ucast (b ! 0)) OR ucast (b ! 1)), r'))
            else (Returns seq, r)) of
        (Panics e, r') \<Rightarrow> (Panics e, r', st)
      | (Returns sq, r') \<Rightarrow>
          (let old = clock_seq st; new = (ucast (sq AND 0x3fff :: goint) :: 16 word) OR 0x8000;
               st' = st\<lparr>clock_seq := new\<rparr>
           in (Returns (), r', if old \<noteq> new then st'\<lparr>lasttime := 0\<rparr> else st')))"

definition getTime ::
  "'r rand \<Rightarrow> goint \<Rightarrow> 'r \<Rightarrow> uuid_pkg \<Rightarrow> (Time \<times> 16 word) outcome \<times> 'r \<times> uuid_pkg" where
  "getTime rd un r st =
     (case (if clock_seq st = 0 then setClockSequence rd (- 1) r st else (Returns (), r, st)) of
        (Panics e, r', st') \<Rightarrow> (Panics e, r', st')
      | (Returns _, r', st') \<Rightarrow>
          (let now = word_of_int (sint un sdiv 100) + g1582ns100;
               st'' = (if now \<le> lasttime st'
                 then st'\<lparr>clock_seq := ((clock_seq st' + 1) AND 0x3fff) OR 0x8000\<rparr> else st')
           in (Returns (now, clock_seq st''), r', st''\<lparr>lasttime := now\<rparr>)))"

definition ClockSequence :: "'r rand \<Rightarrow> 'r \<Rightarrow> uuid_pkg \<Rightarrow> 16 word outcome \<times> 'r \<times> uuid_pkg" where
  "ClockSequence rd r st =
     (case (if clock_seq st = 0 then setClockSequence rd (- 1) r st else (Returns (), r, st)) of
        (Panics e, r', st') \<Rightarrow> (Panics e, r', st')
      | (Returns _, r', st') \<Rightarrow> (Returns (clock_seq st' AND 0x3fff), r', st'))"

definition uuid_Time :: "UUID \<Rightarrow> Time \<times> bool" where
  "uuid_Time u =
     (if length u \<noteq> 16 then (0, False)
      else (ucast (be_Uint32 (take 4 u)) OR push_bit 32 (ucast (be_Uint16 (take 2 (drop 4 u)))) OR
              push_bit 48 (ucast (be_Uint16 (take 2 (drop 6 u)) AND 0xfff)), True))"

definition uuid_ClockSequence :: "UUID \<Rightarrow> 16 word \<times> bool" where
  "uuid_ClockSequence u =
     (if length u \<noteq> 16 then (0, False) else (be_Uint16 (take 2 (drop 8 u)) AND 0x3fff, True))"

subsection \<open>The node id\<close>

definition setNodeID :: "bytes \<Rightarrow> uuid_pkg \<Rightarrow> bool \<times> uuid_pkg" where
  "setNodeID i st =
     (if length i < 6 then (False, st)
      else (True, st\<lparr>nodeID := copy_at 0 i (if nodeID st = [] then replicate 6 0 else nodeID st)\<rparr>))"

definition SetNodeID :: "bytes \<Rightarrow> uuid_pkg \<Rightarrow> bool \<times> uuid_pkg" where
  "SetNodeID i st =
     (case setNodeID i st of
        (True, st') \<Rightarrow> (True, st'\<lparr>ifname := ''user''\<rparr>)
      | (False, st') \<Rightarrow> (False, st'))"

text \<open>The loop over the interfaces: the first usable one of the wanted name sets the node id.\<close>

fun pick_interface :: "string \<Rightarrow> iface list \<Rightarrow> uuid_pkg \<Rightarrow> bool \<times> uuid_pkg" where
  "pick_interface name [] st = (False, st)"
| "pick_interface name (ifs # rest) st =
     (if 6 \<le> length (if_HardwareAddr ifs) \<and> (name = '''' \<or> name = if_Name ifs) then
        (case setNodeID (if_HardwareAddr ifs) st of
           (True, st') \<Rightarrow> (True, st'\<lparr>ifname := if_Name ifs\<rparr>)
         | (False, st') \<Rightarrow> pick_interface name rest st')
      else pick_interface name rest st)"

definition SetNodeInterface ::
  "'r rand \<Rightarrow> gerror + iface list \<Rightarrow> string \<Rightarrow> 'r \<Rightarrow> uuid_pkg \<Rightarrow> bool outcome \<times> 'r \<times> uuid_pkg" where
  "SetNodeInterface rd nets name r st =
     (let failed = (interfaces st = None \<and> (case nets of Inl _ \<Rightarrow> True | Inr _ \<Rightarrow> False) \<and> name \<noteq> '''');
          st1 = (if interfaces st = None
                 then st\<lparr>interfaces := (case nets of Inl _ \<Rightarrow> None | Inr l \<Rightarrow> Some l)\<rparr> else st)
      in if failed then (Returns False, r, st1)
         else case pick_interface name (case interfaces st1 of None \<Rightarrow> [] | Some l \<Rightarrow> l) st1 of
             (True, st2) \<Rightarrow> (Returns True, r, st2)
           | (False, st2) \<Rightarrow>
               if name = '''' then
                 (let st3 = (if nodeID st2 = [] then st2\<lparr>nodeID := replicate 6 0\<rparr> else st2)
                  in case randomBits rd (length (nodeID st3)) r of
                       (Panics e, r') \<Rightarrow> (Panics e, r', st3)
                     | (Returns b, r') \<Rightarrow> (Returns True, r', st3\<lparr>nodeID := b\<rparr>))
               else (Returns False, r, st2))"

definition NodeInterface :: "uuid_pkg \<Rightarrow> string" where
  "NodeInterface st = ifname st"

definition NodeID ::
  "'r rand \<Rightarrow> gerror + iface list \<Rightarrow> 'r \<Rightarrow> uuid_pkg \<Rightarrow> bytes outcome \<times> 'r \<times> uuid_pkg" where
  "NodeID rd nets r st =
     (case (if nodeID st = [] then SetNodeInterface rd nets '''' r st else (Returns True, r, st)) of
        (Panics e, r', st') \<Rightarrow> (Panics e, r', st')
      | (Returns _, r', st') \<Rightarrow> (Returns (copy_at 0 (nodeID st') (replicate 6 0)), r', st'))"

definition uuid_NodeID :: "UUID \<Rightarrow> bytes" where
  "uuid_NodeID u = (if length u \<noteq> 16 then [] else copy_at 0 (drop 10 u) (replicate 6 0))"

subsection \<open>Version 1 and version 2 UUIDs\<close>

definition layout_v1 :: "Time \<Rightarrow> 16 word \<Rightarrow> bytes \<Rightarrow> UUID" where
  "layout_v1 now seq node =
     (let time_low = (ucast (now AND 0xffffffff) :: 32 word);
          time_mid = (ucast (drop_bit 32 now AND 0xffff) :: 16 word);
          time_hi = (ucast (drop_bit 48 now AND 0x0fff) :: 16 word);
          time_hi = time_hi OR 0x1000;
          u = replicate 16 0;
          u = copy_at 0 (PutUint32 time_low) u;
          u = copy_at 4 (PutUint16 time_mid) u;
          u = copy_at 6 (PutUint16 time_hi) u;
          u = copy_at 8 (PutUint16 seq) u
      in copy_at 10 node u)"

definition NewUUID ::
  "'r rand \<Rightarrow> gerror + iface list \<Rightarrow> goint \<Rightarrow> 'r \<Rightarrow> uuid_pkg \<Rightarrow> UUID outcome \<times> 'r \<times> uuid_pkg" where
  "NewUUID rd nets un r st =
     (case (if nodeID st = [] then SetNodeInterface rd nets '''' r st else (Returns True, r, st)) of
        (Panics e, r1, st1) \<Rightarrow> (Panics e, r1, st1)
      | (Returns _, r1, st1) \<Rightarrow>
          (case getTime rd un r1 st1 of
             (Panics e, r2, st2) \<Rightarrow> (Panics e, r2, st2)
           | (Returns (now, seq), r2, st2) \<Rightarrow> (Returns (layout_v1 now seq (nodeID st2)), r2, st2)))"

type_synonym Domain = byte

definition dce_stamp :: "Domain \<Rightarrow> 32 word \<Rightarrow> UUID \<Rightarrow> UUID" where
  "dce_stamp domain i u =
     (let u = u[6 := (u ! 6 AND 0x0f) OR 0x20]; u = u[9 := domain] in copy_at 0 (PutUint32 i) u)"

definition NewDCESecurity ::
  "'r rand \<Rightarrow> gerror + iface list \<Rightarrow> goint \<Rightarrow> Domain \<Rightarrow> 32 word \<Rightarrow> 'r \<Rightarrow> uuid_pkg \<Rightarrow>
     UUID outcome \<times> 'r \<times> uuid_pkg" where
  "NewDCESecurity rd nets un domain i r st =
     (case NewUUID rd nets un r st of
        (Panics e, r', st') \<Rightarrow> (Panics e, r', st')
      | (Returns u, r', st') \<Rightarrow> (Returns (if u \<noteq> [] then dce_stamp domain i u else u), r', st'))"

definition uuid_Domain :: "UUID \<Rightarrow> Domain \<times> bool" where
  "uuid_Domain u = (if fst (uuid_Version u) \<noteq> 2 then (0, False) else (u ! 9, True))"

definition uuid_Id :: "UUID \<Rightarrow> 32 word \<times> bool" where
  "uuid_Id u = (if fst (uuid_Version u) \<noteq> 2 then (0, False) else (be_Uint32 (take 4 u), True))"

definition Domain_String :: "Domain \<Rightarrow> string" where
  "Domain_String d =
     (if d = 0 then ''Person'' else if d = 1 then ''Group'' else if d = 2 then ''Org''
      else ''Domain'' @ itoa (unat d))"

subsection \<open>Big-endian round trips\<close>

lemma be_Uint16_PutUint16: "be_Uint16 (PutUint16 v) = v"
  by (rule bit_word_eqI) (auto simp: be_Uint16_def PutUint16_def bit_simps)

lemma be_Uint32_PutUint32: "be_Uint32 (PutUint32 v) = v"
proof (rule bit_word_eqI)
  fix n
  assume "n < LENGTH(32)"
  then consider "n < 8" | "8 \<le> n \<and> n < 16" | "16 \<le> n \<and> n < 24" | "24 \<le> n \<and> n < 32"
    by fastforce
  then show "bit (be_Uint32 (PutUint32 v)) n \<longleftrightarrow> bit v n"
    by cases (auto simp: be_Uint32_def PutUint32_def bit_simps)
qed

interpretation be16: codec PutUint16 be_Uint16 id "\<lambda>_. True"
  by unfold_locales (simp_all add: be_Uint16_PutUint16)

interpretation be32: codec PutUint32 be_Uint32 id "\<lambda>_. True"
  by unfold_locales (simp_all add: be_Uint32_PutUint32)

lemma length_Put [simp]: "length (PutUint16 h) = 2" "length (PutUint32 v) = 4"
  by (simp_all add: PutUint16_def PutUint32_def)

subsection \<open>The fields of a version 1 UUID\<close>

lemma copy_at_layout:
  fixes a b c d e :: bytes
  assumes "length a = 4" "length b = 2" "length c = 2" "length d = 2" "length e = 6"
  shows "copy_at 10 e (copy_at 8 d (copy_at 6 c (copy_at 4 b (copy_at 0 a (replicate 16 0))))) =
    a @ b @ c @ d @ e"
proof -
  have split: "replicate 16 (0 :: byte) =
      replicate 4 0 @ replicate 2 0 @ replicate 2 0 @ replicate 2 0 @ replicate 6 0"
    by (simp flip: replicate_add)
  show ?thesis unfolding split using assms by (simp add: copy_at_def)
qed

lemma layout_v1_append:
  assumes "length node = 6"
  shows "layout_v1 now seq node =
    PutUint32 (ucast (now AND 0xffffffff)) @ PutUint16 (ucast (drop_bit 32 now AND 0xffff)) @
    PutUint16 (ucast (drop_bit 48 now AND 0x0fff) OR 0x1000) @ PutUint16 seq @ node"
  unfolding layout_v1_def Let_def using assms by (intro copy_at_layout) simp_all

lemma length_layout_v1 [simp]: "length node = 6 \<Longrightarrow> length (layout_v1 now seq node) = 16"
  by (simp add: layout_v1_append)

lemma time_join:
  fixes now :: "64 word"
  shows "ucast (ucast (now AND 0xffffffff) :: 32 word) OR
    push_bit 32 (ucast (ucast (drop_bit 32 now AND 0xffff) :: 16 word)) OR
    push_bit 48 (ucast (((ucast (drop_bit 48 now AND 0x0fff) OR 0x1000) :: 16 word) AND 0xfff)) =
    take_bit 60 now"
proof -
  have m: "(0xffffffff :: 64 word) = mask 32" "(0xffff :: 64 word) = mask 16"
      "(0x0fff :: 64 word) = mask 12" "(0xfff :: 16 word) = mask 12"
    by (simp_all add: mask_eq_exp_minus_1)
  have hi: "(x OR 0x1000) AND 0xfff = x AND (0xfff :: 16 word)" for x
    by (simp only: bit.conj_disj_distrib2) simp
  show ?thesis
    unfolding hi unfolding m
  proof (rule bit_word_eqI)
    fix n
    assume "n < LENGTH(64)"
    then consider "n < 32" | "32 \<le> n \<and> n < 48" | "48 \<le> n \<and> n < 60" | "60 \<le> n \<and> n < 64"
      by fastforce
    then show "bit (ucast (ucast (now AND mask 32) :: 32 word) OR
        push_bit 32 (ucast (ucast (drop_bit 32 now AND mask 16) :: 16 word)) OR
        push_bit 48 (ucast ((ucast (drop_bit 48 now AND mask 12) :: 16 word) AND mask 12)) :: 64 word) n
        \<longleftrightarrow> bit (take_bit 60 now) n"
      by cases (auto simp: bit_simps bit_mask_iff)
  qed
qed

lemma layout_v1_fields:
  assumes "length node = 6"
  shows "uuid_Time (layout_v1 now seq node) = (take_bit 60 now, True)"
    and "uuid_ClockSequence (layout_v1 now seq node) = (seq AND 0x3fff, True)"
    and "uuid_NodeID (layout_v1 now seq node) = node"
  using assms
  by (simp_all add: layout_v1_append uuid_Time_def uuid_ClockSequence_def uuid_NodeID_def
      be_Uint16_PutUint16 be_Uint32_PutUint32 time_join copy_at_def)

subsection \<open>The package invariant\<close>

definition node_ok :: "uuid_pkg \<Rightarrow> bool" where
  "node_ok st \<longleftrightarrow> nodeID st = [] \<or> length (nodeID st) = 6"

definition clock_ok :: "uuid_pkg \<Rightarrow> bool" where
  "clock_ok st \<longleftrightarrow> clock_seq st = 0 \<or> clock_seq st AND 0xc000 = 0x8000"

definition pkg_ok :: "uuid_pkg \<Rightarrow> bool" where
  "pkg_ok st \<longleftrightarrow> node_ok st \<and> clock_ok st"

lemma pkg_ok_init: "pkg_ok uuid_pkg_init"
  by (simp add: pkg_ok_def node_ok_def clock_ok_def uuid_pkg_init_def)

lemma seq_variant: "((x AND 0x3fff) OR 0x8000 :: 16 word) AND 0xc000 = 0x8000"
proof -
  have "((x AND 0x3fff) OR 0x8000 :: 16 word) AND 0xc000 =
      (x AND (0x3fff AND 0xc000)) OR (0x8000 AND 0xc000)"
    by (simp only: bit.conj_disj_distrib2 and.assoc)
  then show ?thesis by simp
qed

lemma seq_variant': "((ucast (x AND 0x3fff :: goint) :: 16 word) OR 0x8000) AND 0xc000 = 0x8000"
proof -
  have "(ucast (x AND 0x3fff :: goint) :: 16 word) = ucast x AND 0x3fff"
    by (rule bit_word_eqI) (auto simp: bit_simps)
  then show ?thesis using seq_variant by simp
qed

lemma setClockSequence_state:
  "setClockSequence rd seq r st = (res, r', st') \<Longrightarrow>
     interfaces st' = interfaces st \<and> ifname st' = ifname st \<and> nodeID st' = nodeID st \<and>
     (case res of Panics e \<Rightarrow> st' = st | Returns _ \<Rightarrow> clock_seq st' AND 0xc000 = 0x8000)"
  by (auto simp: setClockSequence_def Let_def seq_variant' split: outcome.splits if_splits prod.splits)

lemma getTime_state:
  assumes "getTime rd un r st = (res, r', st')" and "clock_ok st"
  shows "nodeID st' = nodeID st \<and> clock_ok st' \<and>
    (case res of Panics e \<Rightarrow> True
     | Returns (t, s) \<Rightarrow> t = word_of_int (sint un sdiv 100) + g1582ns100 \<and>
         lasttime st' = t \<and> clock_seq st' = s \<and> s AND 0xc000 = 0x8000)"
proof (cases "clock_seq st = 0")
  case True
  obtain res1 r1 st1 where sc: "setClockSequence rd (- 1) r st = (res1, r1, st1)"
    by (cases "setClockSequence rd (- 1) r st") auto
  show ?thesis
    using assms True sc setClockSequence_state [OF sc]
    by (auto simp: getTime_def Let_def clock_ok_def seq_variant split: outcome.splits if_splits)
next
  case False
  then show ?thesis
    using assms by (auto simp: getTime_def Let_def clock_ok_def seq_variant split: if_splits)
qed

lemma pick_interface_node:
  "pick_interface name l st = (b, st') \<Longrightarrow> node_ok st \<Longrightarrow>
     clock_seq st' = clock_seq st \<and> node_ok st' \<and>
     (if b then length (nodeID st') = 6 else st' = st)"
proof (induction name l st rule: pick_interface.induct)
  case (1 name st)
  then show ?case by simp
next
  case (2 name ifs rest st)
  show ?case
  proof (cases "6 \<le> length (if_HardwareAddr ifs) \<and> (name = '''' \<or> name = if_Name ifs)")
    case True
    with "2.prems" show ?thesis by (auto simp: setNodeID_def node_ok_def split: if_splits)
  next
    case False
    with "2.prems" "2.IH"(2) show ?thesis by auto
  qed
qed

lemma SetNodeInterface_state:
  assumes "SetNodeInterface rd nets '''' r st = (res, r', st')" and "node_ok st" and "rand_ok rd"
  shows "clock_seq st' = clock_seq st \<and>
    (case res of Panics e \<Rightarrow> node_ok st' | Returns b \<Rightarrow> b \<and> length (nodeID st') = 6)"
proof -
  define st1 where "st1 = (if interfaces st = None
    then st\<lparr>interfaces := (case nets of Inl _ \<Rightarrow> None | Inr l \<Rightarrow> Some l)\<rparr> else st)"
  define l where "l = (case interfaces st1 of None \<Rightarrow> [] | Some l \<Rightarrow> l)"
  obtain b st2 where pick: "pick_interface '''' l st1 = (b, st2)"
    by (cases "pick_interface '''' l st1")
  have n1: "node_ok st1" "clock_seq st1 = clock_seq st"
    using assms(2) by (auto simp: st1_def node_ok_def)
  note p = pick_interface_node [OF pick n1(1)]
  define st3 where "st3 = (if nodeID st2 = [] then st2\<lparr>nodeID := replicate 6 0\<rparr> else st2)"
  have n3: "length (nodeID st3) = 6" "clock_seq st3 = clock_seq st"
    using p n1 by (auto simp: st3_def node_ok_def split: if_splits)
  have eq: "SetNodeInterface rd nets '''' r st =
      (if b then (Returns True, r, st2)
       else case randomBits rd 6 r of
           (Panics e, r') \<Rightarrow> (Panics e, r', st3)
         | (Returns bs, r') \<Rightarrow> (Returns True, r', st3\<lparr>nodeID := bs\<rparr>))"
    using n3(1) unfolding SetNodeInterface_def Let_def st1_def [symmetric] l_def [symmetric] pick
    by (cases b; cases "nodeID st2 = []")
      (simp_all add: st3_def split: prod.splits outcome.splits)
  have len: "length bs = 6" if "rd 6 r = (Inr bs, q)" for bs q
    using rand_okD [OF that assms(3)] .
  show ?thesis
    using assms(1) p n1 n3 unfolding eq
    by (auto simp: randomBits_def node_ok_def split: if_splits prod.splits sum.splits dest!: len)
qed

lemma NewUUID_state:
  assumes "NewUUID rd nets un r st = (res, r', st')" and "pkg_ok st" and "rand_ok rd"
  shows "pkg_ok st' \<and>
    (case res of Panics e \<Rightarrow> True
     | Returns u \<Rightarrow> u = layout_v1 (lasttime st') (clock_seq st') (nodeID st') \<and>
         length (nodeID st') = 6 \<and> clock_seq st' AND 0xc000 = 0x8000 \<and>
         lasttime st' = word_of_int (sint un sdiv 100) + g1582ns100)"
proof -
  have ok: "node_ok st" "clock_ok st" using assms(2) by (auto simp: pkg_ok_def)
  obtain res1 r1 st1 where s1: "(if nodeID st = [] then SetNodeInterface rd nets '''' r st
      else (Returns True, r, st)) = (res1, r1, st1)"
    by (metis prod_cases3)
  have st1: "clock_ok st1 \<and> (case res1 of Panics e \<Rightarrow> node_ok st1 | Returns b \<Rightarrow> length (nodeID st1) = 6)"
    using s1 ok SetNodeInterface_state [OF _ ok(1) assms(3), of nets r res1 r1 st1]
    by (auto simp: clock_ok_def node_ok_def split: if_splits outcome.splits)
  show ?thesis
  proof (cases res1)
    case (Panics e)
    with assms(1) s1 st1 show ?thesis by (auto simp: NewUUID_def pkg_ok_def)
  next
    case (Returns b)
    obtain res2 r2 st2 where s2: "getTime rd un r1 st1 = (res2, r2, st2)"
      by (metis prod_cases3)
    note g = getTime_state [OF s2] 
    show ?thesis
      using assms(1) s1 s2 st1 g Returns
      by (auto simp: NewUUID_def pkg_ok_def node_ok_def split: outcome.splits)
  qed
qed

text \<open>A random source that never fails makes every generator return.\<close>

definition rand_total :: "'r rand \<Rightarrow> bool" where
  "rand_total rd \<longleftrightarrow> (\<forall>n r. \<exists>b r'. rd n r = (Inr b, r'))"

lemma randomBits_total: "rand_total rd \<Longrightarrow> \<exists>b r'. randomBits rd n r = (Returns b, r')"
  unfolding rand_total_def randomBits_def by (metis (no_types, lifting) old.prod.case old.sum.simps(6))

lemma setClockSequence_total:
  "rand_total rd \<Longrightarrow> \<exists>r' st'. setClockSequence rd seq r st = (Returns (), r', st')"
  using randomBits_total [of rd 2 r] by (auto simp: setClockSequence_def Let_def)

lemma getTime_total: "rand_total rd \<Longrightarrow> \<exists>t s r' st'. getTime rd un r st = (Returns (t, s), r', st')"
  using setClockSequence_total [of rd "- 1" r st] by (auto simp: getTime_def Let_def)

lemma SetNodeInterface_total:
  "rand_total rd \<Longrightarrow> \<exists>b r' st'. SetNodeInterface rd nets name r st = (Returns b, r', st')"
  using randomBits_total [of rd]
  by (auto simp: SetNodeInterface_def Let_def split: prod.splits outcome.splits bool.splits)
     (metis outcome.distinct(1) prod.inject)+

lemma NewUUID_total:
  assumes "rand_total rd"
  shows "\<exists>u r' st'. NewUUID rd nets un r st = (Returns u, r', st')"
proof -
  obtain b r1 st1 where "(if nodeID st = [] then SetNodeInterface rd nets [] r st
      else (Returns True, r, st)) = (Returns b, r1, st1)"
    using SetNodeInterface_total [OF assms, of nets "[]" r st] by (cases "nodeID st = []") auto
  moreover obtain t s r2 st2 where "getTime rd un r1 st1 = (Returns (t, s), r2, st2)"
    using getTime_total [OF assms] by blast
  ultimately show ?thesis by (simp add: NewUUID_def)
qed

subsection \<open>Version and variant of a laid out UUID\<close>

lemma v1_version_byte: "drop_bit 4 ((x AND 15) OR 16 :: byte) = 1"
proof -
  have "drop_bit 4 ((x AND 15) OR 16 :: byte) = (drop_bit 4 x AND drop_bit 4 15) OR drop_bit 4 16"
    by (simp only: drop_bit_or drop_bit_and)
  then show ?thesis by simp
qed

lemma v1_version_half: "drop_bit 4 (ucast ((y AND 15) OR 16 :: 16 word) :: byte) = 1"
proof -
  have "(ucast ((y AND 15) OR 16 :: 16 word) :: byte) = (ucast y AND ucast (15 :: 16 word)) OR ucast (16 :: 16 word)"
    by (rule bit_word_eqI) (auto simp: bit_simps simp del: bit_numeral_iff)
  then show ?thesis by (simp add: v1_version_byte)
qed

lemma v1_hi: "(ucast (drop_bit 48 now AND 0x0fff :: 64 word) :: 16 word) = ucast (drop_bit 48 now) AND 0xfff"
proof -
  have m: "(0x0fff :: 64 word) = mask 12" "(0xfff :: 16 word) = mask 12"
    by (simp_all add: mask_eq_exp_minus_1)
  show ?thesis unfolding m by (rule bit_word_eqI) (auto simp: bit_simps bit_mask_iff)
qed

lemma variant_byte: "s AND 0xc000 = (0x8000 :: 16 word) \<Longrightarrow> (ucast (drop_bit 8 s) :: byte) AND 0xc0 = 0x80"
proof -
  assume a: "s AND 0xc000 = 0x8000"
  have "(ucast (drop_bit 8 s) :: byte) AND 0xc0 = ucast (drop_bit 8 (s AND 0xc000))"
  proof -
    have k: "(ucast (drop_bit 8 (0xc000 :: 16 word)) :: byte) = 0xc0" by simp
    show ?thesis unfolding k [symmetric] by (rule bit_word_eqI) (auto simp: bit_simps)
  qed
  then show ?thesis by (simp add: a)
qed

lemma layout_v1_version:
  assumes "length node = 6"
  shows "uuid_Version (layout_v1 now seq node) = (1, True)"
    and "seq AND 0xc000 = 0x8000 \<Longrightarrow> uuid_Variant (layout_v1 now seq node) = RFC4122"
  using assms variant_byte [of seq]
  by (simp_all add: uuid_Version_def uuid_Variant_def layout_v1_append PutUint16_def PutUint32_def
      v1_hi v1_version_half)

lemma next_seq_differs: "((s + 1) AND 0x3fff) OR 0x8000 \<noteq> (s :: 16 word)"
proof
  assume e: "((s + 1) AND 0x3fff) OR 0x8000 = s"
  have "(((s + 1) AND 0x3fff) OR 0x8000) AND 1 = (s + 1) AND (1 :: 16 word)"
    by (simp add: bit.conj_disj_distrib2 and.assoc)
  with e have "s AND 1 = (s + 1) AND 1" by simp
  then have "odd s \<longleftrightarrow> odd (s + 1)" by (metis and_one_eq even_iff_mod_2_eq_zero)
  then show False by simp
qed

subsection \<open>Properties\<close>

text \<open>
  What \<open>NewUUID\<close> returns and keeps: from a well-formed package state with a random source that
  fills its buffers, the package state stays well formed, and the UUID returned is a 16-byte
  version 1, RFC 4122 UUID whose readers \<open>Time\<close>, \<open>ClockSequence\<close> and \<open>NodeID\<close> give back the low 60
  bits of the time just recorded, the clock sequence and the node id of the state.
\<close>
theorem uuid_v1_fields:
  assumes "NewUUID rd nets un r st = (Returns u, r', st')" and "pkg_ok st" and "rand_ok rd"
  shows "pkg_ok st' \<and> length u = 16 \<and> uuid_Version u = (1, True) \<and> uuid_Variant u = RFC4122 \<and>
    lasttime st' = word_of_int (sint un sdiv 100) + g1582ns100 \<and>
    uuid_Time u = (take_bit 60 (lasttime st'), True) \<and>
    uuid_ClockSequence u = (clock_seq st' AND 0x3fff, True) \<and> uuid_NodeID u = nodeID st'"
  using NewUUID_state [OF assms] layout_v1_fields [of "nodeID st'"] layout_v1_version [of "nodeID st'"]
  by auto

theorem uuid_v1_fields_witness:
  "\<exists>u r' st'. NewUUID (\<lambda>n r. (Inr (replicate n 7), r)) (Inl ''down'') 500 () uuid_pkg_init =
      (Returns u, r', st') \<and> length u = 16 \<and> uuid_Version u = (1, True) \<and>
      uuid_Time u = (take_bit 60 (lasttime st'), True)"
proof -
  let ?rd = "\<lambda>n r. (Inr (replicate n 7) :: gerror + bytes, r :: unit)"
  have ok: "rand_ok ?rd" "rand_total ?rd" by (auto simp: rand_ok_def rand_total_def)
  obtain u r' st' where run: "NewUUID ?rd (Inl ''down'') 500 () uuid_pkg_init = (Returns u, r', st')"
    using NewUUID_total [OF ok(2)] by blast
  with uuid_v1_fields [OF run pkg_ok_init ok(1)] show ?thesis by blast
qed

text \<open>
  Two consecutive readings of the clock never give the same pair of time and clock sequence:
  the second time is later (as an unsigned number), or the clock sequence has changed.
\<close>
theorem uuid_time_advances:
  assumes "getTime rd un r st = (Returns (t1, s1), r1, st1)"
    and "getTime rd un' r1 st1 = (Returns (t2, s2), r2, st2)" and "clock_ok st"
  shows "t1 < t2 \<or> s2 \<noteq> s1"
proof -
  from getTime_state [OF assms(1,3)]
  have l: "lasttime st1 = t1" "clock_seq st1 = s1" "s1 AND 0xc000 = 0x8000" by auto
  then have "s1 \<noteq> 0" by auto
  then show ?thesis
    using assms(2) l next_seq_differs [of s1] by (auto simp: getTime_def Let_def split: if_splits)
qed

theorem uuid_time_advances_witness:
  "\<exists>t1 s1 st1 t2 s2 st2.
     getTime (\<lambda>n r. (Inr (replicate n 7), r)) 500 () uuid_pkg_init = (Returns (t1, s1), (), st1) \<and>
     getTime (\<lambda>n r. (Inr (replicate n 7), r)) 500 () st1 = (Returns (t2, s2), (), st2) \<and>
     \<not> t1 < t2 \<and> s2 \<noteq> s1"
proof -
  let ?rd = "\<lambda>n r. (Inr (replicate n 7) :: gerror + bytes, r :: unit)"
  obtain t1 s1 r1 st1 where a: "getTime ?rd 500 () uuid_pkg_init = (Returns (t1, s1), r1, st1)"
    by (simp add: getTime_def setClockSequence_def randomBits_def uuid_pkg_init_def Let_def)
  have c: "clock_ok uuid_pkg_init" using pkg_ok_init by (simp add: pkg_ok_def)
  from getTime_state [OF a c] have l: "lasttime st1 = t1" "clock_seq st1 = s1" "clock_seq st1 \<noteq> 0"
    and t1: "t1 = word_of_int (sint (500 :: goint) sdiv 100) + g1582ns100" by auto
  obtain t2 s2 r2 st2 where b: "getTime ?rd 500 r1 st1 = (Returns (t2, s2), r2, st2)"
    using l(3) by (simp add: getTime_def Let_def)
  have "clock_ok st1" using getTime_state [OF a c] by simp
  with getTime_state [OF b] t1 have "t2 = t1" by simp
  with uuid_time_advances [OF a b c] a b show ?thesis by auto
qed

text \<open>
  A DCE security UUID reads back: \<open>NewDCESecurity\<close> never returns \<open>nil\<close>, and what it returns is a
  version 2 UUID whose \<open>Domain\<close> and \<open>Id\<close> are the arguments.
\<close>
theorem uuid_dce_fields:
  assumes "NewDCESecurity rd nets un domain i r st = (Returns u, r', st')"
    and "pkg_ok st" and "rand_ok rd"
  shows "length u = 16 \<and> uuid_Version u = (2, True) \<and> uuid_Domain u = (domain, True) \<and>
    uuid_Id u = (i, True)"
proof -
  obtain w where w: "NewUUID rd nets un r st = (Returns w, r', st')"
      and u: "u = (if w \<noteq> [] then dce_stamp domain i w else w)"
    using assms(1) by (auto simp: NewDCESecurity_def split: prod.splits outcome.splits)
  have l: "length w = 16"
    using NewUUID_state [OF w assms(2,3)] by auto
  have v: "drop_bit 4 ((x AND 0x0f) OR 0x20 :: byte) = 2" for x
  proof -
    have "drop_bit 4 ((x AND 0x0f) OR 0x20 :: byte) =
        (drop_bit 4 x AND drop_bit 4 0x0f) OR drop_bit 4 0x20"
      by (simp only: drop_bit_or drop_bit_and)
    then show ?thesis by simp
  qed
  have "u = dce_stamp domain i w" using u l by auto
  then show ?thesis
    using l v
    by (simp add: dce_stamp_def Let_def uuid_Version_def uuid_Domain_def uuid_Id_def copy_at_def
        nth_append be_Uint32_PutUint32)
qed

theorem uuid_dce_fields_witness:
  "\<exists>u r' st'. NewDCESecurity (\<lambda>n r. (Inr (replicate n 7), r)) (Inl ''down'') 500 1 1000 ()
      uuid_pkg_init = (Returns u, r', st') \<and> uuid_Version u = (2, True) \<and> uuid_Id u = (1000, True)"
proof -
  let ?rd = "\<lambda>n r. (Inr (replicate n 7) :: gerror + bytes, r :: unit)"
  have ok: "rand_ok ?rd" "rand_total ?rd" by (auto simp: rand_ok_def rand_total_def)
  obtain u r' st' where
    run: "NewDCESecurity ?rd (Inl ''down'') 500 1 1000 () uuid_pkg_init = (Returns u, r', st')"
    using NewUUID_total [OF ok(2), of "Inl ''down''" 500 "()" uuid_pkg_init]
    by (auto simp: NewDCESecurity_def)
  with uuid_dce_fields [OF run pkg_ok_init ok(1)] show ?thesis by blast
qed

end
