(* ===== verification/MgoQueue.thy ===== *)
theory MgoQueue
  imports Fifo
begin

text \<open>
  \<open>labix.org/v2/mgo/queue.go\<close>: the ring buffer in which a cursor keeps the documents the server sent
  (\<open>Iter.docData\<close>), with its growth. A slot is an option, \<open>None\<close> for the nil an element leaves.
\<close>

record 'a mqueue =
  q_elems :: "'a option list"
  q_nelems :: nat
  q_popi :: nat
  q_pushi :: nat

definition mq_empty :: "'a mqueue" where
  "mq_empty = \<lparr>q_elems = [], q_nelems = 0, q_popi = 0, q_pushi = 0\<rparr>"

definition mq_Len :: "'a mqueue \<Rightarrow> nat" where
  "mq_Len q = q_nelems q"

definition new_cap :: "nat \<Rightarrow> nat" where
  "new_cap curcap =
     (if curcap = 0 then 8 else if curcap < 1024 then curcap * 2 else curcap + curcap div 4)"

definition mq_expand :: "'a mqueue \<Rightarrow> 'a mqueue" where
  "mq_expand q =
     (let curcap = length (q_elems q); newcap = new_cap curcap; elems = replicate newcap None
      in if q_popi q = 0 then q\<lparr>q_elems := copy_at 0 (q_elems q) elems, q_pushi := curcap\<rparr>
         else (let newpopi = newcap - (curcap - q_popi q);
                   elems = copy_at 0 (take (q_popi q) (q_elems q)) elems;
                   elems = copy_at newpopi (drop (q_popi q) (q_elems q)) elems
               in q\<lparr>q_elems := elems, q_popi := newpopi\<rparr>))"

definition mq_Push :: "'a \<Rightarrow> 'a mqueue \<Rightarrow> 'a mqueue" where
  "mq_Push x q =
     (let q = (if q_nelems q = length (q_elems q) then mq_expand q else q)
      in q\<lparr>q_elems := (q_elems q)[q_pushi q := Some x], q_nelems := q_nelems q + 1,
           q_pushi := (q_pushi q + 1) mod length (q_elems q)\<rparr>)"

definition mq_Pop :: "'a mqueue \<Rightarrow> ('a \<times> 'a mqueue) option" where
  "mq_Pop q =
     (if q_nelems q = 0 then None
      else case q_elems q ! q_popi q of
          None \<Rightarrow> None
        | Some x \<Rightarrow> Some (x, q\<lparr>q_elems := (q_elems q)[q_popi q := None], q_nelems := q_nelems q - 1,
            q_popi := (q_popi q + 1) mod length (q_elems q)\<rparr>))"

subsection \<open>The invariant and the content\<close>

text \<open>Slot \<open>i\<close> from the front.\<close>

definition mq_slot :: "'a mqueue \<Rightarrow> nat \<Rightarrow> nat" where
  "mq_slot q i = (q_popi q + i) mod length (q_elems q)"

definition mq_ok :: "'a mqueue \<Rightarrow> bool" where
  "mq_ok q \<longleftrightarrow>
     (if q_elems q = [] then q_nelems q = 0 \<and> q_popi q = 0 \<and> q_pushi q = 0
      else q_nelems q \<le> length (q_elems q) \<and> q_popi q < length (q_elems q) \<and>
        q_pushi q = mq_slot q (q_nelems q) \<and>
        (\<forall>i < q_nelems q. q_elems q ! mq_slot q i \<noteq> None))"

definition mq_content :: "'a mqueue \<Rightarrow> 'a list" where
  "mq_content q = map (\<lambda>i. the (q_elems q ! mq_slot q i)) [0..<q_nelems q]"

lemma mq_okI:
  assumes "q_elems q \<noteq> []" and "q_nelems q \<le> length (q_elems q)"
    and "q_popi q < length (q_elems q)" and "q_pushi q = mq_slot q (q_nelems q)"
    and "\<And>i. i < q_nelems q \<Longrightarrow> q_elems q ! mq_slot q i \<noteq> None"
  shows "mq_ok q"
  using assms by (simp add: mq_ok_def)

lemma mq_ok_empty: "mq_ok mq_empty" and mq_content_empty: "mq_content mq_empty = []"
  by (simp_all add: mq_ok_def mq_empty_def mq_content_def)

lemma slot_inj:
  fixes i j :: nat
  assumes "(p + i) mod n = (p + j) mod n" and "i < n" and "j < n"
  shows "i = j"
proof -
  have *: "a = b" if "a \<le> b" "(p + a) mod n = (p + b) mod n" "b < n" for a b :: nat
  proof -
    have "n dvd (p + b) - (p + a)" using that by (subst mod_eq_dvd_iff_nat [symmetric]) simp_all
    then have "n dvd b - a" by simp
    then show ?thesis using that nat_dvd_not_less [of "b - a" n] by fastforce
  qed
  show ?thesis using * [of i j] * [of j i] assms by (cases "i \<le> j") simp_all
qed

lemma slot_Suc: "(p + i) mod n = q \<Longrightarrow> (p + Suc i) mod n = Suc q mod (n::nat)"
  by (metis add_Suc_right mod_Suc_eq)

lemma slot_lt: "0 < n \<Longrightarrow> (p + i) mod n < (n::nat)"
  by simp

subsection \<open>Pop\<close>

lemma mq_Pop_None: "mq_ok q \<Longrightarrow> mq_Pop q = None \<Longrightarrow> mq_content q = []"
  by (force simp: mq_Pop_def mq_ok_def mq_slot_def mq_content_def split: if_splits option.splits)

lemma mq_Pop_Some:
  assumes "mq_ok q" and "mq_Pop q = Some (x, q')"
  shows "mq_ok q' \<and> mq_content q = x # mq_content q'"
proof -
  let ?n = "length (q_elems q)"
  have k: "0 < q_nelems q" "q_elems q ! q_popi q = Some x"
    and q': "q' = q\<lparr>q_elems := (q_elems q)[q_popi q := None], q_nelems := q_nelems q - 1,
            q_popi := (q_popi q + 1) mod ?n\<rparr>"
    using assms(2) by (auto simp: mq_Pop_def split: if_splits option.splits)
  have ne: "q_elems q \<noteq> []" using assms(1) k by (auto simp: mq_ok_def)
  then have o: "q_nelems q \<le> ?n" "q_popi q < ?n" "q_pushi q = mq_slot q (q_nelems q)"
      "\<forall>i < q_nelems q. q_elems q ! mq_slot q i \<noteq> None"
    using assms(1) by (simp_all add: mq_ok_def)
  have slot: "mq_slot q' i = mq_slot q (Suc i)" for i
    by (simp add: mq_slot_def q' mod_add_left_eq)
  have keep: "q_elems q' ! mq_slot q' i = q_elems q ! mq_slot q (Suc i)" if "i < q_nelems q'" for i
  proof -
    have "mq_slot q (Suc i) \<noteq> q_popi q"
    proof
      assume "mq_slot q (Suc i) = q_popi q"
      then have "(q_popi q + Suc i) mod ?n = (q_popi q + 0) mod ?n" using o(2) by (simp add: mq_slot_def)
      moreover have "Suc i < ?n" using that o(1) k(1) by (simp add: q')
      ultimately show False using slot_inj [of "q_popi q" "Suc i" ?n 0] ne by simp
    qed
    then show ?thesis by (simp add: slot) (simp add: q')
  qed
  have n': "q_nelems q = Suc (q_nelems q')" using k(1) by (simp add: q')
  have "mq_ok q'"
  proof (rule mq_okI)
    show "q_elems q' \<noteq> []" using ne by (simp add: q')
    show "q_nelems q' \<le> length (q_elems q')" using o(1) by (simp add: q')
    show "q_popi q' < length (q_elems q')" using ne by (simp add: q')
    have "q_pushi q' = q_pushi q" by (simp add: q')
    then show "q_pushi q' = mq_slot q' (q_nelems q')" by (simp only: o(3) slot n')
    fix i assume "i < q_nelems q'"
    then show "q_elems q' ! mq_slot q' i \<noteq> None" using o(4) n' by (simp only: keep) simp
  qed
  moreover have "mq_content q = x # mq_content q'"
  proof -
    have "mq_slot q 0 = q_popi q" using o(2) by (simp add: mq_slot_def)
    then have "mq_content q = x # map (\<lambda>i. the (q_elems q ! mq_slot q (Suc i))) [0..<q_nelems q']"
      using k(2) by (simp add: mq_content_def n' upt_conv_Cons map_Suc_upt [symmetric] comp_def
          del: upt_Suc)
    then show ?thesis using keep by (simp add: mq_content_def cong: map_cong)
  qed
  ultimately show ?thesis by blast
qed

subsection \<open>Push\<close>

lemma new_cap_gt: "n < new_cap n"
  by (auto simp: new_cap_def)

lemma mq_expand_ok:
  assumes "mq_ok q" and "q_nelems q = length (q_elems q)"
  shows "mq_ok (mq_expand q) \<and> mq_content (mq_expand q) = mq_content q \<and>
    q_nelems (mq_expand q) = q_nelems q \<and> q_nelems q < length (q_elems (mq_expand q))"
proof -
  let ?n = "length (q_elems q)" and ?e = "mq_expand q"
  let ?N = "new_cap ?n" and ?p = "q_popi q"
  have gt: "?n < ?N" by (rule new_cap_gt)
  have nel: "q_nelems ?e = ?n" using assms(2) by (simp add: mq_expand_def Let_def)
  have "length (q_elems ?e) = ?N \<and> q_popi ?e < ?N \<and> q_pushi ?e = mq_slot ?e ?n \<and>
      (\<forall>i < ?n. q_elems ?e ! mq_slot ?e i = q_elems q ! mq_slot q i)"
  proof (cases "?p = 0")
    case True
    then have e: "?e = q\<lparr>q_elems := q_elems q @ replicate (?N - ?n) None, q_pushi := ?n\<rparr>"
      using gt by (simp add: mq_expand_def Let_def copy_at_def)
    show ?thesis using True gt by (auto simp: e mq_slot_def nth_append)
  next
    case False
    then have ne: "q_elems q \<noteq> []" using assms(1) by (auto simp: mq_ok_def)
    then have p: "?p < ?n" "q_pushi q = ?p"
      using assms by (simp_all add: mq_ok_def mq_slot_def)
    let ?els = "take ?p (q_elems q) @ replicate (?N - ?n) None @ drop ?p (q_elems q)"
    have e: "?e = q\<lparr>q_elems := ?els, q_popi := ?N - (?n - ?p)\<rparr>"
      using False gt p(1)
      by (simp add: mq_expand_def Let_def copy_at_def min_def)
    have slot: "mq_slot ?e i = (if i < ?n - ?p then ?N - (?n - ?p) + i else ?p + i - ?n)"
      if "i \<le> ?n" for i
      using that p(1) gt by (auto simp: mq_slot_def e mod_if)
    have slot0: "mq_slot q i = (if i < ?n - ?p then ?p + i else ?p + i - ?n)" if "i < ?n" for i
      using that p(1) by (auto simp: mq_slot_def mod_if)
    show ?thesis
      using p gt slot slot0 by (auto simp: e nth_append)
  qed
  then show ?thesis
    using assms gt nel unfolding mq_content_def
    by (auto simp: mq_ok_def mq_slot_def split: if_splits)
qed

lemma mq_Push_ok:
  assumes "mq_ok q"
  shows "mq_ok (mq_Push x q) \<and> mq_content (mq_Push x q) = mq_content q @ [x]"
proof -
  define r where "r = (if q_nelems q = length (q_elems q) then mq_expand q else q)"
  let ?n = "length (q_elems r)"
  have r: "mq_ok r" "mq_content r = mq_content q" "q_nelems r < ?n"
    using mq_expand_ok [OF assms] assms
    by (auto simp: r_def mq_ok_def split: if_splits)
  have o: "q_popi r < ?n" "q_pushi r = mq_slot r (q_nelems r)"
      "\<forall>i < q_nelems r. q_elems r ! mq_slot r i \<noteq> None"
    using r(1,3) by (auto simp: mq_ok_def split: if_splits)
  have s: "mq_Push x q = r\<lparr>q_elems := (q_elems r)[q_pushi r := Some x], q_nelems := q_nelems r + 1,
      q_pushi := (q_pushi r + 1) mod ?n\<rparr>"
    by (simp add: mq_Push_def r_def Let_def)
  have slot: "mq_slot (mq_Push x q) i = mq_slot r i" for i by (simp add: mq_slot_def s)
  have new: "q_elems (mq_Push x q) ! mq_slot r i =
      (if i = q_nelems r then Some x else q_elems r ! mq_slot r i)" if "i \<le> q_nelems r" for i
  proof -
    have "mq_slot r i = mq_slot r (q_nelems r) \<longleftrightarrow> i = q_nelems r"
      using slot_inj [of "q_popi r" i ?n "q_nelems r"] that r(3) by (auto simp: mq_slot_def)
    moreover have "mq_slot r (q_nelems r) < ?n"
      unfolding mq_slot_def by (rule slot_lt) (use r(3) in linarith)
    ultimately show ?thesis by (auto simp: s o(2))
  qed
  have "mq_ok (mq_Push x q)"
  proof (rule mq_okI)
    have ne: "0 < ?n" using r(3) by linarith
    have n': "q_nelems (mq_Push x q) = Suc (q_nelems r)" by (simp add: s)
    show "q_elems (mq_Push x q) \<noteq> []" using ne by (simp add: s)
    show "q_nelems (mq_Push x q) \<le> length (q_elems (mq_Push x q))" using r(3) by (simp add: s)
    show "q_popi (mq_Push x q) < length (q_elems (mq_Push x q))" using o(1) by (simp add: s)
    have "q_pushi (mq_Push x q) = Suc (q_pushi r) mod ?n" by (simp add: s)
    also have "\<dots> = mq_slot r (Suc (q_nelems r))"
      using slot_Suc [of "q_popi r" "q_nelems r" ?n "q_pushi r"] o(2) by (simp add: mq_slot_def)
    finally show "q_pushi (mq_Push x q) = mq_slot (mq_Push x q) (q_nelems (mq_Push x q))"
      by (simp only: slot n')
    fix i assume "i < q_nelems (mq_Push x q)"
    then have "i \<le> q_nelems r" by (simp add: n')
    then show "q_elems (mq_Push x q) ! mq_slot (mq_Push x q) i \<noteq> None"
      using o(3) by (simp add: slot new)
  qed
  moreover have "mq_content (mq_Push x q) = mq_content r @ [x]"
  proof -
    have "mq_content (mq_Push x q) =
        map (\<lambda>i. the (q_elems (mq_Push x q) ! mq_slot r i)) [0..<Suc (q_nelems r)]"
      by (simp only: mq_content_def slot) (simp add: s)
    also have "\<dots> = map (\<lambda>i. the (if i = q_nelems r then Some x else q_elems r ! mq_slot r i))
        [0..<Suc (q_nelems r)]"
      by (rule map_cong) (auto simp only: new set_upt atLeastLessThan_iff less_Suc_eq_le)
    also have "\<dots> = mq_content r @ [x]"
      by (simp add: mq_content_def)
    finally show ?thesis .
  qed
  ultimately show ?thesis using r(2) by simp
qed

lemma mq_Len_content: "mq_Len q = length (mq_content q)"
  by (simp add: mq_Len_def mq_content_def)

interpretation mq: fifo "\<lambda>x q. Some (mq_Push x q)" mq_Pop mq_content mq_ok
  by unfold_locales (metis mq_Push_ok option.inject, rule mq_Pop_None, assumption+, rule mq_Pop_Some)

text \<open>
  C40: The ring buffer of a cursor is a queue: starting empty, through any sequence of pushes and
  pops, with all the growth in between, what is popped is exactly the front of what was pushed, in
  order, and the rest is still in it, \<open>Len\<close> counting it.
\<close>
theorem mgo_queue_fifo:
  assumes "mq.run ops mq_empty = (ins, outs, q)"
  shows "ins = pushed ops \<and> ins = outs @ mq_content q \<and> mq_Len q = length (mq_content q)"
proof -
  have ins: "mq.run ops q0 = (ins, outs, q) \<Longrightarrow> ins = pushed ops" for q0 ins outs q
    by (induction ops q0 arbitrary: ins outs q rule: mq.run.induct)
       (auto split: prod.splits option.splits)
  show ?thesis
    using ins [OF assms] mq.run_fifo [OF mq_ok_empty assms]
    by (simp add: mq_content_empty mq_Len_content)
qed

theorem mgo_queue_fifo_witness:
  "\<exists>outs q. mq.run [Enq (1::nat), Enq 2, Deq, Enq 3] mq_empty = ([1, 2, 3], outs, q) \<and>
     [1, 2, 3] = outs @ mq_content q"
proof -
  obtain ins outs q where r: "mq.run [Enq (1::nat), Enq 2, Deq, Enq 3] mq_empty = (ins, outs, q)"
    by (metis prod_cases3)
  have "ins = [1, 2, 3]" using mgo_queue_fifo [OF r] by simp
  with mgo_queue_fifo [OF r] r show ?thesis by metis
qed

end
