(* ===== verification/YamlTypes.thy ===== *)
theory YamlTypes
  imports Prelude
begin

text \<open>
  \<open>yamlh.go\<close> of \<open>gopkg.in/yaml.v1\<close>: the tokens the scanner hands to the parser, the events the parser
  hands to the tree builder, and the parser structure. A C-like structure with a type field is a
  datatype whose constructors carry the fields that type uses; a \<open>[]byte\<close> of text is a string, and
  one whose being nil matters is an option.
\<close>

subsection \<open>Positions, directives, styles\<close>

record mark =
  mk_index :: nat
  mk_line :: nat
  mk_column :: nat

definition zero_mark :: mark where
  "zero_mark = \<lparr>mk_index = 0, mk_line = 0, mk_column = 0\<rparr>"

type_synonym version_directive = "8 word \<times> 8 word"

record tag_directive =
  td_handle :: string
  td_prefix :: string

datatype yencoding = ANY_ENCODING | UTF8_ENCODING | UTF16LE_ENCODING | UTF16BE_ENCODING

datatype scalar_style =
    ANY_SCALAR_STYLE | PLAIN_SCALAR_STYLE | SINGLE_QUOTED_SCALAR_STYLE
  | DOUBLE_QUOTED_SCALAR_STYLE | LITERAL_SCALAR_STYLE | FOLDED_SCALAR_STYLE

datatype sequence_style = ANY_SEQUENCE_STYLE | BLOCK_SEQUENCE_STYLE | FLOW_SEQUENCE_STYLE

datatype mapping_style = ANY_MAPPING_STYLE | BLOCK_MAPPING_STYLE | FLOW_MAPPING_STYLE

subsection \<open>Tokens\<close>

datatype token_data =
    NO_TOKEN
  | STREAM_START_TOKEN yencoding
  | STREAM_END_TOKEN
  | VERSION_DIRECTIVE_TOKEN "8 word" "8 word"
  | TAG_DIRECTIVE_TOKEN string string
  | DOCUMENT_START_TOKEN
  | DOCUMENT_END_TOKEN
  | BLOCK_SEQUENCE_START_TOKEN
  | BLOCK_MAPPING_START_TOKEN
  | BLOCK_END_TOKEN
  | FLOW_SEQUENCE_START_TOKEN
  | FLOW_SEQUENCE_END_TOKEN
  | FLOW_MAPPING_START_TOKEN
  | FLOW_MAPPING_END_TOKEN
  | BLOCK_ENTRY_TOKEN
  | FLOW_ENTRY_TOKEN
  | KEY_TOKEN
  | VALUE_TOKEN
  | ALIAS_TOKEN string
  | ANCHOR_TOKEN string
  | TAG_TOKEN string string
  | SCALAR_TOKEN string scalar_style

record token =
  tk_typ :: token_data
  tk_start :: mark
  tk_end :: mark

fun token_String :: "token_data \<Rightarrow> string" where
  "token_String NO_TOKEN = ''yaml_NO_TOKEN''"
| "token_String (STREAM_START_TOKEN _) = ''yaml_STREAM_START_TOKEN''"
| "token_String STREAM_END_TOKEN = ''yaml_STREAM_END_TOKEN''"
| "token_String (VERSION_DIRECTIVE_TOKEN _ _) = ''yaml_VERSION_DIRECTIVE_TOKEN''"
| "token_String (TAG_DIRECTIVE_TOKEN _ _) = ''yaml_TAG_DIRECTIVE_TOKEN''"
| "token_String DOCUMENT_START_TOKEN = ''yaml_DOCUMENT_START_TOKEN''"
| "token_String DOCUMENT_END_TOKEN = ''yaml_DOCUMENT_END_TOKEN''"
| "token_String BLOCK_SEQUENCE_START_TOKEN = ''yaml_BLOCK_SEQUENCE_START_TOKEN''"
| "token_String BLOCK_MAPPING_START_TOKEN = ''yaml_BLOCK_MAPPING_START_TOKEN''"
| "token_String BLOCK_END_TOKEN = ''yaml_BLOCK_END_TOKEN''"
| "token_String FLOW_SEQUENCE_START_TOKEN = ''yaml_FLOW_SEQUENCE_START_TOKEN''"
| "token_String FLOW_SEQUENCE_END_TOKEN = ''yaml_FLOW_SEQUENCE_END_TOKEN''"
| "token_String FLOW_MAPPING_START_TOKEN = ''yaml_FLOW_MAPPING_START_TOKEN''"
| "token_String FLOW_MAPPING_END_TOKEN = ''yaml_FLOW_MAPPING_END_TOKEN''"
| "token_String BLOCK_ENTRY_TOKEN = ''yaml_BLOCK_ENTRY_TOKEN''"
| "token_String FLOW_ENTRY_TOKEN = ''yaml_FLOW_ENTRY_TOKEN''"
| "token_String KEY_TOKEN = ''yaml_KEY_TOKEN''"
| "token_String VALUE_TOKEN = ''yaml_VALUE_TOKEN''"
| "token_String (ALIAS_TOKEN _) = ''yaml_ALIAS_TOKEN''"
| "token_String (ANCHOR_TOKEN _) = ''yaml_ANCHOR_TOKEN''"
| "token_String (TAG_TOKEN _ _) = ''yaml_TAG_TOKEN''"
| "token_String (SCALAR_TOKEN _ _) = ''yaml_SCALAR_TOKEN''"

subsection \<open>Events\<close>

datatype event_data =
    NO_EVENT
  | STREAM_START_EVENT yencoding
  | STREAM_END_EVENT
  | DOCUMENT_START_EVENT "version_directive option" "tag_directive list" bool
  | DOCUMENT_END_EVENT bool
  | ALIAS_EVENT string
  | SCALAR_EVENT "string option" string string bool bool scalar_style
  | SEQUENCE_START_EVENT "string option" string bool sequence_style
  | SEQUENCE_END_EVENT
  | MAPPING_START_EVENT "string option" string bool mapping_style
  | MAPPING_END_EVENT

text \<open>
  A scalar has its anchor, tag, value, \<open>implicit\<close>, \<open>quoted_implicit\<close> and style; the start of a
  collection its anchor, tag, \<open>implicit\<close> and style.
\<close>

record yevent =
  ev_typ :: event_data
  ev_start :: mark
  ev_end :: mark

definition no_event :: yevent where
  "no_event = \<lparr>ev_typ = NO_EVENT, ev_start = zero_mark, ev_end = zero_mark\<rparr>"

subsection \<open>The parser\<close>

datatype parser_state =
    PARSE_STREAM_START_STATE
  | PARSE_IMPLICIT_DOCUMENT_START_STATE
  | PARSE_DOCUMENT_START_STATE
  | PARSE_DOCUMENT_CONTENT_STATE
  | PARSE_DOCUMENT_END_STATE
  | PARSE_BLOCK_NODE_STATE
  | PARSE_BLOCK_NODE_OR_INDENTLESS_SEQUENCE_STATE
  | PARSE_FLOW_NODE_STATE
  | PARSE_BLOCK_SEQUENCE_FIRST_ENTRY_STATE
  | PARSE_BLOCK_SEQUENCE_ENTRY_STATE
  | PARSE_INDENTLESS_SEQUENCE_ENTRY_STATE
  | PARSE_BLOCK_MAPPING_FIRST_KEY_STATE
  | PARSE_BLOCK_MAPPING_KEY_STATE
  | PARSE_BLOCK_MAPPING_VALUE_STATE
  | PARSE_FLOW_SEQUENCE_FIRST_ENTRY_STATE
  | PARSE_FLOW_SEQUENCE_ENTRY_STATE
  | PARSE_FLOW_SEQUENCE_ENTRY_MAPPING_KEY_STATE
  | PARSE_FLOW_SEQUENCE_ENTRY_MAPPING_VALUE_STATE
  | PARSE_FLOW_SEQUENCE_ENTRY_MAPPING_END_STATE
  | PARSE_FLOW_MAPPING_FIRST_KEY_STATE
  | PARSE_FLOW_MAPPING_KEY_STATE
  | PARSE_FLOW_MAPPING_VALUE_STATE
  | PARSE_FLOW_MAPPING_EMPTY_VALUE_STATE
  | PARSE_END_STATE

fun parser_state_String :: "parser_state \<Rightarrow> string" where
  "parser_state_String PARSE_STREAM_START_STATE = ''yaml_PARSE_STREAM_START_STATE''"
| "parser_state_String PARSE_IMPLICIT_DOCUMENT_START_STATE =
     ''yaml_PARSE_IMPLICIT_DOCUMENT_START_STATE''"
| "parser_state_String PARSE_DOCUMENT_START_STATE = ''yaml_PARSE_DOCUMENT_START_STATE''"
| "parser_state_String PARSE_DOCUMENT_CONTENT_STATE = ''yaml_PARSE_DOCUMENT_CONTENT_STATE''"
| "parser_state_String PARSE_DOCUMENT_END_STATE = ''yaml_PARSE_DOCUMENT_END_STATE''"
| "parser_state_String PARSE_BLOCK_NODE_STATE = ''yaml_PARSE_BLOCK_NODE_STATE''"
| "parser_state_String PARSE_BLOCK_NODE_OR_INDENTLESS_SEQUENCE_STATE =
     ''yaml_PARSE_BLOCK_NODE_OR_INDENTLESS_SEQUENCE_STATE''"
| "parser_state_String PARSE_FLOW_NODE_STATE = ''yaml_PARSE_FLOW_NODE_STATE''"
| "parser_state_String PARSE_BLOCK_SEQUENCE_FIRST_ENTRY_STATE =
     ''yaml_PARSE_BLOCK_SEQUENCE_FIRST_ENTRY_STATE''"
| "parser_state_String PARSE_BLOCK_SEQUENCE_ENTRY_STATE =
     ''yaml_PARSE_BLOCK_SEQUENCE_ENTRY_STATE''"
| "parser_state_String PARSE_INDENTLESS_SEQUENCE_ENTRY_STATE =
     ''yaml_PARSE_INDENTLESS_SEQUENCE_ENTRY_STATE''"
| "parser_state_String PARSE_BLOCK_MAPPING_FIRST_KEY_STATE =
     ''yaml_PARSE_BLOCK_MAPPING_FIRST_KEY_STATE''"
| "parser_state_String PARSE_BLOCK_MAPPING_KEY_STATE = ''yaml_PARSE_BLOCK_MAPPING_KEY_STATE''"
| "parser_state_String PARSE_BLOCK_MAPPING_VALUE_STATE = ''yaml_PARSE_BLOCK_MAPPING_VALUE_STATE''"
| "parser_state_String PARSE_FLOW_SEQUENCE_FIRST_ENTRY_STATE =
     ''yaml_PARSE_FLOW_SEQUENCE_FIRST_ENTRY_STATE''"
| "parser_state_String PARSE_FLOW_SEQUENCE_ENTRY_STATE = ''yaml_PARSE_FLOW_SEQUENCE_ENTRY_STATE''"
| "parser_state_String PARSE_FLOW_SEQUENCE_ENTRY_MAPPING_KEY_STATE =
     ''yaml_PARSE_FLOW_SEQUENCE_ENTRY_MAPPING_KEY_STATE''"
| "parser_state_String PARSE_FLOW_SEQUENCE_ENTRY_MAPPING_VALUE_STATE =
     ''yaml_PARSE_FLOW_SEQUENCE_ENTRY_MAPPING_VALUE_STATE''"
| "parser_state_String PARSE_FLOW_SEQUENCE_ENTRY_MAPPING_END_STATE =
     ''yaml_PARSE_FLOW_SEQUENCE_ENTRY_MAPPING_END_STATE''"
| "parser_state_String PARSE_FLOW_MAPPING_FIRST_KEY_STATE =
     ''yaml_PARSE_FLOW_MAPPING_FIRST_KEY_STATE''"
| "parser_state_String PARSE_FLOW_MAPPING_KEY_STATE = ''yaml_PARSE_FLOW_MAPPING_KEY_STATE''"
| "parser_state_String PARSE_FLOW_MAPPING_VALUE_STATE = ''yaml_PARSE_FLOW_MAPPING_VALUE_STATE''"
| "parser_state_String PARSE_FLOW_MAPPING_EMPTY_VALUE_STATE =
     ''yaml_PARSE_FLOW_MAPPING_EMPTY_VALUE_STATE''"
| "parser_state_String PARSE_END_STATE = ''yaml_PARSE_END_STATE''"

text \<open>An error of the parser, or one the scanner reported: a problem and its context, with marks.\<close>

record problem =
  pb_context :: string
  pb_context_mark :: mark
  pb_problem :: string
  pb_problem_mark :: mark

text \<open>
  The parser's own part of the structure. \<open>yp_tokens\<close> are the tokens the scanner is still to
  deliver and \<open>yp_scan_error\<close> what it reports once they are used up; the stacks have their top
  first.
\<close>

record yparser =
  yp_tokens :: "token list"
  yp_scan_error :: problem
  yp_stream_end_produced :: bool
  yp_state :: parser_state
  yp_states :: "parser_state list"
  yp_marks :: "mark list"
  yp_tag_directives :: "tag_directive list"

text \<open>\<open>yaml_parser_initialize\<close> and an input the scanner turns into \<open>ts\<close>.\<close>

definition parser_initialize :: "token list \<Rightarrow> problem \<Rightarrow> yparser" where
  "parser_initialize ts scan_error =
     \<lparr>yp_tokens = ts, yp_scan_error = scan_error, yp_stream_end_produced = False,
      yp_state = PARSE_STREAM_START_STATE, yp_states = [], yp_marks = [], yp_tag_directives = []\<rparr>"

text \<open>The outcome of a call: a value and the parser, an error, or a Go run-time panic.\<close>

datatype 'a parsed = Parsed 'a yparser | Failed problem | Crashed string

text \<open>The names are distinct, so a trace tells the states apart.\<close>

lemma parser_state_String_inj: "parser_state_String s = parser_state_String t \<Longrightarrow> s = t"
  by (cases s; cases t) simp_all

end
