(* ===== verification/YamlParser.thy ===== *)
theory YamlParser
  imports YamlTypes
begin

text \<open>
  \<open>parserc.go\<close> of \<open>gopkg.in/yaml.v1\<close>: the state machine that turns the scanner's tokens into events,
  one event per call. Every function of the file is here under its name less the \<open>yaml_parser_\<close>
  prefix. A call that returns true is \<open>Parsed\<close>, one that returns false is \<open>Failed\<close> with the error it
  left in the parser, and an index or a pointer Go would trap on is \<open>Crashed\<close>.
\<close>

subsection \<open>Tokens and stacks\<close>

text \<open>\<open>peek_token\<close>, with what is done with the token; without one the call returns false.\<close>

definition peek_token :: "yparser \<Rightarrow> (token \<Rightarrow> 'a parsed) \<Rightarrow> 'a parsed" where
  "peek_token p f = (case yp_tokens p of [] \<Rightarrow> Failed (yp_scan_error p) | t # _ \<Rightarrow> f t)"

text \<open>The first entry of a collection uses the token without asking whether there is one.\<close>

definition the_token :: "yparser \<Rightarrow> (token \<Rightarrow> 'a parsed) \<Rightarrow> 'a parsed" where
  "the_token p f =
     (case yp_tokens p of
        [] \<Rightarrow> Crashed ''runtime error: invalid memory address or nil pointer dereference''
      | t # _ \<Rightarrow> f t)"

definition skip_token :: "yparser \<Rightarrow> yparser" where
  "skip_token p =
     p\<lparr>yp_tokens := tl (yp_tokens p),
       yp_stream_end_produced := (tk_typ (hd (yp_tokens p)) = STREAM_END_TOKEN)\<rparr>"

definition set_state :: "parser_state \<Rightarrow> yparser \<Rightarrow> yparser" where
  "set_state s p = p\<lparr>yp_state := s\<rparr>"

definition push_state :: "parser_state \<Rightarrow> yparser \<Rightarrow> yparser" where
  "push_state s p = p\<lparr>yp_states := s # yp_states p\<rparr>"

definition push_mark :: "mark \<Rightarrow> yparser \<Rightarrow> yparser" where
  "push_mark m p = p\<lparr>yp_marks := m # yp_marks p\<rparr>"

definition out_of_range :: string where
  "out_of_range = ''runtime error: index out of range''"

text \<open>\<open>parser.state = parser.states[len-1]; parser.states = parser.states[:len-1]\<close>\<close>

definition pop_state :: "yparser \<Rightarrow> (yparser \<Rightarrow> 'a parsed) \<Rightarrow> 'a parsed" where
  "pop_state p f =
     (case yp_states p of
        [] \<Rightarrow> Crashed out_of_range
      | s # ss \<Rightarrow> f (p\<lparr>yp_state := s, yp_states := ss\<rparr>))"

definition pop_mark :: "yparser \<Rightarrow> (mark \<Rightarrow> yparser \<Rightarrow> 'a parsed) \<Rightarrow> 'a parsed" where
  "pop_mark p f =
     (case yp_marks p of
        [] \<Rightarrow> Crashed out_of_range
      | m # ms \<Rightarrow> f m (p\<lparr>yp_marks := ms\<rparr>))"

definition set_parser_error :: "string \<Rightarrow> mark \<Rightarrow> 'a parsed" where
  "set_parser_error prob m =
     Failed \<lparr>pb_context = '''', pb_context_mark = zero_mark, pb_problem = prob, pb_problem_mark = m\<rparr>"

definition set_parser_error_context :: "string \<Rightarrow> mark \<Rightarrow> string \<Rightarrow> mark \<Rightarrow> 'a parsed" where
  "set_parser_error_context ctx cm prob m =
     Failed \<lparr>pb_context = ctx, pb_context_mark = cm, pb_problem = prob, pb_problem_mark = m\<rparr>"

definition event_at :: "event_data \<Rightarrow> mark \<Rightarrow> mark \<Rightarrow> yevent" where
  "event_at e a b = \<lparr>ev_typ = e, ev_start = a, ev_end = b\<rparr>"

definition process_empty_scalar :: "yparser \<Rightarrow> mark \<Rightarrow> yevent parsed" where
  "process_empty_scalar p m =
     Parsed (event_at (SCALAR_EVENT None '''' '''' True False PLAIN_SCALAR_STYLE) m m) p"

subsection \<open>Directives\<close>

definition default_tag_directives :: "tag_directive list" where
  "default_tag_directives =
     [\<lparr>td_handle = ''!'', td_prefix = ''!''\<rparr>,
      \<lparr>td_handle = ''!!'', td_prefix = ''tag:yaml.org,2002:''\<rparr>]"

definition append_tag_directive ::
  "yparser \<Rightarrow> tag_directive \<Rightarrow> bool \<Rightarrow> mark \<Rightarrow> unit parsed" where
  "append_tag_directive p v allow_duplicates m =
     (if td_handle v \<in> td_handle ` set (yp_tag_directives p) then
        (if allow_duplicates then Parsed () p
         else set_parser_error ''found duplicate %TAG directive'' m)
      else Parsed () (p\<lparr>yp_tag_directives := yp_tag_directives p @ [v]\<rparr>))"

fun append_default_directives :: "tag_directive list \<Rightarrow> yparser \<Rightarrow> mark \<Rightarrow> unit parsed" where
  "append_default_directives [] p m = Parsed () p"
| "append_default_directives (d # ds) p m =
     (case append_tag_directive p d True m of
        Parsed _ p' \<Rightarrow> append_default_directives ds p' m
      | Failed e \<Rightarrow> Failed e
      | Crashed s \<Rightarrow> Crashed s)"

text \<open>The loop over the directive tokens; the first argument is the list of tokens still there.\<close>

fun directives_loop ::
  "token list \<Rightarrow> yparser \<Rightarrow> version_directive option \<Rightarrow> tag_directive list \<Rightarrow>
   (version_directive option \<times> tag_directive list) parsed" where
  "directives_loop [] p vd tds = Failed (yp_scan_error p)"
| "directives_loop (t # ts) p vd tds =
     (case tk_typ t of
        VERSION_DIRECTIVE_TOKEN major minor \<Rightarrow>
          (if vd \<noteq> None then set_parser_error ''found duplicate %YAML directive'' (tk_start t)
           else if major \<noteq> 1 \<or> minor \<noteq> 1 then
             set_parser_error ''found incompatible YAML document'' (tk_start t)
           else directives_loop ts (skip_token p) (Some (major, minor)) tds)
      | TAG_DIRECTIVE_TOKEN handle prefix \<Rightarrow>
          (let v = \<lparr>td_handle = handle, td_prefix = prefix\<rparr> in
           case append_tag_directive p v False (tk_start t) of
             Parsed _ p' \<Rightarrow> directives_loop ts (skip_token p') vd (tds @ [v])
           | Failed e \<Rightarrow> Failed e
           | Crashed s \<Rightarrow> Crashed s)
      | _ \<Rightarrow>
          (case append_default_directives default_tag_directives p (tk_start t) of
             Parsed _ p' \<Rightarrow> Parsed (vd, tds) p'
           | Failed e \<Rightarrow> Failed e
           | Crashed s \<Rightarrow> Crashed s))"

definition process_directives ::
  "yparser \<Rightarrow> (version_directive option \<times> tag_directive list) parsed" where
  "process_directives p = directives_loop (yp_tokens p) p None []"

subsection \<open>Nodes\<close>

text \<open>The properties of a node, an anchor and a tag in either order, with the marks they move.\<close>

definition node_properties ::
  "yparser \<Rightarrow> (string option \<Rightarrow> (string \<times> string \<times> mark) option \<Rightarrow> mark \<Rightarrow> mark \<Rightarrow> yparser \<Rightarrow> 'a parsed) \<Rightarrow>
   'a parsed" where
  "node_properties p f =
     peek_token p (\<lambda>token.
       case tk_typ token of
         ANCHOR_TOKEN a \<Rightarrow>
           (let p1 = skip_token p in
            peek_token p1 (\<lambda>token1.
              case tk_typ token1 of
                TAG_TOKEN h s \<Rightarrow>
                  (let p2 = skip_token p1 in
                   peek_token p2 (\<lambda>_.
                     f (Some a) (Some (h, s, tk_start token1)) (tk_start token) (tk_end token1) p2))
              | _ \<Rightarrow> f (Some a) None (tk_start token) (tk_end token) p1))
       | TAG_TOKEN h s \<Rightarrow>
           (let p1 = skip_token p in
            peek_token p1 (\<lambda>token1.
              case tk_typ token1 of
                ANCHOR_TOKEN a \<Rightarrow>
                  (let p2 = skip_token p1 in
                   peek_token p2 (\<lambda>_.
                     f (Some a) (Some (h, s, tk_start token)) (tk_start token) (tk_end token1) p2))
              | _ \<Rightarrow> f None (Some (h, s, tk_start token)) (tk_start token) (tk_end token) p1))
       | _ \<Rightarrow> f None None (tk_start token) (tk_start token) p)"

text \<open>The tag a handle and a suffix stand for under the directives in force.\<close>

definition node_tag ::
  "yparser \<Rightarrow> (string \<times> string \<times> mark) option \<Rightarrow> mark \<Rightarrow> (string \<Rightarrow> 'a parsed) \<Rightarrow> 'a parsed" where
  "node_tag p tag_token start_mark f =
     (case tag_token of
        None \<Rightarrow> f ''''
      | Some (tag_handle, tag_suffix, tag_mark) \<Rightarrow>
          (if tag_handle = '''' then f tag_suffix
           else
             (let tag = (case find (\<lambda>d. td_handle d = tag_handle) (yp_tag_directives p) of
                           None \<Rightarrow> '''' | Some d \<Rightarrow> td_prefix d @ tag_suffix)
              in if tag = '''' then
                   set_parser_error_context ''while parsing a node'' start_mark
                     ''found undefined tag handle'' tag_mark
                 else f tag)))"

definition node_content ::
  "yparser \<Rightarrow> bool \<Rightarrow> bool \<Rightarrow> string option \<Rightarrow> string \<Rightarrow> mark \<Rightarrow> mark \<Rightarrow> yevent parsed" where
  "node_content p block indentless_sequence anchor tag start_mark end_mark =
     peek_token p (\<lambda>token.
       let implicit = (tag = '''');
           starts = (\<lambda>e s. Parsed (event_at e start_mark (tk_end token)) (set_state s p))
       in if indentless_sequence \<and> tk_typ token = BLOCK_ENTRY_TOKEN then
            starts (SEQUENCE_START_EVENT anchor tag implicit BLOCK_SEQUENCE_STYLE)
              PARSE_INDENTLESS_SEQUENCE_ENTRY_STATE
          else case tk_typ token of
            SCALAR_TOKEN value style \<Rightarrow>
              (let plain_implicit = (tag = '''' \<and> style = PLAIN_SCALAR_STYLE \<or> tag = ''!'');
                   quoted_implicit = (\<not> plain_implicit \<and> tag = '''')
               in pop_state p (\<lambda>p'. Parsed
                    (event_at (SCALAR_EVENT anchor tag value plain_implicit quoted_implicit style)
                      start_mark (tk_end token)) (skip_token p')))
          | FLOW_SEQUENCE_START_TOKEN \<Rightarrow>
              starts (SEQUENCE_START_EVENT anchor tag implicit FLOW_SEQUENCE_STYLE)
                PARSE_FLOW_SEQUENCE_FIRST_ENTRY_STATE
          | FLOW_MAPPING_START_TOKEN \<Rightarrow>
              starts (MAPPING_START_EVENT anchor tag implicit FLOW_MAPPING_STYLE)
                PARSE_FLOW_MAPPING_FIRST_KEY_STATE
          | _ \<Rightarrow>
              if block \<and> tk_typ token = BLOCK_SEQUENCE_START_TOKEN then
                starts (SEQUENCE_START_EVENT anchor tag implicit BLOCK_SEQUENCE_STYLE)
                  PARSE_BLOCK_SEQUENCE_FIRST_ENTRY_STATE
              else if block \<and> tk_typ token = BLOCK_MAPPING_START_TOKEN then
                starts (MAPPING_START_EVENT anchor tag implicit BLOCK_MAPPING_STYLE)
                  PARSE_BLOCK_MAPPING_FIRST_KEY_STATE
              else if (case anchor of None \<Rightarrow> False | Some a \<Rightarrow> a \<noteq> '''') \<or> tag \<noteq> '''' then
                pop_state p (\<lambda>p'. Parsed
                  (event_at (SCALAR_EVENT anchor tag '''' implicit False PLAIN_SCALAR_STYLE)
                    start_mark end_mark) p')
              else
                set_parser_error_context
                  (if block then ''while parsing a block node'' else ''while parsing a flow node'')
                  start_mark ''did not find expected node content'' (tk_start token))"

definition parse_node :: "yparser \<Rightarrow> bool \<Rightarrow> bool \<Rightarrow> yevent parsed" where
  "parse_node p block indentless_sequence =
     peek_token p (\<lambda>token.
       case tk_typ token of
         ALIAS_TOKEN v \<Rightarrow>
           pop_state p (\<lambda>p'. Parsed (event_at (ALIAS_EVENT v) (tk_start token) (tk_end token))
             (skip_token p'))
       | _ \<Rightarrow>
           node_properties p (\<lambda>anchor tag_token start_mark end_mark p1.
             node_tag p1 tag_token start_mark (\<lambda>tag.
               node_content p1 block indentless_sequence anchor tag start_mark end_mark)))"

subsection \<open>Stream and documents\<close>

definition parse_stream_start :: "yparser \<Rightarrow> yevent parsed" where
  "parse_stream_start p =
     peek_token p (\<lambda>token.
       case tk_typ token of
         STREAM_START_TOKEN enc \<Rightarrow>
           Parsed (event_at (STREAM_START_EVENT enc) (tk_start token) (tk_end token))
             (skip_token (set_state PARSE_IMPLICIT_DOCUMENT_START_STATE p))
       | _ \<Rightarrow> set_parser_error ''did not find expected <stream-start>'' (tk_start token))"

text \<open>Extra document end indicators are skipped; the argument is the list of tokens still there.\<close>

fun skip_document_ends :: "token list \<Rightarrow> yparser \<Rightarrow> yparser" where
  "skip_document_ends [] p = p"
| "skip_document_ends (t # ts) p =
     (if tk_typ t = DOCUMENT_END_TOKEN then skip_document_ends ts (skip_token p) else p)"

fun starts_explicit :: "token_data \<Rightarrow> bool" where
  "starts_explicit (VERSION_DIRECTIVE_TOKEN _ _) = True"
| "starts_explicit (TAG_DIRECTIVE_TOKEN _ _) = True"
| "starts_explicit DOCUMENT_START_TOKEN = True"
| "starts_explicit _ = False"

definition parse_document_start :: "yparser \<Rightarrow> bool \<Rightarrow> yevent parsed" where
  "parse_document_start p0 implicit =
     (let p = (if implicit then p0 else skip_document_ends (yp_tokens p0) p0) in
      peek_token p (\<lambda>token.
        if implicit \<and> \<not> starts_explicit (tk_typ token) \<and> tk_typ token \<noteq> STREAM_END_TOKEN then
          (case process_directives p of
             Parsed _ p1 \<Rightarrow>
               Parsed (event_at (DOCUMENT_START_EVENT None [] False) (tk_start token) (tk_end token))
                 (set_state PARSE_BLOCK_NODE_STATE (push_state PARSE_DOCUMENT_END_STATE p1))
           | Failed e \<Rightarrow> Failed e
           | Crashed s \<Rightarrow> Crashed s)
        else if tk_typ token \<noteq> STREAM_END_TOKEN then
          (case process_directives p of
             Parsed (vd, tds) p1 \<Rightarrow>
               peek_token p1 (\<lambda>token1.
                 if tk_typ token1 \<noteq> DOCUMENT_START_TOKEN then
                   set_parser_error ''did not find expected <document start>'' (tk_start token1)
                 else
                   Parsed (event_at (DOCUMENT_START_EVENT vd tds False) (tk_start token) (tk_end token1))
                     (skip_token (set_state PARSE_DOCUMENT_CONTENT_STATE
                       (push_state PARSE_DOCUMENT_END_STATE p1))))
           | Failed e \<Rightarrow> Failed e
           | Crashed s \<Rightarrow> Crashed s)
        else
          Parsed (event_at STREAM_END_EVENT (tk_start token) (tk_end token))
            (skip_token (set_state PARSE_END_STATE p))))"

definition parse_document_content :: "yparser \<Rightarrow> yevent parsed" where
  "parse_document_content p =
     peek_token p (\<lambda>token.
       if starts_explicit (tk_typ token) \<or> tk_typ token = DOCUMENT_END_TOKEN \<or>
          tk_typ token = STREAM_END_TOKEN
       then pop_state p (\<lambda>p'. process_empty_scalar p' (tk_start token))
       else parse_node p True False)"

definition parse_document_end :: "yparser \<Rightarrow> yevent parsed" where
  "parse_document_end p =
     peek_token p (\<lambda>token.
       let explicit = (tk_typ token = DOCUMENT_END_TOKEN);
           p1 = (if explicit then skip_token p else p)
       in Parsed
            (event_at (DOCUMENT_END_EVENT (\<not> explicit)) (tk_start token)
              (if explicit then tk_end token else tk_start token))
            (set_state PARSE_DOCUMENT_START_STATE (p1\<lparr>yp_tag_directives := []\<rparr>)))"

subsection \<open>Block collections\<close>

text \<open>The first entry takes the start token, remembering its mark.\<close>

definition enter_collection :: "yparser \<Rightarrow> bool \<Rightarrow> (yparser \<Rightarrow> 'a parsed) \<Rightarrow> 'a parsed" where
  "enter_collection p first f =
     (if first then the_token p (\<lambda>token. f (skip_token (push_mark (tk_start token) p))) else f p)"

text \<open>The end token: back to the state below, dropping the mark.\<close>

definition leave_collection :: "yparser \<Rightarrow> event_data \<Rightarrow> token \<Rightarrow> yevent parsed" where
  "leave_collection p e token =
     pop_state p (\<lambda>p1. pop_mark p1 (\<lambda>_ p2.
       Parsed (event_at e (tk_start token) (tk_end token)) (skip_token p2)))"

definition collection_error :: "yparser \<Rightarrow> string \<Rightarrow> string \<Rightarrow> token \<Rightarrow> yevent parsed" where
  "collection_error p ctx prob token =
     pop_mark p (\<lambda>context_mark _. set_parser_error_context ctx context_mark prob (tk_start token))"

definition parse_block_sequence_entry :: "yparser \<Rightarrow> bool \<Rightarrow> yevent parsed" where
  "parse_block_sequence_entry p0 first =
     enter_collection p0 first (\<lambda>p. peek_token p (\<lambda>token.
       if tk_typ token = BLOCK_ENTRY_TOKEN then
         (let p1 = skip_token p in
          peek_token p1 (\<lambda>token1.
            if tk_typ token1 \<noteq> BLOCK_ENTRY_TOKEN \<and> tk_typ token1 \<noteq> BLOCK_END_TOKEN then
              parse_node (push_state PARSE_BLOCK_SEQUENCE_ENTRY_STATE p1) True False
            else
              process_empty_scalar (set_state PARSE_BLOCK_SEQUENCE_ENTRY_STATE p1) (tk_end token)))
       else if tk_typ token = BLOCK_END_TOKEN then leave_collection p SEQUENCE_END_EVENT token
       else collection_error p ''while parsing a block collection''
              ''did not find expected '-' indicator'' token))"

fun ends_indentless :: "token_data \<Rightarrow> bool" where
  "ends_indentless BLOCK_ENTRY_TOKEN = True"
| "ends_indentless KEY_TOKEN = True"
| "ends_indentless VALUE_TOKEN = True"
| "ends_indentless BLOCK_END_TOKEN = True"
| "ends_indentless _ = False"

definition parse_indentless_sequence_entry :: "yparser \<Rightarrow> yevent parsed" where
  "parse_indentless_sequence_entry p =
     peek_token p (\<lambda>token.
       if tk_typ token = BLOCK_ENTRY_TOKEN then
         (let p1 = skip_token p in
          peek_token p1 (\<lambda>token1.
            if \<not> ends_indentless (tk_typ token1) then
              parse_node (push_state PARSE_INDENTLESS_SEQUENCE_ENTRY_STATE p1) True False
            else
              process_empty_scalar (set_state PARSE_INDENTLESS_SEQUENCE_ENTRY_STATE p1) (tk_end token)))
       else pop_state p (\<lambda>p1.
         Parsed (event_at SEQUENCE_END_EVENT (tk_start token) (tk_start token)) p1))"

fun ends_entry :: "token_data \<Rightarrow> bool" where
  "ends_entry KEY_TOKEN = True"
| "ends_entry VALUE_TOKEN = True"
| "ends_entry BLOCK_END_TOKEN = True"
| "ends_entry _ = False"

definition parse_block_mapping_key :: "yparser \<Rightarrow> bool \<Rightarrow> yevent parsed" where
  "parse_block_mapping_key p0 first =
     enter_collection p0 first (\<lambda>p. peek_token p (\<lambda>token.
       if tk_typ token = KEY_TOKEN then
         (let p1 = skip_token p in
          peek_token p1 (\<lambda>token1.
            if \<not> ends_entry (tk_typ token1) then
              parse_node (push_state PARSE_BLOCK_MAPPING_VALUE_STATE p1) True True
            else
              process_empty_scalar (set_state PARSE_BLOCK_MAPPING_VALUE_STATE p1) (tk_end token)))
       else if tk_typ token = BLOCK_END_TOKEN then leave_collection p MAPPING_END_EVENT token
       else collection_error p ''while parsing a block mapping'' ''did not find expected key'' token))"

definition parse_block_mapping_value :: "yparser \<Rightarrow> yevent parsed" where
  "parse_block_mapping_value p =
     peek_token p (\<lambda>token.
       if tk_typ token = VALUE_TOKEN then
         (let p1 = skip_token p in
          peek_token p1 (\<lambda>token1.
            if \<not> ends_entry (tk_typ token1) then
              parse_node (push_state PARSE_BLOCK_MAPPING_KEY_STATE p1) True True
            else
              process_empty_scalar (set_state PARSE_BLOCK_MAPPING_KEY_STATE p1) (tk_end token)))
       else process_empty_scalar (set_state PARSE_BLOCK_MAPPING_KEY_STATE p) (tk_start token))"

subsection \<open>Flow collections\<close>

text \<open>After the first entry a comma is due; what comes after it is handed on.\<close>

definition next_flow_entry ::
  "yparser \<Rightarrow> bool \<Rightarrow> token \<Rightarrow> string \<Rightarrow> string \<Rightarrow> (yparser \<Rightarrow> token \<Rightarrow> yevent parsed) \<Rightarrow> yevent parsed" where
  "next_flow_entry p first token ctx prob f =
     (if first then f p token
      else if tk_typ token = FLOW_ENTRY_TOKEN then
        (let p1 = skip_token p in peek_token p1 (\<lambda>token1. f p1 token1))
      else collection_error p ctx prob token)"

definition parse_flow_sequence_entry :: "yparser \<Rightarrow> bool \<Rightarrow> yevent parsed" where
  "parse_flow_sequence_entry p0 first =
     enter_collection p0 first (\<lambda>p. peek_token p (\<lambda>token.
       if tk_typ token = FLOW_SEQUENCE_END_TOKEN then leave_collection p SEQUENCE_END_EVENT token
       else next_flow_entry p first token ''while parsing a flow sequence''
              (''did not find expected ',' or ']'' @ [CHR 39]) (\<lambda>p1 token1.
         if tk_typ token1 = KEY_TOKEN then
           Parsed (event_at (MAPPING_START_EVENT None '''' True FLOW_MAPPING_STYLE)
               (tk_start token1) (tk_end token1))
             (skip_token (set_state PARSE_FLOW_SEQUENCE_ENTRY_MAPPING_KEY_STATE p1))
         else if tk_typ token1 \<noteq> FLOW_SEQUENCE_END_TOKEN then
           parse_node (push_state PARSE_FLOW_SEQUENCE_ENTRY_STATE p1) False False
         else leave_collection p1 SEQUENCE_END_EVENT token1)))"

definition parse_flow_sequence_entry_mapping_key :: "yparser \<Rightarrow> yevent parsed" where
  "parse_flow_sequence_entry_mapping_key p =
     peek_token p (\<lambda>token.
       if tk_typ token \<noteq> VALUE_TOKEN \<and> tk_typ token \<noteq> FLOW_ENTRY_TOKEN \<and>
          tk_typ token \<noteq> FLOW_SEQUENCE_END_TOKEN
       then parse_node (push_state PARSE_FLOW_SEQUENCE_ENTRY_MAPPING_VALUE_STATE p) False False
       else process_empty_scalar
              (set_state PARSE_FLOW_SEQUENCE_ENTRY_MAPPING_VALUE_STATE (skip_token p)) (tk_end token))"

text \<open>
  After a VALUE token without a node the mark of the empty scalar is that of the VALUE token: the
  inner \<open>token := peek_token(parser)\<close> declares a new variable.
\<close>

definition parse_flow_sequence_entry_mapping_value :: "yparser \<Rightarrow> yevent parsed" where
  "parse_flow_sequence_entry_mapping_value p =
     peek_token p (\<lambda>token.
       let no_node = (\<lambda>q. process_empty_scalar
             (set_state PARSE_FLOW_SEQUENCE_ENTRY_MAPPING_END_STATE q) (tk_start token))
       in if tk_typ token = VALUE_TOKEN then
            (let p1 = skip_token p in
             peek_token p1 (\<lambda>token1.
               if tk_typ token1 \<noteq> FLOW_ENTRY_TOKEN \<and> tk_typ token1 \<noteq> FLOW_SEQUENCE_END_TOKEN
               then parse_node (push_state PARSE_FLOW_SEQUENCE_ENTRY_MAPPING_END_STATE p1) False False
               else no_node p1))
          else no_node p)"

definition parse_flow_sequence_entry_mapping_end :: "yparser \<Rightarrow> yevent parsed" where
  "parse_flow_sequence_entry_mapping_end p =
     peek_token p (\<lambda>token.
       Parsed (event_at MAPPING_END_EVENT (tk_start token) (tk_start token))
         (set_state PARSE_FLOW_SEQUENCE_ENTRY_STATE p))"

definition parse_flow_mapping_key :: "yparser \<Rightarrow> bool \<Rightarrow> yevent parsed" where
  "parse_flow_mapping_key p0 first =
     enter_collection p0 first (\<lambda>p. peek_token p (\<lambda>token.
       if tk_typ token = FLOW_MAPPING_END_TOKEN then leave_collection p MAPPING_END_EVENT token
       else next_flow_entry p first token ''while parsing a flow mapping''
              (''did not find expected ',' or '}'' @ [CHR 39]) (\<lambda>p1 token1.
         if tk_typ token1 = KEY_TOKEN then
           (let p2 = skip_token p1 in
            peek_token p2 (\<lambda>token2.
              if tk_typ token2 \<noteq> VALUE_TOKEN \<and> tk_typ token2 \<noteq> FLOW_ENTRY_TOKEN \<and>
                 tk_typ token2 \<noteq> FLOW_MAPPING_END_TOKEN
              then parse_node (push_state PARSE_FLOW_MAPPING_VALUE_STATE p2) False False
              else process_empty_scalar (set_state PARSE_FLOW_MAPPING_VALUE_STATE p2) (tk_start token2)))
         else if tk_typ token1 \<noteq> FLOW_MAPPING_END_TOKEN then
           parse_node (push_state PARSE_FLOW_MAPPING_EMPTY_VALUE_STATE p1) False False
         else leave_collection p1 MAPPING_END_EVENT token1)))"

definition parse_flow_mapping_value :: "yparser \<Rightarrow> bool \<Rightarrow> yevent parsed" where
  "parse_flow_mapping_value p no_value =
     peek_token p (\<lambda>token.
       if no_value then process_empty_scalar (set_state PARSE_FLOW_MAPPING_KEY_STATE p) (tk_start token)
       else if tk_typ token = VALUE_TOKEN then
         (let p1 = skip_token p in
          peek_token p1 (\<lambda>token1.
            if tk_typ token1 \<noteq> FLOW_ENTRY_TOKEN \<and> tk_typ token1 \<noteq> FLOW_MAPPING_END_TOKEN
            then parse_node (push_state PARSE_FLOW_MAPPING_KEY_STATE p1) False False
            else process_empty_scalar (set_state PARSE_FLOW_MAPPING_KEY_STATE p1) (tk_start token1)))
       else process_empty_scalar (set_state PARSE_FLOW_MAPPING_KEY_STATE p) (tk_start token))"

subsection \<open>The state machine\<close>

definition state_machine :: "yparser \<Rightarrow> yevent parsed" where
  "state_machine p =
     (case yp_state p of
        PARSE_STREAM_START_STATE \<Rightarrow> parse_stream_start p
      | PARSE_IMPLICIT_DOCUMENT_START_STATE \<Rightarrow> parse_document_start p True
      | PARSE_DOCUMENT_START_STATE \<Rightarrow> parse_document_start p False
      | PARSE_DOCUMENT_CONTENT_STATE \<Rightarrow> parse_document_content p
      | PARSE_DOCUMENT_END_STATE \<Rightarrow> parse_document_end p
      | PARSE_BLOCK_NODE_STATE \<Rightarrow> parse_node p True False
      | PARSE_BLOCK_NODE_OR_INDENTLESS_SEQUENCE_STATE \<Rightarrow> parse_node p True True
      | PARSE_FLOW_NODE_STATE \<Rightarrow> parse_node p False False
      | PARSE_BLOCK_SEQUENCE_FIRST_ENTRY_STATE \<Rightarrow> parse_block_sequence_entry p True
      | PARSE_BLOCK_SEQUENCE_ENTRY_STATE \<Rightarrow> parse_block_sequence_entry p False
      | PARSE_INDENTLESS_SEQUENCE_ENTRY_STATE \<Rightarrow> parse_indentless_sequence_entry p
      | PARSE_BLOCK_MAPPING_FIRST_KEY_STATE \<Rightarrow> parse_block_mapping_key p True
      | PARSE_BLOCK_MAPPING_KEY_STATE \<Rightarrow> parse_block_mapping_key p False
      | PARSE_BLOCK_MAPPING_VALUE_STATE \<Rightarrow> parse_block_mapping_value p
      | PARSE_FLOW_SEQUENCE_FIRST_ENTRY_STATE \<Rightarrow> parse_flow_sequence_entry p True
      | PARSE_FLOW_SEQUENCE_ENTRY_STATE \<Rightarrow> parse_flow_sequence_entry p False
      | PARSE_FLOW_SEQUENCE_ENTRY_MAPPING_KEY_STATE \<Rightarrow> parse_flow_sequence_entry_mapping_key p
      | PARSE_FLOW_SEQUENCE_ENTRY_MAPPING_VALUE_STATE \<Rightarrow> parse_flow_sequence_entry_mapping_value p
      | PARSE_FLOW_SEQUENCE_ENTRY_MAPPING_END_STATE \<Rightarrow> parse_flow_sequence_entry_mapping_end p
      | PARSE_FLOW_MAPPING_FIRST_KEY_STATE \<Rightarrow> parse_flow_mapping_key p True
      | PARSE_FLOW_MAPPING_KEY_STATE \<Rightarrow> parse_flow_mapping_key p False
      | PARSE_FLOW_MAPPING_VALUE_STATE \<Rightarrow> parse_flow_mapping_value p False
      | PARSE_FLOW_MAPPING_EMPTY_VALUE_STATE \<Rightarrow> parse_flow_mapping_value p True
      | PARSE_END_STATE \<Rightarrow> Crashed ''invalid parser state'')"

text \<open>\<open>yaml_parser_parse\<close>: no event after the end of the stream.\<close>

definition parser_parse :: "yparser \<Rightarrow> yevent parsed" where
  "parser_parse p =
     (if yp_stream_end_produced p \<or> yp_state p = PARSE_END_STATE then Parsed no_event p
      else state_machine p)"

end
