(* ===== verification/YamlEvents.thy ===== *)
theory YamlEvents
  imports YamlParser
begin

text \<open>
  What the parser of \<open>yaml.v1\<close> promises its caller. The abstract specification is an automaton over
  events with a stack of expectations: it accepts the event sequences that spell complete documents,
  keys and values alternating. The parser's states are mapped to expectations, every call is a step of
  the automaton, no call traps, and every call uses up a potential, so the events come to an end.
\<close>

subsection \<open>The specification\<close>

datatype expect = XStream | XDocs | XDocEnd | XNode | XSeq | XKey

fun node_event :: "event_data \<Rightarrow> expect list \<Rightarrow> expect list option" where
  "node_event (ALIAS_EVENT _) xs = Some xs"
| "node_event (SCALAR_EVENT _ _ _ _ _ _) xs = Some xs"
| "node_event (SEQUENCE_START_EVENT _ _ _ _) xs = Some (XSeq # xs)"
| "node_event (MAPPING_START_EVENT _ _ _ _) xs = Some (XKey # xs)"
| "node_event _ xs = None"

fun accept :: "expect list \<Rightarrow> event_data \<Rightarrow> expect list option" where
  "accept (XStream # xs) (STREAM_START_EVENT _) = Some (XDocs # xs)"
| "accept (XDocs # xs) (DOCUMENT_START_EVENT _ _ _) = Some (XNode # XDocEnd # XDocs # xs)"
| "accept (XDocs # xs) STREAM_END_EVENT = Some xs"
| "accept (XDocEnd # xs) (DOCUMENT_END_EVENT _) = Some xs"
| "accept (XNode # xs) e = node_event e xs"
| "accept (XSeq # xs) SEQUENCE_END_EVENT = Some xs"
| "accept (XSeq # xs) e = node_event e (XSeq # xs)"
| "accept (XKey # xs) MAPPING_END_EVENT = Some xs"
| "accept (XKey # xs) e = node_event e (XNode # XKey # xs)"
| "accept _ _ = None"

subsection \<open>What the states stand for\<close>

text \<open>The expectations of a state, the marks it has on the stack, its share of the potential.\<close>

fun expects :: "parser_state \<Rightarrow> expect list" where
  "expects PARSE_STREAM_START_STATE = [XStream]"
| "expects PARSE_IMPLICIT_DOCUMENT_START_STATE = [XDocs]"
| "expects PARSE_DOCUMENT_START_STATE = [XDocs]"
| "expects PARSE_DOCUMENT_CONTENT_STATE = [XNode]"
| "expects PARSE_DOCUMENT_END_STATE = [XDocEnd, XDocs]"
| "expects PARSE_BLOCK_NODE_STATE = [XNode]"
| "expects PARSE_BLOCK_NODE_OR_INDENTLESS_SEQUENCE_STATE = [XNode]"
| "expects PARSE_FLOW_NODE_STATE = [XNode]"
| "expects PARSE_BLOCK_SEQUENCE_FIRST_ENTRY_STATE = [XSeq]"
| "expects PARSE_BLOCK_SEQUENCE_ENTRY_STATE = [XSeq]"
| "expects PARSE_INDENTLESS_SEQUENCE_ENTRY_STATE = [XSeq]"
| "expects PARSE_BLOCK_MAPPING_FIRST_KEY_STATE = [XKey]"
| "expects PARSE_BLOCK_MAPPING_KEY_STATE = [XKey]"
| "expects PARSE_BLOCK_MAPPING_VALUE_STATE = [XNode, XKey]"
| "expects PARSE_FLOW_SEQUENCE_FIRST_ENTRY_STATE = [XSeq]"
| "expects PARSE_FLOW_SEQUENCE_ENTRY_STATE = [XSeq]"
| "expects PARSE_FLOW_SEQUENCE_ENTRY_MAPPING_KEY_STATE = [XKey, XSeq]"
| "expects PARSE_FLOW_SEQUENCE_ENTRY_MAPPING_VALUE_STATE = [XNode, XKey, XSeq]"
| "expects PARSE_FLOW_SEQUENCE_ENTRY_MAPPING_END_STATE = [XKey, XSeq]"
| "expects PARSE_FLOW_MAPPING_FIRST_KEY_STATE = [XKey]"
| "expects PARSE_FLOW_MAPPING_KEY_STATE = [XKey]"
| "expects PARSE_FLOW_MAPPING_VALUE_STATE = [XNode, XKey]"
| "expects PARSE_FLOW_MAPPING_EMPTY_VALUE_STATE = [XNode, XKey]"
| "expects PARSE_END_STATE = []"

definition expectations :: "yparser \<Rightarrow> expect list" where
  "expectations p = expects (yp_state p) @ concat (map expects (yp_states p))"

fun marks_of :: "parser_state \<Rightarrow> nat" where
  "marks_of PARSE_BLOCK_SEQUENCE_ENTRY_STATE = 1"
| "marks_of PARSE_BLOCK_MAPPING_KEY_STATE = 1"
| "marks_of PARSE_BLOCK_MAPPING_VALUE_STATE = 1"
| "marks_of PARSE_FLOW_SEQUENCE_ENTRY_STATE = 1"
| "marks_of PARSE_FLOW_SEQUENCE_ENTRY_MAPPING_KEY_STATE = 1"
| "marks_of PARSE_FLOW_SEQUENCE_ENTRY_MAPPING_VALUE_STATE = 1"
| "marks_of PARSE_FLOW_SEQUENCE_ENTRY_MAPPING_END_STATE = 1"
| "marks_of PARSE_FLOW_MAPPING_KEY_STATE = 1"
| "marks_of PARSE_FLOW_MAPPING_VALUE_STATE = 1"
| "marks_of PARSE_FLOW_MAPPING_EMPTY_VALUE_STATE = 1"
| "marks_of _ = 0"

fun rank :: "parser_state \<Rightarrow> nat" where
  "rank PARSE_STREAM_START_STATE = 0"
| "rank PARSE_IMPLICIT_DOCUMENT_START_STATE = 4"
| "rank PARSE_DOCUMENT_START_STATE = 0"
| "rank PARSE_DOCUMENT_CONTENT_STATE = 2"
| "rank PARSE_BLOCK_NODE_STATE = 2"
| "rank PARSE_BLOCK_NODE_OR_INDENTLESS_SEQUENCE_STATE = 2"
| "rank PARSE_FLOW_NODE_STATE = 2"
| "rank PARSE_BLOCK_MAPPING_VALUE_STATE = 2"
| "rank PARSE_FLOW_SEQUENCE_ENTRY_MAPPING_KEY_STATE = 5"
| "rank PARSE_FLOW_SEQUENCE_ENTRY_MAPPING_VALUE_STATE = 3"
| "rank PARSE_FLOW_SEQUENCE_ENTRY_MAPPING_END_STATE = 2"
| "rank PARSE_FLOW_MAPPING_VALUE_STATE = 2"
| "rank PARSE_FLOW_MAPPING_EMPTY_VALUE_STATE = 2"
| "rank PARSE_END_STATE = 0"
| "rank _ = 1"

definition potential :: "yparser \<Rightarrow> nat" where
  "potential p = 5 * length (yp_tokens p) + rank (yp_state p) + sum_list (map rank (yp_states p))"

subsection \<open>The invariant\<close>

text \<open>The states that are pushed, the start token a first entry finds, and the shape of the stack.\<close>

definition inner_states :: "parser_state list" where
  "inner_states =
     [PARSE_BLOCK_SEQUENCE_ENTRY_STATE, PARSE_INDENTLESS_SEQUENCE_ENTRY_STATE,
      PARSE_BLOCK_MAPPING_KEY_STATE, PARSE_BLOCK_MAPPING_VALUE_STATE,
      PARSE_FLOW_SEQUENCE_ENTRY_STATE, PARSE_FLOW_SEQUENCE_ENTRY_MAPPING_VALUE_STATE,
      PARSE_FLOW_SEQUENCE_ENTRY_MAPPING_END_STATE, PARSE_FLOW_MAPPING_KEY_STATE,
      PARSE_FLOW_MAPPING_VALUE_STATE, PARSE_FLOW_MAPPING_EMPTY_VALUE_STATE]"

definition outer_states :: "parser_state list" where
  "outer_states =
     [PARSE_STREAM_START_STATE, PARSE_IMPLICIT_DOCUMENT_START_STATE, PARSE_DOCUMENT_START_STATE,
      PARSE_DOCUMENT_END_STATE, PARSE_END_STATE]"

fun first_token :: "parser_state \<Rightarrow> token_data option" where
  "first_token PARSE_BLOCK_SEQUENCE_FIRST_ENTRY_STATE = Some BLOCK_SEQUENCE_START_TOKEN"
| "first_token PARSE_BLOCK_MAPPING_FIRST_KEY_STATE = Some BLOCK_MAPPING_START_TOKEN"
| "first_token PARSE_FLOW_SEQUENCE_FIRST_ENTRY_STATE = Some FLOW_SEQUENCE_START_TOKEN"
| "first_token PARSE_FLOW_MAPPING_FIRST_KEY_STATE = Some FLOW_MAPPING_START_TOKEN"
| "first_token _ = None"

definition first_ok :: "yparser \<Rightarrow> bool" where
  "first_ok p \<longleftrightarrow> (case first_token (yp_state p) of
     None \<Rightarrow> True | Some d \<Rightarrow> (case yp_tokens p of [] \<Rightarrow> False | t # _ \<Rightarrow> tk_typ t = d))"

fun stack_ok :: "parser_state list \<Rightarrow> bool" where
  "stack_ok [] = False"
| "stack_ok [s] = (s = PARSE_DOCUMENT_END_STATE)"
| "stack_ok (s # ss) = (s \<in> set inner_states \<and> stack_ok ss)"

definition parser_inv :: "yparser \<Rightarrow> bool" where
  "parser_inv p \<longleftrightarrow>
     (if yp_state p \<in> set outer_states then yp_states p = [] else stack_ok (yp_states p)) \<and>
     length (yp_marks p) = sum_list (map marks_of (yp_state p # yp_states p)) \<and>
     first_ok p \<and> (yp_stream_end_produced p \<longrightarrow> yp_state p = PARSE_END_STATE)"

lemma parser_initialize_inv: "parser_inv (parser_initialize ts e)"
  by (simp add: parser_inv_def parser_initialize_def outer_states_def first_ok_def)

subsection \<open>Reasoning about calls\<close>

text \<open>A call is good for \<open>Q\<close> if it does not trap and what it returns satisfies \<open>Q\<close>.\<close>

fun good :: "('a \<Rightarrow> yparser \<Rightarrow> bool) \<Rightarrow> 'a parsed \<Rightarrow> bool" where
  "good Q (Parsed x p) = Q x p"
| "good Q (Failed e) = True"
| "good Q (Crashed s) = False"

named_theorems good_intros \<open>one rule per way a call goes on\<close>

lemma good_peek [good_intros]:
  "(\<And>t ts. yp_tokens p = t # ts \<Longrightarrow> good Q (f t)) \<Longrightarrow> good Q (peek_token p f)"
  by (simp add: peek_token_def split: list.split)

lemma good_error [good_intros]:
  "good Q (set_parser_error pr m)" "good Q (set_parser_error_context c cm pr m)"
  by (simp_all add: set_parser_error_def set_parser_error_context_def)

lemma good_pop_state:
  "yp_states p = s # ss \<Longrightarrow> good Q (f (p\<lparr>yp_state := s, yp_states := ss\<rparr>)) \<Longrightarrow> good Q (pop_state p f)"
  by (simp add: pop_state_def)

lemma good_pop_mark:
  "yp_marks p = m # ms \<Longrightarrow> good Q (f m (p\<lparr>yp_marks := ms\<rparr>)) \<Longrightarrow> good Q (pop_mark p f)"
  by (simp add: pop_mark_def)

lemma skip_token_simps [simp]:
  "yp_tokens (skip_token p) = tl (yp_tokens p)"
  "yp_state (skip_token p) = yp_state p" "yp_states (skip_token p) = yp_states p"
  "yp_marks (skip_token p) = yp_marks p" "yp_tag_directives (skip_token p) = yp_tag_directives p"
  "yp_stream_end_produced (skip_token p) = (tk_typ (hd (yp_tokens p)) = STREAM_END_TOKEN)"
  by (simp_all add: skip_token_def)

lemma set_state_simps [simp]:
  "yp_tokens (set_state s p) = yp_tokens p"
  "yp_state (set_state s p) = s" "yp_states (set_state s p) = yp_states p"
  "yp_marks (set_state s p) = yp_marks p" "yp_tag_directives (set_state s p) = yp_tag_directives p"
  "yp_stream_end_produced (set_state s p) = yp_stream_end_produced p"
  by (simp_all add: set_state_def)

lemma push_state_simps [simp]:
  "yp_tokens (push_state s p) = yp_tokens p"
  "yp_state (push_state s p) = yp_state p" "yp_states (push_state s p) = s # yp_states p"
  "yp_marks (push_state s p) = yp_marks p" "yp_tag_directives (push_state s p) = yp_tag_directives p"
  "yp_stream_end_produced (push_state s p) = yp_stream_end_produced p"
  by (simp_all add: push_state_def)

lemma push_mark_simps [simp]:
  "yp_tokens (push_mark m p) = yp_tokens p"
  "yp_state (push_mark m p) = yp_state p" "yp_states (push_mark m p) = yp_states p"
  "yp_marks (push_mark m p) = m # yp_marks p" "yp_tag_directives (push_mark m p) = yp_tag_directives p"
  "yp_stream_end_produced (push_mark m p) = yp_stream_end_produced p"
  by (simp_all add: push_mark_def)

lemma event_at_simps [simp]:
  "ev_typ (event_at e a b) = e" "ev_start (event_at e a b) = a" "ev_end (event_at e a b) = b"
  by (simp_all add: event_at_def)

subsection \<open>Nodes\<close>

text \<open>What a node leaves: a finished leaf and the state below, or a collection just opened.\<close>

fun opened :: "event_data \<Rightarrow> parser_state \<Rightarrow> bool" where
  "opened (SEQUENCE_START_EVENT _ _ _ _) st =
     (st \<in> {PARSE_BLOCK_SEQUENCE_FIRST_ENTRY_STATE, PARSE_INDENTLESS_SEQUENCE_ENTRY_STATE,
       PARSE_FLOW_SEQUENCE_FIRST_ENTRY_STATE})"
| "opened (MAPPING_START_EVENT _ _ _ _) st =
     (st \<in> {PARSE_BLOCK_MAPPING_FIRST_KEY_STATE, PARSE_FLOW_MAPPING_FIRST_KEY_STATE})"
| "opened _ st = False"

fun leaf_event :: "event_data \<Rightarrow> bool" where
  "leaf_event (ALIAS_EVENT _) = True"
| "leaf_event (SCALAR_EVENT _ _ _ _ _ _) = True"
| "leaf_event _ = False"

definition node_done :: "yparser \<Rightarrow> nat \<Rightarrow> event_data \<Rightarrow> yparser \<Rightarrow> bool" where
  "node_done p n e p' \<longleftrightarrow>
     yp_marks p' = yp_marks p \<and> \<not> yp_stream_end_produced p' \<and> length (yp_tokens p') \<le> n \<and>
     (leaf_event e \<and> yp_states p = yp_state p' # yp_states p' \<and> length (yp_tokens p') < n \<or>
      opened e (yp_state p') \<and> yp_states p' = yp_states p \<and> first_ok p')"

lemma node_content_good:
  assumes "yp_states p = s # ss" and "\<not> yp_stream_end_produced p"
    and "length (yp_tokens p) \<le> n" and "anchor \<noteq> None \<or> tag \<noteq> '''' \<Longrightarrow> length (yp_tokens p) < n"
  shows "good (\<lambda>e p'. node_done p n (ev_typ e) p') (node_content p block ind anchor tag sm em)"
  unfolding node_content_def
proof (rule good_peek, goal_cases)
  case (1 t ts)
  show ?case
    using assms 1
    by (cases "tk_typ t")
       (auto simp: node_done_def Let_def first_ok_def pop_state_def set_parser_error_context_def
         split: option.splits)
qed

lemma node_properties_good:
  assumes "\<not> yp_stream_end_produced p"
    and "\<And>a tt sm em p'. yp_states p' = yp_states p \<Longrightarrow> yp_marks p' = yp_marks p \<Longrightarrow>
      yp_tag_directives p' = yp_tag_directives p \<Longrightarrow> \<not> yp_stream_end_produced p' \<Longrightarrow>
      length (yp_tokens p') \<le> length (yp_tokens p) \<Longrightarrow>
      (a \<noteq> None \<or> tt \<noteq> None \<Longrightarrow> length (yp_tokens p') < length (yp_tokens p)) \<Longrightarrow>
      good Q (f a tt sm em p')"
  shows "good Q (node_properties p f)"
  unfolding node_properties_def
proof (rule good_peek, goal_cases)
  case (1 t ts)
  note t = this
  show ?case
  proof (cases "tk_typ t")
    case (ANCHOR_TOKEN a)
    then show ?thesis using t
      by (simp add: Let_def, intro good_peek)
         (auto simp: Let_def split: token_data.split intro!: good_peek assms(2))
  next
    case (TAG_TOKEN h s)
    then show ?thesis using t
      by (simp add: Let_def, intro good_peek)
         (auto simp: Let_def split: token_data.split intro!: good_peek assms(2))
  qed (use t assms(1) in \<open>auto intro!: assms(2)\<close>)
qed

lemma node_tag_good:
  "(\<And>tag. (tt = None \<Longrightarrow> tag = '''') \<Longrightarrow> good Q (f tag)) \<Longrightarrow> good Q (node_tag p tt sm f)"
  by (auto simp: node_tag_def Let_def set_parser_error_context_def split: option.splits)

lemma parse_node_good:
  assumes "yp_states p = s # ss" and "\<not> yp_stream_end_produced p"
  shows "good (\<lambda>e p'. node_done p (length (yp_tokens p)) (ev_typ e) p') (parse_node p block ind)"
  unfolding parse_node_def
proof (rule good_peek, goal_cases)
  case (1 t ts)
  have props: "good (\<lambda>e p'. node_done p (length (yp_tokens p)) (ev_typ e) p')
      (node_properties p (\<lambda>a tt sm em p1. node_tag p1 tt sm (\<lambda>tag. node_content p1 block ind a tag sm em)))"
  proof (rule node_properties_good [OF assms(2)], rule node_tag_good, goal_cases)
    case (1 a tt sm em p1 tag)
    have "good (\<lambda>e p'. node_done p1 (length (yp_tokens p)) (ev_typ e) p') (node_content p1 block ind a tag sm em)"
      by (rule node_content_good; cases "tt = None") (use 1 assms in auto)
    moreover have "node_done p1 n e p' = node_done p n e p'" for n e p'
      using 1 by (simp add: node_done_def)
    ultimately show ?case by simp
  qed
  show ?case
    using 1 assms props by (cases "tk_typ t") (auto simp: pop_state_def node_done_def)
qed

subsection \<open>Every call is a step\<close>

definition step_post :: "yparser \<Rightarrow> yevent \<Rightarrow> yparser \<Rightarrow> bool" where
  "step_post p e p' \<longleftrightarrow>
     accept (expectations p) (ev_typ e) = Some (expectations p') \<and> parser_inv p' \<and>
     potential p' < potential p"

lemmas state_defs = expectations_def parser_inv_def potential_def inner_states_def outer_states_def
  first_ok_def

lemma stack_ok_pop:
  "stack_ok (s # ss) \<Longrightarrow>
     first_token s = None \<and> (if s \<in> set outer_states then ss = [] else stack_ok ss)"
  by (cases ss) (auto simp: inner_states_def outer_states_def)

lemma stack_ok_push: "s \<in> set inner_states \<Longrightarrow> stack_ok ss \<Longrightarrow> stack_ok (s # ss)"
  by (cases ss) auto

lemma stack_ok_split: "stack_ok ss \<Longrightarrow> \<exists>s rest. ss = s # rest"
  by (cases ss) auto

lemma node_event_leaf: "leaf_event e \<Longrightarrow> node_event e xs = Some xs"
  by (cases e) auto

lemma node_event_opened:
  "opened e st \<Longrightarrow> node_event e xs = Some (expects st @ xs) \<and> marks_of st = 0 \<and> rank st = 1 \<and>
     st \<notin> set outer_states"
  by (cases e) (auto simp: outer_states_def)

text \<open>A node whose finished state \<open>s\<close> is on top of the stack.\<close>

lemma parse_node_step:
  assumes "yp_states q = s # ss" and "\<not> yp_stream_end_produced q" and "stack_ok (s # ss)"
    and "length (yp_marks q) = sum_list (map marks_of (s # ss))"
    and "\<And>e. node_event e [] \<noteq> None \<Longrightarrow>
      accept (expectations p) e = node_event e (concat (map expects (s # ss)))"
    and "5 * length (yp_tokens q) + 1 + rank s + sum_list (map rank ss) < potential p"
  shows "good (step_post p) (parse_node q block ind)"
proof -
  have "good (\<lambda>e p'. node_done q (length (yp_tokens q)) (ev_typ e) p') (parse_node q block ind)"
    using parse_node_good [OF assms(1,2)] .
  moreover have "step_post p e p'" if d: "node_done q (length (yp_tokens q)) (ev_typ e) p'" for e p'
  proof (cases "leaf_event (ev_typ e)")
    case True
    then have p': "yp_state p' = s" "yp_states p' = ss" "length (yp_tokens p') < length (yp_tokens q)"
        "yp_marks p' = yp_marks q" "\<not> yp_stream_end_produced p'"
      using d assms(1) by (auto simp: node_done_def elim: opened.elims)
    have "accept (expectations p) (ev_typ e) = Some (expectations p')"
      using assms(5) [of "ev_typ e"] True p' by (simp add: node_event_leaf expectations_def)
    moreover have "parser_inv p'"
      using stack_ok_pop [OF assms(3)] assms(4) p' by (simp add: parser_inv_def first_ok_def)
    moreover have "potential p' < potential p" using p' assms(6) by (simp add: potential_def)
    ultimately show ?thesis by (simp add: step_post_def)
  next
    case False
    then have p': "opened (ev_typ e) (yp_state p')" "yp_states p' = s # ss" "first_ok p'"
        "length (yp_tokens p') \<le> length (yp_tokens q)" "yp_marks p' = yp_marks q"
        "\<not> yp_stream_end_produced p'"
      using d assms(1) by (auto simp: node_done_def)
    note o = node_event_opened [OF p'(1)]
    have "accept (expectations p) (ev_typ e) = Some (expectations p')"
      using assms(5) [of "ev_typ e"] o p'(2) by (simp add: expectations_def)
    moreover have "parser_inv p'" using o p' assms(3,4) by (simp add: parser_inv_def)
    moreover have "potential p' < potential p" using o p'(2,4) assms(6) by (simp add: potential_def)
    ultimately show ?thesis by (simp add: step_post_def)
  qed
  ultimately show ?thesis by (cases "parse_node q block ind") auto
qed

lemma node_event_SomeD:
  "node_event e [] \<noteq> None \<Longrightarrow> accept (XNode # xs) e = node_event e xs \<and>
     accept (XSeq # xs) e = node_event e (XSeq # xs) \<and>
     accept (XKey # xs) e = node_event e (XNode # XKey # xs)"
  by (cases e) auto

lemma empty_scalar_good:
  "Q (event_at (SCALAR_EVENT None '''' '''' True False PLAIN_SCALAR_STYLE) m m) p \<Longrightarrow>
     good Q (process_empty_scalar p m)"
  by (simp add: process_empty_scalar_def)

lemma stream_start_step:
  assumes "parser_inv p" and "yp_state p = PARSE_STREAM_START_STATE"
  shows "good (step_post p) (parse_stream_start p)"
  unfolding parse_stream_start_def
proof (rule good_peek, goal_cases)
  case (1 t ts)
  then show ?case
    using assms by (cases "tk_typ t") (auto simp: set_parser_error_def step_post_def state_defs)
qed

lemma append_defaults_good:
  "good (\<lambda>_ p'. p' = p\<lparr>yp_tag_directives := yp_tag_directives p'\<rparr>) (append_default_directives ds p m)"
proof (induction ds arbitrary: p)
  case (Cons d ds)
  have "good (\<lambda>_ p'. p' = p\<lparr>yp_tag_directives := yp_tag_directives p'\<rparr>)
      (append_default_directives ds (p\<lparr>yp_tag_directives := tds\<rparr>) m)" for tds
    using Cons [of "p\<lparr>yp_tag_directives := tds\<rparr>"] by simp
  then show ?case
    using Cons [of p] by (simp add: append_tag_directive_def set_parser_error_def)
qed simp

text \<open>Directives leave the stacks alone and take only directive tokens.\<close>

definition only_tokens :: "yparser \<Rightarrow> yparser \<Rightarrow> bool" where
  "only_tokens p p' \<longleftrightarrow>
     yp_state p' = yp_state p \<and> yp_states p' = yp_states p \<and> yp_marks p' = yp_marks p \<and>
     \<not> yp_stream_end_produced p' \<and> length (yp_tokens p') \<le> length (yp_tokens p)"

lemma directives_loop_good:
  "ts = yp_tokens p \<Longrightarrow> \<not> yp_stream_end_produced p \<Longrightarrow>
     good (\<lambda>_ p'. only_tokens p p') (directives_loop ts p vd tds)"
proof (induction ts arbitrary: p vd tds)
  case (Cons t ts)
  have rec: "good (\<lambda>_ p'. only_tokens p p') (directives_loop ts (skip_token q) vd' tds')"
    if "yp_tokens q = yp_tokens p" "yp_state q = yp_state p" "yp_states q = yp_states p"
      "yp_marks q = yp_marks p" "tk_typ t \<noteq> STREAM_END_TOKEN" for q vd' tds'
  proof -
    have "good (\<lambda>_ p'. only_tokens (skip_token q) p') (directives_loop ts (skip_token q) vd' tds')"
      by (rule Cons.IH) (use Cons.prems that in \<open>auto simp flip: Cons.prems(1)\<close>)
    moreover have "only_tokens (skip_token q) p' \<Longrightarrow> only_tokens p p'" for p'
      using that by (simp add: only_tokens_def, arith)
    ultimately show ?thesis by (cases "directives_loop ts (skip_token q) vd' tds'") auto
  qed
  have last: "good (\<lambda>_ p'. only_tokens p p')
      (case append_default_directives default_tag_directives p (tk_start t) of
         Parsed _ p' \<Rightarrow> Parsed (vd, tds) p' | Failed e \<Rightarrow> Failed e | Crashed s \<Rightarrow> Crashed s)"
  proof (cases "append_default_directives default_tag_directives p (tk_start t)")
    case (Parsed u p')
    have "p' = p\<lparr>yp_tag_directives := yp_tag_directives p'\<rparr>"
      using append_defaults_good [of p default_tag_directives "tk_start t"] Parsed by simp
    then have "only_tokens p p'"
      using Cons.prems by (metis (no_types, lifting) only_tokens_def order_refl yparser.select_convs yparser.update_convs(7) yparser.surjective)
    then show ?thesis using Parsed by simp
  qed (use append_defaults_good [of p default_tag_directives "tk_start t"] in auto)
  show ?case
    using last
    by (cases "tk_typ t")
       (auto simp: set_parser_error_def append_tag_directive_def Let_def intro!: rec)
qed simp

lemma process_directives_good:
  "\<not> yp_stream_end_produced p \<Longrightarrow> good (\<lambda>_ p'. only_tokens p p') (process_directives p)"
  unfolding process_directives_def by (rule directives_loop_good) simp_all

lemma skip_document_ends_only:
  "ts = yp_tokens p \<Longrightarrow> \<not> yp_stream_end_produced p \<Longrightarrow> only_tokens p (skip_document_ends ts p)"
proof (induction ts arbitrary: p)
  case (Cons t ts)
  have "only_tokens (skip_token p) (skip_document_ends ts (skip_token p))"
    if "tk_typ t = DOCUMENT_END_TOKEN"
    by (rule Cons.IH) (use that Cons.prems in \<open>auto simp flip: Cons.prems(1)\<close>)
  moreover have "yp_tokens p = t # ts" using Cons.prems(1) by simp
  ultimately show ?case using Cons.prems(2) unfolding only_tokens_def by auto
qed (simp add: only_tokens_def)

lemma document_start_step:
  assumes "parser_inv p"
    and "yp_state p = (if implicit then PARSE_IMPLICIT_DOCUMENT_START_STATE else PARSE_DOCUMENT_START_STATE)"
  shows "good (step_post p) (parse_document_start p implicit)"
proof -
  define q where "q = (if implicit then p else skip_document_ends (yp_tokens p) p)"
  have e: "\<not> yp_stream_end_produced p" "yp_states p = []" "yp_marks p = []"
    using assms by (auto simp: state_defs split: if_splits)
  then have q: "only_tokens p q"
    using skip_document_ends_only [of "yp_tokens p" p] by (simp add: q_def only_tokens_def)
  then have d: "good (\<lambda>_ p'. only_tokens q p') (process_directives q)"
    by (intro process_directives_good) (simp add: only_tokens_def)
  show ?thesis
    unfolding parse_document_start_def q_def [symmetric] Let_def
  proof (rule good_peek, goal_cases)
    case (1 t ts)
    show ?case
    proof (cases "process_directives q")
      case (Parsed r p1)
      then have p1: "only_tokens q p1" using d by simp
      then show ?thesis
        using Parsed q e assms(2) 1
        by (auto simp: only_tokens_def step_post_def state_defs set_parser_error_def split: prod.split
            intro!: good_peek)
    qed (use d e q assms(2) 1 in \<open>auto simp: only_tokens_def step_post_def state_defs\<close>)
  qed
qed

lemma document_content_step:
  assumes "parser_inv p" and "yp_state p = PARSE_DOCUMENT_CONTENT_STATE"
  shows "good (step_post p) (parse_document_content p)"
  unfolding parse_document_content_def
proof (rule good_peek, goal_cases)
  case (1 t ts)
  obtain s ss where s: "yp_states p = s # ss" "stack_ok (s # ss)"
    using assms stack_ok_split [of "yp_states p"] by (auto simp: parser_inv_def outer_states_def)
  have node: "good (step_post p) (parse_node p True False)"
    by (rule parse_node_step [OF s(1)])
       (use assms s node_event_SomeD in \<open>auto simp: parser_inv_def expectations_def potential_def\<close>)
  show ?case
    using node s assms stack_ok_pop [OF s(2)]
    by (auto simp: pop_state_def process_empty_scalar_def step_post_def parser_inv_def
        expectations_def potential_def first_ok_def)
qed

lemma document_end_step:
  assumes "parser_inv p" and "yp_state p = PARSE_DOCUMENT_END_STATE"
  shows "good (step_post p) (parse_document_end p)"
  unfolding parse_document_end_def
proof (rule good_peek, goal_cases)
  case (1 t ts)
  then show ?case using assms by (auto simp: step_post_def state_defs Let_def)
qed

lemma node_state_step:
  assumes "parser_inv p"
    and "yp_state p \<in> {PARSE_BLOCK_NODE_STATE, PARSE_BLOCK_NODE_OR_INDENTLESS_SEQUENCE_STATE,
      PARSE_FLOW_NODE_STATE}"
  shows "good (step_post p) (parse_node p block ind)"
proof -
  obtain s ss where s: "yp_states p = s # ss" "stack_ok (s # ss)"
    using assms stack_ok_split [of "yp_states p"] by (auto simp: parser_inv_def outer_states_def)
  show ?thesis
    by (rule parse_node_step [OF s(1)])
       (use assms s node_event_SomeD in \<open>auto simp: parser_inv_def expectations_def potential_def\<close>)
qed

subsection \<open>Collections\<close>

text \<open>
  Inside a collection, after its start token: the mark of the start is on top of the marks of the
  stack below.
\<close>

definition inside :: "yparser \<Rightarrow> yparser \<Rightarrow> bool" where
  "inside p q \<longleftrightarrow>
     stack_ok (yp_states p) \<and> yp_states q = yp_states p \<and> \<not> yp_stream_end_produced q \<and>
     length (yp_marks q) = Suc (sum_list (map marks_of (yp_states p)))"

lemma enter_collection_good:
  assumes "parser_inv p" and "yp_state p = (if first then a else b)"
    and "first_token a = Some d" and "d \<noteq> STREAM_END_TOKEN" and "marks_of a = 0" and "marks_of b = 1"
    and "a \<notin> set outer_states" and "b \<notin> set outer_states"
    and "\<And>q. inside p q \<Longrightarrow> length (yp_tokens q) + (if first then 1 else 0) = length (yp_tokens p) \<Longrightarrow>
      good Q (f q)"
  shows "good Q (enter_collection p first f)"
proof -
  have e: "\<not> yp_stream_end_produced p" "stack_ok (yp_states p)"
    using assms by (auto simp: parser_inv_def outer_states_def split: if_splits)
  show ?thesis
  proof (cases first)
    case True
    then obtain t ts where t: "yp_tokens p = t # ts" "tk_typ t = d"
      using assms(1-3) by (auto simp: parser_inv_def first_ok_def split: list.splits)
    have "good Q (f (skip_token (push_mark (tk_start t) p)))"
      by (rule assms(9)) (use True assms e t in \<open>auto simp: inside_def parser_inv_def\<close>)
    then show ?thesis using True t by (simp add: enter_collection_def the_token_def)
  next
    case False
    have "good Q (f p)"
      by (rule assms(9)) (use False assms e in \<open>auto simp: inside_def parser_inv_def\<close>)
    then show ?thesis using False by (simp add: enter_collection_def)
  qed
qed

lemma inside_skip:
  "inside p q \<Longrightarrow> tk_typ (hd (yp_tokens q)) \<noteq> STREAM_END_TOKEN \<Longrightarrow> inside p (skip_token q)"
  by (simp add: inside_def)

lemma leave_collection_step:
  assumes "inside p q" and "yp_tokens q = t # ts" and "tk_typ t \<noteq> STREAM_END_TOKEN"
    and "accept (expectations p) e = Some (concat (map expects (yp_states p)))"
    and "length ts < length (yp_tokens p)"
  shows "good (step_post p) (leave_collection q e t)"
proof -
  obtain s ss where s: "yp_states p = s # ss" "stack_ok (s # ss)"
    using assms(1) stack_ok_split [of "yp_states p"] by (auto simp: inside_def)
  moreover obtain m ms where "yp_marks q = m # ms"
    using assms(1) by (cases "yp_marks q") (auto simp: inside_def)
  ultimately show ?thesis
    using assms stack_ok_pop [OF s(2)]
    by (auto simp: leave_collection_def pop_state_def pop_mark_def inside_def step_post_def
        parser_inv_def first_ok_def expectations_def potential_def)
qed

lemma collection_error_good: "inside p q \<Longrightarrow> good Q (collection_error q ctx prob t)"
  by (cases "yp_marks q")
     (auto simp: collection_error_def pop_mark_def inside_def set_parser_error_context_def)

text \<open>A node of a collection, with the state to come back to pushed.\<close>

lemma entry_node_step:
  assumes "inside p q" and "s \<in> set inner_states" and "marks_of s = 1"
    and "\<And>e. node_event e [] \<noteq> None \<Longrightarrow>
      accept (expectations p) e = node_event e (expects s @ concat (map expects (yp_states p)))"
    and "5 * length (yp_tokens q) + 1 + rank s < 5 * length (yp_tokens p) + rank (yp_state p)"
  shows "good (step_post p) (parse_node (push_state s q) block ind)"
  by (rule parse_node_step [where s = s and ss = "yp_states p"])
     (use assms in \<open>auto simp: inside_def potential_def intro: stack_ok_push\<close>)

text \<open>An empty scalar in place of a node, with the state to go on in set.\<close>

lemma entry_empty_step:
  assumes "inside p q" and "s \<in> set inner_states" and "marks_of s = 1"
    and "\<And>e. node_event e [] \<noteq> None \<Longrightarrow>
      accept (expectations p) e = node_event e (expects s @ concat (map expects (yp_states p)))"
    and "5 * length (yp_tokens q) + rank s < 5 * length (yp_tokens p) + rank (yp_state p)"
  shows "good (step_post p) (process_empty_scalar (set_state s q) m)"
proof -
  have "s \<notin> set outer_states" "first_token s = None"
    using assms(2) by (auto simp: inner_states_def outer_states_def)
  then show ?thesis
    using assms
    by (auto simp: process_empty_scalar_def step_post_def inside_def parser_inv_def first_ok_def
        expectations_def potential_def)
qed

lemma accept_node:
  "node_event e [] \<noteq> None \<Longrightarrow> accept (XNode # xs) e = node_event e xs"
  "node_event e [] \<noteq> None \<Longrightarrow> accept (XSeq # xs) e = node_event e (XSeq # xs)"
  "node_event e [] \<noteq> None \<Longrightarrow> accept (XKey # xs) e = node_event e (XNode # XKey # xs)"
  using node_event_SomeD by blast+

lemmas entry_simps = accept_node expectations_def inner_states_def outer_states_def

lemma block_sequence_entry_step:
  assumes "parser_inv p"
    and "yp_state p = (if first then PARSE_BLOCK_SEQUENCE_FIRST_ENTRY_STATE else PARSE_BLOCK_SEQUENCE_ENTRY_STATE)"
  shows "good (step_post p) (parse_block_sequence_entry p first)"
  unfolding parse_block_sequence_entry_def
proof (rule enter_collection_good [OF assms], goal_cases)
  case (7 q)
  note q = this
  show ?case
  proof (rule good_peek, goal_cases)
    case (1 t ts)
    then show ?case
      using q assms(2)
      by (auto simp: Let_def entry_simps split: if_splits
          intro!: good_peek entry_node_step entry_empty_step leave_collection_step collection_error_good
            inside_skip)
  qed
qed (auto simp: outer_states_def)

lemma block_mapping_key_step:
  assumes "parser_inv p"
    and "yp_state p = (if first then PARSE_BLOCK_MAPPING_FIRST_KEY_STATE else PARSE_BLOCK_MAPPING_KEY_STATE)"
  shows "good (step_post p) (parse_block_mapping_key p first)"
  unfolding parse_block_mapping_key_def
proof (rule enter_collection_good [OF assms], goal_cases)
  case (7 q)
  note q = this
  show ?case
  proof (rule good_peek, goal_cases)
    case (1 t ts)
    then show ?case
      using q assms(2)
      by (auto simp: Let_def entry_simps split: if_splits
          intro!: good_peek entry_node_step entry_empty_step leave_collection_step collection_error_good
            inside_skip)
  qed
qed (auto simp: outer_states_def)

lemma inside_self:
  assumes "parser_inv p" and "marks_of (yp_state p) = 1"
  shows "inside p p"
proof -
  have "yp_state p \<notin> set outer_states" using assms(2) by (auto simp: outer_states_def)
  then show ?thesis using assms by (auto simp: inside_def parser_inv_def outer_states_def)
qed

lemma indentless_sequence_entry_step:
  assumes "parser_inv p" and "yp_state p = PARSE_INDENTLESS_SEQUENCE_ENTRY_STATE"
  shows "good (step_post p) (parse_indentless_sequence_entry p)"
  unfolding parse_indentless_sequence_entry_def
proof (rule good_peek, goal_cases)
  case (1 t ts)
  have e: "\<not> yp_stream_end_produced p" "stack_ok (yp_states p)" "first_ok p"
      "length (yp_marks p) = sum_list (map marks_of (yp_states p))"
    using assms by (auto simp: parser_inv_def outer_states_def)
  then obtain s ss where s: "yp_states p = s # ss" "stack_ok (s # ss)" using stack_ok_split by metis
  have node: "good (step_post p)
      (parse_node (push_state PARSE_INDENTLESS_SEQUENCE_ENTRY_STATE (skip_token p)) True False)"
    if "tk_typ t \<noteq> STREAM_END_TOKEN"
    by (rule parse_node_step [where s = PARSE_INDENTLESS_SEQUENCE_ENTRY_STATE and ss = "yp_states p"])
       (use that 1 e assms s in \<open>auto simp: entry_simps potential_def intro: stack_ok_push\<close>)
  show ?case
    using node 1 e s assms stack_ok_pop [OF s(2)]
    by (auto simp: Let_def pop_state_def process_empty_scalar_def step_post_def parser_inv_def first_ok_def
        expectations_def potential_def outer_states_def intro!: good_peek)
qed

lemma block_mapping_value_step:
  assumes "parser_inv p" and "yp_state p = PARSE_BLOCK_MAPPING_VALUE_STATE"
  shows "good (step_post p) (parse_block_mapping_value p)"
  unfolding parse_block_mapping_value_def
proof (rule good_peek, goal_cases)
  case (1 t ts)
  then show ?case
    using inside_self [OF assms(1)] assms(2)
    by (auto simp: Let_def entry_simps intro!: good_peek entry_node_step entry_empty_step inside_skip)
qed

lemma flow_mapping_value_step:
  assumes "parser_inv p"
    and "yp_state p = (if no_value then PARSE_FLOW_MAPPING_EMPTY_VALUE_STATE else PARSE_FLOW_MAPPING_VALUE_STATE)"
  shows "good (step_post p) (parse_flow_mapping_value p no_value)"
  unfolding parse_flow_mapping_value_def
proof (rule good_peek, goal_cases)
  case (1 t ts)
  then show ?case
    using inside_self [OF assms(1)] assms(2)
    by (auto simp: Let_def entry_simps split: if_splits
        intro!: good_peek entry_node_step entry_empty_step inside_skip)
qed

lemma next_flow_entry_good:
  assumes "inside p q" and "yp_tokens q = t # ts"
    and "first \<Longrightarrow> good Q (f q t)"
    and "\<And>u us. \<not> first \<Longrightarrow> ts = u # us \<Longrightarrow> inside p (skip_token q) \<Longrightarrow> good Q (f (skip_token q) u)"
  shows "good Q (next_flow_entry q first t ctx prob f)"
  using assms inside_skip [OF assms(1)]
  by (auto simp: next_flow_entry_def Let_def intro!: good_peek collection_error_good)

lemma flow_mapping_key_step:
  assumes "parser_inv p"
    and "yp_state p = (if first then PARSE_FLOW_MAPPING_FIRST_KEY_STATE else PARSE_FLOW_MAPPING_KEY_STATE)"
  shows "good (step_post p) (parse_flow_mapping_key p first)"
  unfolding parse_flow_mapping_key_def
proof (rule enter_collection_good [OF assms], goal_cases)
  case (7 q)
  note q = this
  have entry: "good (step_post p)
      (if tk_typ u = KEY_TOKEN then
         (let p2 = skip_token q' in
          peek_token p2 (\<lambda>token2.
            if tk_typ token2 \<noteq> VALUE_TOKEN \<and> tk_typ token2 \<noteq> FLOW_ENTRY_TOKEN \<and>
               tk_typ token2 \<noteq> FLOW_MAPPING_END_TOKEN
            then parse_node (push_state PARSE_FLOW_MAPPING_VALUE_STATE p2) False False
            else process_empty_scalar (set_state PARSE_FLOW_MAPPING_VALUE_STATE p2) (tk_start token2)))
       else if tk_typ u \<noteq> FLOW_MAPPING_END_TOKEN then
         parse_node (push_state PARSE_FLOW_MAPPING_EMPTY_VALUE_STATE q') False False
       else leave_collection q' MAPPING_END_EVENT u)"
    if "inside p q'" "yp_tokens q' = u # us" "length (yp_tokens q') < length (yp_tokens p)" for q' u us
    using that assms(2)
    by (auto simp: Let_def entry_simps split: if_splits
        intro!: good_peek entry_node_step entry_empty_step leave_collection_step inside_skip)
  show ?case
  proof (rule good_peek, goal_cases)
    case (1 t ts)
    have "good (step_post p) (leave_collection q MAPPING_END_EVENT t)"
      if "tk_typ t = FLOW_MAPPING_END_TOKEN"
      using that 1 q assms(2)
      by (auto simp: entry_simps split: if_splits intro!: leave_collection_step)
    then show ?case
      using 1 q by (auto intro!: next_flow_entry_good [of p] entry)
  qed
qed (auto simp: outer_states_def)

lemma flow_sequence_entry_step:
  assumes "parser_inv p"
    and "yp_state p = (if first then PARSE_FLOW_SEQUENCE_FIRST_ENTRY_STATE else PARSE_FLOW_SEQUENCE_ENTRY_STATE)"
  shows "good (step_post p) (parse_flow_sequence_entry p first)"
  unfolding parse_flow_sequence_entry_def
proof (rule enter_collection_good [OF assms], goal_cases)
  case (7 q)
  note q = this
  have pair: "step_post p (event_at (MAPPING_START_EVENT None '''' True FLOW_MAPPING_STYLE) a b)
      (skip_token (set_state PARSE_FLOW_SEQUENCE_ENTRY_MAPPING_KEY_STATE q'))"
    if "inside p q'" "yp_tokens q' = u # us" "length (yp_tokens q') < length (yp_tokens p) \<or> \<not> first"
      "length (yp_tokens q') \<le> length (yp_tokens p)" "tk_typ u = KEY_TOKEN" for q' u us a b
    using that assms(2)
    by (auto simp: step_post_def inside_def parser_inv_def first_ok_def expectations_def potential_def
        outer_states_def split: if_splits)
  have entry: "good (step_post p)
      (if tk_typ u = KEY_TOKEN then
         Parsed (event_at (MAPPING_START_EVENT None '''' True FLOW_MAPPING_STYLE) (tk_start u) (tk_end u))
           (skip_token (set_state PARSE_FLOW_SEQUENCE_ENTRY_MAPPING_KEY_STATE q'))
       else if tk_typ u \<noteq> FLOW_SEQUENCE_END_TOKEN then
         parse_node (push_state PARSE_FLOW_SEQUENCE_ENTRY_STATE q') False False
       else leave_collection q' SEQUENCE_END_EVENT u)"
    if "inside p q'" "yp_tokens q' = u # us" "length (yp_tokens q') < length (yp_tokens p)" for q' u us
    using that assms(2) pair [OF that(1,2)]
    by (auto simp: entry_simps split: if_splits intro!: entry_node_step leave_collection_step)
  show ?case
  proof (rule good_peek, goal_cases)
    case (1 t ts)
    have "good (step_post p) (leave_collection q SEQUENCE_END_EVENT t)"
      if "tk_typ t = FLOW_SEQUENCE_END_TOKEN"
      using that 1 q assms(2)
      by (auto simp: entry_simps split: if_splits intro!: leave_collection_step)
    then show ?case
      using 1 q by (auto intro!: next_flow_entry_good [of p] entry)
  qed
qed (auto simp: outer_states_def)

lemma flow_pair_step:
  assumes "parser_inv p"
  shows "yp_state p = PARSE_FLOW_SEQUENCE_ENTRY_MAPPING_KEY_STATE \<Longrightarrow>
      good (step_post p) (parse_flow_sequence_entry_mapping_key p)" (is "?A \<Longrightarrow> _")
    and "yp_state p = PARSE_FLOW_SEQUENCE_ENTRY_MAPPING_VALUE_STATE \<Longrightarrow>
      good (step_post p) (parse_flow_sequence_entry_mapping_value p)" (is "?B \<Longrightarrow> _")
    and "yp_state p = PARSE_FLOW_SEQUENCE_ENTRY_MAPPING_END_STATE \<Longrightarrow>
      good (step_post p) (parse_flow_sequence_entry_mapping_end p)" (is "?C \<Longrightarrow> _")
proof -
  assume ?A
  then show "good (step_post p) (parse_flow_sequence_entry_mapping_key p)"
    using inside_self [OF assms]
    by (auto simp: parse_flow_sequence_entry_mapping_key_def entry_simps
        intro!: good_peek entry_node_step entry_empty_step inside_skip)
next
  assume ?B
  then show "good (step_post p) (parse_flow_sequence_entry_mapping_value p)"
    using inside_self [OF assms]
    by (auto simp: parse_flow_sequence_entry_mapping_value_def Let_def entry_simps
        intro!: good_peek entry_node_step entry_empty_step inside_skip)
next
  assume ?C
  then show "good (step_post p) (parse_flow_sequence_entry_mapping_end p)"
    using assms
    by (auto simp: parse_flow_sequence_entry_mapping_end_def step_post_def parser_inv_def first_ok_def
        expectations_def potential_def outer_states_def intro!: good_peek)
qed

subsection \<open>Properties\<close>

lemma state_machine_step:
  assumes "parser_inv p" and "yp_state p \<noteq> PARSE_END_STATE"
  shows "good (step_post p) (state_machine p)"
  using assms stream_start_step [of p] document_start_step [of p True] document_start_step [of p False]
    document_content_step [of p] document_end_step [of p] node_state_step [of p]
    block_sequence_entry_step [of p True] block_sequence_entry_step [of p False]
    indentless_sequence_entry_step [of p] block_mapping_key_step [of p True]
    block_mapping_key_step [of p False] block_mapping_value_step [of p]
    flow_sequence_entry_step [of p True] flow_sequence_entry_step [of p False] flow_pair_step [of p]
    flow_mapping_key_step [of p True] flow_mapping_key_step [of p False]
    flow_mapping_value_step [of p True] flow_mapping_value_step [of p False]
  by (cases "yp_state p") (simp_all add: state_machine_def)

text \<open>
  The parser never traps and its events are grammatical. From a consistent parser, a call before
  the end of the stream returns an event or an error; it never indexes an empty stack or uses a token
  that is not there. The event is one the specification accepts at this point, so documents are
  complete, collections are closed in order, and keys and values alternate; the parser stays
  consistent, and it has less left to do.
\<close>
theorem yaml_parser_step:
  assumes "parser_inv p" and "yp_state p \<noteq> PARSE_END_STATE"
  shows "(\<exists>err. parser_parse p = Failed err) \<or>
    (\<exists>e p'. parser_parse p = Parsed e p' \<and>
       accept (expectations p) (ev_typ e) = Some (expectations p') \<and> parser_inv p' \<and>
       potential p' < potential p)"
proof -
  have "parser_parse p = state_machine p" using assms by (auto simp: parser_parse_def parser_inv_def)
  then show ?thesis
    using state_machine_step [OF assms] by (cases "state_machine p") (auto simp: step_post_def)
qed

definition sample_problem :: problem where
  "sample_problem =
     \<lparr>pb_context = '''', pb_context_mark = zero_mark, pb_problem = '''', pb_problem_mark = zero_mark\<rparr>"

theorem yaml_parser_step_witness:
  "\<exists>e p'. parser_parse (parser_initialize [\<lparr>tk_typ = STREAM_START_TOKEN UTF8_ENCODING, tk_start = zero_mark,
       tk_end = zero_mark\<rparr>] sample_problem) = Parsed e p' \<and> parser_inv p'"
  using yaml_parser_step [OF parser_initialize_inv [of "[\<lparr>tk_typ = STREAM_START_TOKEN UTF8_ENCODING, tk_start = zero_mark,
       tk_end = zero_mark\<rparr>]" sample_problem]]
  by (auto simp: parser_initialize_def parser_parse_def state_machine_def parse_stream_start_def peek_token_def)

text \<open>The parser run until it fails or ends, and the automaton on a list of events.\<close>

fun run_parser :: "nat \<Rightarrow> yparser \<Rightarrow> (yevent list \<times> problem option) option" where
  "run_parser 0 p = None"
| "run_parser (Suc n) p =
     (if yp_state p = PARSE_END_STATE then Some ([], None)
      else case parser_parse p of
          Parsed e p' \<Rightarrow> map_option (\<lambda>(es, err). (e # es, err)) (run_parser n p')
        | Failed err \<Rightarrow> Some ([], Some err)
        | Crashed s \<Rightarrow> None)"

fun accepts :: "expect list \<Rightarrow> yevent list \<Rightarrow> expect list option" where
  "accepts xs [] = Some xs"
| "accepts xs (e # es) = (case accept xs (ev_typ e) of None \<Rightarrow> None | Some ys \<Rightarrow> accepts ys es)"

lemma parser_step_good:
  assumes "parser_inv p" and "yp_state p \<noteq> PARSE_END_STATE"
  shows "good (step_post p) (parser_parse p)"
  using state_machine_step [OF assms] assms by (auto simp: parser_parse_def parser_inv_def)

lemma expectations_end: "parser_inv p \<Longrightarrow> expectations p = [] \<Longrightarrow> yp_state p = PARSE_END_STATE"
  by (cases "yp_state p") (auto simp: expectations_def)

lemma run_parser_total:
  "parser_inv p \<Longrightarrow> potential p < n \<Longrightarrow>
     \<exists>es err xs. run_parser n p = Some (es, err) \<and> length es \<le> potential p \<and>
       accepts (expectations p) es = Some xs \<and> (err = None \<longrightarrow> xs = [])"
proof (induction n arbitrary: p)
  case (Suc n)
  show ?case
  proof (cases "yp_state p = PARSE_END_STATE")
    case True
    then show ?thesis using Suc.prems by (simp add: expectations_def parser_inv_def outer_states_def)
  next
    case False
    show ?thesis
    proof (cases "parser_parse p")
      case (Parsed e p')
      then have s: "step_post p e p'" using parser_step_good [OF Suc.prems(1) False] by simp
      then obtain es err xs where "run_parser n p' = Some (es, err)" "length es \<le> potential p'"
          "accepts (expectations p') es = Some xs" "err = None \<longrightarrow> xs = []"
        using Suc.IH [of p'] Suc.prems(2) by (auto simp: step_post_def)
      then show ?thesis using False Parsed s by (auto simp: step_post_def)
    qed (use False parser_step_good [OF Suc.prems(1) False] in auto)
  qed
qed simp

text \<open>
  Parsing ends. For every list of tokens and whatever the scanner reports after it, the parser
  reaches the end of the stream or an error after at most five events per token; the events up to
  there are a prefix of a grammatical stream, and a complete one when there is no error.
\<close>
theorem yaml_parser_ends:
  "\<exists>es err xs. run_parser (Suc (5 * length ts)) (parser_initialize ts scan_error) = Some (es, err) \<and>
     length es \<le> 5 * length ts \<and> accepts [XStream] es = Some xs \<and> (xs = [] \<or> (\<exists>e. err = Some e))"
proof -
  have "potential (parser_initialize ts scan_error) = 5 * length ts"
    "expectations (parser_initialize ts scan_error) = [XStream]"
    by (simp_all add: potential_def expectations_def parser_initialize_def)
  then show ?thesis
    using run_parser_total [OF parser_initialize_inv, of ts scan_error "Suc (5 * length ts)"] by auto
qed

end
