(* ===== verification/YamlTree.thy ===== *)
theory YamlTree
  imports YamlEvents Config
begin

text \<open>
  The two ends of \<open>decode.go\<close> of \<open>gopkg.in/yaml.v1\<close> around its node tree: the \<open>parser\<close> type, which
  builds the tree of the first document out of the event stream, pulling one event at a time, and the
  way the decoder follows aliases through the table of anchors. Together with the parser they are
  what \<open>yaml.Unmarshal\<close> does with the scanner's tokens before it stores anything.
\<close>

subsection \<open>Nodes and the builder\<close>

text \<open>The \<open>node\<close> structure, by its kind; \<open>DNil\<close> is the nil pointer \<open>parse\<close> returns at the stream end.\<close>

datatype dnode =
    DScalar string string bool
  | DAlias string
  | DSequence "dnode list"
  | DMapping "(dnode \<times> dnode) list"
  | DDocument dnode "(string \<times> dnode) list"
  | DNil

text \<open>The anchors, the latest first: \<open>anchors[string(anchor)] = n\<close> overwrites.\<close>

type_synonym anchors = "(string \<times> dnode) list"

record builder =
  bl_parser :: yparser
  bl_event :: yevent

text \<open>\<open>BFail\<close> is a \<open>yamlError\<close>, which \<open>handleErr\<close> turns into an error; \<open>BCrash\<close> any other panic.\<close>

datatype 'a built = Built 'a builder | BFail gerror | BCrash string | BFuel

fun bind_built :: "'a built \<Rightarrow> ('a \<Rightarrow> builder \<Rightarrow> 'b built) \<Rightarrow> 'b built" where
  "bind_built (Built x b) f = f x b"
| "bind_built (BFail e) f = BFail e"
| "bind_built (BCrash s) f = BCrash s"
| "bind_built BFuel f = BFuel"

definition yaml_fail :: "gerror \<Rightarrow> gerror" where
  "yaml_fail msg = ''YAML error: '' @ msg"

definition parser_fail :: "problem \<Rightarrow> gerror" where
  "parser_fail pb =
     (let line = (if mk_line (pb_problem_mark pb) \<noteq> 0 then mk_line (pb_problem_mark pb)
                  else mk_line (pb_context_mark pb));
          at_line = (if line \<noteq> 0 then ''line '' @ itoa line @ '': '' else '''');
          msg = (if pb_problem pb \<noteq> '''' then pb_problem pb
                 else ''Unknown problem parsing YAML content'')
      in yaml_fail (at_line @ msg))"

definition builder_skip :: "builder \<Rightarrow> unit built" where
  "builder_skip b =
     (if ev_typ (bl_event b) = STREAM_END_EVENT then
        BFail (yaml_fail ''Attempted to go past the end of stream. Corrupted value?'')
      else case parser_parse (bl_parser b) of
          Parsed e p \<Rightarrow> Built () \<lparr>bl_parser = p, bl_event = e\<rparr>
        | Failed pb \<Rightarrow> BFail (parser_fail pb)
        | Crashed s \<Rightarrow> BCrash s)"

text \<open>The number of an event type, as \<open>strconv.Itoa(int(p.event.typ))\<close> shows it.\<close>

fun event_number :: "event_data \<Rightarrow> nat" where
  "event_number NO_EVENT = 0"
| "event_number (STREAM_START_EVENT _) = 1"
| "event_number STREAM_END_EVENT = 2"
| "event_number (DOCUMENT_START_EVENT _ _ _) = 3"
| "event_number (DOCUMENT_END_EVENT _) = 4"
| "event_number (ALIAS_EVENT _) = 5"
| "event_number (SCALAR_EVENT _ _ _ _ _ _) = 6"
| "event_number (SEQUENCE_START_EVENT _ _ _ _) = 7"
| "event_number SEQUENCE_END_EVENT = 8"
| "event_number (MAPPING_START_EVENT _ _ _ _) = 9"
| "event_number MAPPING_END_EVENT = 10"

definition anchored :: "string option \<Rightarrow> dnode \<Rightarrow> anchors" where
  "anchored a n = (case a of None \<Rightarrow> [] | Some s \<Rightarrow> [(s, n)])"

text \<open>
  \<open>newParser\<close>: an empty text is scanned as a line break; the first event must be the stream start.
\<close>

definition newParser :: "(bytes \<Rightarrow> token list \<times> problem) \<Rightarrow> bytes \<Rightarrow> unit built" where
  "newParser scan data =
     (case scan (if data = [] then [10] else data) of
        (ts, scan_error) \<Rightarrow>
          bind_built (builder_skip \<lparr>bl_parser = parser_initialize ts scan_error, bl_event = no_event\<rparr>)
            (\<lambda>_ b. case ev_typ (bl_event b) of
               STREAM_START_EVENT _ \<Rightarrow> builder_skip b
             | e \<Rightarrow> BCrash (''Expected stream start event, got '' @ itoa (event_number e))))"

text \<open>
  \<open>parse\<close> and its helpers. Every call of \<open>parse\<close> registers a node's anchor before it goes into the
  children, so the anchors of the children come later: they are in front of the node's own.
\<close>

fun build_node :: "nat \<Rightarrow> builder \<Rightarrow> (dnode \<times> anchors) built"
  and build_sequence :: "nat \<Rightarrow> builder \<Rightarrow> (dnode list \<times> anchors) built"
  and build_mapping :: "nat \<Rightarrow> builder \<Rightarrow> ((dnode \<times> dnode) list \<times> anchors) built"
where
  "build_node 0 b = BFuel"
| "build_node (Suc n) b =
     (case ev_typ (bl_event b) of
        SCALAR_EVENT anchor tag val implicit _ _ \<Rightarrow>
          (let nd = DScalar tag val implicit in
           bind_built (builder_skip b) (\<lambda>_ b1. Built (nd, anchored anchor nd) b1))
      | ALIAS_EVENT a \<Rightarrow> bind_built (builder_skip b) (\<lambda>_ b1. Built (DAlias a, []) b1)
      | SEQUENCE_START_EVENT anchor _ _ _ \<Rightarrow>
          bind_built (builder_skip b) (\<lambda>_ b1.
          bind_built (build_sequence n b1) (\<lambda>(ns, anc) b2.
          bind_built (builder_skip b2) (\<lambda>_ b3.
            Built (DSequence ns, anc @ anchored anchor (DSequence ns)) b3)))
      | MAPPING_START_EVENT anchor _ _ _ \<Rightarrow>
          bind_built (builder_skip b) (\<lambda>_ b1.
          bind_built (build_mapping n b1) (\<lambda>(kvs, anc) b2.
          bind_built (builder_skip b2) (\<lambda>_ b3.
            Built (DMapping kvs, anc @ anchored anchor (DMapping kvs)) b3)))
      | DOCUMENT_START_EVENT _ _ _ \<Rightarrow>
          bind_built (builder_skip b) (\<lambda>_ b1.
          bind_built (build_node n b1) (\<lambda>(child, anc) b2.
            (case ev_typ (bl_event b2) of
               DOCUMENT_END_EVENT _ \<Rightarrow>
                 bind_built (builder_skip b2) (\<lambda>_ b3. Built (DDocument child anc, []) b3)
             | e \<Rightarrow> BCrash (''Expected end of document event but got '' @ itoa (event_number e)))))
      | STREAM_END_EVENT \<Rightarrow> Built (DNil, []) b
      | e \<Rightarrow> BCrash (''Attempted to parse unknown event: '' @ itoa (event_number e)))"
| "build_sequence 0 b = BFuel"
| "build_sequence (Suc n) b =
     (if ev_typ (bl_event b) = SEQUENCE_END_EVENT then Built ([], []) b
      else bind_built (build_node n b) (\<lambda>(nd, anc) b1.
           bind_built (build_sequence n b1) (\<lambda>(ns, anc') b2. Built (nd # ns, anc' @ anc) b2)))"
| "build_mapping 0 b = BFuel"
| "build_mapping (Suc n) b =
     (if ev_typ (bl_event b) = MAPPING_END_EVENT then Built ([], []) b
      else bind_built (build_node n b) (\<lambda>(k, anc1) b1.
           bind_built (build_node n b1) (\<lambda>(v, anc2) b2.
           bind_built (build_mapping n b2) (\<lambda>(kvs, anc') b3.
             Built ((k, v) # kvs, anc' @ anc2 @ anc1) b3))))"

subsection \<open>Following aliases\<close>

lemma size_in_pairs:
  "(a, b) \<in> set kvs \<Longrightarrow> size a < Suc (size_list (size_prod size size) kvs)"
  "(a, b) \<in> set kvs \<Longrightarrow> size b < Suc (size_list (size_prod size size) kvs)"
  by (induction kvs) auto

lemma size_in_list: "x \<in> set ns \<Longrightarrow> size x < Suc (size_list size ns)"
  by (induction ns) auto

lemma unused_anchors_less:
  assumes "map_of anc a = Some n" and "a \<notin> set used"
  shows "card (fst ` set anc - insert a (set used)) < card (fst ` set anc - set used)"
proof (rule psubset_card_mono)
  have "a \<in> fst ` set anc" using map_of_SomeD [OF assms(1)] by force
  then show "fst ` set anc - insert a (set used) \<subset> fst ` set anc - set used" using assms(2) by blast
qed simp

text \<open>
  \<open>decoder.alias\<close>: an alias stands for the node its anchor names in the finished table, decoded in
  place; an alias met again while its own value is being decoded is an error. \<open>used\<close> are the aliases
  under way. What may be merged is what \<open>merge\<close> checks of the anchor.
\<close>

definition may_merge :: "anchors \<Rightarrow> string \<Rightarrow> bool" where
  "may_merge anc a =
     (case map_of anc a of None \<Rightarrow> True | Some (DMapping _) \<Rightarrow> True | Some _ \<Rightarrow> False)"

function (sequential) follow :: "anchors \<Rightarrow> string list \<Rightarrow> dnode \<Rightarrow> ynode" where
  "follow anc used (DScalar tag val implicit) = YScalar tag val implicit"
| "follow anc used (DSequence ns) = YSequence (map (follow anc used) ns)"
| "follow anc used (DMapping kvs) =
     YMapping (map (\<lambda>(k, v). (follow anc used k, follow anc used v)) kvs)"
| "follow anc used (DAlias a) =
     YAlias (may_merge anc a)
       (case map_of anc a of
          None \<Rightarrow> YBad (yaml_fail (''Unknown anchor '' @ [CHR 39] @ a @ [CHR 39] @ '' referenced''))
        | Some n \<Rightarrow>
            if a \<in> set used then
              YBad (yaml_fail (''Anchor '' @ [CHR 39] @ a @ [CHR 39] @ '' value contains itself''))
            else follow anc (a # used) n)"
| "follow anc used (DDocument n anc') = YBad ''''"
| "follow anc used DNil = YBad ''''"
  by pat_completeness auto

termination
  by (relation "measures [\<lambda>(anc, used, n). card (fst ` set anc - set used), \<lambda>(anc, used, n). size n]")
    (auto simp: size_in_list size_in_pairs unused_anchors_less)

text \<open>
  \<open>yaml.Unmarshal\<close> up to the storing: the tree of the first document, none for an empty stream. The
  decoder takes the document apart once; below it there is no document and no nil.
\<close>

definition yaml_tree :: "nat \<Rightarrow> (bytes \<Rightarrow> token list \<times> problem) \<Rightarrow> bytes \<Rightarrow> dnode built" where
  "yaml_tree fuel scan data =
     bind_built (newParser scan data) (\<lambda>_ b.
     bind_built (build_node fuel b) (\<lambda>(n, _) b1. Built n b1))"

text \<open>Fuel for every token the scanner delivers; that it is enough is shown below.\<close>

definition yaml_parse ::
  "(bytes \<Rightarrow> token list \<times> problem) \<Rightarrow> bytes \<Rightarrow> (gerror + ynode option) outcome" where
  "yaml_parse scan data =
     (let fuel = 10 * length (fst (scan (if data = [] then [10] else data))) + 1
      in case yaml_tree fuel scan data of
           Built (DDocument n anc) _ \<Rightarrow> Returns (Inr (Some (follow anc [] n)))
         | Built DNil _ \<Rightarrow> Returns (Inr None)
         | Built _ _ \<Rightarrow> Panics ''no document''
         | BFail e \<Rightarrow> Returns (Inl e)
         | BCrash s \<Rightarrow> Panics s
         | BFuel \<Rightarrow> Panics ''out of fuel'')"

subsection \<open>The builder never traps and ends\<close>

fun goodb :: "('a \<Rightarrow> builder \<Rightarrow> bool) \<Rightarrow> 'a built \<Rightarrow> bool" where
  "goodb Q (Built x b) = Q x b"
| "goodb Q (BFail e) = True"
| "goodb Q (BCrash s) = False"
| "goodb Q BFuel = False"

lemma goodb_bind:
  "goodb P r \<Longrightarrow> (\<And>x b. P x b \<Longrightarrow> goodb Q (f x b)) \<Longrightarrow> goodb Q (bind_built r f)"
  by (cases r) auto

text \<open>
  The builder has an event in its hand that a parser expecting \<open>xs\<close> has just returned, or, in
  \<open>at_event\<close>, a given one.
\<close>

definition builder_inv :: "expect list \<Rightarrow> builder \<Rightarrow> bool" where
  "builder_inv xs b \<longleftrightarrow>
     parser_inv (bl_parser b) \<and>
     accept xs (ev_typ (bl_event b)) = Some (expectations (bl_parser b))"

definition left_over :: "builder \<Rightarrow> nat" where
  "left_over b = potential (bl_parser b)"

lemma skip_good:
  assumes "parser_inv (bl_parser b)" and "expectations (bl_parser b) = x # xs"
    and "ev_typ (bl_event b) \<noteq> STREAM_END_EVENT"
  shows "goodb (\<lambda>_ b'. builder_inv (x # xs) b' \<and> left_over b' < left_over b) (builder_skip b)"
proof -
  have "yp_state (bl_parser b) \<noteq> PARSE_END_STATE"
    using assms(1,2) by (auto simp: expectations_def parser_inv_def outer_states_def)
  then have "good (step_post (bl_parser b)) (parser_parse (bl_parser b))"
    by (rule parser_step_good [OF assms(1)])
  then show ?thesis
    using assms(2,3)
    by (cases "parser_parse (bl_parser b)")
       (auto simp: builder_skip_def step_post_def builder_inv_def left_over_def)
qed

lemma accept_seq: "accept (XSeq # xs) e = Some ys \<Longrightarrow>
    (e = SEQUENCE_END_EVENT \<and> ys = xs) \<or> (e \<noteq> SEQUENCE_END_EVENT \<and> node_event e (XSeq # xs) = Some ys)"
  by (cases e) auto

lemma accept_key: "accept (XKey # xs) e = Some ys \<Longrightarrow>
    (e = MAPPING_END_EVENT \<and> ys = xs) \<or>
    (e \<noteq> MAPPING_END_EVENT \<and> node_event e (XNode # XKey # xs) = Some ys)"
  by (cases e) auto

lemma accept_doc_end: "accept (XDocEnd # xs) e = Some ys \<Longrightarrow> ys = xs \<and> (\<exists>i. e = DOCUMENT_END_EVENT i)"
  by (cases e) auto

definition built_node :: "expect list \<Rightarrow> builder \<Rightarrow> 'a \<Rightarrow> builder \<Rightarrow> bool" where
  "built_node xs b r b' \<longleftrightarrow> builder_inv xs b' \<and> left_over b' < left_over b"

definition built_list :: "event_data \<Rightarrow> expect list \<Rightarrow> builder \<Rightarrow> 'a \<Rightarrow> builder \<Rightarrow> bool" where
  "built_list e xs b r b' \<longleftrightarrow>
     parser_inv (bl_parser b') \<and> ev_typ (bl_event b') = e \<and> expectations (bl_parser b') = xs \<and>
     left_over b' \<le> left_over b"

lemma skip_node:
  assumes "builder_inv (XNode # x # xs) b" and "node_event (ev_typ (bl_event b)) (x # xs) = Some (y # ys)"
  shows "goodb (\<lambda>_ b'. builder_inv (y # ys) b' \<and> left_over b' < left_over b) (builder_skip b)"
  by (rule skip_good) (use assms in \<open>auto simp: builder_inv_def\<close>)

lemma build_good:
  "builder_inv (XNode # x # xs) b \<Longrightarrow> 2 * left_over b < n \<Longrightarrow>
     goodb (built_node (x # xs) b) (build_node n b)"
  "builder_inv (XSeq # x # xs) b \<Longrightarrow> 2 * left_over b + 1 < n \<Longrightarrow>
     goodb (built_list SEQUENCE_END_EVENT (x # xs) b) (build_sequence n b)"
  "builder_inv (XKey # x # xs) b \<Longrightarrow> 2 * left_over b + 1 < n \<Longrightarrow>
     goodb (built_list MAPPING_END_EVENT (x # xs) b) (build_mapping n b)"
proof (induction n arbitrary: x xs b)
  case (Suc n)
  {
    case 1
    note inv = 1(1) and fuel = 1(2)
    have close: "goodb (built_node (x # xs) b) (bind_built (builder_skip b2) (\<lambda>_ b3. Built (r b3) b3))"
      if "built_list e (x # xs) b1 a b2" "left_over b1 < left_over b" "e \<noteq> STREAM_END_EVENT" for e b1 a b2 r
      by (rule goodb_bind [OF skip_good]) (use that in \<open>auto simp: built_list_def built_node_def\<close>)
    show ?case
    proof (cases "ev_typ (bl_event b)")
      case (SEQUENCE_START_EVENT an tag imp st)
      have "goodb (\<lambda>_ b'. builder_inv (XSeq # x # xs) b' \<and> left_over b' < left_over b) (builder_skip b)"
        by (rule skip_node [OF inv]) (simp add: SEQUENCE_START_EVENT)
      then show ?thesis
        unfolding build_node.simps SEQUENCE_START_EVENT event_data.case
      proof (rule goodb_bind, goal_cases)
        case (1 u b1)
        then have "goodb (built_list SEQUENCE_END_EVENT (x # xs) b1) (build_sequence n b1)"
          using Suc.IH(2) fuel by auto
        then show ?case by (rule goodb_bind) (use 1 in \<open>auto intro!: close\<close>)
      qed
    next
      case (MAPPING_START_EVENT an tag imp st)
      have "goodb (\<lambda>_ b'. builder_inv (XKey # x # xs) b' \<and> left_over b' < left_over b) (builder_skip b)"
        by (rule skip_node [OF inv]) (simp add: MAPPING_START_EVENT)
      then show ?thesis
        unfolding build_node.simps MAPPING_START_EVENT event_data.case
      proof (rule goodb_bind, goal_cases)
        case (1 u b1)
        then have "goodb (built_list MAPPING_END_EVENT (x # xs) b1) (build_mapping n b1)"
          using Suc.IH(3) fuel by auto
        then show ?case by (rule goodb_bind) (use 1 in \<open>auto intro!: close\<close>)
      qed
    qed (use inv skip_node [OF inv, of x xs] in
        \<open>auto simp: builder_inv_def built_node_def Let_def intro!: goodb_bind\<close>)
  next
    case 2
    show ?case
    proof (cases "ev_typ (bl_event b) = SEQUENCE_END_EVENT")
      case True
      then show ?thesis using 2 by (auto simp: builder_inv_def built_list_def)
    next
      case False
      then have "builder_inv (XNode # XSeq # x # xs) b"
        using 2(1) accept_seq by (fastforce simp: builder_inv_def)
      then have "goodb (built_node (XSeq # x # xs) b) (build_node n b)"
        using Suc.IH(1) 2(2) by simp
      then show ?thesis
        unfolding build_sequence.simps if_not_P [OF False]
      proof (rule goodb_bind, goal_cases)
        case (1 r b1)
        then have "goodb (built_list SEQUENCE_END_EVENT (x # xs) b1) (build_sequence n b1)"
          using Suc.IH(2) 2(2) by (simp add: built_node_def)
        then show ?case
          using 1 by (cases r) (auto intro!: goodb_bind simp: built_list_def built_node_def)
      qed
    qed
  next
    case 3
    show ?case
    proof (cases "ev_typ (bl_event b) = MAPPING_END_EVENT")
      case True
      then show ?thesis using 3 by (auto simp: builder_inv_def built_list_def)
    next
      case False
      then have "builder_inv (XNode # XNode # XKey # x # xs) b"
        using 3(1) accept_key by (fastforce simp: builder_inv_def)
      then have "goodb (built_node (XNode # XKey # x # xs) b) (build_node n b)"
        using Suc.IH(1) 3(2) by simp
      then show ?thesis
        unfolding build_mapping.simps if_not_P [OF False]
      proof (rule goodb_bind, goal_cases)
        case (1 r b1)
        obtain k anc where r: "r = (k, anc)" by (cases r)
        from 1 have b1: "builder_inv (XNode # XKey # x # xs) b1" "left_over b1 < left_over b"
          by (simp_all add: built_node_def)
        then have "goodb (built_node (XKey # x # xs) b1) (build_node n b1)"
          using Suc.IH(1) 3(2) by simp
        then show ?case
          unfolding r prod.case
        proof (rule goodb_bind, goal_cases)
          case (1 r2 b2)
          then have b2: "builder_inv (XKey # x # xs) b2" "left_over b2 < left_over b"
            using b1(2) by (simp_all add: built_node_def)
          then have "goodb (built_list MAPPING_END_EVENT (x # xs) b2) (build_mapping n b2)"
            using Suc.IH(3) 3(2) by simp
          then show ?case
            using b2 by (cases r2) (auto intro!: goodb_bind simp: built_list_def)
        qed
      qed
    qed
  }
qed simp_all

lemma newParser_good:
  assumes "scan (if data = [] then [10] else data) = (ts, scan_error)"
  shows "goodb (\<lambda>_ b. builder_inv [XDocs] b \<and> left_over b < 5 * length ts) (newParser scan data)"
proof -
  let ?b = "\<lparr>bl_parser = parser_initialize ts scan_error, bl_event = no_event\<rparr>"
  have i: "expectations (parser_initialize ts scan_error) = [XStream]"
    "potential (parser_initialize ts scan_error) = 5 * length ts"
    by (simp_all add: expectations_def potential_def parser_initialize_def)
  have "goodb (\<lambda>_ b. builder_inv [XStream] b \<and> left_over b < left_over ?b) (builder_skip ?b)"
    by (rule skip_good) (simp_all add: parser_initialize_inv i no_event_def)
  then have "goodb (\<lambda>_ b. builder_inv [XDocs] b \<and> left_over b < 5 * length ts)
      (bind_built (builder_skip ?b) (\<lambda>_ b. case ev_typ (bl_event b) of
         STREAM_START_EVENT _ \<Rightarrow> builder_skip b
       | e \<Rightarrow> BCrash (''Expected stream start event, got '' @ itoa (event_number e))))"
  proof (rule goodb_bind, goal_cases)
    case (1 u b)
    then obtain enc where e: "ev_typ (bl_event b) = STREAM_START_EVENT enc"
        "expectations (bl_parser b) = [XDocs]"
      by (cases "ev_typ (bl_event b)") (auto simp: builder_inv_def)
    have "goodb (\<lambda>_ b'. builder_inv [XDocs] b' \<and> left_over b' < left_over b) (builder_skip b)"
      by (rule skip_good) (use 1 e in \<open>auto simp: builder_inv_def\<close>)
    then show ?case using e 1 i by (cases "builder_skip b") (auto simp: left_over_def)
  qed
  then show ?thesis using assms by (simp add: newParser_def)
qed

definition a_document :: "dnode \<times> anchors \<Rightarrow> bool" where
  "a_document r \<longleftrightarrow> (case fst r of DDocument _ _ \<Rightarrow> True | DNil \<Rightarrow> True | _ \<Rightarrow> False)"

lemma build_document_good:
  assumes "builder_inv [XDocs] b" and "2 * left_over b < n"
  shows "goodb (\<lambda>r _. a_document r) (build_node n b)"
proof -
  obtain m where n: "n = Suc m" using assms(2) by (cases n) auto
  show ?thesis
  proof (cases "ev_typ (bl_event b)")
    case (DOCUMENT_START_EVENT vd tds imp)
    have "goodb (\<lambda>_ b'. builder_inv [XNode, XDocEnd, XDocs] b' \<and> left_over b' < left_over b) (builder_skip b)"
      by (rule skip_good) (use assms DOCUMENT_START_EVENT in \<open>auto simp: builder_inv_def\<close>)
    then show ?thesis
      unfolding n build_node.simps DOCUMENT_START_EVENT event_data.case
    proof (rule goodb_bind, goal_cases)
      case (1 u b1)
      then have "goodb (built_node [XDocEnd, XDocs] b1) (build_node m b1)"
        using build_good(1) assms(2) n by auto
      then show ?case
      proof (rule goodb_bind, goal_cases)
        case (1 r b2)
        obtain child anc where r: "r = (child, anc)" by (cases r)
        obtain i where e: "ev_typ (bl_event b2) = DOCUMENT_END_EVENT i"
            "expectations (bl_parser b2) = [XDocs]" "parser_inv (bl_parser b2)"
          using 1 accept_doc_end by (fastforce simp: built_node_def builder_inv_def)
        have "goodb (\<lambda>r _. a_document r)
            (bind_built (builder_skip b2) (\<lambda>_ b3. Built (DDocument child anc, []) b3))"
          by (rule goodb_bind [OF skip_good [OF e(3,2)]]) (simp_all add: e(1) a_document_def)
        then show ?case using r e(1) by simp
      qed
    qed
  next
    case STREAM_END_EVENT
    then show ?thesis by (simp add: n a_document_def)
  qed (use assms in \<open>simp_all add: builder_inv_def\<close>)
qed

text \<open>
  C39: The front end always answers. Whatever tokens the scanner delivers and however it ends, reading
  the first document and following its aliases returns a tree, nothing for an empty stream, or an
  error; the panics of the builder (an unknown event, a missing end of document, a stream that does
  not start) are never reached, aliases that contain themselves included, and the fuel of ten calls
  per token is enough.
\<close>
theorem yaml_parse_total: "\<exists>r. yaml_parse scan data = Returns r"
proof -
  obtain ts err where s: "scan (if data = [] then [10] else data) = (ts, err)" by fastforce
  let ?n = "10 * length ts + 1"
  have "goodb (\<lambda>r _. case r of DDocument _ _ \<Rightarrow> True | DNil \<Rightarrow> True | _ \<Rightarrow> False) (yaml_tree ?n scan data)"
    unfolding yaml_tree_def
  proof (rule goodb_bind [OF newParser_good [of scan data, OF s]], goal_cases)
    case (1 u b)
    show ?case
      by (rule goodb_bind [OF build_document_good]) (use 1 in \<open>auto simp: a_document_def\<close>)
  qed
  then show ?thesis
    using s by (cases "yaml_tree ?n scan data") (auto simp: yaml_parse_def Let_def split: dnode.splits)
qed

end
