(* ===== verification/YamlRoundtrip.thy ===== *)
theory YamlRoundtrip
  imports YamlTree
begin

text \<open>
  That the parser and the builder read what a document says: a reference writer gives the tokens of a
  document, in block or flow style, with anchors, tags and aliases, and reading them back yields the
  tree of that document. The writer follows the grammar in the head comment of \<open>parserc.go\<close>; it
  leaves out what the grammar makes optional (missing nodes and indentless sequences).
\<close>

subsection \<open>Documents and their tokens\<close>

datatype ytree =
    TScalar "string option" string string scalar_style
  | TAlias string
  | TSeq "string option" string bool "ytree list"
  | TMap "string option" string bool "(ytree \<times> ytree) list"

text \<open>The arguments: an anchor, a tag, and, for a collection, whether it is written in flow style.\<close>

definition props :: "string option \<Rightarrow> string \<Rightarrow> token_data list" where
  "props a tag =
     (case a of None \<Rightarrow> [] | Some s \<Rightarrow> [ANCHOR_TOKEN s]) @
     (if tag = '''' then [] else [TAG_TOKEN '''' tag])"

function (sequential) toks :: "ytree \<Rightarrow> token_data list" where
  "toks (TScalar a tag v st) = props a tag @ [SCALAR_TOKEN v st]"
| "toks (TAlias a) = [ALIAS_TOKEN a]"
| "toks (TSeq a tag flow ts) =
     props a tag @
     (if flow then
        FLOW_SEQUENCE_START_TOKEN # tl (concat (map (\<lambda>t. FLOW_ENTRY_TOKEN # toks t) ts)) @
        [FLOW_SEQUENCE_END_TOKEN]
      else
        BLOCK_SEQUENCE_START_TOKEN # concat (map (\<lambda>t. BLOCK_ENTRY_TOKEN # toks t) ts) @
        [BLOCK_END_TOKEN])"
| "toks (TMap a tag flow kvs) =
     props a tag @
     (if flow then
        FLOW_MAPPING_START_TOKEN #
        tl (concat (map (\<lambda>(k, v). FLOW_ENTRY_TOKEN # KEY_TOKEN # toks k @ VALUE_TOKEN # toks v) kvs)) @
        [FLOW_MAPPING_END_TOKEN]
      else
        BLOCK_MAPPING_START_TOKEN # concat (map (\<lambda>(k, v). KEY_TOKEN # toks k @ VALUE_TOKEN # toks v) kvs) @
        [BLOCK_END_TOKEN])"
  by pat_completeness auto
termination by (relation "measure size") (auto simp: size_in_list size_in_pairs)

text \<open>Every item of a flow collection has its comma in front, which the first one loses.\<close>

abbreviation block_items :: "ytree list \<Rightarrow> token_data list" where
  "block_items ts \<equiv> concat (map (\<lambda>t. BLOCK_ENTRY_TOKEN # toks t) ts)"

abbreviation flow_items :: "ytree list \<Rightarrow> token_data list" where
  "flow_items ts \<equiv> concat (map (\<lambda>t. FLOW_ENTRY_TOKEN # toks t) ts)"

abbreviation block_pairs :: "(ytree \<times> ytree) list \<Rightarrow> token_data list" where
  "block_pairs kvs \<equiv> concat (map (\<lambda>(k, v). KEY_TOKEN # toks k @ VALUE_TOKEN # toks v) kvs)"

abbreviation flow_pairs :: "(ytree \<times> ytree) list \<Rightarrow> token_data list" where
  "flow_pairs kvs \<equiv>
     concat (map (\<lambda>(k, v). FLOW_ENTRY_TOKEN # KEY_TOKEN # toks k @ VALUE_TOKEN # toks v) kvs)"

text \<open>Inside a flow collection there are only flow collections.\<close>

function (sequential) flow_only :: "ytree \<Rightarrow> bool" where
  "flow_only (TScalar _ _ _ _) = True"
| "flow_only (TAlias _) = True"
| "flow_only (TSeq _ _ flow ts) = (flow \<and> (\<forall>t \<in> set ts. flow_only t))"
| "flow_only (TMap _ _ flow kvs) = (flow \<and> (\<forall>(k, v) \<in> set kvs. flow_only k \<and> flow_only v))"
  by pat_completeness auto
termination by (relation "measure size") (auto simp: size_in_list size_in_pairs)

function (sequential) writable :: "ytree \<Rightarrow> bool" where
  "writable (TScalar _ _ _ _) = True"
| "writable (TAlias _) = True"
| "writable (TSeq _ _ flow ts) = (\<forall>t \<in> set ts. writable t \<and> (flow \<longrightarrow> flow_only t))"
| "writable (TMap _ _ flow kvs) =
     (\<forall>(k, v) \<in> set kvs. writable k \<and> writable v \<and> (flow \<longrightarrow> flow_only k \<and> flow_only v))"
  by pat_completeness auto
termination by (relation "measure size") (auto simp: size_in_list size_in_pairs)

subsection \<open>What a document means\<close>

definition implicit_scalar :: "string \<Rightarrow> scalar_style \<Rightarrow> bool" where
  "implicit_scalar tag st \<longleftrightarrow> tag = '''' \<and> st = PLAIN_SCALAR_STYLE \<or> tag = ''!''"

function (sequential) node_of :: "ytree \<Rightarrow> dnode" where
  "node_of (TScalar a tag v st) = DScalar tag v (implicit_scalar tag st)"
| "node_of (TAlias a) = DAlias a"
| "node_of (TSeq a tag flow ts) = DSequence (map node_of ts)"
| "node_of (TMap a tag flow kvs) = DMapping (map (\<lambda>(k, v). (node_of k, node_of v)) kvs)"
  by pat_completeness auto
termination by (relation "measure size") (auto simp: size_in_list size_in_pairs)

function (sequential) anchors_of :: "ytree \<Rightarrow> anchors" where
  "anchors_of (TScalar a tag v st) = anchored a (node_of (TScalar a tag v st))"
| "anchors_of (TAlias a) = []"
| "anchors_of (TSeq a tag flow ts) =
     concat (rev (map anchors_of ts)) @ anchored a (node_of (TSeq a tag flow ts))"
| "anchors_of (TMap a tag flow kvs) =
     concat (rev (map (\<lambda>(k, v). anchors_of v @ anchors_of k) kvs)) @
     anchored a (node_of (TMap a tag flow kvs))"
  by pat_completeness auto
termination by (relation "measure size") (auto simp: size_in_list size_in_pairs)

subsection \<open>Parser states along the way\<close>

text \<open>What of a parser the reading of a node depends on, besides the stack of marks.\<close>

definition ahead :: "yparser \<Rightarrow> token_data list" where
  "ahead q = map tk_typ (yp_tokens q)"

definition live :: "yparser \<Rightarrow> bool" where
  "live q \<longleftrightarrow> \<not> yp_stream_end_produced q"

definition back_at :: "yparser \<Rightarrow> parser_state \<Rightarrow> parser_state list \<Rightarrow> token_data list \<Rightarrow> yparser \<Rightarrow> bool" where
  "back_at q s ss rest q' \<longleftrightarrow>
     yp_state q' = s \<and> yp_states q' = ss \<and> yp_marks q' = yp_marks q \<and> live q' \<and> ahead q' = rest"

definition resume :: "yparser \<Rightarrow> unit built" where
  "resume q =
     (case parser_parse q of
        Parsed e p \<Rightarrow> Built () \<lparr>bl_parser = p, bl_event = e\<rparr>
      | Failed pb \<Rightarrow> BFail (parser_fail pb)
      | Crashed s \<Rightarrow> BCrash s)"

lemma builder_skip_resume:
  "ev_typ e \<noteq> STREAM_END_EVENT \<Longrightarrow> builder_skip \<lparr>bl_parser = q, bl_event = e\<rparr> = resume q"
  by (simp add: builder_skip_def resume_def)

lemma resume_Parsed: "parser_parse q = Parsed e p \<Longrightarrow> resume q = Built () \<lparr>bl_parser = p, bl_event = e\<rparr>"
  by (simp add: resume_def)

lemma bind_built_assoc:
  "bind_built (bind_built r f) g = bind_built r (\<lambda>x b. bind_built (f x b) g)"
  by (cases r) auto

lemma peek_ahead:
  "ahead q = d # ds \<Longrightarrow> \<exists>t. peek_token q f = f t \<and> tk_typ t = d \<and> hd (yp_tokens q) = t"
  by (auto simp: ahead_def peek_token_def map_eq_Cons_conv)

lemma ahead_simps [simp]:
  "ahead (set_state s q) = ahead q" "ahead (push_state s q) = ahead q" "ahead (push_mark m q) = ahead q"
  "ahead (q\<lparr>yp_state := s, yp_states := ss\<rparr>) = ahead q" "ahead (q\<lparr>yp_marks := ms\<rparr>) = ahead q"
  by (simp_all add: ahead_def set_state_def push_state_def push_mark_def)

lemma ahead_skip [simp]: "ahead (skip_token q) = tl (ahead q)"
  by (simp add: ahead_def map_tl)

lemma live_simps [simp]:
  "live (set_state s q) = live q" "live (push_state s q) = live q" "live (push_mark m q) = live q"
  "live (q\<lparr>yp_state := s, yp_states := ss\<rparr>) = live q" "live (q\<lparr>yp_marks := ms\<rparr>) = live q"
  by (simp_all add: live_def set_state_def push_state_def push_mark_def)

lemma live_skip: "ahead q = d # ds \<Longrightarrow> live (skip_token q) = (d \<noteq> STREAM_END_TOKEN)"
  by (auto simp: live_def ahead_def map_eq_Cons_conv)

lemma parser_parse_live:
  "live q \<Longrightarrow> yp_state q \<noteq> PARSE_END_STATE \<Longrightarrow> parser_parse q = state_machine q"
  by (simp add: parser_parse_def live_def)

text \<open>The tokens a node starts with.\<close>

fun starts_node :: "token_data \<Rightarrow> bool" where
  "starts_node (ALIAS_TOKEN _) = True"
| "starts_node (ANCHOR_TOKEN _) = True"
| "starts_node (TAG_TOKEN _ _) = True"
| "starts_node (SCALAR_TOKEN _ _) = True"
| "starts_node FLOW_SEQUENCE_START_TOKEN = True"
| "starts_node FLOW_MAPPING_START_TOKEN = True"
| "starts_node BLOCK_SEQUENCE_START_TOKEN = True"
| "starts_node BLOCK_MAPPING_START_TOKEN = True"
| "starts_node _ = False"

lemma toks_start: "\<exists>d ds. toks t = d # ds \<and> starts_node d"
  by (cases t) (auto simp: props_def split: option.splits)

subsection \<open>Nodes\<close>

abbreviation nodeish :: "event_data \<Rightarrow> bool" where
  "nodeish e \<equiv> node_event e [] \<noteq> None"

text \<open>
  Reading \<open>t\<close> where a node is due: the parser returns its first event, and the builder that has this
  event in its hand goes on to the point where the rest is ahead, with the node and its anchors.
\<close>

definition builds :: "ytree \<Rightarrow> yevent \<Rightarrow> yparser \<Rightarrow> yparser \<Rightarrow> bool" where
  "builds t e q1 q2 \<longleftrightarrow>
     nodeish (ev_typ e) \<and>
     (\<forall>n. 2 * length (toks t) \<le> n \<longrightarrow>
        build_node n \<lparr>bl_parser = q1, bl_event = e\<rparr> =
          bind_built (resume q2) (\<lambda>_ b. Built (node_of t, anchors_of t) b))"

definition reads :: "ytree \<Rightarrow> bool" where
  "reads t \<longleftrightarrow>
     (\<forall>q s ss rest block ind.
        ahead q = toks t @ rest \<longrightarrow> yp_states q = s # ss \<longrightarrow> live q \<longrightarrow> block \<or> flow_only t \<longrightarrow>
        (\<exists>e q1 q2. parse_node q block ind = Parsed e q1 \<and> back_at q s ss rest q2 \<and> builds t e q1 q2))"

lemma readsD:
  "reads t \<Longrightarrow> ahead q = toks t @ rest \<Longrightarrow> yp_states q = s # ss \<Longrightarrow> live q \<Longrightarrow> block \<or> flow_only t \<Longrightarrow>
     \<exists>e q1 q2. parse_node q block ind = Parsed e q1 \<and> back_at q s ss rest q2 \<and> builds t e q1 q2"
  unfolding reads_def by blast

lemma buildsD:
  "builds t e q1 q2 \<Longrightarrow> 2 * length (toks t) \<le> n \<Longrightarrow>
     build_node n \<lparr>bl_parser = q1, bl_event = e\<rparr> =
       bind_built (resume q2) (\<lambda>_ b. Built (node_of t, anchors_of t) b)"
  by (simp add: builds_def)

fun is_property :: "token_data \<Rightarrow> bool" where
  "is_property (ALIAS_TOKEN _) = True"
| "is_property (ANCHOR_TOKEN _) = True"
| "is_property (TAG_TOKEN _ _) = True"
| "is_property _ = False"

lemma parse_node_props:
  assumes "ahead q = props a tag @ d # ds" and "\<not> is_property d" and "d \<noteq> STREAM_END_TOKEN" and "live q"
  shows "\<exists>sm em p1. parse_node q block ind = node_content p1 block ind a tag sm em \<and>
    ahead p1 = d # ds \<and> yp_states p1 = yp_states q \<and> yp_marks p1 = yp_marks q \<and> live p1"
proof -
  have core: ?thesis
    if "parse_node q block ind = node_content p1 block ind a tag sm em" "ahead p1 = d # ds"
      "yp_states p1 = yp_states q" "yp_marks p1 = yp_marks q" "live p1" for p1 sm em
    using that by blast
  show ?thesis
  proof (cases a)
  case None
  show ?thesis
  proof (cases "tag = ''''")
    case True
    then obtain t ts where "yp_tokens q = t # ts" "tk_typ t = d"
      using assms(1) None by (auto simp: props_def ahead_def map_eq_Cons_conv)
    moreover from this have
      "parse_node q block ind = node_content q block ind a tag (tk_start t) (tk_start t)"
      using assms(2,3) None True
      by (cases d) (simp_all add: parse_node_def peek_token_def node_properties_def node_tag_def)
    ultimately show ?thesis
      using assms(1,4) None True by - (rule core, assumption, auto simp: ahead_def props_def live_def)
  next
    case False
    then obtain t u us where "yp_tokens q = t # u # us" "tk_typ t = TAG_TOKEN '''' tag" "tk_typ u = d"
      using assms(1) None by (auto simp: props_def ahead_def map_eq_Cons_conv)
    moreover from this have
      "parse_node q block ind = node_content (skip_token q) block ind a tag (tk_start t) (tk_end t)"
      using assms(2,3) None False
      by (cases d) (simp_all add: parse_node_def peek_token_def node_properties_def node_tag_def Let_def)
    ultimately show ?thesis
      using assms(1,4) None False by - (rule core, assumption, auto simp: ahead_def props_def live_def)
  qed
next
  case (Some s)
  show ?thesis
  proof (cases "tag = ''''")
    case True
    then obtain t u us where "yp_tokens q = t # u # us" "tk_typ t = ANCHOR_TOKEN s" "tk_typ u = d"
      using assms(1) Some by (auto simp: props_def ahead_def map_eq_Cons_conv)
    moreover from this have
      "parse_node q block ind = node_content (skip_token q) block ind a tag (tk_start t) (tk_end t)"
      using assms(2,3) Some True
      by (cases d) (simp_all add: parse_node_def peek_token_def node_properties_def node_tag_def Let_def)
    ultimately show ?thesis
      using assms(1,4) Some True by - (rule core, assumption, auto simp: ahead_def props_def live_def)
  next
    case False
    then obtain t u v vs where "yp_tokens q = t # u # v # vs" "tk_typ t = ANCHOR_TOKEN s"
        "tk_typ u = TAG_TOKEN '''' tag" "tk_typ v = d"
      using assms(1) Some by (auto simp: props_def ahead_def map_eq_Cons_conv)
    moreover from this have
      "parse_node q block ind =
         node_content (skip_token (skip_token q)) block ind a tag (tk_start t) (tk_end u)"
      using assms(2,3) Some False
      by (cases d) (simp_all add: parse_node_def peek_token_def node_properties_def node_tag_def Let_def)
    ultimately show ?thesis
      using assms(1,4) Some False by - (rule core, assumption, auto simp: ahead_def props_def live_def)
  qed
  qed
qed

lemma toks_length: "0 < length (toks t)"
  using toks_start [of t] by auto

lemma reads_scalar: "reads (TScalar a tag v st)"
  unfolding reads_def
proof (intro allI impI, goal_cases)
  case (1 q s ss rest block ind)
  obtain sm em p1 where p1: "parse_node q block ind = node_content p1 block ind a tag sm em"
      "ahead p1 = SCALAR_TOKEN v st # rest" "yp_states p1 = s # ss" "yp_marks p1 = yp_marks q" "live p1"
    using parse_node_props [of q a tag "SCALAR_TOKEN v st" rest block ind] 1 by auto
  obtain t ts where t: "yp_tokens p1 = t # ts" "tk_typ t = SCALAR_TOKEN v st" "map tk_typ ts = rest"
    using p1(2) by (auto simp: ahead_def map_eq_Cons_conv)
  let ?q2 = "skip_token (p1\<lparr>yp_state := s, yp_states := ss\<rparr>)"
  let ?e = "event_at (SCALAR_EVENT a tag v (implicit_scalar tag st)
    (\<not> implicit_scalar tag st \<and> tag = '''') st) sm (tk_end t)"
  have e: "parse_node q block ind = Parsed ?e ?q2"
    using p1 t by (simp add: node_content_def peek_token_def pop_state_def Let_def implicit_scalar_def)
  have b: "back_at q s ss rest ?q2"
    using p1 t by (simp add: back_at_def ahead_def live_def)
  have "builds (TScalar a tag v st) ?e ?q2 ?q2"
    unfolding builds_def
  proof (intro conjI allI impI)
    fix n assume "2 * length (toks (TScalar a tag v st)) \<le> n"
    then obtain m where "n = Suc m" by (cases n) auto
    then show "build_node n \<lparr>bl_parser = ?q2, bl_event = ?e\<rparr> =
        bind_built (resume ?q2) (\<lambda>_ b. Built (node_of (TScalar a tag v st), anchors_of (TScalar a tag v st)) b)"
      by (simp add: builder_skip_resume Let_def)
  qed simp
  then show ?case using e b by blast
qed

lemma reads_alias: "reads (TAlias a)"
  unfolding reads_def
proof (intro allI impI, goal_cases)
  case (1 q s ss rest block ind)
  then obtain t ts where t: "yp_tokens q = t # ts" "tk_typ t = ALIAS_TOKEN a" "map tk_typ ts = rest"
    by (auto simp: ahead_def map_eq_Cons_conv)
  let ?q2 = "skip_token (q\<lparr>yp_state := s, yp_states := ss\<rparr>)"
  let ?e = "event_at (ALIAS_EVENT a) (tk_start t) (tk_end t)"
  have e: "parse_node q block ind = Parsed ?e ?q2"
    using 1 t by (simp add: parse_node_def peek_token_def pop_state_def)
  have b: "back_at q s ss rest ?q2"
    using 1 t by (simp add: back_at_def ahead_def live_def)
  have "builds (TAlias a) ?e ?q2 ?q2"
    unfolding builds_def
  proof (intro conjI allI impI)
    fix n assume "2 * length (toks (TAlias a)) \<le> n"
    then obtain m where "n = Suc m" by (cases n) auto
    then show "build_node n \<lparr>bl_parser = ?q2, bl_event = ?e\<rparr> =
        bind_built (resume ?q2) (\<lambda>_ b. Built (node_of (TAlias a), anchors_of (TAlias a)) b)"
      by (simp add: builder_skip_resume )
  qed simp
  then show ?case using e b by blast
qed

subsection \<open>Collections\<close>

text \<open>
  How an entry begins and how a collection ends, for a state \<open>st\<close> that waits for the next entry. The
  parser \<open>q'\<close> is \<open>q\<close> with some tokens taken and \<open>n\<close> marks pushed.
\<close>

definition advanced :: "nat \<Rightarrow> yparser \<Rightarrow> yparser \<Rightarrow> token_data list \<Rightarrow> bool" where
  "advanced n q q' ds \<longleftrightarrow>
     yp_states q' = yp_states q \<and> drop n (yp_marks q') = yp_marks q \<and> n \<le> length (yp_marks q') \<and>
     live q' \<and> ahead q' = ds"

definition enters :: "nat \<Rightarrow> parser_state \<Rightarrow> token_data list \<Rightarrow> parser_state \<Rightarrow> bool \<Rightarrow> bool" where
  "enters n st pre back block \<longleftrightarrow>
     (\<forall>q t rest. ahead q = pre @ toks t @ rest \<longrightarrow> yp_state q = st \<longrightarrow> live q \<longrightarrow>
        (\<exists>q' ind. parser_parse q = parse_node (push_state back q') block ind \<and>
           advanced n q q' (toks t @ rest)))"

definition leaves :: "parser_state \<Rightarrow> token_data \<Rightarrow> event_data \<Rightarrow> bool" where
  "leaves st fin e \<longleftrightarrow>
     (\<forall>q rest s ss m ms. ahead q = fin # rest \<longrightarrow> yp_state q = st \<longrightarrow> live q \<longrightarrow>
        yp_states q = s # ss \<longrightarrow> yp_marks q = m # ms \<longrightarrow>
        (\<exists>ev q'. parser_parse q = Parsed ev q' \<and> ev_typ ev = e \<and> yp_state q' = s \<and> yp_states q' = ss \<and>
           yp_marks q' = ms \<and> live q' \<and> ahead q' = rest))"

lemma leavesD:
  "leaves st fin e \<Longrightarrow> ahead q = fin # rest \<Longrightarrow> yp_state q = st \<Longrightarrow> live q \<Longrightarrow>
     yp_states q = s # ss \<Longrightarrow> yp_marks q = m # ms \<Longrightarrow>
     \<exists>ev q'. parser_parse q = Parsed ev q' \<and> ev_typ ev = e \<and> yp_state q' = s \<and> yp_states q' = ss \<and>
       yp_marks q' = ms \<and> live q' \<and> ahead q' = rest"
  unfolding leaves_def by blast

lemma entersD:
  "enters n st pre back block \<Longrightarrow> ahead q = pre @ toks t @ rest \<Longrightarrow> yp_state q = st \<Longrightarrow> live q \<Longrightarrow>
     \<exists>q' ind. parser_parse q = parse_node (push_state back q') block ind \<and> advanced n q q' (toks t @ rest)"
  unfolding enters_def by blast

lemma leaf_entry:
  assumes "enters n st pre back block" and "reads t" and "block \<or> flow_only t"
    and "ahead q = pre @ toks t @ rest" and "yp_state q = st" and "live q"
  shows "\<exists>e q1 q2. resume q = Built () \<lparr>bl_parser = q1, bl_event = e\<rparr> \<and> builds t e q1 q2 \<and>
    yp_state q2 = back \<and> advanced n q q2 rest"
proof -
  obtain q' ind where q': "parser_parse q = parse_node (push_state back q') block ind"
      "advanced n q q' (toks t @ rest)"
    using entersD [OF assms(1,4-6)] by blast
  have "ahead (push_state back q') = toks t @ rest" "yp_states (push_state back q') = back # yp_states q"
    "live (push_state back q')"
    using q'(2) by (simp_all add: advanced_def)
  from readsD [OF assms(2) this assms(3), of ind]
  obtain e q1 q2 where "parse_node (push_state back q') block ind = Parsed e q1"
      "back_at (push_state back q') back (yp_states q) rest q2" "builds t e q1 q2"
    by blast
  then show ?thesis
    using q' by (intro exI [of _ e] exI [of _ q1] exI [of _ q2])
      (auto simp: resume_Parsed back_at_def advanced_def)
qed

text \<open>
  The rest of a sequence: reading it and going on with \<open>K\<close> is going on from where its end is past.
\<close>

definition sequence_reads :: "token_data list \<Rightarrow> ytree list \<Rightarrow> yparser \<Rightarrow> yparser \<Rightarrow> bool" where
  "sequence_reads ds ts q q2 \<longleftrightarrow>
     (\<forall>n (K :: dnode list \<Rightarrow> anchors \<Rightarrow> builder \<Rightarrow> (dnode \<times> anchors) built). 2 * length ds < n \<longrightarrow>
       bind_built (resume q) (\<lambda>_ b. bind_built (build_sequence n b) (\<lambda>(ns, anc) b2.
         bind_built (builder_skip b2) (\<lambda>_ b3. K ns anc b3))) =
       bind_built (resume q2) (\<lambda>_ b. K (map node_of ts) (concat (rev (map anchors_of ts))) b))"

definition closed_at :: "parser_state \<Rightarrow> parser_state list \<Rightarrow> mark list \<Rightarrow> token_data list \<Rightarrow> yparser \<Rightarrow> bool" where
  "closed_at s ss ms rest q \<longleftrightarrow>
     yp_state q = s \<and> yp_states q = ss \<and> yp_marks q = ms \<and> live q \<and> ahead q = rest"

lemma sequence_step:
  assumes "resume q = Built () \<lparr>bl_parser = q1, bl_event = e\<rparr>" and "builds t e q1 q2"
    and "sequence_reads ds ts q2 q3" and "length (toks t) + length ds \<le> length ds'"
  shows "sequence_reads ds' (t # ts) q q3"
  unfolding sequence_reads_def
proof (intro allI impI)
  fix n :: nat and K :: "dnode list \<Rightarrow> anchors \<Rightarrow> builder \<Rightarrow> (dnode \<times> anchors) built"
  assume n: "2 * length ds' < n"
  then obtain k where k: "n = Suc k" by (cases n) auto
  have lt: "2 * length ds < k" using assms(4) n k toks_length [of t] by linarith
  have "ev_typ e \<noteq> SEQUENCE_END_EVENT" using assms(2) by (auto simp: builds_def)
  then have "bind_built (resume q) (\<lambda>_ b. bind_built (build_sequence n b) (\<lambda>(ns, anc) b2.
      bind_built (builder_skip b2) (\<lambda>_ b3. K ns anc b3))) =
      bind_built (resume q2) (\<lambda>_ b. bind_built (build_sequence k b) (\<lambda>(ns, anc) b2.
        bind_built (builder_skip b2) (\<lambda>_ b3. K (node_of t # ns) (anc @ anchors_of t) b3)))"
    using assms(1,4) buildsD [OF assms(2), of k] n k
    by (simp add: bind_built_assoc case_prod_unfold)
  also have "\<dots> = bind_built (resume q3) (\<lambda>_ b. K (node_of t # map node_of ts)
      (concat (rev (map anchors_of ts)) @ anchors_of t) b)"
    using assms(3) lt unfolding sequence_reads_def by simp
  finally show "bind_built (resume q) (\<lambda>_ b. bind_built (build_sequence n b) (\<lambda>(ns, anc) b2.
      bind_built (builder_skip b2) (\<lambda>_ b3. K ns anc b3))) =
      bind_built (resume q3) (\<lambda>_ b. K (map node_of (t # ts)) (concat (rev (map anchors_of (t # ts)))) b)"
    by simp
qed

lemma sequence_end:
  assumes "parser_parse q = Parsed ev q'" and "ev_typ ev = SEQUENCE_END_EVENT"
  shows "sequence_reads ds [] q q'"
  unfolding sequence_reads_def
proof (intro allI impI)
  fix n :: nat and K :: "dnode list \<Rightarrow> anchors \<Rightarrow> builder \<Rightarrow> (dnode \<times> anchors) built"
  assume "2 * length ds < n"
  then obtain k where "n = Suc k" by (cases n) auto
  then show "bind_built (resume q) (\<lambda>_ b. bind_built (build_sequence n b) (\<lambda>(ns, anc) b2.
      bind_built (builder_skip b2) (\<lambda>_ b3. K ns anc b3))) =
      bind_built (resume q') (\<lambda>_ b. K (map node_of []) (concat (rev (map anchors_of []))) b)"
    using assms by (simp add: resume_Parsed builder_skip_resume)
qed

lemma sequence_rest:
  assumes "enters 0 st [sep] st block" and "leaves st fin SEQUENCE_END_EVENT"
    and "\<forall>t \<in> set ts. reads t \<and> (block \<or> flow_only t)"
    and "ahead q = concat (map (\<lambda>t. sep # toks t) ts) @ fin # rest" and "yp_state q = st" and "live q"
    and "yp_states q = s # ss" and "yp_marks q = m # ms"
  shows "\<exists>q2. closed_at s ss ms rest q2 \<and> sequence_reads (concat (map (\<lambda>t. sep # toks t) ts)) ts q q2"
  using assms(3-)
proof (induction ts arbitrary: q)
  case Nil
  then have "ahead q = fin # rest" by simp
  from leavesD [OF assms(2) this Nil(3-6)]
  obtain ev q' where q': "parser_parse q = Parsed ev q'" "ev_typ ev = SEQUENCE_END_EVENT"
      "closed_at s ss ms rest q'"
    by (auto simp: closed_at_def)
  have "sequence_reads [] [] q q'" by (rule sequence_end [OF q'(1,2)])
  then show ?case using q'(3) by auto
next
  case (Cons t ts)
  let ?ds = "concat (map (\<lambda>t. sep # toks t) ts)"
  have t: "reads t" "block \<or> flow_only t" using Cons.prems(1) by auto
  have ah: "ahead q = [sep] @ toks t @ (?ds @ fin # rest)" using Cons.prems(2) by simp
  from leaf_entry [OF assms(1) t ah Cons.prems(3,4)]
  obtain e q1 q2 where q: "resume q = Built () \<lparr>bl_parser = q1, bl_event = e\<rparr>" "builds t e q1 q2"
      "yp_state q2 = st" "advanced 0 q q2 (?ds @ fin # rest)"
    by blast
  have "ahead q2 = ?ds @ fin # rest" "live q2" "yp_states q2 = s # ss" "yp_marks q2 = m # ms"
    using q(4) Cons.prems by (simp_all add: advanced_def)
  then obtain q3 where q3: "closed_at s ss ms rest q3" "sequence_reads ?ds ts q2 q3"
    using Cons.IH [of q2] Cons.prems(1) q(3) by auto
  have "sequence_reads (concat (map (\<lambda>t. sep # toks t) (t # ts))) (t # ts) q q3"
    by (rule sequence_step [OF q(1,2) q3(2)]) simp
  then show ?case using q3(1) by blast
qed

definition pair_tokens :: "token_data list \<Rightarrow> ytree \<times> ytree \<Rightarrow> token_data list" where
  "pair_tokens pre kv = pre @ KEY_TOKEN # toks (fst kv) @ VALUE_TOKEN # toks (snd kv)"

lemma pair_tokens_pair: "pair_tokens pre (k, v) = pre @ KEY_TOKEN # toks k @ VALUE_TOKEN # toks v"
  by (simp add: pair_tokens_def)

definition mapping_reads :: "token_data list \<Rightarrow> (ytree \<times> ytree) list \<Rightarrow> yparser \<Rightarrow> yparser \<Rightarrow> bool" where
  "mapping_reads ds kvs q q2 \<longleftrightarrow>
     (\<forall>n (K :: (dnode \<times> dnode) list \<Rightarrow> anchors \<Rightarrow> builder \<Rightarrow> (dnode \<times> anchors) built). 2 * length ds < n \<longrightarrow>
       bind_built (resume q) (\<lambda>_ b. bind_built (build_mapping n b) (\<lambda>(ns, anc) b2.
         bind_built (builder_skip b2) (\<lambda>_ b3. K ns anc b3))) =
       bind_built (resume q2) (\<lambda>_ b. K (map (\<lambda>(k, v). (node_of k, node_of v)) kvs)
         (concat (rev (map (\<lambda>(k, v). anchors_of v @ anchors_of k) kvs))) b))"

lemma mapping_step:
  assumes "resume q = Built () \<lparr>bl_parser = q1, bl_event = e\<rparr>" and "builds k e q1 q2"
    and "resume q2 = Built () \<lparr>bl_parser = q1', bl_event = e'\<rparr>" and "builds v e' q1' q3"
    and "mapping_reads ds kvs q3 q4" and "length (toks k) + length (toks v) + length ds \<le> length ds'"
  shows "mapping_reads ds' ((k, v) # kvs) q q4"
  unfolding mapping_reads_def
proof (intro allI impI)
  fix n :: nat and K :: "(dnode \<times> dnode) list \<Rightarrow> anchors \<Rightarrow> builder \<Rightarrow> (dnode \<times> anchors) built"
  assume n: "2 * length ds' < n"
  then obtain j where j: "n = Suc j" by (cases n) auto
  have lt: "2 * length ds < j" using assms(6) n j toks_length [of k] by linarith
  have "ev_typ e \<noteq> MAPPING_END_EVENT" using assms(2) by (auto simp: builds_def)
  then have "bind_built (resume q) (\<lambda>_ b. bind_built (build_mapping n b) (\<lambda>(ns, anc) b2.
      bind_built (builder_skip b2) (\<lambda>_ b3. K ns anc b3))) =
      bind_built (resume q3) (\<lambda>_ b. bind_built (build_mapping j b) (\<lambda>(ns, anc) b2.
        bind_built (builder_skip b2) (\<lambda>_ b3.
          K ((node_of k, node_of v) # ns) (anc @ anchors_of v @ anchors_of k) b3)))"
    using assms(1,3,6) buildsD [OF assms(2), of j] buildsD [OF assms(4), of j] n j
    by (simp add: bind_built_assoc case_prod_unfold)
  also have "\<dots> = bind_built (resume q4) (\<lambda>_ b.
      K ((node_of k, node_of v) # map (\<lambda>(k, v). (node_of k, node_of v)) kvs)
        (concat (rev (map (\<lambda>(k, v). anchors_of v @ anchors_of k) kvs)) @ anchors_of v @ anchors_of k) b)"
    using assms(5) lt unfolding mapping_reads_def by simp
  finally show "bind_built (resume q) (\<lambda>_ b. bind_built (build_mapping n b) (\<lambda>(ns, anc) b2.
      bind_built (builder_skip b2) (\<lambda>_ b3. K ns anc b3))) =
      bind_built (resume q4) (\<lambda>_ b. K (map (\<lambda>(k, v). (node_of k, node_of v)) ((k, v) # kvs))
        (concat (rev (map (\<lambda>(k, v). anchors_of v @ anchors_of k) ((k, v) # kvs)))) b)"
    by simp
qed

lemma mapping_end:
  assumes "parser_parse q = Parsed ev q'" and "ev_typ ev = MAPPING_END_EVENT"
  shows "mapping_reads ds [] q q'"
  unfolding mapping_reads_def
proof (intro allI impI)
  fix n :: nat and K :: "(dnode \<times> dnode) list \<Rightarrow> anchors \<Rightarrow> builder \<Rightarrow> (dnode \<times> anchors) built"
  assume "2 * length ds < n"
  then obtain k where "n = Suc k" by (cases n) auto
  then show "bind_built (resume q) (\<lambda>_ b. bind_built (build_mapping n b) (\<lambda>(ns, anc) b2.
      bind_built (builder_skip b2) (\<lambda>_ b3. K ns anc b3))) =
      bind_built (resume q') (\<lambda>_ b. K (map (\<lambda>(k, v). (node_of k, node_of v)) [])
        (concat (rev (map (\<lambda>(k, v). anchors_of v @ anchors_of k) []))) b)"
    using assms by (simp add: resume_Parsed builder_skip_resume)
qed

lemma mapping_rest:
  assumes "enters 0 stk (pre @ [KEY_TOKEN]) stv block" and "enters 0 stv [VALUE_TOKEN] stk block"
    and "leaves stk fin MAPPING_END_EVENT"
    and "\<forall>(k, v) \<in> set kvs. reads k \<and> reads v \<and> (block \<or> flow_only k \<and> flow_only v)"
    and "ahead q = concat (map (pair_tokens pre) kvs) @ fin # rest" and "yp_state q = stk" and "live q"
    and "yp_states q = s # ss" and "yp_marks q = m # ms"
  shows "\<exists>q2. closed_at s ss ms rest q2 \<and> mapping_reads (concat (map (pair_tokens pre) kvs)) kvs q q2"
  using assms(4-)
proof (induction kvs arbitrary: q)
  case Nil
  then have "ahead q = fin # rest" by simp
  from leavesD [OF assms(3) this Nil(3-6)]
  obtain ev q' where q': "parser_parse q = Parsed ev q'" "ev_typ ev = MAPPING_END_EVENT"
      "closed_at s ss ms rest q'"
    by (auto simp: closed_at_def)
  have "mapping_reads [] [] q q'" by (rule mapping_end [OF q'(1,2)])
  then show ?case using q'(3) by auto
next
  case (Cons kv kvs)
  obtain k v where kv: "kv = (k, v)" by (cases kv)
  let ?ds = "concat (map (pair_tokens pre) kvs)"
  have t: "reads k" "block \<or> flow_only k" "reads v" "block \<or> flow_only v" using Cons.prems(1) kv by auto
  have ah: "ahead q = (pre @ [KEY_TOKEN]) @ toks k @ (VALUE_TOKEN # toks v @ ?ds @ fin # rest)"
    using Cons.prems(2) kv by (simp add: pair_tokens_pair)
  from leaf_entry [OF assms(1) t(1,2) ah Cons.prems(3,4)]
  obtain e q1 q2 where q: "resume q = Built () \<lparr>bl_parser = q1, bl_event = e\<rparr>" "builds k e q1 q2"
      "yp_state q2 = stv" "advanced 0 q q2 (VALUE_TOKEN # toks v @ ?ds @ fin # rest)"
    by blast
  have ah2: "ahead q2 = [VALUE_TOKEN] @ toks v @ (?ds @ fin # rest)" "live q2"
    using q(4) by (simp_all add: advanced_def)
  from leaf_entry [OF assms(2) t(3,4) ah2(1) q(3) ah2(2)]
  obtain e' q1' q3 where q3: "resume q2 = Built () \<lparr>bl_parser = q1', bl_event = e'\<rparr>" "builds v e' q1' q3"
      "yp_state q3 = stk" "advanced 0 q2 q3 (?ds @ fin # rest)"
    by blast
  have "ahead q3 = ?ds @ fin # rest" "live q3" "yp_states q3 = s # ss" "yp_marks q3 = m # ms"
    using q(4) q3(4) Cons.prems by (simp_all add: advanced_def)
  then obtain q4 where q4: "closed_at s ss ms rest q4" "mapping_reads ?ds kvs q3 q4"
    using Cons.IH [of q3] Cons.prems(1) q3(3) by auto
  have "mapping_reads (concat (map (pair_tokens pre) (kv # kvs))) (kv # kvs) q q4"
    unfolding kv by (rule mapping_step [OF q(1,2) q3(1,2) q4(2)]) (simp add: pair_tokens_pair)
  then show ?case using q4(1) by blast
qed

subsection \<open>The entries of the four kinds of collection\<close>

lemma ahead_cases:
  "ahead q = d # ds \<Longrightarrow> \<exists>t ts. yp_tokens q = t # ts \<and> tk_typ t = d \<and> map tk_typ ts = ds"
  by (auto simp: ahead_def map_eq_Cons_conv)

lemma entersI:
  assumes "\<And>q t ts u us. yp_tokens q = t # ts \<Longrightarrow> tk_typ t = sep \<Longrightarrow> ts = u # us \<Longrightarrow>
      starts_node (tk_typ u) \<Longrightarrow> yp_state q = st \<Longrightarrow> live q \<Longrightarrow>
      parser_parse q = parse_node (push_state back (skip_token q)) block ind"
    and "sep \<noteq> STREAM_END_TOKEN"
  shows "enters 0 st [sep] back block"
  unfolding enters_def
proof (intro allI impI, goal_cases)
  case (1 q n rest)
  obtain d ds where d: "toks n = d # ds" "starts_node d" using toks_start by blast
  obtain t ts where t: "yp_tokens q = t # ts" "tk_typ t = sep" "map tk_typ ts = toks n @ rest"
    using 1 by (auto simp: ahead_def map_eq_Cons_conv)
  then obtain u us where u: "ts = u # us" "tk_typ u = d" using d by (auto simp: map_eq_Cons_conv)
  have "parser_parse q = parse_node (push_state back (skip_token q)) block ind"
    by (rule assms(1) [OF t(1,2) u(1)]) (use u d 1 in auto)
  moreover have "advanced 0 q (skip_token q) (toks n @ rest)"
    using t 1 assms(2) by (simp add: advanced_def ahead_def live_def)
  ultimately show ?case by blast
qed

lemma leavesI:
  assumes "\<And>q t ts. yp_tokens q = t # ts \<Longrightarrow> tk_typ t = fin \<Longrightarrow> yp_state q = st \<Longrightarrow> live q \<Longrightarrow>
      parser_parse q = leave_collection q e t"
    and "fin \<noteq> STREAM_END_TOKEN"
  shows "leaves st fin e"
  unfolding leaves_def
proof (intro allI impI, goal_cases)
  case (1 q rest s ss m ms)
  obtain t ts where t: "yp_tokens q = t # ts" "tk_typ t = fin" "map tk_typ ts = rest"
    using 1 by (auto simp: ahead_def map_eq_Cons_conv)
  then show ?case
    using assms(1) [OF t(1,2) 1(2,3)] 1 assms(2)
    by (auto simp: leave_collection_def pop_state_def pop_mark_def live_def ahead_def)
qed

lemmas entry_defs = parser_parse_live state_machine_def enter_collection_def peek_token_def Let_def

lemma block_sequence_entries:
  "enters 0 PARSE_BLOCK_SEQUENCE_ENTRY_STATE [BLOCK_ENTRY_TOKEN] PARSE_BLOCK_SEQUENCE_ENTRY_STATE True"
  "leaves PARSE_BLOCK_SEQUENCE_ENTRY_STATE BLOCK_END_TOKEN SEQUENCE_END_EVENT"
  by (rule entersI [where ind = False] leavesI;
      force simp: entry_defs parse_block_sequence_entry_def)+

lemma block_mapping_entries:
  "enters 0 PARSE_BLOCK_MAPPING_KEY_STATE [KEY_TOKEN] PARSE_BLOCK_MAPPING_VALUE_STATE True"
  "enters 0 PARSE_BLOCK_MAPPING_VALUE_STATE [VALUE_TOKEN] PARSE_BLOCK_MAPPING_KEY_STATE True"
  "leaves PARSE_BLOCK_MAPPING_KEY_STATE BLOCK_END_TOKEN MAPPING_END_EVENT"
  by (rule entersI [where ind = True] leavesI;
      force simp: entry_defs parse_block_mapping_key_def parse_block_mapping_value_def elim: ends_entry.elims)+

lemma flow_sequence_entries:
  "enters 0 PARSE_FLOW_SEQUENCE_ENTRY_STATE [FLOW_ENTRY_TOKEN] PARSE_FLOW_SEQUENCE_ENTRY_STATE False"
  "leaves PARSE_FLOW_SEQUENCE_ENTRY_STATE FLOW_SEQUENCE_END_TOKEN SEQUENCE_END_EVENT"
  by (rule entersI [where ind = False] leavesI;
      force simp: entry_defs parse_flow_sequence_entry_def next_flow_entry_def)+

lemma flow_mapping_value_entries:
  "enters 0 PARSE_FLOW_MAPPING_VALUE_STATE [VALUE_TOKEN] PARSE_FLOW_MAPPING_KEY_STATE False"
  "leaves PARSE_FLOW_MAPPING_KEY_STATE FLOW_MAPPING_END_TOKEN MAPPING_END_EVENT"
  by (rule entersI [where ind = False] leavesI;
      force simp: entry_defs parse_flow_mapping_key_def parse_flow_mapping_value_def next_flow_entry_def)+

text \<open>The first entry, with the start token of the collection still ahead.\<close>

definition leaves_first :: "parser_state \<Rightarrow> token_data list \<Rightarrow> event_data \<Rightarrow> bool" where
  "leaves_first st ds e \<longleftrightarrow>
     (\<forall>q rest s ss. ahead q = ds @ rest \<longrightarrow> yp_state q = st \<longrightarrow> live q \<longrightarrow> yp_states q = s # ss \<longrightarrow>
        (\<exists>ev q'. parser_parse q = Parsed ev q' \<and> ev_typ ev = e \<and> closed_at s ss (yp_marks q) rest q'))"

lemma leaves_firstD:
  "leaves_first st ds e \<Longrightarrow> ahead q = ds @ rest \<Longrightarrow> yp_state q = st \<Longrightarrow> live q \<Longrightarrow> yp_states q = s # ss \<Longrightarrow>
     \<exists>ev q'. parser_parse q = Parsed ev q' \<and> ev_typ ev = e \<and> closed_at s ss (yp_marks q) rest q'"
  unfolding leaves_first_def by blast

lemma enters_firstI:
  assumes "\<And>q t ts u us. yp_tokens q = t # ts \<Longrightarrow> tk_typ t = start \<Longrightarrow> ts = u # us \<Longrightarrow>
      starts_node (tk_typ u) \<Longrightarrow> yp_state q = st \<Longrightarrow> live q \<Longrightarrow>
      parser_parse q = parse_node (push_state back (skip_token (push_mark (tk_start t) q))) block ind"
    and "start \<noteq> STREAM_END_TOKEN"
  shows "enters 1 st [start] back block"
  unfolding enters_def
proof (intro allI impI, goal_cases)
  case (1 q n rest)
  obtain d ds where d: "toks n = d # ds" "starts_node d" using toks_start by blast
  obtain t ts where t: "yp_tokens q = t # ts" "tk_typ t = start" "map tk_typ ts = toks n @ rest"
    using 1 by (auto simp: ahead_def map_eq_Cons_conv)
  then obtain u us where u: "ts = u # us" "tk_typ u = d" using d by (auto simp: map_eq_Cons_conv)
  have "parser_parse q = parse_node (push_state back (skip_token (push_mark (tk_start t) q))) block ind"
    by (rule assms(1) [OF t(1,2) u(1)]) (use u d 1 in auto)
  moreover have "advanced 1 q (skip_token (push_mark (tk_start t) q)) (toks n @ rest)"
    using t 1 assms(2) by (simp add: advanced_def ahead_def live_def)
  ultimately show ?case by blast
qed

lemma enters_first2I:
  assumes "\<And>q t t2 ts u us. yp_tokens q = t # t2 # ts \<Longrightarrow> tk_typ t = start \<Longrightarrow> tk_typ t2 = sep \<Longrightarrow>
      ts = u # us \<Longrightarrow> starts_node (tk_typ u) \<Longrightarrow> yp_state q = st \<Longrightarrow> live q \<Longrightarrow>
      parser_parse q = parse_node (push_state back (skip_token (skip_token (push_mark (tk_start t) q)))) block ind"
    and "sep \<noteq> STREAM_END_TOKEN"
  shows "enters 1 st [start, sep] back block"
  unfolding enters_def
proof (intro allI impI, goal_cases)
  case (1 q n rest)
  obtain d ds where d: "toks n = d # ds" "starts_node d" using toks_start by blast
  obtain t t2 ts where t: "yp_tokens q = t # t2 # ts" "tk_typ t = start" "tk_typ t2 = sep"
      "map tk_typ ts = toks n @ rest"
    using 1 by (auto simp: ahead_def map_eq_Cons_conv)
  then obtain u us where u: "ts = u # us" "tk_typ u = d" using d by (auto simp: map_eq_Cons_conv)
  have "parser_parse q =
      parse_node (push_state back (skip_token (skip_token (push_mark (tk_start t) q)))) block ind"
    by (rule assms(1) [OF t(1-3) u(1)]) (use u d 1 in auto)
  moreover have "advanced 1 q (skip_token (skip_token (push_mark (tk_start t) q))) (toks n @ rest)"
    using t 1 assms(2) by (simp add: advanced_def ahead_def live_def)
  ultimately show ?case by blast
qed

lemma leaves_firstI:
  assumes "\<And>q t u us. yp_tokens q = t # u # us \<Longrightarrow> tk_typ t = start \<Longrightarrow> tk_typ u = fin \<Longrightarrow>
      yp_state q = st \<Longrightarrow> live q \<Longrightarrow>
      parser_parse q = leave_collection (skip_token (push_mark (tk_start t) q)) e u"
    and "fin \<noteq> STREAM_END_TOKEN"
  shows "leaves_first st [start, fin] e"
  unfolding leaves_first_def
proof (intro allI impI, goal_cases)
  case (1 q rest s ss)
  obtain t u us where t: "yp_tokens q = t # u # us" "tk_typ t = start" "tk_typ u = fin"
      "map tk_typ us = rest"
    using 1 by (auto simp: ahead_def map_eq_Cons_conv)
  then show ?case
    using assms(1) [OF t(1-3) 1(2,3)] 1 assms(2)
    by (auto simp: leave_collection_def pop_state_def pop_mark_def live_def ahead_def closed_at_def)
qed

lemmas first_defs = entry_defs the_token_def

lemma block_sequence_first:
  "enters 1 PARSE_BLOCK_SEQUENCE_FIRST_ENTRY_STATE [BLOCK_SEQUENCE_START_TOKEN, BLOCK_ENTRY_TOKEN]
     PARSE_BLOCK_SEQUENCE_ENTRY_STATE True"
  "leaves_first PARSE_BLOCK_SEQUENCE_FIRST_ENTRY_STATE [BLOCK_SEQUENCE_START_TOKEN, BLOCK_END_TOKEN]
     SEQUENCE_END_EVENT"
  by (rule enters_first2I [where ind = False] leaves_firstI;
      force simp: first_defs parse_block_sequence_entry_def)+

lemma block_mapping_first:
  "enters 1 PARSE_BLOCK_MAPPING_FIRST_KEY_STATE [BLOCK_MAPPING_START_TOKEN, KEY_TOKEN]
     PARSE_BLOCK_MAPPING_VALUE_STATE True"
  "leaves_first PARSE_BLOCK_MAPPING_FIRST_KEY_STATE [BLOCK_MAPPING_START_TOKEN, BLOCK_END_TOKEN]
     MAPPING_END_EVENT"
  by (rule enters_first2I [where ind = True] leaves_firstI;
      force simp: first_defs parse_block_mapping_key_def elim: ends_entry.elims)+

lemma flow_sequence_first:
  "enters 1 PARSE_FLOW_SEQUENCE_FIRST_ENTRY_STATE [FLOW_SEQUENCE_START_TOKEN]
     PARSE_FLOW_SEQUENCE_ENTRY_STATE False"
  "leaves_first PARSE_FLOW_SEQUENCE_FIRST_ENTRY_STATE [FLOW_SEQUENCE_START_TOKEN, FLOW_SEQUENCE_END_TOKEN]
     SEQUENCE_END_EVENT"
  by (rule enters_firstI [where ind = False] leaves_firstI;
      force simp: first_defs parse_flow_sequence_entry_def next_flow_entry_def)+

lemma flow_mapping_first:
  "enters 1 PARSE_FLOW_MAPPING_FIRST_KEY_STATE [FLOW_MAPPING_START_TOKEN, KEY_TOKEN]
     PARSE_FLOW_MAPPING_VALUE_STATE False"
  "leaves_first PARSE_FLOW_MAPPING_FIRST_KEY_STATE [FLOW_MAPPING_START_TOKEN, FLOW_MAPPING_END_TOKEN]
     MAPPING_END_EVENT"
  by (rule enters_first2I [where ind = False] leaves_firstI;
      force simp: first_defs parse_flow_mapping_key_def next_flow_entry_def)+

lemma flow_mapping_key_entries:
  "enters 0 PARSE_FLOW_MAPPING_KEY_STATE [FLOW_ENTRY_TOKEN, KEY_TOKEN] PARSE_FLOW_MAPPING_VALUE_STATE False"
  unfolding enters_def
proof (intro allI impI, goal_cases)
  case (1 q n rest)
  obtain d ds where d: "toks n = d # ds" "starts_node d" using toks_start by blast
  obtain t t2 u us where t: "yp_tokens q = t # t2 # u # us" "tk_typ t = FLOW_ENTRY_TOKEN"
      "tk_typ t2 = KEY_TOKEN" "tk_typ u = d" "map tk_typ us = ds @ rest"
    using 1 d by (auto simp: ahead_def map_eq_Cons_conv)
  then have "parser_parse q =
      parse_node (push_state PARSE_FLOW_MAPPING_VALUE_STATE (skip_token (skip_token q))) False False"
    using 1 d by (auto simp: first_defs parse_flow_mapping_key_def next_flow_entry_def)
  moreover have "advanced 0 q (skip_token (skip_token q)) (toks n @ rest)"
    using t 1 d by (simp add: advanced_def ahead_def live_def)
  ultimately show ?case by blast
qed

subsection \<open>Whole collections\<close>

lemma sequence_first:
  assumes "enters 0 st [sep] st block" and "leaves st fin SEQUENCE_END_EVENT"
    and "enters 1 st1 (start # pre) st block" and "leaves_first st1 [start, fin] SEQUENCE_END_EVENT"
    and "\<forall>t \<in> set ts. reads t \<and> (block \<or> flow_only t)"
    and "ds = (case ts of [] \<Rightarrow> [] | t # us \<Rightarrow> pre @ toks t @ concat (map (\<lambda>t. sep # toks t) us))"
    and "ahead q = start # ds @ fin # rest" and "yp_state q = st1" and "live q"
    and "yp_states q = s # ss"
  shows "\<exists>q2. closed_at s ss (yp_marks q) rest q2 \<and> sequence_reads ds ts q q2"
proof (cases ts)
  case Nil
  then have "ahead q = [start, fin] @ rest" using assms(6,7) by simp
  from leaves_firstD [OF assms(4) this assms(8-10)]
  obtain ev q' where "parser_parse q = Parsed ev q'" "ev_typ ev = SEQUENCE_END_EVENT"
      "closed_at s ss (yp_marks q) rest q'"
    by blast
  then show ?thesis using Nil sequence_end by blast
next
  case (Cons t us)
  let ?ds = "concat (map (\<lambda>t. sep # toks t) us)"
  have t: "reads t" "block \<or> flow_only t" using assms(5) Cons by auto
  have ah: "ahead q = (start # pre) @ toks t @ (?ds @ fin # rest)" using assms(6,7) Cons by simp
  from leaf_entry [OF assms(3) t ah assms(8,9)]
  obtain e q1 q2 where q: "resume q = Built () \<lparr>bl_parser = q1, bl_event = e\<rparr>" "builds t e q1 q2"
      "yp_state q2 = st" "advanced 1 q q2 (?ds @ fin # rest)"
    by blast
  then obtain m where q2: "yp_marks q2 = m # yp_marks q" "ahead q2 = ?ds @ fin # rest" "live q2"
      "yp_states q2 = s # ss"
    using assms(10) by (cases "yp_marks q2") (auto simp: advanced_def)
  have us: "\<forall>t \<in> set us. reads t \<and> (block \<or> flow_only t)" using assms(5) Cons by simp
  from sequence_rest [OF assms(1,2) us q2(2) q(3) q2(3,4,1)]
  obtain q3 where q3: "closed_at s ss (yp_marks q) rest q3" "sequence_reads ?ds us q2 q3" by blast
  have "sequence_reads ds ts q q3"
    unfolding Cons by (rule sequence_step [OF q(1,2) q3(2)]) (simp add: assms(6) Cons)
  then show ?thesis using q3(1) by blast
qed

lemma mapping_first:
  assumes "enters 0 stk (pre @ [KEY_TOKEN]) stv block" and "enters 0 stv [VALUE_TOKEN] stk block"
    and "leaves stk fin MAPPING_END_EVENT"
    and "enters 1 st1 [start, KEY_TOKEN] stv block" and "leaves_first st1 [start, fin] MAPPING_END_EVENT"
    and "\<forall>(k, v) \<in> set kvs. reads k \<and> reads v \<and> (block \<or> flow_only k \<and> flow_only v)"
    and "ds = (case kvs of [] \<Rightarrow> [] | (k, v) # us \<Rightarrow>
      KEY_TOKEN # toks k @ VALUE_TOKEN # toks v @ concat (map (pair_tokens pre) us))"
    and "ahead q = start # ds @ fin # rest" and "yp_state q = st1" and "live q"
    and "yp_states q = s # ss"
  shows "\<exists>q2. closed_at s ss (yp_marks q) rest q2 \<and> mapping_reads ds kvs q q2"
proof (cases kvs)
  case Nil
  then have "ahead q = [start, fin] @ rest" using assms(7,8) by simp
  from leaves_firstD [OF assms(5) this assms(9-11)]
  obtain ev q' where "parser_parse q = Parsed ev q'" "ev_typ ev = MAPPING_END_EVENT"
      "closed_at s ss (yp_marks q) rest q'"
    by blast
  then show ?thesis using Nil mapping_end by blast
next
  case (Cons kv us)
  obtain k v where kv: "kv = (k, v)" by (cases kv)
  let ?ds = "concat (map (pair_tokens pre) us)"
  have t: "reads k" "block \<or> flow_only k" "reads v" "block \<or> flow_only v" using assms(6) Cons kv by auto
  have ah: "ahead q = [start, KEY_TOKEN] @ toks k @ (VALUE_TOKEN # toks v @ ?ds @ fin # rest)"
    using assms(7,8) Cons kv by simp
  from leaf_entry [OF assms(4) t(1,2) ah assms(9,10)]
  obtain e q1 q2 where q: "resume q = Built () \<lparr>bl_parser = q1, bl_event = e\<rparr>" "builds k e q1 q2"
      "yp_state q2 = stv" "advanced 1 q q2 (VALUE_TOKEN # toks v @ ?ds @ fin # rest)"
    by blast
  then obtain m where q2: "yp_marks q2 = m # yp_marks q"
      "ahead q2 = [VALUE_TOKEN] @ toks v @ (?ds @ fin # rest)" "live q2" "yp_states q2 = s # ss"
    using assms(11) by (cases "yp_marks q2") (auto simp: advanced_def)
  from leaf_entry [OF assms(2) t(3,4) q2(2) q(3) q2(3)]
  obtain e' q1' q3 where q3: "resume q2 = Built () \<lparr>bl_parser = q1', bl_event = e'\<rparr>" "builds v e' q1' q3"
      "yp_state q3 = stk" "advanced 0 q2 q3 (?ds @ fin # rest)"
    by blast
  then have q3': "ahead q3 = ?ds @ fin # rest" "live q3" "yp_states q3 = s # ss" "yp_marks q3 = m # yp_marks q"
    using q2 by (simp_all add: advanced_def)
  have us: "\<forall>(k, v) \<in> set us. reads k \<and> reads v \<and> (block \<or> flow_only k \<and> flow_only v)"
    using assms(6) Cons by simp
  from mapping_rest [OF assms(1-3) us q3'(1) q3(3) q3'(2-4)]
  obtain q4 where q4: "closed_at s ss (yp_marks q) rest q4" "mapping_reads ?ds us q3 q4" by blast
  have "mapping_reads ds kvs q q4"
    unfolding Cons kv by (rule mapping_step [OF q(1,2) q3(1,2) q4(2)]) (simp add: assms(7) Cons kv)
  then show ?thesis using q4(1) by blast
qed

lemma builds_sequence:
  assumes "sequence_reads ds ts q1 q2" and "ev_typ e = SEQUENCE_START_EVENT a tag imp st"
    and "length ds + 1 < length (toks (TSeq a tag flow ts))"
  shows "builds (TSeq a tag flow ts) e q1 q2"
  unfolding builds_def
proof (intro conjI allI impI)
  fix n assume n: "2 * length (toks (TSeq a tag flow ts)) \<le> n"
  then obtain k where k: "n = Suc k" using assms(3) by (cases n) auto
  then show "build_node n \<lparr>bl_parser = q1, bl_event = e\<rparr> =
      bind_built (resume q2) (\<lambda>_ b. Built (node_of (TSeq a tag flow ts), anchors_of (TSeq a tag flow ts)) b)"
    using assms(1) n assms(3) unfolding sequence_reads_def
    by (simp add: assms(2) builder_skip_resume del: toks.simps)
qed (simp add: assms(2))

lemma builds_mapping:
  assumes "mapping_reads ds kvs q1 q2" and "ev_typ e = MAPPING_START_EVENT a tag imp st"
    and "length ds + 1 < length (toks (TMap a tag flow kvs))"
  shows "builds (TMap a tag flow kvs) e q1 q2"
  unfolding builds_def
proof (intro conjI allI impI)
  fix n assume n: "2 * length (toks (TMap a tag flow kvs)) \<le> n"
  then obtain k where k: "n = Suc k" using assms(3) by (cases n) auto
  then show "build_node n \<lparr>bl_parser = q1, bl_event = e\<rparr> =
      bind_built (resume q2) (\<lambda>_ b. Built (node_of (TMap a tag flow kvs), anchors_of (TMap a tag flow kvs)) b)"
    using assms(1) n assms(3) unfolding mapping_reads_def
    by (simp add: assms(2) builder_skip_resume del: toks.simps)
qed (simp add: assms(2))

text \<open>Opening a collection: its start token stays ahead.\<close>

fun open_event :: "token_data \<Rightarrow> string option \<Rightarrow> string \<Rightarrow> event_data" where
  "open_event BLOCK_SEQUENCE_START_TOKEN a tag = SEQUENCE_START_EVENT a tag (tag = '''') BLOCK_SEQUENCE_STYLE"
| "open_event FLOW_SEQUENCE_START_TOKEN a tag = SEQUENCE_START_EVENT a tag (tag = '''') FLOW_SEQUENCE_STYLE"
| "open_event BLOCK_MAPPING_START_TOKEN a tag = MAPPING_START_EVENT a tag (tag = '''') BLOCK_MAPPING_STYLE"
| "open_event FLOW_MAPPING_START_TOKEN a tag = MAPPING_START_EVENT a tag (tag = '''') FLOW_MAPPING_STYLE"
| "open_event _ a tag = NO_EVENT"

fun opened_state :: "token_data \<Rightarrow> parser_state" where
  "opened_state BLOCK_SEQUENCE_START_TOKEN = PARSE_BLOCK_SEQUENCE_FIRST_ENTRY_STATE"
| "opened_state FLOW_SEQUENCE_START_TOKEN = PARSE_FLOW_SEQUENCE_FIRST_ENTRY_STATE"
| "opened_state BLOCK_MAPPING_START_TOKEN = PARSE_BLOCK_MAPPING_FIRST_KEY_STATE"
| "opened_state FLOW_MAPPING_START_TOKEN = PARSE_FLOW_MAPPING_FIRST_KEY_STATE"
| "opened_state _ = PARSE_END_STATE"

lemma open_collection:
  assumes "ahead q = props a tag @ d # ds" and "live q"
    and "d \<in> {FLOW_SEQUENCE_START_TOKEN, FLOW_MAPPING_START_TOKEN} \<or>
      block \<and> d \<in> {BLOCK_SEQUENCE_START_TOKEN, BLOCK_MAPPING_START_TOKEN}"
  shows "\<exists>e q1. parse_node q block ind = Parsed e q1 \<and> ev_typ e = open_event d a tag \<and>
    yp_state q1 = opened_state d \<and> yp_states q1 = yp_states q \<and> yp_marks q1 = yp_marks q \<and> live q1 \<and>
    ahead q1 = d # ds"
proof -
  obtain sm em p1 where p1: "parse_node q block ind = node_content p1 block ind a tag sm em"
      "ahead p1 = d # ds" "yp_states p1 = yp_states q" "yp_marks p1 = yp_marks q" "live p1"
    using parse_node_props [OF assms(1) _ _ assms(2), of block ind] assms(3) by auto
  obtain t ts where "yp_tokens p1 = t # ts" "tk_typ t = d" using ahead_cases [OF p1(2)] by blast
  then show ?thesis
    using p1 assms(3) by (auto simp: node_content_def peek_token_def Let_def)
qed

lemma closed_back: "closed_at s ss (yp_marks q1) rest q2 \<Longrightarrow> yp_marks q1 = yp_marks q \<Longrightarrow> back_at q s ss rest q2"
  by (simp add: closed_at_def back_at_def)

lemma reads_sequence:
  assumes "\<forall>t \<in> set ts. reads t" and "flow \<Longrightarrow> \<forall>t \<in> set ts. flow_only t"
  shows "reads (TSeq a tag flow ts)"
  unfolding reads_def
proof (intro allI impI)
  fix q s ss rest block ind
  assume q: "ahead q = toks (TSeq a tag flow ts) @ rest" "yp_states q = s # ss" "live q"
    "block \<or> flow_only (TSeq a tag flow ts)"
  show "\<exists>e q1 q2. parse_node q block ind = Parsed e q1 \<and> back_at q s ss rest q2 \<and>
      builds (TSeq a tag flow ts) e q1 q2"
  proof (cases flow)
    case True
    let ?ds = "tl (flow_items ts)"
    let ?d = FLOW_SEQUENCE_START_TOKEN
    have "ahead q = props a tag @ ?d # (?ds @ FLOW_SEQUENCE_END_TOKEN # rest)" using q(1) True by simp
    from open_collection [OF this q(3), of block ind]
    obtain e q1 where e: "parse_node q block ind = Parsed e q1" "ev_typ e = open_event ?d a tag"
        "yp_state q1 = opened_state ?d" "yp_states q1 = s # ss" "yp_marks q1 = yp_marks q" "live q1"
        "ahead q1 = ?d # ?ds @ FLOW_SEQUENCE_END_TOKEN # rest"
      using q(2) by auto
    have "\<exists>q2. closed_at s ss (yp_marks q1) rest q2 \<and> sequence_reads ?ds ts q1 q2"
      by (rule sequence_first [OF flow_sequence_entries flow_sequence_first])
         (use e assms True in \<open>auto split: list.split\<close>)
    then show ?thesis
      using e(1,2,5) closed_back builds_sequence [of ?ds ts q1 _ e] True by fastforce
  next
    case False
    then have block using q(4) by auto
    let ?ds = "block_items ts"
    let ?d = BLOCK_SEQUENCE_START_TOKEN
    have "ahead q = props a tag @ ?d # (?ds @ BLOCK_END_TOKEN # rest)" using q(1) False by simp
    from open_collection [OF this q(3), of block ind]
    obtain e q1 where e: "parse_node q block ind = Parsed e q1" "ev_typ e = open_event ?d a tag"
        "yp_state q1 = opened_state ?d" "yp_states q1 = s # ss" "yp_marks q1 = yp_marks q" "live q1"
        "ahead q1 = ?d # ?ds @ BLOCK_END_TOKEN # rest"
      using q(2) \<open>block\<close> by auto
    have "\<exists>q2. closed_at s ss (yp_marks q1) rest q2 \<and> sequence_reads ?ds ts q1 q2"
      by (rule sequence_first [OF block_sequence_entries block_sequence_first])
         (use e assms in \<open>auto split: list.split\<close>)
    then show ?thesis
      using e(1,2,5) closed_back builds_sequence [of ?ds ts q1 _ e] False by fastforce
  qed
qed

lemma pair_tokens_eq:
  "concat (map (pair_tokens []) kvs) = block_pairs kvs"
  "concat (map (pair_tokens [FLOW_ENTRY_TOKEN]) kvs) = flow_pairs kvs"
  by (induction kvs) (auto simp: pair_tokens_def)

lemma reads_mapping:
  assumes "\<forall>(k, v) \<in> set kvs. reads k \<and> reads v"
    and "flow \<Longrightarrow> \<forall>(k, v) \<in> set kvs. flow_only k \<and> flow_only v"
  shows "reads (TMap a tag flow kvs)"
  unfolding reads_def
proof (intro allI impI)
  fix q s ss rest block ind
  assume q: "ahead q = toks (TMap a tag flow kvs) @ rest" "yp_states q = s # ss" "live q"
    "block \<or> flow_only (TMap a tag flow kvs)"
  show "\<exists>e q1 q2. parse_node q block ind = Parsed e q1 \<and> back_at q s ss rest q2 \<and>
      builds (TMap a tag flow kvs) e q1 q2"
  proof (cases flow)
    case True
    let ?ds = "tl (flow_pairs kvs)"
    let ?d = FLOW_MAPPING_START_TOKEN
    have "ahead q = props a tag @ ?d # (?ds @ FLOW_MAPPING_END_TOKEN # rest)" using q(1) True by simp
    from open_collection [OF this q(3), of block ind]
    obtain e q1 where e: "parse_node q block ind = Parsed e q1" "ev_typ e = open_event ?d a tag"
        "yp_state q1 = opened_state ?d" "yp_states q1 = s # ss" "yp_marks q1 = yp_marks q" "live q1"
        "ahead q1 = ?d # ?ds @ FLOW_MAPPING_END_TOKEN # rest"
      using q(2) by auto
    have entry: "enters 0 PARSE_FLOW_MAPPING_KEY_STATE ([FLOW_ENTRY_TOKEN] @ [KEY_TOKEN])
        PARSE_FLOW_MAPPING_VALUE_STATE False"
      using flow_mapping_key_entries by simp
    have "\<exists>q2. closed_at s ss (yp_marks q1) rest q2 \<and> mapping_reads ?ds kvs q1 q2"
      by (rule mapping_first [OF entry flow_mapping_value_entries flow_mapping_first])
         (use e assms True in \<open>auto split: list.split simp: pair_tokens_eq\<close>)
    then show ?thesis
      using e(1,2,5) closed_back builds_mapping [of ?ds kvs q1 _ e] True by fastforce
  next
    case False
    then have block using q(4) by auto
    let ?ds = "block_pairs kvs"
    let ?d = BLOCK_MAPPING_START_TOKEN
    have "ahead q = props a tag @ ?d # (?ds @ BLOCK_END_TOKEN # rest)" using q(1) False by simp
    from open_collection [OF this q(3), of block ind]
    obtain e q1 where e: "parse_node q block ind = Parsed e q1" "ev_typ e = open_event ?d a tag"
        "yp_state q1 = opened_state ?d" "yp_states q1 = s # ss" "yp_marks q1 = yp_marks q" "live q1"
        "ahead q1 = ?d # ?ds @ BLOCK_END_TOKEN # rest"
      using q(2) \<open>block\<close> by auto
    have entry: "enters 0 PARSE_BLOCK_MAPPING_KEY_STATE ([] @ [KEY_TOKEN]) PARSE_BLOCK_MAPPING_VALUE_STATE True"
      using block_mapping_entries(1) by simp
    have "\<exists>q2. closed_at s ss (yp_marks q1) rest q2 \<and> mapping_reads ?ds kvs q1 q2"
      by (rule mapping_first [OF entry block_mapping_entries(2,3) block_mapping_first])
         (use e assms in \<open>auto split: list.split simp: pair_tokens_eq\<close>)
    then show ?thesis
      using e(1,2,5) closed_back builds_mapping [of ?ds kvs q1 _ e] False by fastforce
  qed
qed

lemma writable_reads: "writable t \<Longrightarrow> reads t"
proof (induction t rule: writable.induct)
  case (3 a tag flow ts)
  then show ?case by (intro reads_sequence) auto
next
  case (4 a tag flow kvs)
  then show ?case by (intro reads_mapping) fastforce+
qed (simp_all add: reads_scalar reads_alias)

subsection \<open>Whole streams\<close>

text \<open>A stream of one document, with or without its start and end indicators.\<close>

definition stream_tokens :: "yencoding \<Rightarrow> bool \<Rightarrow> bool \<Rightarrow> ytree \<Rightarrow> token_data list" where
  "stream_tokens enc explicit ended t =
     STREAM_START_TOKEN enc # (if explicit then [DOCUMENT_START_TOKEN] else []) @ toks t @
     (if ended then [DOCUMENT_END_TOKEN] else []) @ [STREAM_END_TOKEN]"

lemma directives_none:
  assumes "ahead q = d # ds" and "\<And>a b. d \<noteq> VERSION_DIRECTIVE_TOKEN a b" and "\<And>a b. d \<noteq> TAG_DIRECTIVE_TOKEN a b"
  shows "\<exists>tds. process_directives q = Parsed (None, []) (q\<lparr>yp_tag_directives := tds\<rparr>)"
proof -
  obtain t ts where t: "yp_tokens q = t # ts" "tk_typ t = d" using ahead_cases [OF assms(1)] by blast
  have "\<exists>tds. append_default_directives default_tag_directives q m = Parsed () (q\<lparr>yp_tag_directives := tds\<rparr>)" for m
    by (auto simp: default_tag_directives_def append_tag_directive_def split: if_splits)
       (metis yparser.surjective yparser.update_convs(7))+
  then obtain tds where "append_default_directives default_tag_directives q (tk_start t) =
      Parsed () (q\<lparr>yp_tag_directives := tds\<rparr>)"
    by blast
  then show ?thesis
    using t assms(2,3) by (cases d) (auto simp: process_directives_def)
qed

lemma document_opened:
  assumes "ahead q = (if explicit then [DOCUMENT_START_TOKEN] else []) @ toks t @ rest"
    and "yp_state q = PARSE_IMPLICIT_DOCUMENT_START_STATE" and "yp_states q = []" and "live q"
  shows "\<exists>e q1. parser_parse q = Parsed e q1 \<and> (\<exists>vd tds i. ev_typ e = DOCUMENT_START_EVENT vd tds i) \<and>
    parser_parse q1 = parse_node q1 True False \<and> yp_states q1 = [PARSE_DOCUMENT_END_STATE] \<and>
    live q1 \<and> ahead q1 = toks t @ rest"
proof -
  obtain d ds where d: "toks t = d # ds" "starts_node d" using toks_start by blast
  show ?thesis
  proof (cases explicit)
    case True
    then obtain u us where u: "yp_tokens q = u # us" "tk_typ u = DOCUMENT_START_TOKEN"
        "map tk_typ us = toks t @ rest"
      using assms(1) by (auto simp: ahead_def map_eq_Cons_conv)
    have "ahead q = DOCUMENT_START_TOKEN # toks t @ rest" using assms(1) True by simp
    from directives_none [OF this]
    obtain tds where tds: "process_directives q = Parsed (None, []) (q\<lparr>yp_tag_directives := tds\<rparr>)" by auto
    let ?q1 = "skip_token (set_state PARSE_DOCUMENT_CONTENT_STATE (push_state PARSE_DOCUMENT_END_STATE
      (q\<lparr>yp_tag_directives := tds\<rparr>)))"
    let ?e = "event_at (DOCUMENT_START_EVENT None [] False) (tk_start u) (tk_end u)"
    have e: "parser_parse q = Parsed ?e ?q1"
      using assms u tds
      by (simp add: parser_parse_live state_machine_def parse_document_start_def peek_token_def Let_def)
    have q1: "live ?q1" "ahead ?q1 = toks t @ rest" "yp_states ?q1 = [PARSE_DOCUMENT_END_STATE]"
      using assms(3,4) u by (simp_all add: live_def ahead_def)
    have "parser_parse ?q1 = parse_node ?q1 True False"
      using q1(1,2) d u
      by (cases d) (auto simp: parser_parse_live state_machine_def parse_document_content_def
          peek_token_def ahead_def map_eq_Cons_conv)
    then show ?thesis using e q1 by (intro exI [of _ ?e] exI [of _ ?q1]) auto
  next
    case False
    then obtain u us where u: "yp_tokens q = u # us" "tk_typ u = d" "map tk_typ us = ds @ rest"
      using assms(1) d by (auto simp: ahead_def map_eq_Cons_conv)
    have "ahead q = d # ds @ rest" using assms(1) d False by simp
    moreover have "\<And>a b. d \<noteq> VERSION_DIRECTIVE_TOKEN a b" "\<And>a b. d \<noteq> TAG_DIRECTIVE_TOKEN a b"
      using d(2) by auto
    ultimately obtain tds where tds: "process_directives q = Parsed (None, []) (q\<lparr>yp_tag_directives := tds\<rparr>)"
      using directives_none by blast
    let ?q1 = "set_state PARSE_BLOCK_NODE_STATE (push_state PARSE_DOCUMENT_END_STATE
      (q\<lparr>yp_tag_directives := tds\<rparr>))"
    let ?e = "event_at (DOCUMENT_START_EVENT None [] False) (tk_start u) (tk_end u)"
    have e: "parser_parse q = Parsed ?e ?q1"
      using assms u tds d(2)
      by (cases d) (simp_all add: parser_parse_live state_machine_def parse_document_start_def
          peek_token_def Let_def)
    have q1: "live ?q1" "ahead ?q1 = toks t @ rest" "yp_states ?q1 = [PARSE_DOCUMENT_END_STATE]"
      using assms(3,4) u d by (simp_all add: live_def ahead_def)
    have "parser_parse ?q1 = parse_node ?q1 True False"
      using q1(1) by (simp add: parser_parse_live state_machine_def)
    then show ?thesis using e q1 by (intro exI [of _ ?e] exI [of _ ?q1]) auto
  qed
qed

lemma document_closed:
  assumes "yp_state q = PARSE_DOCUMENT_END_STATE" and "live q"
    and "ahead q = (if ended then [DOCUMENT_END_TOKEN] else []) @ [STREAM_END_TOKEN]"
  shows "\<exists>e q1 e2 q2. parser_parse q = Parsed e q1 \<and> (\<exists>i. ev_typ e = DOCUMENT_END_EVENT i) \<and>
    parser_parse q1 = Parsed e2 q2"
proof (cases ended)
  case True
  then obtain t u where t: "yp_tokens q = [t, u]" "tk_typ t = DOCUMENT_END_TOKEN" "tk_typ u = STREAM_END_TOKEN"
    using assms(3) by (auto simp: ahead_def map_eq_Cons_conv)
  show ?thesis
    using assms(1,2) t
    by (auto simp: parser_parse_def live_def state_machine_def parse_document_end_def peek_token_def Let_def
        parse_document_start_def skip_token_def set_state_def)
next
  case False
  then obtain u where t: "yp_tokens q = [u]" "tk_typ u = STREAM_END_TOKEN"
    using assms(3) by (auto simp: ahead_def map_eq_Cons_conv)
  show ?thesis
    using assms(1,2) t
    by (auto simp: parser_parse_def live_def state_machine_def parse_document_end_def peek_token_def Let_def
        parse_document_start_def skip_token_def set_state_def)
qed

lemma yaml_parse_front:
  assumes "writable t" and "scan (if data = [] then [10] else data) = (ts, scan_error)"
    and "map tk_typ ts = stream_tokens enc explicit ended t"
  shows "yaml_parse scan data = Returns (Inr (Some (follow (anchors_of t) [] (node_of t))))"
proof -
  define p0 where "p0 = parser_initialize ts scan_error"
  let ?tail = "(if ended then [DOCUMENT_END_TOKEN] else []) @ [STREAM_END_TOKEN]"
  obtain u us where u: "ts = u # us" "tk_typ u = STREAM_START_TOKEN enc"
      "map tk_typ us = (if explicit then [DOCUMENT_START_TOKEN] else []) @ toks t @ ?tail"
    using assms(3) by (auto simp: stream_tokens_def map_eq_Cons_conv)
  define q0 where "q0 = skip_token (set_state PARSE_IMPLICIT_DOCUMENT_START_STATE p0)"
  have p0: "parser_parse p0 = Parsed (event_at (STREAM_START_EVENT enc) (tk_start u) (tk_end u)) q0"
    using u by (simp add: p0_def q0_def parser_parse_def parser_initialize_def state_machine_def
        parse_stream_start_def peek_token_def)
  have q0: "ahead q0 = (if explicit then [DOCUMENT_START_TOKEN] else []) @ toks t @ ?tail"
      "yp_state q0 = PARSE_IMPLICIT_DOCUMENT_START_STATE" "yp_states q0 = []" "live q0"
    using u by (simp_all add: q0_def p0_def parser_initialize_def ahead_def live_def set_state_def
        skip_token_def)
  obtain e q1 where q1: "parser_parse q0 = Parsed e q1"
      "\<exists>vd tds i. ev_typ e = DOCUMENT_START_EVENT vd tds i"
      "parser_parse q1 = parse_node q1 True False" "yp_states q1 = [PARSE_DOCUMENT_END_STATE]" "live q1"
      "ahead q1 = toks t @ ?tail"
    using document_opened [OF q0] by blast
  obtain e2 q2 q3 where q2: "parse_node q1 True False = Parsed e2 q2"
      "back_at q1 PARSE_DOCUMENT_END_STATE [] ?tail q3" "builds t e2 q2 q3"
    using readsD [OF writable_reads [OF assms(1)] q1(6,4,5), of True False] by blast
  obtain e3 q4 e4 q5 where q4: "parser_parse q3 = Parsed e3 q4" "\<exists>i. ev_typ e3 = DOCUMENT_END_EVENT i"
      "parser_parse q4 = Parsed e4 q5"
    using document_closed [of q3 ended] q2(2) by (auto simp: back_at_def)
  have np: "newParser scan data = Built () \<lparr>bl_parser = q1, bl_event = e\<rparr>"
    using assms(2) p0 q1(1)
    by (simp add: newParser_def builder_skip_def no_event_def p0_def)
  have len: "length (toks t) + 2 \<le> length ts" using arg_cong [OF assms(3), of length]
    by (simp add: stream_tokens_def)
  let ?n = "10 * length ts"
  have bn: "build_node ?n \<lparr>bl_parser = q2, bl_event = e2\<rparr> =
      bind_built (resume q3) (\<lambda>_ b. Built (node_of t, anchors_of t) b)"
    by (rule buildsD [OF q2(3)]) (use len in simp)
  have "build_node (Suc ?n) \<lparr>bl_parser = q1, bl_event = e\<rparr> =
      Built (DDocument (node_of t) (anchors_of t), []) \<lparr>bl_parser = q5, bl_event = e4\<rparr>"
    using q1(2,3) q2(1) bn q4 by (auto simp: builder_skip_def resume_def)
  then show ?thesis
    using np assms(2) by (simp add: yaml_parse_def yaml_tree_def Let_def)
qed

text \<open>
  C38: What is written is read. When the scanner delivers the tokens of a document, in any mixture of
  block and flow style allowed, with anchors, tags and aliases and with or without the document
  indicators, parsing and building return the tree of that document, its aliases followed through
  its own anchors; in particular scalars without a tag are marked plain exactly when they are.
\<close>
theorem yaml_parse_roundtrip:
  assumes "writable t" and "scan (if data = [] then [10] else data) = (ts, scan_error)"
    and "map tk_typ ts = stream_tokens enc explicit ended t"
  shows "yaml_parse scan data = Returns (Inr (Some (follow (anchors_of t) [] (node_of t))))"
  by (rule yaml_parse_front [where scan = scan and data = data, OF assms])

definition at_zero :: "token_data \<Rightarrow> token" where
  "at_zero d = \<lparr>tk_typ = d, tk_start = zero_mark, tk_end = zero_mark\<rparr>"

lemma at_zero_typ [simp]: "map tk_typ (map at_zero ds) = ds"
  by (induction ds) (simp_all add: at_zero_def)

text \<open>An anchor defined twice: the alias between the two definitions stands for the second.\<close>

definition twice_anchored :: ytree where
  "twice_anchored = TSeq None '''' False
     [TScalar (Some ''a'') '''' ''x'' PLAIN_SCALAR_STYLE, TAlias ''a'',
      TScalar (Some ''a'') '''' ''y'' PLAIN_SCALAR_STYLE]"

theorem yaml_parse_roundtrip_witness:
  "yaml_parse (\<lambda>_. (map at_zero (stream_tokens UTF8_ENCODING False True twice_anchored), sample_problem)) [45] =
     Returns (Inr (Some (YSequence
       [YScalar '''' ''x'' True, YAlias False (YScalar '''' ''y'' True), YScalar '''' ''y'' True])))"
proof -
  have "writable twice_anchored" by (simp add: twice_anchored_def)
  from yaml_parse_roundtrip [OF this, of "\<lambda>_. (map at_zero (stream_tokens UTF8_ENCODING False True twice_anchored), sample_problem)" "[45]"]
  show ?thesis
    by (simp add: twice_anchored_def anchored_def implicit_scalar_def may_merge_def del: map_map)
qed

subsection \<open>The configuration file\<close>

text \<open>\<open>yaml.Unmarshal\<close> on what the scanner delivers; the front end does not panic.\<close>

definition config_tree :: "(bytes \<Rightarrow> token list \<times> problem) \<Rightarrow> bytes \<Rightarrow> gerror + ynode option" where
  "config_tree scan data = (case yaml_parse scan data of Returns r \<Rightarrow> r | Panics s \<Rightarrow> Inl s)"

definition plain_key :: "string \<times> ytree \<Rightarrow> ytree \<times> ytree" where
  "plain_key kv = (TScalar None '''' (fst kv) PLAIN_SCALAR_STYLE, snd kv)"

text \<open>
  From the tokens of the configuration file to the configuration. When the file is a mapping, in
  block or flow style, with plain keys, \<open>ReadConfig\<close> returns the zero configuration changed by the
  entries whose key is the lower case name of a field, in order, the values read with their aliases
  followed; every other entry is skipped.
\<close>
theorem config_from_tokens:
  assumes "open_file filename = Inr (Inr data)"
    and "scan (if data = [] then [10] else data) = (ts, scan_error)"
    and "map tk_typ ts = stream_tokens enc explicit ended (TMap None '''' flow (map plain_key kvs))"
    and "writable (TMap None '''' flow (map plain_key kvs))"
    and "\<forall>(k, v) \<in> set kvs. yl_utf8 L k \<and> k \<noteq> ''<<''"
  shows "ReadConfig L (config_tree scan) open_file filename =
    config_entries L (filter (\<lambda>(k, _). k \<in> set config_keys)
      (map (\<lambda>(k, v). (k, follow (anchors_of (TMap None '''' flow (map plain_key kvs))) [] (node_of v))) kvs))
      zero_config"
proof -
  let ?anc = "anchors_of (TMap None '''' flow (map plain_key kvs))"
  let ?es = "map (\<lambda>(k, v). (k, follow ?anc [] (node_of v))) kvs"
  define t where "t = TMap None '''' flow (map plain_key kvs)"
  have n: "node_of t = DMapping (map (\<lambda>(k, v). (DScalar '''' k True, node_of v)) kvs)"
    by (auto simp: t_def plain_key_def implicit_scalar_def)
  have "yaml_parse scan data = Returns (Inr (Some (follow (anchors_of t) [] (node_of t))))"
    unfolding t_def by (rule yaml_parse_front [where scan = scan and data = data, OF assms(4,2,3)])
  moreover have "follow (anchors_of t) [] (node_of t) =
      YMapping (map plain_entry (map (\<lambda>(k, v). (k, follow (anchors_of t) [] (node_of v))) kvs))"
    unfolding n by (auto simp: plain_entry_def)
  ultimately have "config_tree scan data = Inr (Some (YMapping (map plain_entry ?es)))"
    by (simp add: config_tree_def t_def)
  moreover have "\<forall>(k, n) \<in> set ?es. yl_utf8 L k \<and> k \<noteq> ''<<''" using assms(5) by auto
  ultimately show ?thesis
    using assms(1) mappingStruct_plain [of ?es L zero_config]
    by (simp add: ReadConfig_def yaml_Unmarshal_def split: sum.split)
qed

definition sample_entries :: "(string \<times> ytree) list" where
  "sample_entries = [(''port'', TScalar None '''' ''8080'' SINGLE_QUOTED_SCALAR_STYLE),
     (''retryTime'', TScalar None '''' ''1000'' PLAIN_SCALAR_STYLE)]"

definition sample_scan :: "bytes \<Rightarrow> token list \<times> problem" where
  "sample_scan data = (map at_zero (stream_tokens UTF8_ENCODING False False
     (TMap None '''' False (map plain_key sample_entries))), sample_problem)"

theorem config_from_tokens_witness:
  "ReadConfig sample_yaml_lib (config_tree sample_scan) (\<lambda>_. Inr (Inr [35])) ''gridas.yaml'' =
     Inr (zero_config\<lparr>cfg_Port := ''8080''\<rparr>)"
proof -
  have "writable (TMap None '''' False (map plain_key sample_entries))"
    by (simp add: sample_entries_def plain_key_def)
  from config_from_tokens [of "\<lambda>_. Inr (Inr [35])" "''gridas.yaml''" "[35]" sample_scan
      "map at_zero (stream_tokens UTF8_ENCODING False False
         (TMap None '''' False (map plain_key sample_entries)))" sample_problem
      UTF8_ENCODING False False False sample_entries sample_yaml_lib, OF _ _ _ this]
  show ?thesis
    by (simp add: sample_scan_def sample_entries_def sample_yaml_lib_def config_keys_def config_entry_def
        put_def implicit_scalar_def scalar_value_def into_string_def zero_config_def del: map_map)
qed

end
