(* ===== verification/BsonWrite.thy ===== *)
theory BsonWrite
  imports Documents
begin

text \<open>
  The writing side of \<open>mgo/bson/encode.go\<close>: an \<open>encoder\<close> is the bytes written so far, and every
  method takes them and gives them back longer. A document is a \<open>D\<close>, its elements hold values of the
  kinds of theory \<open>Bson\<close>, and a value is written for its kind. The panics of the encoder are strings,
  which \<open>Marshal\<close> turns into its error; they are \<open>Inl\<close> here.
\<close>

subsection \<open>Base types\<close>

definition addBytes :: "bytes \<Rightarrow> bytes \<Rightarrow> bytes" where
  "addBytes v out = out @ v"

definition le32 :: "32 word \<Rightarrow> bytes" where
  "le32 v = [ucast v, ucast (drop_bit 8 v), ucast (drop_bit 16 v), ucast (drop_bit 24 v)]"

definition le64 :: "64 word \<Rightarrow> bytes" where
  "le64 v = [ucast v, ucast (drop_bit 8 v), ucast (drop_bit 16 v), ucast (drop_bit 24 v),
     ucast (drop_bit 32 v), ucast (drop_bit 40 v), ucast (drop_bit 48 v), ucast (drop_bit 56 v)]"

definition addInt32 :: "32 word \<Rightarrow> bytes \<Rightarrow> bytes" where
  "addInt32 v out = addBytes (le32 v) out"

definition addInt64 :: "64 word \<Rightarrow> bytes \<Rightarrow> bytes" where
  "addInt64 v out = addBytes (le64 v) out"

text \<open>The position of four bytes to be filled in when the length is known.\<close>

definition reserveInt32 :: "bytes \<Rightarrow> nat \<times> bytes" where
  "reserveInt32 out = (length out, addBytes [0, 0, 0, 0] out)"

definition setInt32 :: "nat \<Rightarrow> 32 word \<Rightarrow> bytes \<Rightarrow> bytes" where
  "setInt32 pos v out =
     out[pos := ucast v, pos + 1 := ucast (drop_bit 8 v), pos + 2 := ucast (drop_bit 16 v),
         pos + 3 := ucast (drop_bit 24 v)]"

definition addCStr :: "string \<Rightarrow> bytes \<Rightarrow> bytes" where
  "addCStr v out = addBytes [0] (addBytes (bytes_of_string v) out)"

definition addStr :: "string \<Rightarrow> bytes \<Rightarrow> bytes" where
  "addStr v out = addCStr v (addInt32 (word_of_nat (length v + 1)) out)"

definition addBinary :: "byte \<Rightarrow> bytes \<Rightarrow> bytes \<Rightarrow> bytes" where
  "addBinary subtype v out =
     addBytes v
       (if subtype = 2 then
          addInt32 (word_of_nat (length v)) (addBytes [subtype]
            (addInt32 (word_of_nat (length v + 4)) out))
        else addBytes [subtype] (addInt32 (word_of_nat (length v)) out))"

definition addElemName :: "byte \<Rightarrow> string \<Rightarrow> bytes \<Rightarrow> bytes" where
  "addElemName kind name out = addBytes [0] (addBytes (bytes_of_string name) (addBytes [kind] out))"

subsection \<open>Elements and documents\<close>

definition bad_object_id :: "bytes \<Rightarrow> gerror" where
  "bad_object_id b = ''ObjectIDs must be exactly 12 bytes long (got '' @ itoa (length b) @ '')''"

text \<open>The length of what was written from \<open>start\<close> on goes where it was reserved.\<close>

definition set_length :: "nat \<Rightarrow> bytes \<Rightarrow> bytes" where
  "set_length start out = setInt32 start (word_of_nat (length out - start)) out"

text \<open>
  The loop of \<open>addSlice\<close> and of \<open>addMap\<close>, and \<open>addDoc\<close> around it: \<open>body\<close> writes the elements.
\<close>

fun each_elem :: "('a \<Rightarrow> bytes \<Rightarrow> gerror + bytes) \<Rightarrow> 'a list \<Rightarrow> bytes \<Rightarrow> gerror + bytes" where
  "each_elem f [] out = Inr out"
| "each_elem f (x # xs) out = (case f x out of Inl e \<Rightarrow> Inl e | Inr out1 \<Rightarrow> each_elem f xs out1)"

lemma each_elem_cong [fundef_cong]:
  "xs = ys \<Longrightarrow> out = out' \<Longrightarrow> (\<And>x out. x \<in> set ys \<Longrightarrow> f x out = g x out) \<Longrightarrow>
     each_elem f xs out = each_elem g ys out'"
proof (induction ys arbitrary: xs out out')
  case (Cons y ys)
  then show ?case by (auto split: sum.split)
qed simp

definition addDoc :: "(bytes \<Rightarrow> gerror + bytes) \<Rightarrow> bytes \<Rightarrow> gerror + bytes" where
  "addDoc body out =
     (let (start, out1) = reserveInt32 out in
      case body out1 of
        Inl e \<Rightarrow> Inl e
      | Inr out2 \<Rightarrow> Inr (set_length start (addBytes [0] out2)))"

lemma addDoc_cong [fundef_cong]:
  "out = out' \<Longrightarrow> (\<And>out. f out = g out) \<Longrightarrow> addDoc f out = addDoc g out'"
  by (simp add: addDoc_def)

text \<open>\<open>JavaScript\<close> with a scope: a length, the code, and the scope as a document.\<close>

definition addScoped :: "string \<Rightarrow> (bytes \<Rightarrow> gerror + bytes) \<Rightarrow> bytes \<Rightarrow> gerror + bytes" where
  "addScoped code scope out =
     (let (start, out1) = reserveInt32 out in
      case addDoc scope (addStr code out1) of
        Inl e \<Rightarrow> Inl e
      | Inr out2 \<Rightarrow> Inr (set_length start out2))"

lemma addScoped_cong [fundef_cong]:
  "code = code' \<Longrightarrow> out = out' \<Longrightarrow> (\<And>out. f out = g out) \<Longrightarrow>
     addScoped code f out = addScoped code' g out'"
  by (simp add: addScoped_def addDoc_def)

lemma size_in_doc: "(k, v) \<in> set d \<Longrightarrow> size v < Suc (size_list (size_prod (\<lambda>_. 0) size) d)"
  by (induction d) auto

lemma size_in_arr: "(i, v) \<in> set (enumerate n vs) \<Longrightarrow> size v < Suc (size_list size vs)"
proof (induction vs arbitrary: n)
  case (Cons a vs)
  then show ?case by (auto simp: enumerate_simps dest!: Cons.IH)
qed simp

function (sequential) addElem :: "string \<Rightarrow> bval \<Rightarrow> bytes \<Rightarrow> gerror + bytes" where
  "addElem name (BFloat w) out = Inr (addInt64 w (addElemName 0x01 name out))"
| "addElem name (BStr s) out = Inr (addStr s (addElemName 0x02 name out))"
| "addElem name (BDoc d) out =
     addDoc (each_elem (\<lambda>(k, v). addElem k v) d) (addElemName 0x03 name out)"
| "addElem name (BArr vs) out =
     addDoc (each_elem (\<lambda>(i, v). addElem (itoa i) v) (enumerate 0 vs)) (addElemName 0x04 name out)"
| "addElem name (BBin k b) out = Inr (addBinary k b (addElemName 0x05 name out))"
| "addElem name BUndefined out = Inr (addElemName 0x06 name out)"
| "addElem name (BObjectId b) out =
     (if length b \<noteq> 12 then Inl (bad_object_id b)
      else Inr (addBytes b (addElemName 0x07 name out)))"
| "addElem name (BBool b) out = Inr (addBytes [if b then 1 else 0] (addElemName 0x08 name out))"
| "addElem name (BTime w) out = Inr (addInt64 w (addElemName 0x09 name out))"
| "addElem name BNull out = Inr (addElemName 0x0A name out)"
| "addElem name (BRegEx p opts) out = Inr (addCStr opts (addCStr p (addElemName 0x0B name out)))"
| "addElem name (BJavaScript code) out = Inr (addStr code (addElemName 0x0D name out))"
| "addElem name (BSymbol s) out = Inr (addStr s (addElemName 0x0E name out))"
| "addElem name (BScoped code scope) out =
     addScoped code (each_elem (\<lambda>(k, v). addElem k v) scope) (addElemName 0x0F name out)"
| "addElem name (BInt32 w) out = Inr (addInt32 w (addElemName 0x10 name out))"
| "addElem name (BTimestamp w) out = Inr (addInt64 w (addElemName 0x11 name out))"
| "addElem name (BInt64 w) out = Inr (addInt64 w (addElemName 0x12 name out))"
| "addElem name BMaxKey out = Inr (addElemName 0x7F name out)"
| "addElem name BMinKey out = Inr (addElemName 0xFF name out)"
  by pat_completeness auto

termination
  by (relation "measure (\<lambda>(name, v, out). size v)") (auto simp: size_in_doc size_in_arr)

definition bson_Marshal :: "bdoc \<Rightarrow> gerror + bytes" where
  "bson_Marshal d = addDoc (each_elem (\<lambda>(k, v). addElem k v) d) []"

subsection \<open>The format\<close>

text \<open>
  What the bytes are: a document is the length of it all, its elements and a zero byte; an element is
  the number of its kind, its name closed by a zero byte, and its value.
\<close>

definition framed :: "bytes \<Rightarrow> bytes" where
  "framed body = le32 (word_of_nat (length body + 5)) @ body @ [0]"

definition str_bytes :: "string \<Rightarrow> bytes" where
  "str_bytes s = le32 (word_of_nat (length s + 1)) @ bytes_of_string s @ [0]"

definition bin_bytes :: "byte \<Rightarrow> bytes \<Rightarrow> bytes" where
  "bin_bytes k b =
     (if k = 2 then le32 (word_of_nat (length b + 4)) @ [k] @ le32 (word_of_nat (length b)) @ b
      else le32 (word_of_nat (length b)) @ [k] @ b)"

fun kind_of :: "bval \<Rightarrow> byte" where
  "kind_of (BFloat _) = 0x01"
| "kind_of (BStr _) = 0x02"
| "kind_of (BDoc _) = 0x03"
| "kind_of (BArr _) = 0x04"
| "kind_of (BBin _ _) = 0x05"
| "kind_of BUndefined = 0x06"
| "kind_of (BObjectId _) = 0x07"
| "kind_of (BBool _) = 0x08"
| "kind_of (BTime _) = 0x09"
| "kind_of BNull = 0x0A"
| "kind_of (BRegEx _ _) = 0x0B"
| "kind_of (BJavaScript _) = 0x0D"
| "kind_of (BSymbol _) = 0x0E"
| "kind_of (BScoped _ _) = 0x0F"
| "kind_of (BInt32 _) = 0x10"
| "kind_of (BTimestamp _) = 0x11"
| "kind_of (BInt64 _) = 0x12"
| "kind_of BMaxKey = 0x7F"
| "kind_of BMinKey = 0xFF"

definition elem_bytes :: "byte \<Rightarrow> string \<Rightarrow> bytes \<Rightarrow> bytes" where
  "elem_bytes kind name b = kind # bytes_of_string name @ 0 # b"

function (sequential) value_bytes :: "bval \<Rightarrow> bytes" where
  "value_bytes (BFloat w) = le64 w"
| "value_bytes (BStr s) = str_bytes s"
| "value_bytes (BDoc d) =
     framed (concat (map (\<lambda>(k, v). elem_bytes (kind_of v) k (value_bytes v)) d))"
| "value_bytes (BArr vs) =
     framed (concat (map (\<lambda>(i, v). elem_bytes (kind_of v) (itoa i) (value_bytes v)) (enumerate 0 vs)))"
| "value_bytes (BBin k b) = bin_bytes k b"
| "value_bytes (BObjectId b) = b"
| "value_bytes (BBool b) = [if b then 1 else 0]"
| "value_bytes (BTime w) = le64 w"
| "value_bytes (BRegEx p opts) = bytes_of_string p @ [0] @ bytes_of_string opts @ [0]"
| "value_bytes (BJavaScript code) = str_bytes code"
| "value_bytes (BSymbol s) = str_bytes s"
| "value_bytes (BScoped code d) =
     (let body = str_bytes code @
        framed (concat (map (\<lambda>(k, v). elem_bytes (kind_of v) k (value_bytes v)) d))
      in le32 (word_of_nat (length body + 4)) @ body)"
| "value_bytes (BInt32 w) = le32 w"
| "value_bytes (BTimestamp w) = le64 w"
| "value_bytes (BInt64 w) = le64 w"
| "value_bytes _ = []"
  by pat_completeness auto

termination
  by (relation "measure size") (auto simp: size_in_doc size_in_arr)

definition elems_bytes :: "bdoc \<Rightarrow> bytes" where
  "elems_bytes d = concat (map (\<lambda>(k, v). elem_bytes (kind_of v) k (value_bytes v)) d)"

definition items_bytes :: "nat \<Rightarrow> bval list \<Rightarrow> bytes" where
  "items_bytes i vs =
     concat (map (\<lambda>(i, v). elem_bytes (kind_of v) (itoa i) (value_bytes v)) (enumerate i vs))"

lemma elems_bytes_simps [simp]:
  "elems_bytes [] = []"
  "elems_bytes ((k, v) # d) = elem_bytes (kind_of v) k (value_bytes v) @ elems_bytes d"
  "items_bytes i [] = []"
  "items_bytes i (v # vs) = elem_bytes (kind_of v) (itoa i) (value_bytes v) @ items_bytes (Suc i) vs"
  by (simp_all add: elems_bytes_def items_bytes_def enumerate_simps)

lemma value_bytes_docs:
  "value_bytes (BDoc d) = framed (elems_bytes d)"
  "value_bytes (BArr vs) = framed (items_bytes 0 vs)"
  "value_bytes (BScoped code d) = (let body = str_bytes code @ framed (elems_bytes d) in
     le32 (word_of_nat (length body + 4)) @ body)"
  by (simp_all add: elems_bytes_def items_bytes_def)

definition doc_bytes :: "bdoc \<Rightarrow> bytes" where
  "doc_bytes d = framed (elems_bytes d)"

lemma size_in_vals: "v \<in> set vs \<Longrightarrow> size v < Suc (size_list size vs)"
  by (induction vs) auto

text \<open>
  Object ids are the one thing the encoder refuses: they are strings that may have any length. These
  are the refused ones, in the order they are met.
\<close>

function (sequential) bad_ids :: "bval \<Rightarrow> bytes list" where
  "bad_ids (BObjectId b) = (if length b = 12 then [] else [b])"
| "bad_ids (BDoc d) = concat (map (\<lambda>(_, v). bad_ids v) d)"
| "bad_ids (BArr vs) = concat (map (\<lambda>v. bad_ids v) vs)"
| "bad_ids (BScoped _ d) = concat (map (\<lambda>(_, v). bad_ids v) d)"
| "bad_ids _ = []"
  by pat_completeness auto

termination
  by (relation "measure size") (auto simp: size_in_doc size_in_vals)

definition doc_bad_ids :: "bdoc \<Rightarrow> bytes list" where
  "doc_bad_ids d = concat (map (\<lambda>(_, v). bad_ids v) d)"

lemma length_bytes_of_string [simp]: "length (bytes_of_string s) = length s"
  by (simp add: bytes_of_string_def)

lemma length_le32 [simp]: "length (le32 w) = 4" and length_le64 [simp]: "length (le64 v) = 8"
  by (simp_all add: le32_def le64_def)

lemma addElemName_eq: "addElemName kind name out = out @ kind # bytes_of_string name @ [0]"
  by (simp add: addElemName_def addBytes_def)

lemma addStr_eq: "addStr s out = out @ str_bytes s"
  by (simp add: addStr_def addCStr_def addInt32_def addBytes_def str_bytes_def)

lemma addBinary_eq: "addBinary k b out = out @ bin_bytes k b"
  by (simp add: addBinary_def addInt32_def addBytes_def bin_bytes_def)

lemma set_length_reserved:
  "set_length (length out) (out @ [0, 0, 0, 0] @ body) = out @ le32 (word_of_nat (length body + 4)) @ body"
  by (simp add: set_length_def setInt32_def le32_def list_update_append add.commute)

lemmas encoder_eqs = addElemName_eq addStr_eq addBinary_eq addInt32_def addInt64_def addCStr_def
  addBytes_def reserveInt32_def

text \<open>A writer appends the bytes \<open>b\<close>, or refuses the first of the ids in \<open>bad\<close>.\<close>

definition appends :: "(bytes \<Rightarrow> gerror + bytes) \<Rightarrow> bytes list \<Rightarrow> bytes \<Rightarrow> bool" where
  "appends w bad b \<longleftrightarrow>
     (\<forall>out. w out = (case bad of [] \<Rightarrow> Inr (out @ b) | x # _ \<Rightarrow> Inl (bad_object_id x)))"

lemma appends_each:
  "(\<And>x. x \<in> set xs \<Longrightarrow> appends (f x) (bad x) (b x)) \<Longrightarrow>
     appends (each_elem f xs) (concat (map bad xs)) (concat (map b xs))"
proof (induction xs)
  case (Cons x xs)
  have "appends (f x) (bad x) (b x)" "appends (each_elem f xs) (concat (map bad xs)) (concat (map b xs))"
    using Cons by auto
  then show ?case by (cases "bad x"; cases "concat (map bad xs)") (simp_all add: appends_def del: concat_eq_Nil_conv)
qed (simp add: appends_def)

lemma appends_doc:
  assumes "appends body bad b"
  shows "appends (addDoc body) bad (framed b)"
  using assms set_length_reserved [where body = "b @ [0]"]
  by (cases bad) (simp_all add: appends_def addDoc_def encoder_eqs framed_def add.commute)

lemma appends_scoped:
  assumes "appends scope bad b"
  shows "appends (addScoped code scope) bad
    (let body = str_bytes code @ framed b in le32 (word_of_nat (length body + 4)) @ body)"
  using appends_doc [OF assms] set_length_reserved [where body = "str_bytes code @ framed b"]
  by (cases bad) (simp_all add: appends_def addScoped_def encoder_eqs Let_def)

lemma concat_enumerate [simp]: "concat (map (\<lambda>(i, v). f v) (enumerate n vs)) = concat (map f vs)"
  by (induction vs arbitrary: n) (simp_all add: enumerate_simps)

lemma appends_elem:
  "appends (addElem name v) (bad_ids v) (elem_bytes (kind_of v) name (value_bytes v))"
proof (induction v arbitrary: name rule: value_bytes.induct)
  case (3 d)
  have "appends (each_elem (\<lambda>(k, v). addElem k v) d) (concat (map (\<lambda>(_, v). bad_ids v) d)) (elems_bytes d)"
    unfolding elems_bytes_def by (rule appends_each) (use 3 in auto)
  from appends_doc [OF this] show ?case
    by (simp add: appends_def addElemName_eq elem_bytes_def value_bytes_docs
        del: value_bytes.simps concat_eq_Nil_conv split: list.split)
next
  case (4 vs)
  have "appends (each_elem (\<lambda>(i, v). addElem (itoa i) v) (enumerate 0 vs))
      (concat (map (\<lambda>(_, v). bad_ids v) (enumerate 0 vs))) (items_bytes 0 vs)"
    unfolding items_bytes_def by (rule appends_each) (use 4 in auto)
  from appends_doc [OF this] show ?case
    by (simp add: appends_def addElemName_eq elem_bytes_def value_bytes_docs
        del: value_bytes.simps concat_eq_Nil_conv split: list.split)
next
  case (12 code d)
  have "appends (each_elem (\<lambda>(k, v). addElem k v) d) (concat (map (\<lambda>(_, v). bad_ids v) d)) (elems_bytes d)"
    unfolding elems_bytes_def by (rule appends_each) (use 12 in auto)
  from appends_scoped [OF this] show ?case
    by (simp add: appends_def addElemName_eq elem_bytes_def value_bytes_docs
        del: value_bytes.simps concat_eq_Nil_conv split: list.split)
qed (simp_all add: appends_def elem_bytes_def encoder_eqs)

lemma marshal_writes:
  "bson_Marshal d = (case doc_bad_ids d of [] \<Rightarrow> Inr (doc_bytes d) | b # _ \<Rightarrow> Inl (bad_object_id b))"
proof -
  have "appends (each_elem (\<lambda>(k, v). addElem k v) d) (concat (map (\<lambda>(_, v). bad_ids v) d)) (elems_bytes d)"
    unfolding elems_bytes_def by (rule appends_each) (auto simp: appends_elem)
  from appends_doc [OF this] show ?thesis
    by (simp add: appends_def bson_Marshal_def doc_bytes_def doc_bad_ids_def del: concat_eq_Nil_conv
        split: list.split)
qed

end
