(* ===== verification/BsonRead.thy ===== *)
theory BsonRead
  imports BsonWrite
begin

text \<open>
  The reading side, \<open>mgo/bson/decode.go\<close>: a \<open>decoder\<close> is the bytes it was given and the position
  \<open>d.i\<close> of the next. A document is read into a \<open>D\<close>, as it is stored, or into the fields of a
  struct; an element is read into an \<open>interface{}\<close>, from which theory \<open>Documents\<close> takes it into a
  field. Loops take fuel; one more than there are bytes is shown to be enough.
\<close>

subsection \<open>Results\<close>

text \<open>
  A value and the position behind it; the panic with a string of \<open>corrupted\<close>, which \<open>Unmarshal\<close>
  returns as its error; or a runtime error, which \<open>handleErr\<close> raises again.
\<close>

datatype 'a rd = Got 'a nat | Corrupt gerror | Trap string | Starved

fun bind_rd :: "'a rd \<Rightarrow> ('a \<Rightarrow> nat \<Rightarrow> 'b rd) \<Rightarrow> 'b rd" where
  "bind_rd (Got x i) f = f x i"
| "bind_rd (Corrupt e) f = Corrupt e"
| "bind_rd (Trap s) f = Trap s"
| "bind_rd Starved f = Starved"

lemma bind_rd_cong [fundef_cong]:
  "r = r' \<Longrightarrow> (\<And>x i. r' = Got x i \<Longrightarrow> f x i = g x i) \<Longrightarrow> bind_rd r f = bind_rd r' g"
  by (cases r') simp_all

definition corrupted :: "'a rd" where
  "corrupted = Corrupt ''Document is corrupted''"

definition slice_bounds :: string where
  "slice_bounds = ''runtime error: slice bounds out of range''"

definition index_range :: string where
  "index_range = ''runtime error: index out of range''"

subsection \<open>Parsers of basic types\<close>

text \<open>A negative length gives a slice whose end is before its start.\<close>

definition readBytes :: "bytes \<Rightarrow> 32 word \<Rightarrow> nat \<Rightarrow> bytes rd" where
  "readBytes data l i =
     (let j = int i + sint l in
      if j > int (length data) then corrupted
      else if sint l < 0 then Trap slice_bounds
      else Got (take (nat (sint l)) (drop i data)) (nat j))"

definition bson_readByte :: "bytes \<Rightarrow> nat \<Rightarrow> byte rd" where
  "bson_readByte data i = (if i + 1 > length data then corrupted else Got (data ! i) (i + 1))"

definition of_le32 :: "bytes \<Rightarrow> 32 word" where
  "of_le32 b = ucast (b ! 0) OR push_bit 8 (ucast (b ! 1)) OR push_bit 16 (ucast (b ! 2)) OR
     push_bit 24 (ucast (b ! 3))"

definition of_le64 :: "bytes \<Rightarrow> 64 word" where
  "of_le64 b = ucast (b ! 0) OR push_bit 8 (ucast (b ! 1)) OR push_bit 16 (ucast (b ! 2)) OR
     push_bit 24 (ucast (b ! 3)) OR push_bit 32 (ucast (b ! 4)) OR push_bit 40 (ucast (b ! 5)) OR
     push_bit 48 (ucast (b ! 6)) OR push_bit 56 (ucast (b ! 7))"

definition readInt32 :: "bytes \<Rightarrow> nat \<Rightarrow> 32 word rd" where
  "readInt32 data i = bind_rd (readBytes data 4 i) (\<lambda>b. Got (of_le32 b))"

definition readInt64 :: "bytes \<Rightarrow> nat \<Rightarrow> 64 word rd" where
  "readInt64 data i = bind_rd (readBytes data 8 i) (\<lambda>b. Got (of_le64 b))"

definition readBool :: "bytes \<Rightarrow> nat \<Rightarrow> bool rd" where
  "readBool data i = bind_rd (bson_readByte data i) (\<lambda>b. Got (b = 1))"

definition readCStr :: "bytes \<Rightarrow> nat \<Rightarrow> string rd" where
  "readCStr data i =
     (if i > length data then Trap index_range
      else (let s = takeWhile (\<lambda>b. b \<noteq> 0) (drop i data) in
        if i + length s + 1 > length data then corrupted
        else Got (string_of_bytes s) (i + length s + 1)))"

definition readStr :: "bytes \<Rightarrow> nat \<Rightarrow> string rd" where
  "readStr data i =
     bind_rd (readInt32 data i) (\<lambda>l i1.
     bind_rd (readBytes data (l - 1) i1) (\<lambda>b i2.
     bind_rd (bson_readByte data i2) (\<lambda>z i3.
       if z \<noteq> 0 then corrupted else Got (string_of_bytes b) i3)))"

definition readBinary :: "bytes \<Rightarrow> nat \<Rightarrow> (byte \<times> bytes) rd" where
  "readBinary data i =
     bind_rd (readInt32 data i) (\<lambda>l i1.
     bind_rd (bson_readByte data i1) (\<lambda>kind i2.
     bind_rd (readBytes data l i2) (\<lambda>b.
       Got (kind, if kind = 2 \<and> length b \<ge> 4 then drop 4 b else b))))"

definition readRegEx :: "bytes \<Rightarrow> nat \<Rightarrow> bval rd" where
  "readRegEx data i =
     bind_rd (readCStr data i) (\<lambda>p i1. bind_rd (readCStr data i1) (\<lambda>opts. Got (BRegEx p opts)))"

subsection \<open>Elements and documents\<close>

text \<open>Where a document ends: inside the bytes, behind its length, at a zero byte.\<close>

definition doc_end :: "bytes \<Rightarrow> nat \<Rightarrow> (nat \<Rightarrow> nat \<Rightarrow> 'a rd) \<Rightarrow> 'a rd" where
  "doc_end data i f =
     bind_rd (readInt32 data i) (\<lambda>l i1.
       let e = sint l + int i1 - 4 in
       if e \<le> int i1 \<or> e > int (length data) \<or> data ! nat (e - 1) \<noteq> 0 then corrupted
       else f (nat e) i1)"

definition close_doc :: "nat \<Rightarrow> 'a \<Rightarrow> nat \<Rightarrow> 'a rd" where
  "close_doc e x i = (if i + 1 \<noteq> e then corrupted else Got x (i + 1))"

definition byte_at :: "bytes \<Rightarrow> nat \<Rightarrow> (byte \<Rightarrow> 'a rd) \<Rightarrow> 'a rd" where
  "byte_at data i f = (if i < length data then f (data ! i) else Trap index_range)"

text \<open>What was read must end before its document does.\<close>

definition inside_doc :: "nat \<Rightarrow> 'a rd \<Rightarrow> ('a \<Rightarrow> nat \<Rightarrow> 'b rd) \<Rightarrow> 'b rd" where
  "inside_doc e r f = bind_rd r (\<lambda>x i. if i \<ge> e then corrupted else f x i)"

lemma inside_doc_cong [fundef_cong]:
  "e = e' \<Longrightarrow> r = r' \<Longrightarrow> (\<And>x i. r' = Got x i \<Longrightarrow> f x i = g x i) \<Longrightarrow> inside_doc e r f = inside_doc e' r' g"
  unfolding inside_doc_def by (cases r') simp_all

text \<open>
  The name of an array element is skipped without being looked at; unlike \<open>readCStr\<close> it may not
  reach the end of the document.
\<close>

definition skip_name :: "bytes \<Rightarrow> nat \<Rightarrow> nat \<Rightarrow> unit rd" where
  "skip_name data e i =
     (let j = i + length (takeWhile (\<lambda>b. b \<noteq> 0) (take (e - i) (drop i data))) in
      if j \<ge> e then corrupted else Got () (j + 1))"

text \<open>
  \<open>docType\<close>: what a document in an \<open>interface{}\<close> becomes, a \<open>D\<close> or a map, in which a repeated name
  overwrites. The elements of a map are listed in the order of their first insertion.
\<close>

datatype doc_type = TypeD | TypeM

fun doc_put :: "doc_type \<Rightarrow> string \<Rightarrow> bval \<Rightarrow> bdoc \<Rightarrow> bdoc" where
  "doc_put TypeD k v d = d @ [(k, v)]"
| "doc_put TypeM k v d =
     (if k \<in> fst ` set d then map (\<lambda>(k', v'). (k', if k' = k then v else v')) d else d @ [(k, v)])"

definition unknown_kind :: "byte \<Rightarrow> gerror" where
  "unknown_kind kind = ''Unknown element kind (0x'' @
     [''0123456789ABCDEF'' ! unat (drop_bit 4 kind), ''0123456789ABCDEF'' ! unat (kind AND 15)] @ '')''"

text \<open>The value of an element, given how documents and array elements are read.\<close>

definition elem_value ::
  "(doc_type \<Rightarrow> nat \<Rightarrow> bdoc rd) \<Rightarrow> (nat \<Rightarrow> nat \<Rightarrow> bval list rd) \<Rightarrow> doc_type \<Rightarrow> bytes \<Rightarrow> byte \<Rightarrow> nat \<Rightarrow>
   bval rd" where
  "elem_value read_doc read_items t data kind i =
     (if kind = 0x03 then bind_rd (read_doc t i) (\<lambda>d. Got (BDoc d))
      else if kind = 0x01 then bind_rd (readInt64 data i) (\<lambda>w. Got (BFloat w))
      else if kind = 0x02 then bind_rd (readStr data i) (\<lambda>s. Got (BStr s))
      else if kind = 0x04 then
        doc_end data i (\<lambda>e i1. bind_rd (read_items e i1) (\<lambda>vs. Got (BArr vs)))
      else if kind = 0x05 then
        bind_rd (readBinary data i) (\<lambda>(k, b). Got (BBin (if k = 0 \<or> k = 2 then 0 else k) b))
      else if kind = 0x06 then Got BUndefined i
      else if kind = 0x07 then bind_rd (readBytes data 12 i) (\<lambda>b. Got (BObjectId b))
      else if kind = 0x08 then bind_rd (readBool data i) (\<lambda>b. Got (BBool b))
      else if kind = 0x09 then bind_rd (readInt64 data i) (\<lambda>w. Got (BTime w))
      else if kind = 0x0A then Got BNull i
      else if kind = 0x0B then readRegEx data i
      else if kind = 0x0D then bind_rd (readStr data i) (\<lambda>s. Got (BJavaScript s))
      else if kind = 0x0E then bind_rd (readStr data i) (\<lambda>s. Got (BSymbol s))
      else if kind = 0x0F then
        bind_rd (readStr data (i + 4)) (\<lambda>s i1.
        bind_rd (read_doc TypeM i1) (\<lambda>d. Got (BScoped s d)))
      else if kind = 0x10 then bind_rd (readInt32 data i) (\<lambda>w. Got (BInt32 w))
      else if kind = 0x11 then bind_rd (readInt64 data i) (\<lambda>w. Got (BTimestamp w))
      else if kind = 0x12 then bind_rd (readInt64 data i) (\<lambda>w. Got (BInt64 w))
      else if kind = 0x7F then Got BMaxKey i
      else if kind = 0xFF then Got BMinKey i
      else Corrupt (unknown_kind kind))"

function (sequential) readElemTo :: "nat \<Rightarrow> doc_type \<Rightarrow> bytes \<Rightarrow> byte \<Rightarrow> nat \<Rightarrow> bval rd"
  and readDoc :: "nat \<Rightarrow> doc_type \<Rightarrow> bytes \<Rightarrow> nat \<Rightarrow> bdoc rd"
  and readElems :: "nat \<Rightarrow> doc_type \<Rightarrow> bytes \<Rightarrow> nat \<Rightarrow> nat \<Rightarrow> bdoc \<Rightarrow> bdoc rd"
  and readItems :: "nat \<Rightarrow> doc_type \<Rightarrow> bytes \<Rightarrow> nat \<Rightarrow> nat \<Rightarrow> bval list \<Rightarrow> bval list rd"
where
  "readElemTo 0 t data kind i = Starved"
| "readElemTo (Suc n) t data kind i =
     elem_value (\<lambda>t i. readDoc n t data i) (\<lambda>e i. readItems n t data e i []) t data kind i"
| "readDoc 0 t data i = Starved"
| "readDoc (Suc n) t data i = doc_end data i (\<lambda>e i1. readElems n t data e i1 [])"
| "readElems 0 t data e i d = Starved"
| "readElems (Suc n) t data e i d =
     byte_at data i (\<lambda>b.
       if b = 0 then close_doc e d i
       else bind_rd (bson_readByte data i) (\<lambda>kind i1.
            inside_doc e (readCStr data i1) (\<lambda>name i2.
            inside_doc e (readElemTo n t data kind i2) (\<lambda>v i3.
              readElems n t data e i3 (doc_put t name v d)))))"
| "readItems 0 t data e i vs = Starved"
| "readItems (Suc n) t data e i vs =
     byte_at data i (\<lambda>b.
       if b = 0 then close_doc e vs i
       else bind_rd (bson_readByte data i) (\<lambda>kind i1.
            bind_rd (skip_name data e i1) (\<lambda>_ i2.
            inside_doc e (readElemTo n t data kind i2) (\<lambda>v i3.
              readItems n t data e i3 (vs @ [v])))))"
  by pat_completeness auto

termination
  by (relation "measure (\<lambda>x. case x of
        Inl (Inl (n, _)) \<Rightarrow> n | Inl (Inr (n, _)) \<Rightarrow> n | Inr (Inl (n, _)) \<Rightarrow> n | Inr (Inr (n, _)) \<Rightarrow> n)")
     simp_all

subsection \<open>Unmarshal\<close>

text \<open>\<open>handleErr\<close>: a panic with a string becomes the error, a runtime error goes on.\<close>

fun handle_rd :: "'a rd \<Rightarrow> 'a result outcome" where
  "handle_rd (Got x i) = Returns (Inr x)"
| "handle_rd (Corrupt e) = Returns (Inl e)"
| "handle_rd (Trap s) = Panics s"
| "handle_rd Starved = Panics ''out of fuel''"

definition bson_Unmarshal :: "bytes \<Rightarrow> bdoc result outcome" where
  "bson_Unmarshal data = handle_rd (readDoc (length data + 1) TypeD data 0)"

text \<open>
  Into a struct: \<open>setf\<close> stores an element in the field of its name, if there is one; it may fail, as
  the parsing of a URL does.
\<close>

fun readFields ::
  "nat \<Rightarrow> (string \<Rightarrow> bval \<Rightarrow> 's \<Rightarrow> 's result) \<Rightarrow> bytes \<Rightarrow> nat \<Rightarrow> nat \<Rightarrow> 's \<Rightarrow> 's rd"
where
  "readFields 0 setf data e i s = Starved"
| "readFields (Suc n) setf data e i s =
     byte_at data i (\<lambda>b.
       if b = 0 then close_doc e s i
       else bind_rd (bson_readByte data i) (\<lambda>kind i1.
            inside_doc e (readCStr data i1) (\<lambda>name i2.
            inside_doc e
              (bind_rd (readElemTo n TypeD data kind i2) (\<lambda>v i3.
                 case setf name v s of Inl er \<Rightarrow> Corrupt er | Inr s' \<Rightarrow> Got s' i3))
              (\<lambda>s' i3. readFields n setf data e i3 s'))))"

definition Unmarshal_struct ::
  "(string \<Rightarrow> bval \<Rightarrow> 's \<Rightarrow> 's result) \<Rightarrow> 's \<Rightarrow> bytes \<Rightarrow> 's result outcome" where
  "Unmarshal_struct setf zero data =
     handle_rd (doc_end data 0 (\<lambda>e i. readFields (length data) setf data e i zero))"

subsection \<open>Reading ends and stays inside\<close>

text \<open>A result for a call at position \<open>i\<close> on \<open>l\<close> bytes: the one runtime error is that of a slice.\<close>

fun sound :: "nat \<Rightarrow> nat \<Rightarrow> 'a rd \<Rightarrow> bool" where
  "sound i l (Got x j) \<longleftrightarrow> i \<le> j \<and> j \<le> l"
| "sound i l (Corrupt e) \<longleftrightarrow> True"
| "sound i l (Trap s) \<longleftrightarrow> s = slice_bounds"
| "sound i l Starved \<longleftrightarrow> False"

lemma sound_bind:
  "sound i l r \<Longrightarrow> (\<And>x j. r = Got x j \<Longrightarrow> i \<le> j \<Longrightarrow> j \<le> l \<Longrightarrow> sound i l (f x j)) \<Longrightarrow> sound i l (bind_rd r f)"
  by (cases r) simp_all

lemma sound_le: "sound j l r \<Longrightarrow> i \<le> j \<Longrightarrow> sound i l r"
  by (cases r) simp_all

lemma sound_corrupted [simp]: "sound i l corrupted"
  by (simp add: corrupted_def)

lemma sound_inside:
  "sound i l r \<Longrightarrow> (\<And>x j. r = Got x j \<Longrightarrow> i \<le> j \<Longrightarrow> j < e \<Longrightarrow> sound i l (f x j)) \<Longrightarrow>
     sound i l (inside_doc e r f)"
  unfolding inside_doc_def by (rule sound_bind) simp_all

lemma sound_readBytes: "sound i (length data) (readBytes data l i)"
  by (auto simp: readBytes_def Let_def)

lemma sound_readByte: "sound i (length data) (bson_readByte data i)"
  by (auto simp: bson_readByte_def)

lemma sound_readInt32: "sound i (length data) (readInt32 data i)"
  and sound_readInt64: "sound i (length data) (readInt64 data i)"
  and sound_readBool: "sound i (length data) (readBool data i)"
  unfolding readInt32_def readInt64_def readBool_def
  by (auto intro!: sound_bind sound_readBytes sound_readByte)

lemma sound_readCStr: "i \<le> length data \<Longrightarrow> sound i (length data) (readCStr data i)"
  by (auto simp: readCStr_def Let_def)

lemma sound_readStr: "sound i (length data) (readStr data i)"
  unfolding readStr_def
  by (intro sound_bind sound_readInt32)
     (auto intro!: sound_bind intro: sound_le [OF sound_readBytes] sound_le [OF sound_readByte])

lemma sound_readBinary: "sound i (length data) (readBinary data i)"
  unfolding readBinary_def
  by (intro sound_bind sound_readInt32)
     (auto intro!: sound_bind intro: sound_le [OF sound_readBytes] sound_le [OF sound_readByte])

lemma sound_readRegEx: "i \<le> length data \<Longrightarrow> sound i (length data) (readRegEx data i)"
  unfolding readRegEx_def
  by (intro sound_bind sound_readCStr) (auto intro!: sound_bind intro: sound_le [OF sound_readCStr])

lemma readByte_Got: "bson_readByte data i = Got x j \<Longrightarrow> j = i + 1 \<and> j \<le> length data"
  by (auto simp: bson_readByte_def corrupted_def split: if_splits)

lemma readInt32_Got: "readInt32 data i = Got x j \<Longrightarrow> j = i + 4 \<and> j \<le> length data"
  by (auto simp: readInt32_def readBytes_def corrupted_def Let_def split: if_splits)

lemma readCStr_Got: "readCStr data i = Got x j \<Longrightarrow> i < j \<and> j \<le> length data"
  by (auto simp: readCStr_def corrupted_def Let_def split: if_splits)

lemma skip_name_Got: "skip_name data e i = Got x j \<Longrightarrow> i < j \<and> j \<le> e"
  by (auto simp: skip_name_def corrupted_def Let_def split: if_splits)

lemma sound_skip_name: "e \<le> length data \<Longrightarrow> i \<le> j \<Longrightarrow> sound i (length data) (skip_name data e j)"
  by (auto simp: skip_name_def Let_def)

lemma sound_doc_end:
  assumes "\<And>e i1. i1 = i + 4 \<Longrightarrow> i1 < e \<Longrightarrow> e \<le> length data \<Longrightarrow> sound i (length data) (f e i1)"
  shows "sound i (length data) (doc_end data i f)"
  unfolding doc_end_def
  by (rule sound_bind [OF sound_readInt32]) (use assms readInt32_Got in \<open>auto simp: Let_def\<close>)

lemma sound_if: "sound i l a \<Longrightarrow> sound i l b \<Longrightarrow> sound i l (if c then a else b)"
  by simp

lemma sound_elem_value:
  assumes "i \<le> length data"
    and doc: "\<And>t j. i \<le> j \<Longrightarrow> j \<le> length data \<Longrightarrow> sound j (length data) (read_doc t j)"
    and items: "\<And>e j. j = i + 4 \<Longrightarrow> j < e \<Longrightarrow> e \<le> length data \<Longrightarrow> sound j (length data) (read_items e j)"
  shows "sound i (length data) (elem_value read_doc read_items t data kind i)"
proof -
  let ?l = "length data"
  note reads = sound_readStr sound_readInt32 sound_readInt64 sound_readBytes sound_readBool
    sound_readBinary sound_readRegEx [OF assms(1)]
  have arr: "sound i ?l (doc_end data i (\<lambda>e i1. bind_rd (read_items e i1) (\<lambda>vs. Got (BArr vs))))"
    by (rule sound_doc_end, rule sound_bind [OF sound_le [OF items]]) auto
  have scoped: "sound i ?l (bind_rd (readStr data (i + 4)) (\<lambda>s i1.
      bind_rd (read_doc TypeM i1) (\<lambda>d. Got (BScoped s d))))"
    by (rule sound_bind [OF sound_le [OF sound_readStr]])
       (auto intro!: sound_bind [OF sound_le [OF doc]])
  show ?thesis
    unfolding elem_value_def
    by (intro sound_if arr scoped reads sound_bind doc order_refl assms(1))
       (simp_all add: assms(1) split_beta)
qed

lemma reading_sound:
  "length data + 2 \<le> n + i \<Longrightarrow> i \<le> length data \<Longrightarrow> sound i (length data) (readElemTo n t data kind i)"
  "length data < n + i \<Longrightarrow> i \<le> length data \<Longrightarrow> sound i (length data) (readDoc n t data i)"
  "length data < n + i \<Longrightarrow> i < e \<Longrightarrow> e \<le> length data \<Longrightarrow> sound i (length data) (readElems n t data e i d)"
  "length data < n + i \<Longrightarrow> i < e \<Longrightarrow> e \<le> length data \<Longrightarrow> sound i (length data) (readItems n t data e i vs)"
proof (induction n arbitrary: t kind i e d vs)
  case (Suc n)
  {
    case 1
    then show ?case by (auto intro!: sound_elem_value Suc.IH)
  next
    case 2
    then show ?case by (auto intro!: sound_doc_end intro: sound_le [OF Suc.IH(3)])
  next
    case 3
    have step: "sound i (length data) (inside_doc e (readElemTo n t data kind i2) (\<lambda>v i3.
        readElems n t data e i3 (doc_put t name v d)))" if "i + 2 \<le> i2" "i2 < e" for kind name i2
      by (rule sound_le [OF sound_inside [OF Suc.IH(1)]])
         (use 3 that in \<open>auto intro: sound_le [OF Suc.IH(3)]\<close>)
    have "sound i (length data) (bind_rd (bson_readByte data i) (\<lambda>kind i1.
        inside_doc e (readCStr data i1) (\<lambda>name i2. inside_doc e (readElemTo n t data kind i2) (\<lambda>v i3.
          readElems n t data e i3 (doc_put t name v d)))))"
      by (intro sound_bind sound_readByte sound_inside sound_le [OF sound_readCStr] step)
         (auto dest!: readByte_Got readCStr_Got)
    then show ?case using 3 by (simp add: byte_at_def close_doc_def)
  next
    case 4
    have step: "sound i (length data) (inside_doc e (readElemTo n t data kind i2) (\<lambda>v i3.
        readItems n t data e i3 (vs @ [v])))" if "i + 2 \<le> i2" "i2 \<le> e" for kind i2
      by (rule sound_le [OF sound_inside [OF Suc.IH(1)]])
         (use 4 that in \<open>auto intro: sound_le [OF Suc.IH(4)]\<close>)
    have "sound i (length data) (bind_rd (bson_readByte data i) (\<lambda>kind i1.
        bind_rd (skip_name data e i1) (\<lambda>_ i2. inside_doc e (readElemTo n t data kind i2) (\<lambda>v i3.
          readItems n t data e i3 (vs @ [v])))))"
      by (intro sound_bind sound_readByte sound_skip_name [of e data] step)
         (use 4 in \<open>auto dest!: readByte_Got skip_name_Got\<close>)
    then show ?case using 4 by (simp add: byte_at_def close_doc_def)
  }
qed simp_all

end
