(* ===== verification/BsonWire.thy ===== *)
theory BsonWire
  imports BsonRead
begin

text \<open>
  What the two sides of \<open>mgo/bson\<close> have to do with each other: documents read back as they were
  written, so a petition or a reply that was stored is the one that is found.
\<close>

subsection \<open>Bytes at a position\<close>

definition holds :: "bytes \<Rightarrow> nat \<Rightarrow> bytes \<Rightarrow> bool" where
  "holds data i b \<longleftrightarrow> i \<le> length data \<and> take (length b) (drop i data) = b"

lemma holds_Nil [simp]: "holds data i [] \<longleftrightarrow> i \<le> length data"
  by (simp add: holds_def)

lemma holds_length: "holds data i b \<Longrightarrow> i + length b \<le> length data"
  by (auto simp: holds_def dest!: arg_cong [where f = length])

lemma holds_append [simp]: "holds data i (b @ c) \<longleftrightarrow> holds data i b \<and> holds data (i + length b) c"
proof
  assume h: "holds data i (b @ c)"
  then have "take (length b + length c) (drop i data) = b @ c" by (simp add: holds_def)
  from arg_cong [OF this, of "take (length b)"] arg_cong [OF this, of "drop (length b)"]
  have "take (length b) (drop i data) = b" "take (length c) (drop (i + length b) data) = c"
    by (simp_all add: drop_take add.commute)
  then show "holds data i b \<and> holds data (i + length b) c"
    using holds_length [OF h] by (simp add: holds_def)
next
  assume "holds data i b \<and> holds data (i + length b) c"
  then show "holds data i (b @ c)"
    by (auto simp: holds_def take_add add.commute)
qed

lemma holds_single [simp]: "holds data i [x] \<longleftrightarrow> i < length data \<and> data ! i = x"
  by (cases "i < length data") (auto simp: holds_def take_Suc hd_drop_conv_nth)

lemma holds_Cons [simp]:
  "NO_MATCH [] b \<Longrightarrow> holds data i (x # b) \<longleftrightarrow> i < length data \<and> data ! i = x \<and> holds data (i + 1) b"
  using holds_append [of data i "[x]" b] by simp

lemma holds_take: "holds data i b \<Longrightarrow> take (length b) (drop i data) = b"
  by (simp add: holds_def)

lemma holds_here: "holds (pre @ b @ suf) (length pre) b"
  by (simp add: holds_def)

subsection \<open>Codecs on a stream\<close>

text \<open>A reader that finds the bytes a writer has written takes exactly them.\<close>

locale wire =
  fixes enc :: "'a \<Rightarrow> bytes"
    and read :: "bytes \<Rightarrow> nat \<Rightarrow> 'a rd"
    and valid :: "'a \<Rightarrow> bool"
  assumes read_enc: "valid x \<Longrightarrow> holds data i (enc x) \<Longrightarrow> read data i = Got x (i + length (enc x))"
begin

lemma prefix_free:
  assumes "valid x" and "valid y" and "enc x @ s = enc y @ t"
  shows "x = y \<and> s = t"
proof -
  have "holds (enc x @ s) 0 (enc x)" "holds (enc x @ s) 0 (enc y)"
    using holds_here [of "[]" "enc x" s] holds_here [of "[]" "enc y" t] assms(3) by simp_all
  from read_enc [OF assms(1) this(1)] read_enc [OF assms(2) this(2)] show ?thesis
    using assms(3) by simp
qed

lemma enc_inj: "valid x \<Longrightarrow> valid y \<Longrightarrow> enc x = enc y \<Longrightarrow> x = y"
  using prefix_free [of x y "[]" "[]"] by simp

end

subsection \<open>Base types\<close>

lemma of_le32_le32 [simp]: "of_le32 (le32 w) = w"
proof (rule bit_word_eqI)
  fix n assume "n < LENGTH(32)"
  then consider "n < 8" | "8 \<le> n \<and> n < 16" | "16 \<le> n \<and> n < 24" | "24 \<le> n \<and> n < 32" by force
  then show "bit (of_le32 (le32 w)) n = bit w n"
    by cases (auto simp: of_le32_def le32_def bit_simps)
qed

lemma of_le64_le64 [simp]: "of_le64 (le64 w) = w"
proof (rule bit_word_eqI)
  fix n assume "n < LENGTH(64)"
  then consider "n < 8" | "8 \<le> n \<and> n < 16" | "16 \<le> n \<and> n < 24" | "24 \<le> n \<and> n < 32"
    | "32 \<le> n \<and> n < 40" | "40 \<le> n \<and> n < 48" | "48 \<le> n \<and> n < 56" | "56 \<le> n \<and> n < 64" by force
  then show "bit (of_le64 (le64 w)) n = bit w n"
    by cases (auto simp: of_le64_def le64_def bit_simps)
qed

lemma string_of_bytes_of_string [simp]: "string_of_bytes (bytes_of_string s) = s"
  by (induction s) (auto simp: string_of_bytes_def bytes_of_string_def unat_of_nat take_bit_eq_mod)

lemma sint_length:
  assumes "n < 2 ^ 31"
  shows "sint (word_of_nat n :: 32 word) = int n"
  using assms by (simp add: signed_of_nat signed_take_bit_int_eq_self)

lemma readBytes_holds:
  assumes "holds data i b" and "length b < 2 ^ 31"
  shows "readBytes data (word_of_nat (length b)) i = Got b (i + length b)"
  using holds_length [OF assms(1)] holds_take [OF assms(1)] sint_length [OF assms(2)]
  by (simp add: readBytes_def Let_def nat_int_add)

lemma readInt32_holds: "holds data i (le32 w) \<Longrightarrow> readInt32 data i = Got w (i + 4)"
  using readBytes_holds [of data i "le32 w"] by (simp add: readInt32_def)

lemma readInt64_holds: "holds data i (le64 w) \<Longrightarrow> readInt64 data i = Got w (i + 8)"
  using readBytes_holds [of data i "le64 w"] by (simp add: readInt64_def)

lemma readByte_at: "i < length data \<Longrightarrow> bson_readByte data i = Got (data ! i) (i + 1)"
  by (simp add: bson_readByte_def)

definition no_nul :: "string \<Rightarrow> bool" where
  "no_nul s \<longleftrightarrow> CHR 0x00 \<notin> set s"

lemma no_nul_bytes: "no_nul s \<Longrightarrow> b \<in> set (bytes_of_string s) \<Longrightarrow> b \<noteq> 0"
proof -
  assume "no_nul s" "b \<in> set (bytes_of_string s)"
  then obtain c where c: "c \<in> set s" "b = word_of_nat (of_char c)" "c \<noteq> CHR 0x00"
    by (auto simp: bytes_of_string_def no_nul_def)
  have "of_char c \<noteq> (0 :: nat)"
    using c(3) of_char_eq_iff [of c "CHR 0x00", where 'a = nat] by simp
  moreover have "of_char c mod 256 = (of_char c :: nat)" by simp
  ultimately show "b \<noteq> 0" unfolding c(2) by (simp add: word_of_nat_eq_0_iff dvd_eq_mod_eq_0 del: of_char_mod_256)
qed

lemma takeWhile_holds:
  assumes "holds data i (b @ [0])" and "\<And>x. x \<in> set b \<Longrightarrow> x \<noteq> 0"
  shows "takeWhile (\<lambda>x. x \<noteq> 0) (drop i data) = b"
proof -
  obtain r where "drop i data = b @ 0 # r"
    using holds_take [OF assms(1)] append_take_drop_id [of "length (b @ [0])" "drop i data"]
    by (metis append.assoc append_Cons append_Nil)
  then show ?thesis using assms(2) by (simp add: takeWhile_append2)
qed

lemma readCStr_holds:
  assumes "no_nul s" and "holds data i (bytes_of_string s @ [0])"
  shows "readCStr data i = Got s (i + length s + 1)"
  using takeWhile_holds [OF assms(2) no_nul_bytes [OF assms(1)]] holds_length [OF assms(2)]
  by (simp add: readCStr_def Let_def)

lemma readStr_holds:
  assumes "length s + 1 < 2 ^ 31" and "holds data i (str_bytes s)"
  shows "readStr data i = Got s (i + length (str_bytes s))"
proof -
  have "readBytes data (word_of_nat (length s + 1) - 1) (i + 4) = Got (bytes_of_string s) (i + 4 + length s)"
    using readBytes_holds [of data "i + 4" "bytes_of_string s"] assms by (simp add: str_bytes_def)
  then show ?thesis
    using assms readInt32_holds [of data i "word_of_nat (length s + 1)"]
    by (simp add: readStr_def str_bytes_def readByte_at add.commute)
qed

lemma readBinary_holds:
  assumes "length b + 4 < 2 ^ 31" and "holds data i (bin_bytes k b)"
  shows "readBinary data i = Got (k, b) (i + length (bin_bytes k b))"
proof (cases "k = 2")
  case True
  then have h: "holds data i (le32 (word_of_nat (length b + 4)))" "i + 4 < length data" "data ! (i + 4) = k"
      "holds data (i + 5) (le32 (word_of_nat (length b)) @ b)"
    using assms(2) by (simp_all add: bin_bytes_def ac_simps)
  have "readBytes data (word_of_nat (length b + 4)) (i + 5) =
      Got (le32 (word_of_nat (length b)) @ b) (i + 5 + (length b + 4))"
    using readBytes_holds [OF h(4)] assms(1) by (simp add: add.commute)
  then show ?thesis
    using True readInt32_holds [OF h(1)] h(2,3)
    by (simp add: readBinary_def bin_bytes_def readByte_at ac_simps)
next
  case False
  then have h: "holds data i (le32 (word_of_nat (length b)))" "i + 4 < length data" "data ! (i + 4) = k"
      "holds data (i + 5) b"
    using assms(2) by (simp_all add: bin_bytes_def ac_simps)
  then show ?thesis
    using False assms(1) readBytes_holds [OF h(4)]
    by (simp add: readBinary_def bin_bytes_def readInt32_holds readByte_at ac_simps)
qed

lemma length_str_bytes: "length (str_bytes s) = length s + 5"
  by (simp add: str_bytes_def)

lemma length_bin_bytes: "k \<noteq> 2 \<Longrightarrow> length (bin_bytes k b) = length b + 5"
  by (simp add: bin_bytes_def)

interpretation w32: wire le32 readInt32 "\<lambda>_. True"
  by unfold_locales (simp add: readInt32_holds)

interpretation w64: wire le64 readInt64 "\<lambda>_. True"
  by unfold_locales (simp add: readInt64_holds)

interpretation wcstr: wire "\<lambda>s. bytes_of_string s @ [0]" readCStr no_nul
  by unfold_locales (subst readCStr_holds, auto)

interpretation wstr: wire str_bytes readStr "\<lambda>s. length s + 1 < 2 ^ 31"
  by unfold_locales (rule readStr_holds)

interpretation wbin: wire "\<lambda>(k, b). bin_bytes k b" readBinary "\<lambda>(k, b). length b + 4 < 2 ^ 31"
  by unfold_locales (auto simp: readBinary_holds)

subsection \<open>Values and documents\<close>

text \<open>
  What can be written and read back: names and patterns without a zero byte, object ids of 12 bytes,
  no binary data of the obsolete subtype 2, which reads as subtype 0, and in a map, as the scope of
  JavaScript code is read, no repeated name.
\<close>

function (sequential) wire_ok :: "doc_type \<Rightarrow> bval \<Rightarrow> bool" where
  "wire_ok t (BDoc d) \<longleftrightarrow> list_all (\<lambda>(k, v). no_nul k \<and> wire_ok t v) d \<and> (t = TypeM \<longrightarrow> distinct (map fst d))"
| "wire_ok t (BArr vs) \<longleftrightarrow> list_all (\<lambda>v. wire_ok t v) vs"
| "wire_ok t (BScoped c d) \<longleftrightarrow> list_all (\<lambda>(k, v). no_nul k \<and> wire_ok TypeM v) d \<and> distinct (map fst d)"
| "wire_ok t (BObjectId b) \<longleftrightarrow> length b = 12"
| "wire_ok t (BBin k b) \<longleftrightarrow> k \<noteq> 2"
| "wire_ok t (BRegEx p opts) \<longleftrightarrow> no_nul p \<and> no_nul opts"
| "wire_ok t _ \<longleftrightarrow> True"
  by pat_completeness auto

termination
  by (relation "measure (\<lambda>(t, v). size v)") (auto simp: size_in_doc size_in_vals)

definition doc_ok :: "doc_type \<Rightarrow> bdoc \<Rightarrow> bool" where
  "doc_ok t d \<longleftrightarrow> list_all (\<lambda>(k, v). no_nul k \<and> wire_ok t v) d \<and> (t = TypeM \<longrightarrow> distinct (map fst d))"

definition wired :: "doc_type \<Rightarrow> bval \<Rightarrow> bool" where
  "wired t v \<longleftrightarrow> (\<forall>data i n. holds data i (value_bytes v) \<longrightarrow> length (value_bytes v) < 2 ^ 31 \<longrightarrow>
     length (value_bytes v) < n \<longrightarrow>
     readElemTo n t data (kind_of v) i = Got v (i + length (value_bytes v)))"

lemma kind_of_nonzero [simp]: "kind_of v \<noteq> 0"
  by (cases v) simp_all

lemma length_elem_bytes [simp]: "length (elem_bytes k name b) = length name + length b + 2"
  by (simp add: elem_bytes_def)

lemma itoa_no_nul: "no_nul (itoa n)"
proof (induction n rule: itoa.induct)
  case (1 n)
  have "CHR 0x00 \<noteq> digit_char d" if "d < 10" for d
  proof
    assume a: "CHR 0x00 = digit_char d"
    have "of_char CHR 0x00 = (48 + d) mod 256" unfolding a by (simp add: digit_char_def)
    then show False using that by simp
  qed
  then show ?case using 1 by (subst itoa.simps) (auto simp: no_nul_def)
qed

lemma holds_elem:
  assumes "holds data i (elem_bytes kind name b)"
  shows "i < length data" "data ! i = kind" "holds data (i + 1) (bytes_of_string name @ [0])"
    "holds data (i + length name + 2) b"
  using assms by (auto simp: elem_bytes_def ac_simps)

lemma skip_name_holds:
  assumes "no_nul name" and "holds data i (bytes_of_string name @ [0])" and "i + length name < e"
  shows "skip_name data e i = Got () (i + length name + 1)"
proof -
  have "take (e - i) (drop i data) = bytes_of_string name @ take (e - i - length name) (drop (i + length name) data)"
    using holds_take [of data i "bytes_of_string name"] assms(2,3)
    by (simp add: add.commute) (metis add_diff_inverse_nat diff_diff_left drop_drop le_add_diff_inverse less_imp_le_nat
      less_diff_conv take_add add.commute not_less)
  moreover have "take (e - i - length name) (drop (i + length name) data) =
      0 # take (e - i - length name - 1) (drop (i + length name + 1) data)"
    using assms(2,3) by (cases "e - i - length name") (auto simp: Cons_nth_drop_Suc [symmetric])
  ultimately show ?thesis
    using assms(3) no_nul_bytes [OF assms(1)] by (simp add: skip_name_def takeWhile_append2)
qed

lemma doc_put_append: "t = TypeM \<longrightarrow> k \<notin> fst ` set d \<Longrightarrow> doc_put t k v d = d @ [(k, v)]"
  by (cases t) auto

lemma readElems_holds:
  assumes "list_all (\<lambda>(k, v). no_nul k \<and> wired t v) d" and "t = TypeM \<longrightarrow> distinct (map fst (acc @ d))"
    and "length (elems_bytes d) < 2 ^ 31" and "length (elems_bytes d) < n"
    and "holds data i (elems_bytes d @ [0])" and "e = i + length (elems_bytes d) + 1"
  shows "readElems n t data e i acc = Got (acc @ d) e"
  using assms
proof (induction d arbitrary: acc n i)
  case Nil
  then show ?case by (cases n) (simp_all add: byte_at_def close_doc_def)
next
  case (Cons kv d)
  obtain k v where kv: "kv = (k, v)" by (cases kv)
  obtain m where n: "n = Suc m" using Cons.prems(4) by (cases n) auto
  have h: "holds data i (elem_bytes (kind_of v) k (value_bytes v))"
      "holds data (i + (length k + length (value_bytes v) + 2)) (elems_bytes d @ [0])"
    using Cons.prems(5) kv by (simp_all add: ac_simps)
  note he = holds_elem [OF h(1)]
  let ?i3 = "i + (length k + length (value_bytes v) + 2)"
  have v: "readElemTo m t data (kind_of v) (i + length k + 2) = Got v ?i3"
    using Cons.prems(1,3,4) kv n he(4) by (simp add: wired_def ac_simps)
  have "readElems m t data e ?i3 (acc @ [(k, v)]) = Got ((acc @ [(k, v)]) @ d) e"
    by (rule Cons.IH) (use Cons.prems h(2) kv n in auto)
  moreover have "doc_put t k v acc = acc @ [(k, v)]"
    using Cons.prems(2) kv by (intro doc_put_append) auto
  moreover have "readCStr data (i + 1) = Got k (i + length k + 2)"
    using readCStr_holds [OF _ he(3)] Cons.prems(1) kv by simp
  ultimately show ?case
    using n he(1,2) v kv Cons.prems(6)
    by (simp add: byte_at_def readByte_at inside_doc_def)
qed

lemma readItems_holds:
  assumes "list_all (wired t) vs" and "length (items_bytes k vs) < 2 ^ 31" and "length (items_bytes k vs) < n"
    and "holds data i (items_bytes k vs @ [0])" and "e = i + length (items_bytes k vs) + 1"
  shows "readItems n t data e i acc = Got (acc @ vs) e"
  using assms
proof (induction vs arbitrary: acc n i k)
  case Nil
  then show ?case by (cases n) (simp_all add: byte_at_def close_doc_def)
next
  case (Cons v vs)
  obtain m where n: "n = Suc m" using Cons.prems(3) by (cases n) auto
  have h: "holds data i (elem_bytes (kind_of v) (itoa k) (value_bytes v))"
      "holds data (i + (length (itoa k) + length (value_bytes v) + 2)) (items_bytes (Suc k) vs @ [0])"
    using Cons.prems(4) by (simp_all add: ac_simps)
  note he = holds_elem [OF h(1)]
  let ?i3 = "i + (length (itoa k) + length (value_bytes v) + 2)"
  have v: "readElemTo m t data (kind_of v) (i + length (itoa k) + 2) = Got v ?i3"
    using Cons.prems(1,2,3) n he(4) by (simp add: wired_def ac_simps)
  have "readItems m t data e ?i3 (acc @ [v]) = Got ((acc @ [v]) @ vs) e"
    by (rule Cons.IH) (use Cons.prems h(2) n in auto)
  moreover have "skip_name data e (i + 1) = Got () (i + length (itoa k) + 2)"
    using skip_name_holds [OF itoa_no_nul he(3)] Cons.prems(5) by simp
  ultimately show ?case
    using n he(1,2) v Cons.prems(5)
    by (simp add: byte_at_def readByte_at inside_doc_def)
qed

lemma doc_end_holds:
  assumes "holds data i (framed b)" and "length b + 5 < 2 ^ 31"
  shows "doc_end data i f = f (i + length b + 5) (i + 4)" and "holds data (i + 4) (b @ [0])"
proof -
  have h: "holds data i (le32 (word_of_nat (length b + 5)))" "holds data (i + 4) (b @ [0])"
    using assms(1) by (simp_all add: framed_def)
  then show "holds data (i + 4) (b @ [0])" by simp
  have "i + 4 + length b < length data" "data ! (i + 4 + length b) = 0" using h(2) by simp_all
  then show "doc_end data i f = f (i + length b + 5) (i + 4)"
    using readInt32_holds [OF h(1)] sint_length [OF assms(2)]
    by (simp add: doc_end_def nat_add_distrib nat_int_add Let_def ac_simps)
qed

lemma length_framed [simp]: "length (framed b) = length b + 5"
  by (simp add: framed_def)

lemma readDoc_holds:
  assumes "list_all (\<lambda>(k, v). no_nul k \<and> wired t v) d" and "t = TypeM \<longrightarrow> distinct (map fst d)"
    and "length (framed (elems_bytes d)) < 2 ^ 31" and "length (elems_bytes d) + 1 < n"
    and "holds data i (framed (elems_bytes d))"
  shows "readDoc n t data i = Got d (i + length (framed (elems_bytes d)))"
proof -
  obtain m where n: "n = Suc m" using assms(4) by (cases n) auto
  have l: "length (elems_bytes d) + 5 < 2 ^ 31" using assms(3) by simp
  show ?thesis
    using n doc_end_holds(1) [OF assms(5) l, of "\<lambda>e i1. readElems m t data e i1 []"]
      doc_end_holds(2) [OF assms(5) l] assms
      readElems_holds [OF assms(1), of "[]" m data "i + 4" "i + length (elems_bytes d) + 5"]
    by simp
qed

lemma wiredI:
  "(\<And>data i m. holds data i (value_bytes v) \<Longrightarrow> length (value_bytes v) < 2 ^ 31 \<Longrightarrow>
      length (value_bytes v) \<le> m \<Longrightarrow>
      elem_value (\<lambda>t i. readDoc m t data i) (\<lambda>e i. readItems m t data e i []) t data (kind_of v) i =
        Got v (i + length (value_bytes v))) \<Longrightarrow> wired t v"
  unfolding wired_def
proof (intro allI impI)
  fix data i n
  assume v: "\<And>data i m. holds data i (value_bytes v) \<Longrightarrow> length (value_bytes v) < 2 ^ 31 \<Longrightarrow>
      length (value_bytes v) \<le> m \<Longrightarrow>
      elem_value (\<lambda>t i. readDoc m t data i) (\<lambda>e i. readItems m t data e i []) t data (kind_of v) i =
        Got v (i + length (value_bytes v))"
    and h: "holds data i (value_bytes v)" "length (value_bytes v) < 2 ^ 31" "length (value_bytes v) < n"
  obtain m where "n = Suc m" "length (value_bytes v) \<le> m" using h(3) by (cases n) auto
  then show "readElemTo n t data (kind_of v) i = Got v (i + length (value_bytes v))"
    using v [OF h(1,2)] by simp
qed

lemma elem_value_array:
  "elem_value rd ri t data 4 i = doc_end data i (\<lambda>e i1. bind_rd (ri e i1) (\<lambda>vs. Got (BArr vs)))"
  and elem_value_scoped:
  "elem_value rd ri t data 15 i =
     bind_rd (readStr data (i + 4)) (\<lambda>s i1. bind_rd (rd TypeM i1) (\<lambda>d. Got (BScoped s d)))"
  by (simp_all add: elem_value_def)

lemma readStr_value:
  "holds data i (str_bytes s) \<Longrightarrow> length s + 5 < 2 ^ 31 \<Longrightarrow> readStr data i = Got s (i + (length s + 5))"
  using readStr_holds [of s data i] by (simp add: length_str_bytes)

lemma list_all_enumerate [simp]: "list_all (\<lambda>(i, v). P v) (enumerate n vs) \<longleftrightarrow> list_all P vs"
  by (induction vs arbitrary: n) (simp_all add: enumerate_simps)

lemma value_wired: "wire_ok t v \<Longrightarrow> wired t v"
proof (induction v arbitrary: t rule: value_bytes.induct)
  case (3 d)
  then have d: "list_all (\<lambda>(k, v). no_nul k \<and> wired t v) d" "t = TypeM \<longrightarrow> distinct (map fst d)"
    by (auto simp: list_all_iff)
  show ?case
    using readDoc_holds [OF d]
    by (intro wiredI) (simp add: elem_value_def value_bytes_docs del: value_bytes.simps)
next
  case (4 vs)
  have "list_all (\<lambda>(_, v). wire_ok t v) (enumerate 0 vs)" using 4(2) by simp
  then have "list_all (\<lambda>(_, v). wired t v) (enumerate 0 vs)" using 4(1) by (auto simp: list_all_iff)
  then have vs: "list_all (wired t) vs" by simp
  show ?case
  proof (rule wiredI)
    fix data i m
    assume h: "holds data i (value_bytes (BArr vs))" "length (value_bytes (BArr vs)) < 2 ^ 31"
      "length (value_bytes (BArr vs)) \<le> m"
    have f: "holds data i (framed (items_bytes 0 vs))" "length (items_bytes 0 vs) + 5 < 2 ^ 31"
        "length (items_bytes 0 vs) < m"
      using h by (simp_all add: value_bytes_docs del: value_bytes.simps)
    show "elem_value (\<lambda>t i. readDoc m t data i) (\<lambda>e i. readItems m t data e i []) t data
        (kind_of (BArr vs)) i = Got (BArr vs) (i + length (value_bytes (BArr vs)))"
      using doc_end_holds(2) [OF f(1,2)] f(2,3)
        readItems_holds [OF vs, of 0 m data "i + 4" "i + length (items_bytes 0 vs) + 5" "[]"]
      by (simp add: elem_value_array value_bytes_docs doc_end_holds(1) [OF f(1,2)] ac_simps del: value_bytes.simps)
  qed
next
  case (12 code d)
  then have d: "list_all (\<lambda>(k, v). no_nul k \<and> wired TypeM v) d" "TypeM = TypeM \<longrightarrow> distinct (map fst d)"
    by (auto simp: list_all_iff)
  show ?case
  proof (rule wiredI)
    fix data i m
    assume h: "holds data i (value_bytes (BScoped code d))" "length (value_bytes (BScoped code d)) < 2 ^ 31"
      "length (value_bytes (BScoped code d)) \<le> m"
    have s: "holds data (i + 4) (str_bytes code)" "length code + 1 < 2 ^ 31"
        "holds data (i + 4 + length (str_bytes code)) (framed (elems_bytes d))"
        "length (framed (elems_bytes d)) < 2 ^ 31" "length (elems_bytes d) + 1 < m"
      using h by (simp_all add: value_bytes_docs Let_def str_bytes_def ac_simps del: value_bytes.simps)
    show "elem_value (\<lambda>t i. readDoc m t data i) (\<lambda>e i. readItems m t data e i []) t data
        (kind_of (BScoped code d)) i = Got (BScoped code d) (i + length (value_bytes (BScoped code d)))"
      using readStr_holds [OF s(2,1)] readDoc_holds [OF d s(4,5,3)]
      by (simp add: elem_value_scoped value_bytes_docs Let_def ac_simps del: value_bytes.simps)
  qed
next
  case (5 k b)
  show ?case
    by (rule wiredI)
       (use 5 readBinary_holds [where b = b and k = k] in \<open>auto simp: elem_value_def length_bin_bytes\<close>)
next
  case (6 b)
  show ?case
    by (rule wiredI) (use 6 readBytes_holds [where b = b] in \<open>auto simp: elem_value_def\<close>)
next
  case (9 p opts)
  show ?case
    by (rule wiredI)
       (use 9 readCStr_holds in \<open>auto simp: elem_value_def readRegEx_def\<close>)
qed (rule wiredI, simp add: elem_value_def readInt64_holds readInt32_holds readStr_value length_str_bytes
       readBool_def readByte_at)+

subsection \<open>Documents\<close>

lemma readDoc_bytes:
  assumes "doc_ok t d" and "length (doc_bytes d) < 2 ^ 31" and "length (doc_bytes d) \<le> n"
    and "holds data i (doc_bytes d)"
  shows "readDoc n t data i = Got d (i + length (doc_bytes d))"
proof -
  have "list_all (\<lambda>(k, v). no_nul k \<and> wired t v) d" "t = TypeM \<longrightarrow> distinct (map fst d)"
    using assms(1) value_wired by (auto simp: doc_ok_def list_all_iff)
  from readDoc_holds [OF this] show ?thesis using assms(2-4) by (simp add: doc_bytes_def)
qed

text \<open>A \<open>D\<close> as it is read from the bytes it is in; the fuel is that of \<open>Unmarshal\<close>.\<close>

interpretation wdoc: wire doc_bytes "\<lambda>data i. readDoc (length data + 1) TypeD data i"
    "\<lambda>d. doc_ok TypeD d \<and> length (doc_bytes d) < 2 ^ 31"
proof unfold_locales
  fix d data i
  assume d: "doc_ok TypeD d \<and> length (doc_bytes d) < 2 ^ 31" and h: "holds data i (doc_bytes d)"
  show "readDoc (length data + 1) TypeD data i = Got d (i + length (doc_bytes d))"
    by (rule readDoc_bytes) (use d h holds_length [OF h] in auto)
qed

lemma wire_ok_ids: "wire_ok t v \<Longrightarrow> bad_ids v = []"
  by (induction t v rule: wire_ok.induct) (auto simp: list_all_iff)

lemma doc_ok_ids: "doc_ok t d \<Longrightarrow> doc_bad_ids d = []"
  by (auto simp: doc_ok_def doc_bad_ids_def list_all_iff dest: wire_ok_ids)

lemma marshal_unmarshal:
  assumes "doc_ok TypeD d" and "length (doc_bytes d) < 2 ^ 31"
  shows "bson_Marshal d = Inr (doc_bytes d)" and "bson_Unmarshal (doc_bytes d @ rest) = Returns (Inr d)"
proof -
  show "bson_Marshal d = Inr (doc_bytes d)" using marshal_writes [of d] doc_ok_ids [OF assms(1)] by simp
  show "bson_Unmarshal (doc_bytes d @ rest) = Returns (Inr d)"
    using wdoc.read_enc [of d "doc_bytes d @ rest" 0] assms holds_here [of "[]" "doc_bytes d" rest]
    by (simp add: bson_Unmarshal_def)
qed

subsection \<open>What is read is well formed\<close>

lemma bind_rd_Got: "bind_rd r f = Got y j \<longleftrightarrow> (\<exists>x i. r = Got x i \<and> f x i = Got y j)"
  by (cases r) simp_all

lemma inside_doc_Got: "inside_doc e r f = Got y j \<longleftrightarrow> (\<exists>x i. r = Got x i \<and> i < e \<and> f x i = Got y j)"
  by (cases r) (auto simp: inside_doc_def corrupted_def)

lemma doc_end_Got: "doc_end data i f = Got y j \<Longrightarrow> \<exists>e i1. f e i1 = Got y j"
  by (auto simp: doc_end_def bind_rd_Got corrupted_def Let_def split: if_splits)

lemma string_of_bytes_no_nul:
  assumes "\<And>b. b \<in> set bs \<Longrightarrow> b \<noteq> 0"
  shows "no_nul (string_of_bytes bs)"
proof -
  have "CHR 0x00 \<noteq> char_of (unat b)" if "b \<in> set bs" for b :: byte
  proof
    assume a: "CHR 0x00 = char_of (unat b)"
    have "of_char CHR 0x00 = unat b mod 256" unfolding a by simp
    moreover have "unat b < 2 ^ LENGTH(8)" by (rule unsigned_less)
    ultimately show False using assms [OF that] by (simp add: unat_eq_0)
  qed
  then show ?thesis by (auto simp: no_nul_def string_of_bytes_def)
qed

lemma readCStr_no_nul: "readCStr data i = Got s j \<Longrightarrow> no_nul s"
  by (auto simp: readCStr_def corrupted_def Let_def split: if_splits
      intro!: string_of_bytes_no_nul dest: set_takeWhileD)

lemma readBytes_length: "readBytes data l i = Got b j \<Longrightarrow> length b = nat (sint l)"
  by (auto simp: readBytes_def corrupted_def Let_def split: if_splits)

lemma elem_value_ok:
  assumes doc: "\<And>t i d j. read_doc t i = Got d j \<Longrightarrow> doc_ok t d"
    and items: "\<And>e i vs j. read_items e i = Got vs j \<Longrightarrow> list_all (wire_ok t) vs"
    and r: "elem_value read_doc read_items t data kind i = Got v j"
  shows "wire_ok t v"
proof -
  have oid: "wire_ok t (BObjectId b)" if "readBytes data 12 i = Got b j" for b j
    using readBytes_length [OF that] by simp
  have arr: "wire_ok t v" if "doc_end data i (\<lambda>e i1. bind_rd (read_items e i1) (\<lambda>vs. Got (BArr vs))) = Got v j"
    using doc_end_Got [OF that] items by (auto simp: bind_rd_Got)
  show ?thesis
    using r arr unfolding elem_value_def
    by (auto simp: bind_rd_Got readRegEx_def split: if_splits
        dest: doc oid readCStr_no_nul simp: doc_ok_def)
qed

lemma doc_put_ok: "doc_ok t d \<Longrightarrow> no_nul k \<Longrightarrow> wire_ok t v \<Longrightarrow> doc_ok t (doc_put t k v d)"
  by (cases t) (auto simp: doc_ok_def list_all_iff comp_def split_beta)

lemma reading_ok:
  "readElemTo n t data kind i = Got v j \<Longrightarrow> wire_ok t v"
  "readDoc n t data i = Got d j \<Longrightarrow> doc_ok t d"
  "readElems n t data e i acc = Got d j \<Longrightarrow> doc_ok t acc \<Longrightarrow> doc_ok t d"
  "readItems n t data e i us = Got vs j \<Longrightarrow> list_all (wire_ok t) us \<Longrightarrow> list_all (wire_ok t) vs"
proof (induction n arbitrary: t kind i e acc us v d vs j)
  case (Suc n)
  {
    case 1
    show ?case
      by (rule elem_value_ok [OF Suc.IH(2) Suc.IH(4)]) (use 1 in auto)
  next
    case 2
    then show ?case by (auto simp: doc_ok_def dest!: doc_end_Got dest!: Suc.IH(3))
  next
    case 3
    then show ?case
      by (auto simp: byte_at_def bind_rd_Got inside_doc_Got close_doc_def corrupted_def split: if_splits
          intro: Suc.IH(3) doc_put_ok readCStr_no_nul Suc.IH(1))
  next
    case 4
    then show ?case
      by (auto simp: byte_at_def bind_rd_Got inside_doc_Got close_doc_def corrupted_def split: if_splits
          dest!: Suc.IH(4) dest: Suc.IH(1))
  }
qed simp_all

lemma handle_rd_value: "handle_rd r = Returns (Inr x) \<Longrightarrow> \<exists>i. r = Got x i"
  by (cases r) simp_all

end
