(* ===== verification/BsonStore.thy ===== *)
theory BsonStore
  imports BsonWire
begin

text \<open>
  Petitions and replies as the bytes the store keeps. Reading a struct is reading its document and
  storing it field by field, so what theory \<open>Documents\<close> shows of documents holds of the bytes.
\<close>

subsection \<open>Reading a struct\<close>

fun fold_fields :: "(string \<Rightarrow> bval \<Rightarrow> 's \<Rightarrow> 's result) \<Rightarrow> bdoc \<Rightarrow> 's \<Rightarrow> 's result" where
  "fold_fields setf [] s = Inr s"
| "fold_fields setf ((k, v) # d) s = (case setf k v s of Inl e \<Rightarrow> Inl e | Inr s' \<Rightarrow> fold_fields setf d s')"

lemma fold_fields_petition: "fold_fields read_petition_elem d p = read_petition_elems d p"
  by (induction d arbitrary: p) (auto split: sum.split)

lemma fold_fields_reply: "fold_fields read_reply_elem d r = read_reply_elems d r"
  by (induction d arbitrary: r) (auto split: sum.split)

lemma readFields_elems:
  "readElems n TypeD data e i acc = Got d j \<Longrightarrow>
     \<exists>d'. d = acc @ d' \<and> (case fold_fields setf d' s of
        Inr s' \<Rightarrow> readFields n setf data e i s = Got s' j
      | Inl er \<Rightarrow> readFields n setf data e i s = Corrupt er)"
proof (induction n arbitrary: i acc s)
  case (Suc n)
  have i: "i < length data" using Suc.prems by (simp add: byte_at_def split: if_splits)
  show ?case
  proof (cases "data ! i = 0")
    case True
    then show ?thesis using Suc.prems i by (simp add: byte_at_def close_doc_def corrupted_def split: if_splits)
  next
    case False
    obtain k v i1 i2 i3 where r: "bson_readByte data i = Got (data ! i) i1" "readCStr data i1 = Got k i2" "i2 < e"
        "readElemTo n TypeD data (data ! i) i2 = Got v i3" "i3 < e"
        "readElems n TypeD data e i3 (acc @ [(k, v)]) = Got d j"
      using Suc.prems False i by (auto simp: byte_at_def bind_rd_Got inside_doc_Got readByte_at)
    show ?thesis
    proof (cases "setf k v s")
      case (Inl er)
      obtain d' where "d = (acc @ [(k, v)]) @ d'" using Suc.IH [OF r(6)] by blast
      then show ?thesis using Inl False i r by (auto simp: byte_at_def inside_doc_def)
    next
      case (Inr s')
      show ?thesis
        using Suc.IH [OF r(6), of s'] Inr False i r
        by (auto simp: byte_at_def inside_doc_def split: sum.splits intro!: exI [of _ "(k, v) # _"])
    qed
  qed
qed simp

lemma doc_end_same: "doc_end data i f = Got y j \<Longrightarrow> \<exists>e i1. f e i1 = Got y j \<and> doc_end data i g = g e i1"
  by (cases "readInt32 data i") (fastforce simp: doc_end_def corrupted_def Let_def split: if_splits)+

lemma Unmarshal_Got:
  assumes "bson_Unmarshal data = Returns (Inr d)"
  obtains j where "readDoc (length data + 1) TypeD data 0 = Got d j"
  using assms unfolding bson_Unmarshal_def by (metis handle_rd_value)

lemma Unmarshal_struct_doc:
  assumes "bson_Unmarshal data = Returns (Inr d)"
  shows "Unmarshal_struct setf zero data = Returns (fold_fields setf d zero)"
proof -
  obtain j where "readDoc (length data + 1) TypeD data 0 = Got d j"
    using Unmarshal_Got [OF assms] by blast
  then have "doc_end data 0 (\<lambda>e i. readElems (length data) TypeD data e i []) = Got d j" by simp
  from doc_end_same [OF this, of "\<lambda>e i. readFields (length data) setf data e i zero"]
  obtain e i where ei: "readElems (length data) TypeD data e i [] = Got d j"
      "doc_end data 0 (\<lambda>e i. readFields (length data) setf data e i zero) =
         readFields (length data) setf data e i zero"
    by blast
  then show ?thesis
    using readFields_elems [OF ei(1), of setf zero] by (auto simp: Unmarshal_struct_def split: sum.splits)
qed

subsection \<open>Petitions and replies\<close>

definition keys_no_nul :: "header \<Rightarrow> bool" where
  "keys_no_nul h \<longleftrightarrow> list_all (\<lambda>(k, _). no_nul k) h"

lemma wire_ok_header [simp]: "wire_ok t (BDoc (map (\<lambda>(k, vs). (k, BArr (map BStr vs))) h)) \<longleftrightarrow>
    keys_no_nul h \<and> (t = TypeM \<longrightarrow> distinct (map fst h))"
  by (auto simp: keys_no_nul_def list_all_iff comp_def split_beta)

definition petition_writable :: "petition \<Rightarrow> bool" where
  "petition_writable p \<longleftrightarrow> keys_no_nul (p_Header p) \<and> keys_no_nul (p_Trailer p) \<and>
     length (doc_bytes (petition_doc p)) < 2 ^ 31"

definition reply_writable :: "reply \<Rightarrow> bool" where
  "reply_writable r \<longleftrightarrow> keys_no_nul (r_Header r) \<and> keys_no_nul (r_Trailer r) \<and>
     (case r_Petition r of None \<Rightarrow> True
      | Some p \<Rightarrow> keys_no_nul (p_Header p) \<and> keys_no_nul (p_Trailer p)) \<and>
     length (doc_bytes (reply_doc r)) < 2 ^ 31"

lemma petition_doc_ok:
  "keys_no_nul (p_Header p) \<Longrightarrow> keys_no_nul (p_Trailer p) \<Longrightarrow> doc_ok TypeD (petition_doc p)"
  by (cases "p_URL p")
     (simp_all add: doc_ok_def petition_doc_def header_bval_def url_bval_def time_bval_def no_nul_def
       del: wire_ok.simps(1))

lemma wire_ok_doc: "wire_ok t (BDoc d) \<longleftrightarrow> doc_ok t d"
  by (simp add: doc_ok_def)

lemma reply_doc_ok: "reply_writable r \<Longrightarrow> doc_ok TypeD (reply_doc r)"
  using petition_doc_ok
  by (cases "r_Petition r")
     (auto simp: doc_ok_def reply_doc_def reply_writable_def header_bval_def time_bval_def no_nul_def
       bson_int_def wire_ok_doc [of TypeD "petition_doc p" for p, unfolded doc_ok_def] simp del: wire_ok.simps(1))

lemma stored_doc:
  assumes "doc_ok TypeD d" and "length (doc_bytes d) < 2 ^ 31"
  shows "bson_Marshal d = Inr (doc_bytes d)"
    and "Unmarshal_struct setf zero (doc_bytes d) = Returns (fold_fields setf d zero)"
  using marshal_unmarshal(1) [OF assms] marshal_unmarshal(2) [OF assms, of "[]"]
    Unmarshal_struct_doc [of "doc_bytes d" d setf zero] by simp_all

subsection \<open>Properties\<close>

text \<open>
  C21: A document is read as it was written. For a document with names and patterns without a zero
  byte, object ids of 12 bytes, no binary data of the obsolete subtype, no repeated names in scopes
  and less than two gigabytes, \<open>Marshal\<close> succeeds and \<open>Unmarshal\<close> of its bytes returns it, whatever
  follows them.
\<close>
theorem bson_roundtrip:
  assumes "doc_ok TypeD d" and "length (doc_bytes d) < 2 ^ 31"
  shows "\<exists>b. bson_Marshal d = Inr b \<and> bson_Unmarshal (b @ rest) = Returns (Inr d)"
  using marshal_unmarshal [OF assms] by blast

text \<open>
  The encoder, which fills in the length of a document after its elements, writes the format: the
  length of it all in little-endian order, every element as its kind, its name and its value, and a
  zero byte. It fails just for an object id that has not 12 bytes, with the first one it meets.
\<close>
theorem bson_encoder_format:
  "bson_Marshal d = (case doc_bad_ids d of
     [] \<Rightarrow> Inr (le32 (word_of_nat (length (elems_bytes d) + 5)) @ elems_bytes d @ [0])
   | b # _ \<Rightarrow> Inl (bad_object_id b))"
  using marshal_writes [of d] by (simp add: doc_bytes_def framed_def split: list.split)

text \<open>
  C22: Unmarshalling any bytes ends: it returns a document or an error, or it panics because a length
  is negative; it never reads outside the bytes. The panic is real: twelve bytes that hold a string
  of length zero end the program instead of being reported as corrupted.
\<close>
theorem bson_read_total:
  "((\<exists>r. bson_Unmarshal data = Returns r) \<or> bson_Unmarshal data = Panics slice_bounds) \<and>
   bson_Unmarshal [12, 0, 0, 0, 2, 97, 0, 0, 0, 0, 0, 0] = Panics slice_bounds"
proof
  have "sound 0 (length data) (readDoc (length data + 1) TypeD data 0)" by (rule reading_sound) simp_all
  then show "(\<exists>r. bson_Unmarshal data = Returns r) \<or> bson_Unmarshal data = Panics slice_bounds"
    by (cases "readDoc (length data + 1) TypeD data 0") (auto simp: bson_Unmarshal_def simp del: readDoc.simps)
  show "bson_Unmarshal [12, 0, 0, 0, 2, 97, 0, 0, 0, 0, 0, 0] = Panics slice_bounds"
    by code_simp
qed

text \<open>
  C23: Whatever is read is well formed: names have no zero byte, object ids have 12 bytes, maps have
  no repeated name; so \<open>Marshal\<close> accepts every document \<open>Unmarshal\<close> returns.
\<close>
theorem bson_read_type:
  assumes "bson_Unmarshal data = Returns (Inr d)"
  shows "doc_ok TypeD d \<and> bson_Marshal d = Inr (doc_bytes d)"
proof -
  obtain i where "readDoc (length data + 1) TypeD data 0 = Got d i"
    using Unmarshal_Got [OF assms] by blast
  then have "doc_ok TypeD d" by (rule reading_ok(2))
  then show ?thesis using marshal_writes [of d] doc_ok_ids by simp
qed

text \<open>
  C19: A petition in the bytes of the store. With header maps without repeated keys and with keys
  without a zero byte, marshalling a petition succeeds and unmarshalling the bytes into a petition
  gives it back, its URL parsed again from its text; when that fails, with the error of the parser.
\<close>
theorem petition_bytes:
  assumes "petition_storable p" and "petition_writable p"
  shows "\<exists>b. bson_Marshal (petition_doc p) = Inr b \<and>
    Unmarshal_struct read_petition_elem empty_petition b = Returns (reparsed p)"
proof -
  have "doc_ok TypeD (petition_doc p)" "length (doc_bytes (petition_doc p)) < 2 ^ 31"
    using assms(2) petition_doc_ok by (auto simp: petition_writable_def)
  note stored = stored_doc(1) [OF this] stored_doc(2) [OF this, of read_petition_elem empty_petition]
  show ?thesis
    using stored doc_petition_doc [OF assms(1)] by (simp add: fold_fields_petition doc_petition_def)
qed

text \<open>
  C20: A reply in the bytes of the store, with the petition it answers: unmarshalling what was
  marshalled gives the reply back, its petition as it reads back itself.
\<close>
theorem reply_bytes:
  assumes "reply_storable r" and "reply_writable r" and "r_Petition r = Some p"
    and "doc_petition (petition_doc p) = Inr q"
  shows "\<exists>b. bson_Marshal (reply_doc r) = Inr b \<and>
    Unmarshal_struct read_reply_elem empty_reply b = Returns (Inr (r\<lparr>r_Petition := Some q\<rparr>))"
proof -
  have l: "length (doc_bytes (reply_doc r)) < 2 ^ 31" using assms(2) by (simp add: reply_writable_def)
  note ok = reply_doc_ok [OF assms(2)]
  show ?thesis
    using stored_doc(1) [OF ok l] stored_doc(2) [OF ok l, of read_reply_elem empty_reply]
      doc_reply_doc [OF assms(1,3,4)] by (simp add: fold_fields_reply doc_reply_def)
qed

text \<open>
  Reading into a struct is reading the document and then storing its elements in order, each in
  the field of its name, up to the first that cannot be stored.
\<close>
theorem bson_struct_reads_doc:
  assumes "bson_Unmarshal data = Returns (Inr d)"
  shows "Unmarshal_struct setf zero data = Returns (fold_fields setf d zero)"
  by (rule Unmarshal_struct_doc [OF assms])

theorem bson_roundtrip_witness:
  "\<exists>b. bson_Marshal [(''a'', BInt32 7), (''b'', BArr [BStr ''x'', BObjectId (replicate 12 1)])] = Inr b \<and>
     bson_Unmarshal (b @ [1]) = Returns (Inr
       [(''a'', BInt32 7), (''b'', BArr [BStr ''x'', BObjectId (replicate 12 1)])])"
  by (rule bson_roundtrip)
     (simp_all add: doc_ok_def no_nul_def doc_bytes_def length_framed value_bytes_docs length_str_bytes
         itoa.simps digit_char_def del: value_bytes.simps(3,4,12))

theorem bson_read_type_witness:
  "doc_ok TypeD [(''a'', BNull)] \<and> bson_Marshal [(''a'', BNull)] = Inr (doc_bytes [(''a'', BNull)])"
proof (rule bson_read_type)
  show "bson_Unmarshal [8, 0, 0, 0, 10, 97, 0, 0] = Returns (Inr [(''a'', BNull)])" by code_simp
qed

theorem bson_struct_reads_doc_witness:
  "Unmarshal_struct read_petition_elem empty_petition [8, 0, 0, 0, 10, 97, 0, 0] =
     Returns (fold_fields read_petition_elem [(''a'', BNull)] empty_petition)"
proof (rule bson_struct_reads_doc)
  show "bson_Unmarshal [8, 0, 0, 0, 10, 97, 0, 0] = Returns (Inr [(''a'', BNull)])" by code_simp
qed

lemma sample_lengths:
  "length (uuid_String (stamp_random (replicate 16 7))) = 36"
  "length (url_String (empty_url\<lparr>u_Path := ''/path/sub path'', u_RawQuery := ''q=a&r=b''\<rparr>)) = 24"
  "length (itoa 0) = 1" "length (itoa (Suc 0)) = 1"
  by code_simp+

lemmas doc_sizes = doc_bytes_def length_framed value_bytes_docs length_str_bytes length_bin_bytes header_bval_def
  url_bval_def time_bval_def

theorem petition_bytes_witness:
  "\<exists>b. bson_Marshal (petition_doc sample_petition) = Inr b \<and>
     Unmarshal_struct read_petition_elem empty_petition b = Returns (reparsed sample_petition)"
proof (rule petition_bytes)
  show "petition_storable sample_petition"
    by (simp add: petition_storable_def sample_petition_def header_ok_def time_ok_def)
  show "petition_writable sample_petition"
    by (simp add: petition_writable_def keys_no_nul_def petition_doc_def doc_sizes
        sample_petition_def sample_request_def no_nul_def sample_lengths del: value_bytes.simps(3,4,12))
qed

theorem reply_bytes_witness:
  "\<exists>b. bson_Marshal (reply_doc sample_reply) = Inr b \<and>
     Unmarshal_struct read_reply_elem empty_reply b = Returns (Inr (sample_reply\<lparr>r_Petition := Some sample_petition\<rparr>))"
proof (rule reply_bytes [OF _ _ _ sample_petition_survives])
  show "reply_storable sample_reply" "r_Petition sample_reply = Some sample_petition"
    by (simp_all add: sample_reply_def header_ok_def time_ok_def reply_storable_def)
  show "reply_writable sample_reply"
    by (simp add: reply_writable_def sample_reply_def keys_no_nul_def reply_doc_def petition_doc_def doc_sizes
        sample_petition_def sample_request_def no_nul_def sample_lengths bson_int_def
        del: value_bytes.simps(3,4,12))
qed

end
