(* ===== verification/MgoWire.thy ===== *)
theory MgoWire
  imports BsonStore
begin

text \<open>
  The messages a MongoDB client sends, \<open>mgo/socket.go\<close>: the operations, how \<open>mongoSocket.Query\<close> turns
  a list of them into one buffer, and the readers of the reply header. The format of a message is
  stated apart and the buffer is shown to be a row of such messages.
\<close>

subsection \<open>Operations\<close>

text \<open>The \<open>$query\<close> wrapper; fields tagged \<open>omitempty\<close> are optional, empty or false.\<close>

record query_wrapper =
  qw_Query :: bval
  qw_OrderBy :: "bval option"
  qw_Hint :: "bval option"
  qw_Explain :: bool
  qw_Snapshot :: bool
  qw_ReadPreference :: bdoc

record query_op =
  q_collection :: string
  q_query :: "bdoc option"
  q_skip :: "32 word"
  q_limit :: "32 word"
  q_selector :: "bdoc option"
  q_flags :: "32 word"
  q_replyFunc :: bool
  q_options :: query_wrapper
  q_hasOptions :: bool
  q_serverTags :: "bdoc list"

datatype mongo_op =
    UpdateOp string "bdoc option" "bdoc option" "32 word"
  | InsertOp string "bdoc option list"
  | QueryOp query_op
  | GetMoreOp string "32 word" "64 word" bool
  | DeleteOp string "bdoc option" "32 word"
  | KillCursorsOp "64 word list"

definition flagSlaveOk :: "32 word" where "flagSlaveOk = 4"

definition wrapper_doc :: "query_wrapper \<Rightarrow> bdoc" where
  "wrapper_doc qw =
     [(''$query'', qw_Query qw)] @
     (case qw_OrderBy qw of None \<Rightarrow> [] | Some v \<Rightarrow> [(''$orderby'', v)]) @
     (case qw_Hint qw of None \<Rightarrow> [] | Some v \<Rightarrow> [(''$hint'', v)]) @
     (if qw_Explain qw then [(''$explain'', BBool True)] else []) @
     (if qw_Snapshot qw then [(''$snapshot'', BBool True)] else []) @
     (if qw_ReadPreference qw = [] then [] else [(''$readPreference'', BDoc (qw_ReadPreference qw))])"

text \<open>\<open>finalQuery\<close> also changes the operation it is called on.\<close>

definition finalQuery :: "bool \<Rightarrow> query_op \<Rightarrow> bdoc option \<times> query_op" where
  "finalQuery mongos op =
     (let op1 = (if q_flags op AND flagSlaveOk \<noteq> 0 \<and> q_serverTags op \<noteq> [] \<and> mongos
        then op\<lparr>q_hasOptions := True,
           q_options := q_options op\<lparr>qw_ReadPreference :=
             [(''mode'', BStr ''secondaryPreferred''), (''tags'', BArr (map BDoc (q_serverTags op)))]\<rparr>\<rparr>
        else op)
      in if q_hasOptions op1 then
           (let q = (case q_query op1 of None \<Rightarrow> BDoc [] | Some d \<Rightarrow> BDoc d);
                op2 = op1\<lparr>q_options := q_options op1\<lparr>qw_Query := q\<rparr>\<rparr>
            in (Some (wrapper_doc (q_options op2)), op2))
         else (q_query op1, op1))"

fun has_replyFunc :: "mongo_op \<Rightarrow> bool" where
  "has_replyFunc (QueryOp op) = q_replyFunc op"
| "has_replyFunc (GetMoreOp _ _ _ r) = r"
| "has_replyFunc _ = False"

subsection \<open>Writing\<close>

definition msg_addHeader :: "bytes \<Rightarrow> nat \<Rightarrow> bytes" where
  "msg_addHeader b opcode =
     (let i = length b in
      (b @ replicate 16 0)[i + 12 := word_of_nat opcode, i + 13 := word_of_nat (opcode div 256)])"

definition msg_addInt32 :: "bytes \<Rightarrow> 32 word \<Rightarrow> bytes" where
  "msg_addInt32 b i =
     b @ [ucast i, ucast (drop_bit 8 i), ucast (drop_bit 16 i), ucast (drop_bit 24 i)]"

definition msg_addInt64 :: "bytes \<Rightarrow> 64 word \<Rightarrow> bytes" where
  "msg_addInt64 b i =
     b @ [ucast i, ucast (drop_bit 8 i), ucast (drop_bit 16 i), ucast (drop_bit 24 i),
       ucast (drop_bit 32 i), ucast (drop_bit 40 i), ucast (drop_bit 48 i), ucast (drop_bit 56 i)]"

definition msg_addCString :: "bytes \<Rightarrow> string \<Rightarrow> bytes" where
  "msg_addCString b s = (b @ bytes_of_string s) @ [0]"

definition msg_addBSON :: "bytes \<Rightarrow> bdoc option \<Rightarrow> gerror + bytes" where
  "msg_addBSON b doc =
     (case doc of
        None \<Rightarrow> Inr (b @ [5, 0, 0, 0, 0])
      | Some d \<Rightarrow> (case bson_Marshal d of Inl e \<Rightarrow> Inl e | Inr data \<Rightarrow> Inr (b @ data)))"

definition msg_setInt32 :: "bytes \<Rightarrow> nat \<Rightarrow> 32 word \<Rightarrow> bytes" where
  "msg_setInt32 b pos i =
     b[pos := ucast i, pos + 1 := ucast (drop_bit 8 i), pos + 2 := ucast (drop_bit 16 i),
       pos + 3 := ucast (drop_bit 24 i)]"

fun msg_addDocs :: "bytes \<Rightarrow> bdoc option list \<Rightarrow> gerror + bytes" where
  "msg_addDocs b [] = Inr b"
| "msg_addDocs b (d # ds) = (case msg_addBSON b d of Inl e \<Rightarrow> Inl e | Inr b' \<Rightarrow> msg_addDocs b' ds)"

fun serialize_op :: "bool \<Rightarrow> mongo_op \<Rightarrow> bytes \<Rightarrow> gerror + bytes" where
  "serialize_op mongos (UpdateOp coll selector upd flags) buf =
     (case msg_addBSON (msg_addInt32 (msg_addCString (msg_addInt32 (msg_addHeader buf 2001) 0) coll) flags)
         selector of
        Inl e \<Rightarrow> Inl e | Inr buf' \<Rightarrow> msg_addBSON buf' upd)"
| "serialize_op mongos (InsertOp coll docs) buf =
     msg_addDocs (msg_addCString (msg_addInt32 (msg_addHeader buf 2002) 0) coll) docs"
| "serialize_op mongos (QueryOp op) buf =
     (let buf1 = msg_addInt32 (msg_addInt32 (msg_addCString (msg_addInt32 (msg_addHeader buf 2004)
            (q_flags op)) (q_collection op)) (q_skip op)) (q_limit op)
      in case msg_addBSON buf1 (fst (finalQuery mongos op)) of
          Inl e \<Rightarrow> Inl e
        | Inr buf2 \<Rightarrow> if q_selector op = None then Inr buf2 else msg_addBSON buf2 (q_selector op))"
| "serialize_op mongos (GetMoreOp coll limit cursorId r) buf =
     Inr (msg_addInt64 (msg_addInt32 (msg_addCString (msg_addInt32 (msg_addHeader buf 2005) 0) coll) limit)
       cursorId)"
| "serialize_op mongos (DeleteOp coll selector flags) buf =
     msg_addBSON (msg_addInt32 (msg_addCString (msg_addInt32 (msg_addHeader buf 2006) 0) coll) flags) selector"
| "serialize_op mongos (KillCursorsOp ids) buf =
     Inr (foldl msg_addInt64
       (msg_addInt32 (msg_addInt32 (msg_addHeader buf 2007) 0) (word_of_nat (length ids))) ids)"

text \<open>
  The first loop of \<open>Query\<close>: the messages behind each other, each with its length, and where the
  message of every operation with a \<open>replyFunc\<close> starts.
\<close>

fun serialize_ops :: "bool \<Rightarrow> mongo_op list \<Rightarrow> bytes \<Rightarrow> nat list \<Rightarrow> gerror + (bytes \<times> nat list)" where
  "serialize_ops mongos [] buf requests = Inr (buf, requests)"
| "serialize_ops mongos (op # ops) buf requests =
     (let start = length buf in
      case serialize_op mongos op buf of
        Inl e \<Rightarrow> Inl e
      | Inr buf1 \<Rightarrow>
          serialize_ops mongos ops (msg_setInt32 buf1 start (word_of_nat (length buf1 - start)))
            (if has_replyFunc op then requests @ [start] else requests))"

text \<open>The second loop, with the lock held: the requests get consecutive ids.\<close>

fun assign_ids :: "nat list \<Rightarrow> 32 word \<Rightarrow> bytes \<Rightarrow> bytes" where
  "assign_ids [] requestId buf = buf"
| "assign_ids (pos # requests) requestId buf =
     assign_ids requests (requestId + 1) (msg_setInt32 buf (pos + 4) requestId)"

subsection \<open>Reading\<close>

definition msg_getInt32 :: "bytes \<Rightarrow> nat \<Rightarrow> 32 word" where
  "msg_getInt32 b pos =
     ucast (b ! pos) OR push_bit 8 (ucast (b ! (pos + 1))) OR push_bit 16 (ucast (b ! (pos + 2))) OR
     push_bit 24 (ucast (b ! (pos + 3)))"

definition msg_getInt64 :: "bytes \<Rightarrow> nat \<Rightarrow> 64 word" where
  "msg_getInt64 b pos =
     ucast (b ! pos) OR push_bit 8 (ucast (b ! (pos + 1))) OR push_bit 16 (ucast (b ! (pos + 2))) OR
     push_bit 24 (ucast (b ! (pos + 3))) OR push_bit 32 (ucast (b ! (pos + 4))) OR
     push_bit 40 (ucast (b ! (pos + 5))) OR push_bit 48 (ucast (b ! (pos + 6))) OR
     push_bit 56 (ucast (b ! (pos + 7)))"

record reply_op =
  ro_flags :: "32 word"
  ro_cursorId :: "64 word"
  ro_firstDoc :: "32 word"
  ro_replyDocs :: "32 word"

text \<open>The 36 bytes before the documents of a reply: to which request, of which kind, and the rest.\<close>

definition read_reply_header :: "bytes \<Rightarrow> 32 word \<times> 32 word \<times> reply_op" where
  "read_reply_header p =
     (msg_getInt32 p 8, msg_getInt32 p 12,
      \<lparr>ro_flags = msg_getInt32 p 16, ro_cursorId = msg_getInt64 p 20, ro_firstDoc = msg_getInt32 p 28,
       ro_replyDocs = msg_getInt32 p 32\<rparr>)"

subsection \<open>The format\<close>

fun op_code :: "mongo_op \<Rightarrow> 32 word" where
  "op_code (UpdateOp _ _ _ _) = 2001"
| "op_code (InsertOp _ _) = 2002"
| "op_code (QueryOp _) = 2004"
| "op_code (GetMoreOp _ _ _ _) = 2005"
| "op_code (DeleteOp _ _ _) = 2006"
| "op_code (KillCursorsOp _) = 2007"

definition doc_or_empty :: "bdoc option \<Rightarrow> bytes" where
  "doc_or_empty d = doc_bytes (case d of None \<Rightarrow> [] | Some d \<Rightarrow> d)"

definition cstr :: "string \<Rightarrow> bytes" where
  "cstr s = bytes_of_string s @ [0]"

text \<open>The documents of an operation, and its message body when they can be marshalled.\<close>

fun op_docs :: "bool \<Rightarrow> mongo_op \<Rightarrow> bdoc option list" where
  "op_docs mongos (UpdateOp _ selector upd _) = [selector, upd]"
| "op_docs mongos (InsertOp _ docs) = docs"
| "op_docs mongos (QueryOp op) =
     fst (finalQuery mongos op) # (case q_selector op of None \<Rightarrow> [] | Some d \<Rightarrow> [Some d])"
| "op_docs mongos (DeleteOp _ selector _) = [selector]"
| "op_docs mongos _ = []"

fun op_fields :: "mongo_op \<Rightarrow> bytes" where
  "op_fields (UpdateOp coll _ _ flags) = le32 0 @ cstr coll @ le32 flags"
| "op_fields (InsertOp coll _) = le32 0 @ cstr coll"
| "op_fields (QueryOp op) = le32 (q_flags op) @ cstr (q_collection op) @ le32 (q_skip op) @ le32 (q_limit op)"
| "op_fields (GetMoreOp coll limit cursorId _) = le32 0 @ cstr coll @ le32 limit @ le64 cursorId"
| "op_fields (DeleteOp coll _ flags) = le32 0 @ cstr coll @ le32 flags"
| "op_fields (KillCursorsOp ids) = le32 0 @ le32 (word_of_nat (length ids)) @ concat (map le64 ids)"

definition op_body :: "bool \<Rightarrow> mongo_op \<Rightarrow> bytes" where
  "op_body mongos op = op_fields op @ concat (map doc_or_empty (op_docs mongos op))"

definition message :: "32 word \<Rightarrow> bool \<Rightarrow> mongo_op \<Rightarrow> bytes" where
  "message requestId mongos op =
     le32 (word_of_nat (length (op_body mongos op) + 16)) @ le32 requestId @ le32 0 @ le32 (op_code op) @
     op_body mongos op"

text \<open>Messages behind each other: those that expect a reply are numbered, the others have 0.\<close>

fun messages :: "32 word \<Rightarrow> bool \<Rightarrow> mongo_op list \<Rightarrow> bytes" where
  "messages requestId mongos [] = []"
| "messages requestId mongos (op # ops) =
     message (if has_replyFunc op then requestId else 0) mongos op @
     messages (if has_replyFunc op then requestId + 1 else requestId) mongos ops"

text \<open>The object ids of wrong length in the documents of an operation, which stop it.\<close>

definition opt_bad_ids :: "bdoc option \<Rightarrow> bytes list" where
  "opt_bad_ids d = (case d of None \<Rightarrow> [] | Some d \<Rightarrow> doc_bad_ids d)"

definition op_bad_ids :: "bool \<Rightarrow> mongo_op \<Rightarrow> bytes list" where
  "op_bad_ids mongos op = concat (map opt_bad_ids (op_docs mongos op))"

definition requests_at :: "nat \<Rightarrow> mongo_op \<Rightarrow> nat list" where
  "requests_at pos op = (if has_replyFunc op then [pos] else [])"

fun request_positions :: "nat \<Rightarrow> bool \<Rightarrow> mongo_op list \<Rightarrow> nat list" where
  "request_positions pos mongos [] = []"
| "request_positions pos mongos (op # ops) =
     requests_at pos op @ request_positions (pos + length (message 0 mongos op)) mongos ops"

lemma doc_bytes_Nil: "doc_bytes [] = [5, 0, 0, 0, 0]"
  by (simp add: doc_bytes_def framed_def le32_def)

lemma appends_plain: "appends (\<lambda>b. Inr (b @ x)) [] x"
  by (simp add: appends_def)

lemma appends_then:
  "appends v bad x \<Longrightarrow> appends w bad' y \<Longrightarrow>
     appends (\<lambda>b. case v b of Inl e \<Rightarrow> Inl e | Inr b' \<Rightarrow> w b') (bad @ bad') (x @ y)"
  by (cases bad; cases bad') (simp_all add: appends_def)

lemma appends_before: "appends w bad y \<Longrightarrow> appends (\<lambda>b. w (b @ x)) bad (x @ y)"
  by (cases bad) (simp_all add: appends_def)

lemma appends_addBSON: "appends (\<lambda>b. msg_addBSON b d) (opt_bad_ids d) (doc_or_empty d)"
  by (auto simp: appends_def msg_addBSON_def opt_bad_ids_def doc_or_empty_def doc_bytes_Nil marshal_writes
      split: option.split list.split)

lemma appends_addDocs:
  "appends (\<lambda>b. msg_addDocs b ds) (concat (map opt_bad_ids ds)) (concat (map doc_or_empty ds))"
proof (induction ds)
  case (Cons d ds)
  then show ?case using appends_then [OF appends_addBSON [of d] Cons] by simp
qed (simp add: appends_def)

definition blank_header :: "32 word \<Rightarrow> bytes" where
  "blank_header code = replicate 12 0 @ le32 code"

lemma blank16: "replicate 16 0 = [0, 0, 0, 0, 0, 0, 0, 0, 0, 0, 0, 0, 0, 0, 0, 0 :: byte]"
  and blank12: "replicate 12 0 = [0, 0, 0, 0, 0, 0, 0, 0, 0, 0, 0, 0 :: byte]"
  by (simp_all add: numeral_eq_Suc)

lemma header_codes:
  "msg_addHeader buf 2001 = buf @ blank_header 2001" "msg_addHeader buf 2002 = buf @ blank_header 2002"
  "msg_addHeader buf 2004 = buf @ blank_header 2004" "msg_addHeader buf 2005 = buf @ blank_header 2005"
  "msg_addHeader buf 2006 = buf @ blank_header 2006" "msg_addHeader buf 2007 = buf @ blank_header 2007"
  by (simp_all add: msg_addHeader_def blank_header_def le32_def list_update_append blank16 blank12)

lemma msg_addInt32_eq: "msg_addInt32 b i = b @ le32 i"
  and msg_addInt64_eq: "msg_addInt64 b v = b @ le64 v"
  by (simp_all add: msg_addInt32_def msg_addInt64_def le32_def le64_def)

lemma foldl_addInt64: "foldl msg_addInt64 b ids = b @ concat (map le64 ids)"
  by (induction ids arbitrary: b) (simp_all add: msg_addInt64_eq)

lemmas msg_eqs = msg_addInt32_eq msg_addInt64_eq msg_addCString_def cstr_def header_codes foldl_addInt64

lemma appends_serialize:
  "appends (serialize_op mongos op) (op_bad_ids mongos op) (blank_header (op_code op) @ op_body mongos op)"
proof (cases op)
  case (UpdateOp coll selector upd flags)
  then show ?thesis
    using appends_before [OF appends_then [OF appends_addBSON [of selector] appends_addBSON [of upd]],
        of "blank_header 2001 @ le32 0 @ cstr coll @ le32 flags"]
    by (simp add: msg_eqs op_bad_ids_def op_body_def appends_def del: append_is_Nil_conv)
next
  case (InsertOp coll docs)
  then show ?thesis
    using appends_before [OF appends_addDocs [of docs], of "blank_header 2002 @ le32 0 @ cstr coll"]
    by (simp add: msg_eqs op_bad_ids_def op_body_def appends_def del: append_is_Nil_conv)
next
  case (QueryOp q)
  let ?x = "blank_header 2004 @ le32 (q_flags q) @ cstr (q_collection q) @ le32 (q_skip q) @ le32 (q_limit q)"
  note query = appends_addBSON [of "fst (finalQuery mongos q)"]
  show ?thesis
  proof (cases "q_selector q")
    case None
    then show ?thesis
      using QueryOp appends_before [OF query, of ?x]
      by (simp add: msg_eqs op_bad_ids_def op_body_def appends_def split: list.splits)
  next
    case (Some d)
    then show ?thesis
      using QueryOp appends_before [OF appends_then [OF query appends_addBSON [of "Some d"]], of ?x]
      by (simp add: msg_eqs op_bad_ids_def op_body_def appends_def del: append_is_Nil_conv cong: sum.case_cong)
  qed
next
  case (DeleteOp coll selector flags)
  then show ?thesis
    using appends_before [OF appends_addBSON [of selector], of "blank_header 2006 @ le32 0 @ cstr coll @ le32 flags"]
    by (simp add: msg_eqs op_bad_ids_def op_body_def appends_def del: append_is_Nil_conv)
qed (simp_all add: appends_def msg_eqs op_bad_ids_def op_body_def)

subsection \<open>The buffer of Query\<close>

lemma set_message_length:
  "msg_setInt32 (buf @ blank_header code @ body) (length buf)
      (word_of_nat (length (buf @ blank_header code @ body) - length buf)) =
    buf @ le32 (word_of_nat (length body + 16)) @ le32 0 @ le32 0 @ le32 code @ body"
  by (simp add: msg_setInt32_def blank_header_def le32_def list_update_append blank12 add.commute)

lemma set_message_id:
  "msg_setInt32 (buf @ message 0 mongos op @ rest) (length buf + 4) requestId =
     buf @ message requestId mongos op @ rest"
  by (simp add: msg_setInt32_def message_def le32_def list_update_append)

lemma serialize_ops_eq:
  "serialize_ops mongos ops buf requests =
     (case concat (map (op_bad_ids mongos) ops) of
        [] \<Rightarrow> Inr (buf @ concat (map (message 0 mongos) ops),
                 requests @ request_positions (length buf) mongos ops)
      | b # _ \<Rightarrow> Inl (bad_object_id b))"
proof (induction ops arbitrary: buf requests)
  case (Cons op ops)
  have op: "serialize_op mongos op buf = (case op_bad_ids mongos op of
      [] \<Rightarrow> Inr (buf @ blank_header (op_code op) @ op_body mongos op) | b # _ \<Rightarrow> Inl (bad_object_id b))"
    using appends_serialize [of mongos op] by (simp add: appends_def)
  show ?case
  proof (cases "op_bad_ids mongos op")
    case Nil
    have "msg_setInt32 (buf @ blank_header (op_code op) @ op_body mongos op) (length buf)
        (word_of_nat (length (buf @ blank_header (op_code op) @ op_body mongos op) - length buf)) =
      buf @ message 0 mongos op"
      unfolding set_message_length by (simp add: message_def)
    then show ?thesis
      using Cons.IH [of "buf @ message 0 mongos op" "requests @ requests_at (length buf) op"] op Nil
      by (cases "concat (map (op_bad_ids mongos) ops)"; cases "has_replyFunc op")
         (simp_all add: requests_at_def Let_def del: concat_eq_Nil_conv)
  qed (simp add: op)
qed simp

lemma assign_ids_eq:
  "assign_ids (request_positions (length buf) mongos ops) requestId
      (buf @ concat (map (message 0 mongos) ops)) = buf @ messages requestId mongos ops"
proof (induction ops arbitrary: buf requestId)
  case (Cons op ops)
  have l: "length (message requestId mongos op) = length (message 0 mongos op)" by (simp add: message_def)
  show ?case
    using Cons.IH [of "buf @ message requestId mongos op" "requestId + 1"]
      Cons.IH [of "buf @ message 0 mongos op" requestId] set_message_id [of buf mongos op _ requestId] l
    by (simp add: requests_at_def)
qed simp

lemma length_request_positions:
  "length (request_positions pos mongos ops) = length (filter has_replyFunc ops)"
  by (induction ops arbitrary: pos) (simp_all add: requests_at_def)

subsection \<open>Reading back\<close>

lemma getInt32_le32: "msg_getInt32 (pre @ le32 w @ suf) (length pre) = w"
proof -
  have "msg_getInt32 (pre @ le32 w @ suf) (length pre) = of_le32 (le32 w)"
    by (simp add: msg_getInt32_def of_le32_def le32_def nth_append)
  then show ?thesis by simp
qed

lemma getInt64_le64: "msg_getInt64 (pre @ le64 w @ suf) (length pre) = w"
proof -
  have "msg_getInt64 (pre @ le64 w @ suf) (length pre) = of_le64 (le64 w)"
    by (simp add: msg_getInt64_def of_le64_def le64_def nth_append)
  then show ?thesis by simp
qed

text \<open>The reply message up to its documents, as the server writes it.\<close>

definition reply_head :: "32 word \<Rightarrow> 32 word \<Rightarrow> 32 word \<Rightarrow> reply_op \<Rightarrow> bytes" where
  "reply_head len requestId responseTo rp =
     le32 len @ le32 requestId @ le32 responseTo @ le32 1 @
     le32 (ro_flags rp) @ le64 (ro_cursorId rp) @ le32 (ro_firstDoc rp) @ le32 (ro_replyDocs rp)"

lemma read_reply_header_eq: "read_reply_header (reply_head len requestId responseTo rp) = (responseTo, 1, rp)"
proof -
  let ?h = "reply_head len requestId responseTo rp"
  have "msg_getInt32 ?h 8 = responseTo"
    using getInt32_le32 [of "le32 len @ le32 requestId" responseTo] by (simp add: reply_head_def)
  moreover have "msg_getInt32 ?h 12 = 1"
    using getInt32_le32 [of "le32 len @ le32 requestId @ le32 responseTo" 1] by (simp add: reply_head_def)
  moreover have "msg_getInt32 ?h 16 = ro_flags rp"
    using getInt32_le32 [of "le32 len @ le32 requestId @ le32 responseTo @ le32 1" "ro_flags rp"]
    by (simp add: reply_head_def)
  moreover have "msg_getInt64 ?h 20 = ro_cursorId rp"
    using getInt64_le64 [of "le32 len @ le32 requestId @ le32 responseTo @ le32 1 @ le32 (ro_flags rp)"
        "ro_cursorId rp"] by (simp add: reply_head_def)
  moreover have "msg_getInt32 ?h 28 = ro_firstDoc rp"
    using getInt32_le32 [of "le32 len @ le32 requestId @ le32 responseTo @ le32 1 @ le32 (ro_flags rp) @
        le64 (ro_cursorId rp)" "ro_firstDoc rp"] by (simp add: reply_head_def)
  moreover have "msg_getInt32 ?h 32 = ro_replyDocs rp"
    using getInt32_le32 [of "le32 len @ le32 requestId @ le32 responseTo @ le32 1 @ le32 (ro_flags rp) @
        le64 (ro_cursorId rp) @ le32 (ro_firstDoc rp)" "ro_replyDocs rp" "[]"] by (simp add: reply_head_def)
  ultimately show ?thesis by (simp add: read_reply_header_def)
qed

text \<open>A server that follows the length fields sees the messages one by one.\<close>

fun split_messages :: "nat \<Rightarrow> bytes \<Rightarrow> bytes list option" where
  "split_messages 0 b = None"
| "split_messages (Suc n) b =
     (if b = [] then Some []
      else if length b < 4 then None
      else (let l = unat (msg_getInt32 b 0) in
        if l < 16 \<or> length b < l then None
        else map_option ((#) (take l b)) (split_messages n (drop l b))))"

fun message_list :: "32 word \<Rightarrow> bool \<Rightarrow> mongo_op list \<Rightarrow> bytes list" where
  "message_list requestId mongos [] = []"
| "message_list requestId mongos (op # ops) =
     message (if has_replyFunc op then requestId else 0) mongos op #
     message_list (if has_replyFunc op then requestId + 1 else requestId) mongos ops"

lemma split_message:
  assumes "length (op_body mongos op) + 16 < 2 ^ 31"
  shows "split_messages (Suc n) (message requestId mongos op @ rest) =
    map_option ((#) (message requestId mongos op)) (split_messages n rest)"
proof -
  let ?m = "message requestId mongos op"
  let ?l = "length (op_body mongos op) + 16"
  have "unat (word_of_nat ?l :: 32 word) = ?l"
    using assms by (simp add: unat_of_nat take_bit_eq_mod del: of_nat_add)
  moreover have "msg_getInt32 (?m @ rest) 0 = word_of_nat ?l"
    using getInt32_le32 [of "[]" "word_of_nat ?l"] by (simp add: message_def)
  ultimately have "unat (msg_getInt32 (?m @ rest) 0) = length ?m" by (simp only: message_def) simp
  moreover have "16 \<le> length ?m" by (simp add: message_def)
  moreover have "?m \<noteq> []" by (simp add: message_def le32_def)
  ultimately show ?thesis by (simp add: Let_def)
qed

lemma split_messages_eq:
  "\<forall>op \<in> set ops. length (op_body mongos op) + 16 < 2 ^ 31 \<Longrightarrow> length ops < n \<Longrightarrow>
     split_messages n (messages requestId mongos ops) = Some (message_list requestId mongos ops)"
proof (induction ops arbitrary: n requestId)
  case Nil
  then show ?case by (cases n) simp_all
next
  case (Cons op ops)
  obtain m where n: "n = Suc m" "length ops < m" using Cons.prems(2) by (cases n) auto
  show ?case
    using Cons.IH [OF _ n(2)] Cons.prems(1) split_message [of mongos op m] n(1)
    by (simp del: split_messages.simps)
qed

text \<open>
  C24: What \<open>Query\<close> sends. When the documents of the operations can be marshalled, the buffer of
  \<open>Query\<close> with the ids filled in is one message for every operation in their order: its own length,
  an id, numbered from the given one for those that expect a reply and 0 for the others, the operation
  code, the fields and the documents; a server that follows the lengths sees exactly these messages.
\<close>
theorem query_messages:
  assumes "\<forall>op \<in> set ops. op_bad_ids mongos op = [] \<and> length (op_body mongos op) + 16 < 2 ^ 31"
  shows "\<exists>buf requests. serialize_ops mongos ops [] [] = Inr (buf, requests) \<and>
    length requests = length (filter has_replyFunc ops) \<and>
    split_messages (length ops + 1) (assign_ids requests requestId buf) =
      Some (message_list requestId mongos ops)"
proof -
  have "concat (map (op_bad_ids mongos) ops) = []" using assms by simp
  then have "serialize_ops mongos ops [] [] =
      Inr (concat (map (message 0 mongos) ops), request_positions 0 mongos ops)"
    by (simp add: serialize_ops_eq del: concat_eq_Nil_conv)
  moreover have "assign_ids (request_positions 0 mongos ops) requestId (concat (map (message 0 mongos) ops)) =
      messages requestId mongos ops"
    using assign_ids_eq [of "[]"] by simp
  ultimately show ?thesis
    using split_messages_eq [of ops mongos "length ops + 1"] assms
    by (simp add: length_request_positions del: split_messages.simps)
qed

definition sample_query :: query_op where
  "sample_query = \<lparr>q_collection = ''gridas.$cmd'', q_query = Some [(''getLastError'', BInt32 1)], q_skip = 0,
     q_limit = - 1, q_selector = None, q_flags = 0, q_replyFunc = True,
     q_options = \<lparr>qw_Query = BNull, qw_OrderBy = None, qw_Hint = None, qw_Explain = False,
       qw_Snapshot = False, qw_ReadPreference = []\<rparr>, q_hasOptions = False, q_serverTags = []\<rparr>"

definition sample_ops :: "mongo_op list" where
  "sample_ops = [InsertOp ''gridas.petitions'' [Some [(''id'', BStr ''x'')]], QueryOp sample_query]"

theorem query_messages_witness:
  "\<exists>buf requests. serialize_ops False sample_ops [] [] = Inr (buf, requests) \<and> length requests = 1 \<and>
     split_messages 3 (assign_ids requests 7 buf) =
       Some [message 0 False (hd sample_ops), message 7 False (QueryOp sample_query)]"
proof -
  have "\<forall>op \<in> set sample_ops. op_bad_ids False op = [] \<and> length (op_body False op) + 16 < 2 ^ 31"
    by (simp add: sample_ops_def sample_query_def op_bad_ids_def opt_bad_ids_def doc_bad_ids_def op_body_def
        cstr_def doc_or_empty_def doc_sizes finalQuery_def flagSlaveOk_def)
  from query_messages [OF this, of 7] show ?thesis
    by (simp add: sample_ops_def sample_query_def numeral_3_eq_3 del: split_messages.simps serialize_ops.simps)
qed

end
