(* ===== verification/MgoSocket.thy ===== *)
theory MgoSocket
  imports MgoWire Transition
begin

text \<open>
  A connection to a MongoDB server, \<open>mgo/socket.go\<close>, used by many goroutines: \<open>Query\<close> registers what
  to call with the reply of a request, the goroutine of \<open>readLoop\<close> takes replies off the connection
  and calls it, and \<open>kill\<close> calls all that are left with an error. What one of these does with the lock held
  is one step, and every call \<open>kill\<close> and \<open>Query\<close> make after they let it go is one. The connection is an argument: what \<open>Write\<close> lets through and what \<open>fill\<close> gives.
\<close>

subsection \<open>State\<close>

text \<open>What a \<open>replyFunc\<close> is called with: an error, a reply without documents, or one document.\<close>

datatype notice = NErr gerror | NNone reply_op | NDoc reply_op nat bytes

text \<open>
  Where \<open>readLoop\<close> is: before a header, before the next document of a reply, out of its loop, when the calls
  its \<open>kill\<close> has to make may still be ahead, or ended by a panic, which takes the program down. The request being answered is \<open>None\<close> when nobody waits for it.
\<close>

datatype reader = RIdle | RDocs "nat option" reply_op nat | RDone | RCrashed "nat option" reply_op nat

text \<open>
  The registered functions are numbered in the order of registration. \<open>sk_made\<close> counts them,
  \<open>sk_issued\<close> counts how far the ids have advanced, \<open>sk_pending\<close> has the calls that are to be made by the
  goroutines that took the functions, without the lock, and \<open>sk_log\<close> records the calls made.
\<close>

record mongo_socket =
  sk_server :: bool
  sk_dead :: "gerror option"
  sk_next :: "32 word"
  sk_replies :: "(32 word \<times> nat) list"
  sk_abends :: nat
  sk_sent :: bytes
  sk_reader :: reader
  sk_made :: nat
  sk_issued :: nat
  sk_pending :: "(nat \<times> notice) list"
  sk_log :: "(nat \<times> notice) list"

definition new_socket :: mongo_socket where
  "new_socket = \<lparr>sk_server = True, sk_dead = None, sk_next = 0, sk_replies = [], sk_abends = 0,
     sk_sent = [], sk_reader = RIdle, sk_made = 0, sk_issued = 0, sk_pending = [], sk_log = []\<rparr>"

definition notify :: "nat option \<Rightarrow> notice \<Rightarrow> mongo_socket \<Rightarrow> mongo_socket" where
  "notify f n s = (case f of None \<Rightarrow> s | Some r \<Rightarrow> s\<lparr>sk_log := sk_log s @ [(r, n)]\<rparr>)"

subsection \<open>Operations\<close>

text \<open>\<open>kill\<close> and \<open>Query\<close> up to where they let the lock go; the calls that follow are pending.\<close>

definition socket_kill :: "gerror \<Rightarrow> bool \<Rightarrow> mongo_socket \<Rightarrow> mongo_socket" where
  "socket_kill err abend s =
     (if sk_dead s \<noteq> None then s
      else s\<lparr>sk_dead := Some err, sk_replies := [], sk_server := False,
        sk_pending := sk_pending s @ map (\<lambda>(_, r). (r, NErr err)) (sk_replies s),
        sk_abends := sk_abends s + (if abend then 1 else 0)\<rparr>)"

definition socket_Close :: "mongo_socket \<Rightarrow> mongo_socket" where
  "socket_Close s = socket_kill ''Closed explicitly'' False s"

fun register :: "32 word \<Rightarrow> nat list \<Rightarrow> (32 word \<times> nat) list \<Rightarrow> (32 word \<times> nat) list" where
  "register requestId [] m = m"
| "register requestId (r # rs) m =
     register (requestId + 1) rs ((requestId, r) # filter (\<lambda>(i, _). i \<noteq> requestId) m)"

text \<open>One of the calls that are pending is made; the map of \<open>kill\<close> is walked in any order.\<close>

inductive call_pending :: "mongo_socket \<Rightarrow> mongo_socket \<Rightarrow> bool" where
  call_made: "sk_pending s = us @ (r, n) # vs \<Longrightarrow>
    call_pending s (s\<lparr>sk_pending := us @ vs, sk_log := sk_log s @ [(r, n)]\<rparr>)"

text \<open>
  \<open>Query\<close>, with the operations that log out in front of the given ones; \<open>write\<close> tells what of the
  buffer gets through and the error of \<open>conn.Write\<close>.
\<close>

definition socket_Query ::
  "bool \<Rightarrow> (bytes \<Rightarrow> bytes \<times> gerror option) \<Rightarrow> mongo_op list \<Rightarrow> mongo_op list \<Rightarrow> mongo_socket \<Rightarrow>
   gerror option \<times> mongo_socket"
where
  "socket_Query mongos write lops ops s =
     (case serialize_ops mongos (lops @ ops) [] [] of
        Inl e \<Rightarrow> (Some e, s)
      | Inr (buf, requests) \<Rightarrow>
          (let fs = [sk_made s..<sk_made s + length requests] in
           case sk_dead s of
             Some dead \<Rightarrow>
               (Some dead, s\<lparr>sk_made := sk_made s + length requests,
                  sk_pending := sk_pending s @ map (\<lambda>r. (r, NErr dead)) fs\<rparr>)
           | None \<Rightarrow>
               (let requestId = (if sk_next s + 1 = 0 then 1 else sk_next s + 1);
                    (through, err) = write (assign_ids requests requestId buf)
                in (err, s\<lparr>sk_next := requestId + word_of_nat (length requests),
                     sk_replies := register requestId fs (sk_replies s),
                     sk_made := sk_made s + length requests,
                     sk_issued := sk_issued s + length requests + 1,
                     sk_sent := sk_sent s @ through\<rparr>))))"

text \<open>\<open>readLoop\<close> from the header of a reply to its documents; \<open>r\<close> is the result of \<open>fill\<close>.\<close>

definition read_reply :: "gerror + bytes \<Rightarrow> mongo_socket \<Rightarrow> mongo_socket" where
  "read_reply r s =
     (case r of
        Inl err \<Rightarrow> (socket_kill err True s)\<lparr>sk_reader := RDone\<rparr>
      | Inr p \<Rightarrow>
          (case read_reply_header p of (responseTo, opCode, rp) \<Rightarrow>
             if opCode \<noteq> 1 then
               (socket_kill ''opcode != 1, corrupted data?'' True s)\<lparr>sk_reader := RDone\<rparr>
             else
               (let f = map_of (sk_replies s) responseTo;
                    s1 = s\<lparr>sk_replies := filter (\<lambda>(i, _). i \<noteq> responseTo) (sk_replies s)\<rparr>
                in if f \<noteq> None \<and> ro_replyDocs rp = 0 then notify f (NNone rp) s1
                   else s1\<lparr>sk_reader := RDocs f rp 0\<rparr>)))"

text \<open>
  One round of the loop over the documents: four bytes of length, then the rest. A length below four
  panics, when the slice is made or when the four bytes are copied into it.
\<close>

definition read_document ::
  "gerror + bytes \<Rightarrow> (nat \<Rightarrow> gerror + bytes) \<Rightarrow> nat option \<Rightarrow> reply_op \<Rightarrow> nat \<Rightarrow> mongo_socket \<Rightarrow> mongo_socket"
where
  "read_document first rest f rp i s =
     (let broken = (\<lambda>err. (socket_kill err True (notify f (NErr err) s))\<lparr>sk_reader := RDone\<rparr>)
      in if int i = sint (ro_replyDocs rp) then s\<lparr>sk_reader := RIdle\<rparr>
         else case first of
             Inl err \<Rightarrow> broken err
           | Inr b4 \<Rightarrow>
               (let l = sint (msg_getInt32 b4 0) in
                if l < 4 then s\<lparr>sk_reader := RCrashed f rp i\<rparr>
                else case rest (nat l - 4) of
                    Inl err \<Rightarrow> broken err
                  | Inr b \<Rightarrow> (notify f (NDoc rp i (b4 @ b)) s)\<lparr>sk_reader := RDocs f rp (i + 1)\<rparr>))"

text \<open>
  The connection gives chunks: what one \<open>Read\<close> returns when the buffer is large enough, with its
  error; a larger chunk stays for the next \<open>Read\<close>, and after the last there is only the end of file.
\<close>

type_synonym conn = "(bytes \<times> gerror option) list"

fun fill :: "conn \<Rightarrow> nat \<Rightarrow> (gerror + bytes) \<times> conn" where
  "fill [] k = (Inl ''EOF'', [])"
| "fill ((d, err) # cs) k =
     (if k < length d then (Inr (take k d), (drop k d, err) # cs)
      else case err of
          Some e \<Rightarrow> (Inl e, cs)
        | None \<Rightarrow>
            (if length d = k then (Inr d, cs)
             else case fill cs (k - length d) of
                 (Inl e, cs') \<Rightarrow> (Inl e, cs')
               | (Inr b, cs') \<Rightarrow> (Inr (d @ b), cs')))"

text \<open>\<open>readLoop\<close> undisturbed, for a number of rounds.\<close>

fun readLoop :: "nat \<Rightarrow> conn \<Rightarrow> mongo_socket \<Rightarrow> mongo_socket \<times> conn" where
  "readLoop 0 c s = (s, c)"
| "readLoop (Suc n) c s =
     (case sk_reader s of
        RIdle \<Rightarrow> (case fill c 36 of (r, c1) \<Rightarrow> readLoop n c1 (read_reply r s))
      | RDocs f rp i \<Rightarrow>
          (if int i = sint (ro_replyDocs rp) then readLoop n c (s\<lparr>sk_reader := RIdle\<rparr>)
           else case fill c 4 of (first, c1) \<Rightarrow>
             (let k = (case first of Inl _ \<Rightarrow> 0 | Inr b \<Rightarrow> nat (sint (msg_getInt32 b 0)) - 4);
                  c2 = (case first of
                      Inl _ \<Rightarrow> c1
                    | Inr b \<Rightarrow> if sint (msg_getInt32 b 0) < 4 then c1 else snd (fill c1 k))
              in readLoop n c2 (read_document first (\<lambda>k. fst (fill c1 k)) f rp i s)))
      | _ \<Rightarrow> (s, c))"

subsection \<open>Interleavings\<close>

fun running :: "reader \<Rightarrow> bool" where
  "running (RCrashed _ _ _) = False"
| "running _ = True"

inductive socket_step :: "mongo_socket \<Rightarrow> mongo_socket \<Rightarrow> bool" where
  step_query: "running (sk_reader s) \<Longrightarrow> socket_step s (snd (socket_Query mongos write lops ops s))"
| step_kill: "running (sk_reader s) \<Longrightarrow> socket_step s (socket_kill err abend s)"
| step_call: "running (sk_reader s) \<Longrightarrow> call_pending s s' \<Longrightarrow> socket_step s s'"
| step_reply: "sk_reader s = RIdle \<Longrightarrow> socket_step s (read_reply r s)"
| step_document: "sk_reader s = RDocs f rp i \<Longrightarrow> socket_step s (read_document first rest f rp i s)"

text \<open>What a function has been called with, and with the calls that are pending.\<close>

definition notices :: "nat \<Rightarrow> mongo_socket \<Rightarrow> notice list" where
  "notices r s = map snd (filter (\<lambda>(q, _). q = r) (sk_log s))"

definition due :: "nat \<Rightarrow> mongo_socket \<Rightarrow> notice list" where
  "due r s = map snd (filter (\<lambda>(q, _). q = r) (sk_log s @ sk_pending s))"

text \<open>The first documents of a reply in order; and a whole answer.\<close>

definition first_docs :: "reply_op \<Rightarrow> nat \<Rightarrow> notice list \<Rightarrow> bool" where
  "first_docs rp k ns \<longleftrightarrow> (\<exists>ds. length ds = k \<and> ns = map (\<lambda>(j, d). NDoc rp j d) (enumerate 0 ds))"

definition answered :: "notice list \<Rightarrow> bool" where
  "answered ns \<longleftrightarrow>
     (\<exists>rp. ro_replyDocs rp = 0 \<and> ns = [NNone rp]) \<or>
     (\<exists>rp k. 0 < k \<and> int k = sint (ro_replyDocs rp) \<and> first_docs rp k ns) \<or>
     (\<exists>rp k ms e. first_docs rp k ms \<and> ns = ms @ [NErr e])"

definition waiting :: "nat \<Rightarrow> mongo_socket \<Rightarrow> bool" where
  "waiting r s \<longleftrightarrow> r \<in> snd ` set (sk_replies s)"

text \<open>The request the reader is answering, with the reply and the documents already delivered.\<close>

fun in_progress :: "reader \<Rightarrow> (nat \<times> reply_op \<times> nat) option" where
  "in_progress (RDocs (Some r) rp i) = Some (r, rp, i)"
| "in_progress (RCrashed (Some r) rp i) = Some (r, rp, i)"
| "in_progress _ = None"

definition socket_inv :: "mongo_socket \<Rightarrow> bool" where
  "socket_inv s \<longleftrightarrow>
     distinct (map fst (sk_replies s)) \<and> distinct (map snd (sk_replies s)) \<and>
     (sk_dead s \<noteq> None \<longrightarrow> sk_replies s = []) \<and>
     sk_next s = word_of_nat (sk_issued s) \<and>
     (\<forall>(i, r) \<in> set (sk_replies s). 0 < unat i \<and> unat i \<le> sk_issued s \<and> r < sk_made s \<and> due r s = []) \<and>
     (\<forall>r \<ge> sk_made s. due r s = []) \<and>
     (sk_reader s = RDone \<longrightarrow> sk_dead s \<noteq> None) \<and>
     (\<forall>r rp i. in_progress (sk_reader s) = Some (r, rp, i) \<longrightarrow>
        r < sk_made s \<and> \<not> waiting r s \<and> first_docs rp i (due r s) \<and> ro_replyDocs rp \<noteq> 0) \<and>
     (\<forall>r < sk_made s. waiting r s \<or> (\<exists>rp i. in_progress (sk_reader s) = Some (r, rp, i)) \<or>
        answered (due r s))"

subsection \<open>Every request is answered at most once\<close>

text \<open>Calls that are pending are the first and only ones of their functions.\<close>

definition pending_ok :: "mongo_socket \<Rightarrow> bool" where
  "pending_ok s \<longleftrightarrow> distinct (map fst (sk_pending s)) \<and>
     (\<forall>(r, n) \<in> set (sk_pending s). notices r s = [] \<and> (\<exists>e. n = NErr e))"

lemma pending_member: "pending_ok s \<Longrightarrow> (r, n) \<in> set (sk_pending s) \<Longrightarrow> notices r s = [] \<and> (\<exists>e. n = NErr e)"
  unfolding pending_ok_def by blast

lemma due_notices: "due r s = notices r s @ map snd (filter (\<lambda>(q, _). q = r) (sk_pending s))"
  by (simp add: due_def notices_def)

lemma due_cong: "sk_log s = sk_log s' \<Longrightarrow> sk_pending s = sk_pending s' \<Longrightarrow> due r s = due r s'"
  by (simp add: due_def)

lemma calls_pending_cong: "sk_log s = sk_log s' \<Longrightarrow> sk_pending s = sk_pending s' \<Longrightarrow> pending_ok s = pending_ok s'"
  by (simp add: pending_ok_def notices_def)

lemma not_pending: "r \<notin> fst ` set (sk_pending s) \<Longrightarrow> due r s = notices r s"
  by (force simp: due_notices filter_empty_conv)

lemma pending_once:
  assumes "pending_ok s" and "(r, n) \<in> set (sk_pending s)"
  shows "filter (\<lambda>(q, _). q = r) (sk_pending s) = [(r, n)]"
proof -
  obtain us vs where p: "sk_pending s = us @ (r, n) # vs" using split_list [OF assms(2)] by blast
  then have "r \<notin> fst ` set us \<union> fst ` set vs" using assms(1) by (auto simp: pending_ok_def)
  then have "filter (\<lambda>(q, _). q = r) us = []" "filter (\<lambda>(q, _). q = r) vs = []" by (force simp: filter_empty_conv)+
  then show ?thesis by (simp add: p)
qed

lemma pending_due: "pending_ok s \<Longrightarrow> (r, n) \<in> set (sk_pending s) \<Longrightarrow> due r s = [n]"
  using pending_once by (auto simp: due_notices pending_ok_def)

lemma due_empty:
  assumes "due r s = []"
  shows "r \<notin> fst ` set (sk_pending s) \<and> notices r s = []"
proof -
  have "filter (\<lambda>(q, _). q = r) (sk_pending s) = []" "notices r s = []" using assms by (simp_all add: due_notices)
  then show ?thesis by (force simp: filter_empty_conv)
qed

lemma docs_not_pending:
  assumes "pending_ok s" and "first_docs rp i (due r s)"
  shows "r \<notin> fst ` set (sk_pending s)"
proof
  assume "r \<in> fst ` set (sk_pending s)"
  then obtain n where n: "(r, n) \<in> set (sk_pending s)" by force
  then obtain e where "n = NErr e" using assms(1) by (auto simp: pending_ok_def)
  then have "NErr e \<in> set (due r s)" using pending_due [OF assms(1) n] by simp
  then show False using assms(2) by (auto simp: first_docs_def)
qed

lemma pending_add:
  assumes "pending_ok s" and "distinct (map fst l)" and "\<And>r n. (r, n) \<in> set l \<Longrightarrow> due r s = [] \<and> (\<exists>e. n = NErr e)"
    and "sk_pending s' = sk_pending s @ l" and "sk_log s' = sk_log s"
  shows "pending_ok s'"
proof -
  have "x \<notin> fst ` set (sk_pending s)" if x: "x \<in> fst ` set l" for x
  proof -
    obtain n where "(x, n) \<in> set l" using x by force
    then have "due x s = []" using assms(3) by blast
    then show ?thesis using due_empty by blast
  qed
  then have "fst ` set (sk_pending s) \<inter> fst ` set l = {}" by blast
  moreover have "notices r s = []" if "(r, n) \<in> set l" for r n using assms(3) [OF that] due_empty by blast
  ultimately show ?thesis using assms by (auto simp: pending_ok_def notices_def)
qed

lemma kill_notices:
  "distinct (map snd m) \<Longrightarrow>
     map snd (filter (\<lambda>(q, _). q = r) (map (\<lambda>(i, r). (r, NErr e)) m)) = (if r \<in> snd ` set m then [NErr e] else [])"
proof (induction m)
  case (Cons ir m)
  then show ?case by (cases ir) (auto simp: filter_empty_conv)
qed simp

lemma answered_broken: "first_docs rp k ns \<Longrightarrow> answered (ns @ [NErr e])"
  by (auto simp: answered_def)

lemma answered_docs:
  "first_docs rp k ns \<Longrightarrow> int k = sint (ro_replyDocs rp) \<Longrightarrow> ro_replyDocs rp \<noteq> 0 \<Longrightarrow> answered ns"
proof (cases "k = 0")
  case True
  assume "int k = sint (ro_replyDocs rp)" "ro_replyDocs rp \<noteq> 0"
  then have False using True by (simp add: signed_eq_0_iff)
  then show ?thesis ..
qed (auto simp: answered_def)

lemma first_docs_Suc: "first_docs rp k ns \<Longrightarrow> first_docs rp (Suc k) (ns @ [NDoc rp k d])"
proof -
  assume "first_docs rp k ns"
  then obtain ds where "length ds = k" "ns = map (\<lambda>(j, d). NDoc rp j d) (enumerate 0 ds)"
    by (auto simp: first_docs_def)
  then show ?thesis
    unfolding first_docs_def by (intro exI [of _ "ds @ [d]"]) (simp add: enumerate_append_eq)
qed

lemma first_docs_0 [simp]: "first_docs rp 0 ns \<longleftrightarrow> ns = []"
  by (auto simp: first_docs_def)

lemma answered_err: "answered [NErr e]"
  using answered_broken [of undefined 0 "[]"] by simp

lemma register_ok:
  assumes "distinct (map fst m)" and "distinct (map snd m)"
    and "\<forall>(i, r) \<in> set m. 0 < unat i \<and> unat i \<le> k \<and> r < n" and "k + l < 2 ^ 32"
  defines "m' \<equiv> register (word_of_nat (Suc k)) [n..<n + l] m"
  shows "distinct (map fst m')" and "distinct (map snd m')"
    and "\<forall>(i, r) \<in> set m'. 0 < unat i \<and> unat i \<le> k + l \<and> r < n + l"
    and "snd ` set m' = snd ` set m \<union> {n..<n + l}"
proof -
  have "distinct (map fst m') \<and> distinct (map snd m') \<and>
      (\<forall>(i, r) \<in> set m'. 0 < unat i \<and> unat i \<le> k + l \<and> r < n + l) \<and> snd ` set m' = snd ` set m \<union> {n..<n + l}"
    using assms(1-4) unfolding m'_def
  proof (induction l arbitrary: k n m)
    case (Suc l)
    let ?id = "word_of_nat (Suc k) :: 32 word" and ?m = "(word_of_nat (Suc k) :: 32 word, n) # m"
    have u: "unat ?id = Suc k"
      using Suc.prems(4) by (simp add: unat_of_nat take_bit_eq_mod del: of_nat_Suc)
    have f: "filter (\<lambda>(i, _). i \<noteq> ?id) m = m"
      using Suc.prems(3) u by (intro filter_True) (auto simp del: of_nat_Suc)
    have "?id \<notin> fst ` set m" using Suc.prems(3) u by (auto simp del: of_nat_Suc)
    moreover have "n \<notin> snd ` set m" using Suc.prems(3) by auto
    ultimately have "distinct (map fst ?m)" "distinct (map snd ?m)"
        "\<forall>(i, r) \<in> set ?m. 0 < unat i \<and> unat i \<le> Suc k \<and> r < Suc n" "Suc k + l < 2 ^ 32"
      using Suc.prems u by (fastforce simp del: of_nat_Suc)+
    note ih = Suc.IH [OF this]
    have "[n..<n + Suc l] = n # [Suc n..<Suc n + l]" by (simp add: upt_conv_Cons)
    moreover have "?id + 1 = word_of_nat (Suc (Suc k))" by simp
    ultimately have eq: "register ?id [n..<n + Suc l] m = register (word_of_nat (Suc (Suc k))) [Suc n..<Suc n + l] ?m"
      using f by (simp only: register.simps)
    show ?case unfolding eq using ih by (auto simp del: of_nat_Suc)
  qed simp
  then show "distinct (map fst m')" and "distinct (map snd m')"
    and "\<forall>(i, r) \<in> set m'. 0 < unat i \<and> unat i \<le> k + l \<and> r < n + l"
    and "snd ` set m' = snd ` set m \<union> {n..<n + l}" by blast+
qed

text \<open>The invariant is used and shown clause by clause.\<close>

lemma socket_invI [intro?]:
  assumes "distinct (map fst (sk_replies s))" and "distinct (map snd (sk_replies s))"
    and "sk_dead s \<noteq> None \<Longrightarrow> sk_replies s = []" and "sk_next s = word_of_nat (sk_issued s)"
    and "\<And>i r. (i, r) \<in> set (sk_replies s) \<Longrightarrow> 0 < unat i \<and> unat i \<le> sk_issued s \<and> r < sk_made s \<and> due r s = []"
    and "\<And>r. sk_made s \<le> r \<Longrightarrow> due r s = []" and "sk_reader s = RDone \<Longrightarrow> sk_dead s \<noteq> None"
    and "\<And>r rp i. in_progress (sk_reader s) = Some (r, rp, i) \<Longrightarrow>
        r < sk_made s \<and> \<not> waiting r s \<and> first_docs rp i (due r s) \<and> ro_replyDocs rp \<noteq> 0"
    and "\<And>r. r < sk_made s \<Longrightarrow> \<not> waiting r s \<Longrightarrow> (\<And>rp i. in_progress (sk_reader s) \<noteq> Some (r, rp, i)) \<Longrightarrow>
        answered (due r s)"
  shows "socket_inv s"
  using assms unfolding socket_inv_def by blast

lemma socket_invD:
  assumes "socket_inv s"
  shows "distinct (map fst (sk_replies s))" and "distinct (map snd (sk_replies s))"
    and "sk_dead s \<noteq> None \<Longrightarrow> sk_replies s = []" and "sk_next s = word_of_nat (sk_issued s)"
    and "(i, r) \<in> set (sk_replies s) \<Longrightarrow> 0 < unat i \<and> unat i \<le> sk_issued s \<and> r < sk_made s \<and> due r s = []"
    and "sk_made s \<le> r \<Longrightarrow> due r s = []" and "sk_reader s = RDone \<Longrightarrow> sk_dead s \<noteq> None"
    and "in_progress (sk_reader s) = Some (r, rp, k) \<Longrightarrow>
        r < sk_made s \<and> \<not> waiting r s \<and> first_docs rp k (due r s) \<and> ro_replyDocs rp \<noteq> 0"
    and "r < sk_made s \<Longrightarrow> \<not> waiting r s \<Longrightarrow> (\<And>rp i. in_progress (sk_reader s) \<noteq> Some (r, rp, i)) \<Longrightarrow>
        answered (due r s)"
  using assms unfolding socket_inv_def by blast+

lemma inv_kill:
  assumes "socket_inv s"
  shows "socket_inv (socket_kill err abend s)"
proof (cases "sk_dead s")
  case None
  note I = socket_invD [OF assms]
  let ?s = "socket_kill err abend s"
  have fields: "sk_replies ?s = []" "sk_dead ?s = Some err" "sk_next ?s = sk_next s" "sk_issued ?s = sk_issued s"
      "sk_made ?s = sk_made s" "sk_reader ?s = sk_reader s"
    using None by (simp_all add: socket_kill_def)
  have n: "due r ?s = due r s @ (if waiting r s then [NErr err] else [])" for r
    using None kill_notices [OF I(2)] by (simp add: socket_kill_def due_def waiting_def)
  have w: "waiting r s \<Longrightarrow> r < sk_made s \<and> due r s = []" for r
    using I(5) by (auto simp: waiting_def)
  show ?thesis
  proof
    show "due r ?s = []" if "sk_made ?s \<le> r" for r
      using that w [of r] I(6) [of r] n [of r] fields by auto
    show "r < sk_made ?s \<and> \<not> waiting r ?s \<and> first_docs rp i (due r ?s) \<and> ro_replyDocs rp \<noteq> 0"
      if "in_progress (sk_reader ?s) = Some (r, rp, i)" for r rp i
      using that I(8) [of r rp i] n [of r] fields by (auto simp: waiting_def)
    show "answered (due r ?s)"
      if "r < sk_made ?s" "\<And>rp i. in_progress (sk_reader ?s) \<noteq> Some (r, rp, i)" for r
      using that I(9) [of r] n [of r] w [of r] fields answered_err by (cases "waiting r s") auto
  qed (use fields I(4,7) in auto)
qed (use assms in \<open>simp add: socket_kill_def\<close>)

lemma pending_kill:
  assumes "socket_inv s" and "pending_ok s"
  shows "pending_ok (socket_kill err abend s)"
proof (cases "sk_dead s")
  case None
  let ?l = "map (\<lambda>(_, r). (r, NErr err)) (sk_replies s)"
  have "map fst ?l = map snd (sk_replies s)" by (simp add: comp_def case_prod_beta)
  then have "distinct (map fst ?l)" using socket_invD(2) [OF assms(1)] by (simp only:)
  then show ?thesis using None
    by (intro pending_add [OF assms(2), where l = ?l]) (auto simp: socket_kill_def dest: socket_invD(5) [OF assms(1)])
qed (use assms in \<open>simp add: socket_kill_def\<close>)

lemma inv_query_dead:
  assumes "socket_inv s" and "sk_dead s = Some dead"
  shows "socket_inv (s\<lparr>sk_made := sk_made s + l,
    sk_pending := sk_pending s @ map (\<lambda>r. (r, NErr dead)) [sk_made s..<sk_made s + l]\<rparr>)"
proof -
  note I = socket_invD [OF assms(1)]
  let ?s = "s\<lparr>sk_made := sk_made s + l,
    sk_pending := sk_pending s @ map (\<lambda>r. (r, NErr dead)) [sk_made s..<sk_made s + l]\<rparr>"
  have r0: "sk_replies s = []" using I(3) assms(2) by simp
  have one: "map snd (filter (\<lambda>(q, _). q = r) (map (\<lambda>r. (r, NErr dead)) [k..<k + l])) =
      (if k \<le> r \<and> r < k + l then [NErr dead] else [])" for r k
    by (induction l) (auto simp: filter_empty_conv)
  have n: "due r ?s = due r s @ (if sk_made s \<le> r \<and> r < sk_made s + l then [NErr dead] else [])" for r
    using one [of r "sk_made s"] by (simp add: due_def)
  show ?thesis
  proof
    show "due r ?s = []" if "sk_made ?s \<le> r" for r using that I(6) [of r] n [of r] by simp
    show "r < sk_made ?s \<and> \<not> waiting r ?s \<and> first_docs rp i (due r ?s) \<and> ro_replyDocs rp \<noteq> 0"
      if "in_progress (sk_reader ?s) = Some (r, rp, i)" for r rp i
      using that I(8) [of r rp i] n [of r] by (auto simp: waiting_def)
    show "answered (due r ?s)"
      if "r < sk_made ?s" "\<And>rp i. in_progress (sk_reader ?s) \<noteq> Some (r, rp, i)" for r
      using that I(6) [of r] I(9) [of r] n [of r] r0 answered_err
      by (cases "r < sk_made s") (auto simp: waiting_def)
  qed (use r0 I(4,7) in auto)
qed

lemma inv_query:
  assumes "socket_inv s" and "sk_dead s = None" and "sk_issued s + l + 1 < 2 ^ 32"
  shows "socket_inv (s\<lparr>sk_next := word_of_nat (Suc (sk_issued s)) + word_of_nat l,
    sk_replies := register (word_of_nat (Suc (sk_issued s))) [sk_made s..<sk_made s + l] (sk_replies s),
    sk_made := sk_made s + l, sk_issued := sk_issued s + l + 1, sk_sent := sent\<rparr>)"
proof -
  note I = socket_invD [OF assms(1)]
  let ?m = "register (word_of_nat (Suc (sk_issued s))) [sk_made s..<sk_made s + l] (sk_replies s)"
  have old: "\<forall>(i, r) \<in> set (sk_replies s). 0 < unat i \<and> unat i \<le> sk_issued s \<and> r < sk_made s"
    using I(5) by blast
  have "sk_issued s + l < 2 ^ 32" using assms(3) by simp
  note R = register_ok [OF I(1,2) old this]
  let ?s = "s\<lparr>sk_next := word_of_nat (Suc (sk_issued s)) + word_of_nat l, sk_replies := ?m,
    sk_made := sk_made s + l, sk_issued := sk_issued s + l + 1, sk_sent := sent\<rparr>"
  have n: "due r ?s = due r s" for r by (simp add: due_def)
  have w: "waiting r ?s \<longleftrightarrow> waiting r s \<or> sk_made s \<le> r \<and> r < sk_made s + l" for r
    using R(4) by (auto simp: waiting_def)
  have quiet: "waiting r s \<Longrightarrow> due r s = []" for r using I(5) by (auto simp: waiting_def)
  show ?thesis
  proof
    show "distinct (map fst (sk_replies ?s))" "distinct (map snd (sk_replies ?s))" using R(1,2) by simp_all
    show "sk_next ?s = word_of_nat (sk_issued ?s)" by simp
    show "0 < unat i \<and> unat i \<le> sk_issued ?s \<and> r < sk_made ?s \<and> due r ?s = []"
      if "(i, r) \<in> set (sk_replies ?s)" for i r
    proof -
      have "waiting r ?s" using that by (force simp: waiting_def)
      then have "due r s = []" using w quiet I(6) by blast
      then show ?thesis using that R(3) n by auto
    qed
    show "r < sk_made ?s \<and> \<not> waiting r ?s \<and> first_docs rp i (due r ?s) \<and> ro_replyDocs rp \<noteq> 0"
      if "in_progress (sk_reader ?s) = Some (r, rp, i)" for r rp i
      using that I(8) [of r rp i] n [of r] w [of r] by auto
    show "answered (due r ?s)"
      if "r < sk_made ?s" "\<not> waiting r ?s" "\<And>rp i. in_progress (sk_reader ?s) \<noteq> Some (r, rp, i)" for r
      using that I(9) [of r] n [of r] w [of r] by auto
  qed (use assms(2) I(6,7) n in auto)
qed

lemma inv_Query:
  assumes "socket_inv s" and "sk_issued (snd (socket_Query mongos write lops ops s)) < 2 ^ 32"
  shows "socket_inv (snd (socket_Query mongos write lops ops s))"
proof (cases "serialize_ops mongos (lops @ ops) [] []")
  case (Inr br)
  obtain buf requests where br: "br = (buf, requests)" by (cases br)
  show ?thesis
  proof (cases "sk_dead s")
    case (Some dead)
    then show ?thesis
      using inv_query_dead [OF assms(1) Some] Inr br by (simp add: socket_Query_def Let_def)
  next
    case None
    obtain through err where w: "write (assign_ids requests (sk_next s + 1) buf) = (through, err)"
      by fastforce
    have lt: "sk_issued s + length requests + 1 < 2 ^ 32"
      using assms(2) Inr br None by (simp add: socket_Query_def Let_def split: prod.splits)
    then have "unat (word_of_nat (Suc (sk_issued s)) :: 32 word) = Suc (sk_issued s)"
      by (simp add: unat_of_nat take_bit_eq_mod del: of_nat_Suc)
    then have "sk_next s + 1 = word_of_nat (Suc (sk_issued s))" "sk_next s + 1 \<noteq> 0"
      using socket_invD(4) [OF assms(1)] by (auto simp: add.commute)
    then show ?thesis
      using inv_query [OF assms(1) None lt, of "sk_sent s @ through"] Inr br None w
      by (simp add: socket_Query_def Let_def add.commute [of "word_of_nat _" "1 :: 32 word"])
  qed
qed (use assms in \<open>simp add: socket_Query_def\<close>)

lemma pending_Query:
  assumes "socket_inv s" and "pending_ok s"
  shows "pending_ok (snd (socket_Query mongos write lops ops s))"
proof (cases "serialize_ops mongos (lops @ ops) [] []")
  case (Inr br)
  obtain buf requests where br: "br = (buf, requests)" by (cases br)
  show ?thesis
  proof (cases "sk_dead s")
    case (Some dead)
    let ?l = "map (\<lambda>r. (r, NErr dead)) [sk_made s..<sk_made s + length requests]"
    show ?thesis using Some Inr br
      by (intro pending_add [OF assms(2), where l = ?l])
         (auto simp: socket_Query_def Let_def comp_def dest: socket_invD(6) [OF assms(1)])
  next
    case None
    then show ?thesis using assms(2) Inr br
      by (subst calls_pending_cong [of _ s]) (auto simp: socket_Query_def Let_def split: prod.split)
  qed
qed (use assms in \<open>simp add: socket_Query_def\<close>)

lemma notify_simps [simp]:
  "sk_replies (notify f n s) = sk_replies s" "sk_dead (notify f n s) = sk_dead s"
  "sk_next (notify f n s) = sk_next s" "sk_issued (notify f n s) = sk_issued s"
  "sk_made (notify f n s) = sk_made s" "sk_reader (notify f n s) = sk_reader s"
  "sk_pending (notify f n s) = sk_pending s" "notices r (notify f n s) = notices r s @ (if f = Some r then [n] else [])"
  by (auto simp: notify_def notices_def split: option.split)

lemma due_notify:
  assumes "\<And>q. f = Some q \<Longrightarrow> q \<notin> fst ` set (sk_pending s)"
  shows "due r (notify f n s) = due r s @ (if f = Some r then [n] else [])"
  using assms not_pending [of r s] not_pending [of r "notify f n s"]
  by (cases "f = Some r") (auto simp: due_notices)

lemma pending_notify:
  assumes "pending_ok s" and "\<And>q. f = Some q \<Longrightarrow> q \<notin> fst ` set (sk_pending s)"
  shows "pending_ok (notify f n s)"
  using assms unfolding pending_ok_def by (auto simp: image_iff) fastforce

text \<open>The reader goes on: what it was answering is told one notice more, and is done with or not.\<close>

lemma inv_reader:
  assumes "socket_inv s" and "pending_ok s" and "sk_reader s = RDocs f rp i"
    and "s' = (case n of None \<Rightarrow> s | Some n \<Rightarrow> notify f n s)\<lparr>sk_reader := R\<rparr>"
    and "R \<noteq> RDone"
    and "\<And>r. f = Some r \<Longrightarrow> (\<exists>k. in_progress R = Some (r, rp, k) \<and>
           first_docs rp k (due r s @ (case n of None \<Rightarrow> [] | Some n \<Rightarrow> [n]))) \<or>
         in_progress R = None \<and> answered (due r s @ (case n of None \<Rightarrow> [] | Some n \<Rightarrow> [n]))"
    and "f = None \<Longrightarrow> in_progress R = None"
  shows "socket_inv s'"
proof -
  note I = socket_invD [OF assms(1)]
  have fields: "sk_replies s' = sk_replies s" "sk_dead s' = sk_dead s" "sk_next s' = sk_next s"
      "sk_issued s' = sk_issued s" "sk_made s' = sk_made s" "sk_reader s' = R"
    unfolding assms(4) by (simp_all split: option.split)
  have "q \<notin> fst ` set (sk_pending s)" if "f = Some q" for q
    by (rule docs_not_pending [OF assms(2), of rp i]) (use I(8) [of q rp i] assms(3) that in simp)
  moreover have "due r (t\<lparr>sk_reader := R\<rparr>) = due r t" for r t by (simp add: due_def)
  ultimately have nt: "due r s' = due r s @ (case n of None \<Rightarrow> [] | Some n \<Rightarrow> if f = Some r then [n] else [])" for r
    unfolding assms(4) by (simp add: due_notify split: option.split)
  have cur: "f = Some r \<Longrightarrow> r < sk_made s \<and> \<not> waiting r s \<and> ro_replyDocs rp \<noteq> 0" for r
    using I(8) [of r rp i] assms(3) by simp
  have w: "waiting r s' = waiting r s" for r by (simp add: waiting_def fields)
  show ?thesis
  proof
    show "0 < unat j \<and> unat j \<le> sk_issued s' \<and> r < sk_made s' \<and> due r s' = []"
      if "(j, r) \<in> set (sk_replies s')" for j r
    proof -
      have "waiting r s" using that fields by (force simp: waiting_def)
      then have "f \<noteq> Some r" using cur by blast
      then show ?thesis using I(5) [of j r] that nt [of r] fields by (auto split: option.split)
    qed
    show "due r s' = []" if "sk_made s' \<le> r" for r
      using that cur [of r] I(6) [of r] nt [of r] fields by (auto split: option.split)
    show "r < sk_made s' \<and> \<not> waiting r s' \<and> first_docs rp' k (due r s') \<and> ro_replyDocs rp' \<noteq> 0"
      if p: "in_progress (sk_reader s') = Some (r, rp', k)" for r rp' k
    proof -
      have p: "in_progress R = Some (r, rp', k)" using p fields by simp
      then obtain q where q: "f = Some q" using assms(7) by (cases f) auto
      then have "q = r \<and> rp' = rp \<and> first_docs rp k (due r s @ (case n of None \<Rightarrow> [] | Some n \<Rightarrow> [n]))"
        using assms(6) [OF q] p by auto
      then show ?thesis using cur [of r] q nt [of r] w [of r] fields by (auto split: option.splits)
    qed
    show "answered (due r s')"
      if "r < sk_made s'" "\<not> waiting r s'" "\<And>rp' k. in_progress (sk_reader s') \<noteq> Some (r, rp', k)" for r
    proof (cases "f = Some r")
      case True
      then show ?thesis using assms(6) [OF True] that(3) nt [of r] fields by (auto split: option.splits)
    next
      case False
      then have "in_progress (sk_reader s) \<noteq> Some (r, rp', k)" for rp' k using assms(3) by (cases f) auto
      then show ?thesis using False I(9) [of r] that nt [of r] w [of r] fields by (auto split: option.split)
    qed
  qed (use I(1-4) assms(5) fields in auto)
qed

lemma kill_reader: "(socket_kill err abend s)\<lparr>sk_reader := R\<rparr> = socket_kill err abend (s\<lparr>sk_reader := R\<rparr>)"
  by (simp add: socket_kill_def)

lemma inv_done:
  assumes "socket_inv s" and "in_progress (sk_reader s) = None"
  shows "socket_inv ((socket_kill err abend s)\<lparr>sk_reader := RDone\<rparr>)"
proof -
  let ?k = "socket_kill err abend s"
  have k: "socket_inv ?k" "sk_dead ?k \<noteq> None" "in_progress (sk_reader ?k) = None"
    using inv_kill [OF assms(1)] assms(2) by (auto simp: socket_kill_def)
  note I = socket_invD [OF k(1)]
  have n: "due r (?k\<lparr>sk_reader := RDone\<rparr>) = due r ?k"
      "waiting r (?k\<lparr>sk_reader := RDone\<rparr>) = waiting r ?k" for r
    by (simp_all add: due_def waiting_def)
  show ?thesis
  proof
    show "answered (due r (?k\<lparr>sk_reader := RDone\<rparr>))"
      if "r < sk_made (?k\<lparr>sk_reader := RDone\<rparr>)" "\<not> waiting r (?k\<lparr>sk_reader := RDone\<rparr>)" for r
      using I(9) [of r] that k(3) n by simp
  qed (use I(1-6) k(2) n in auto)
qed

lemma inv_read_document:
  assumes "socket_inv s" and "pending_ok s" and "sk_reader s = RDocs f rp i"
  shows "socket_inv (read_document first rest f rp i s)"
proof -
  note I = socket_invD [OF assms(1)]
  have cur: "f = Some r \<Longrightarrow> first_docs rp i (due r s) \<and> ro_replyDocs rp \<noteq> 0" for r
    using I(8) [of r rp i] assms(3) by simp
  have finish: "socket_inv (s\<lparr>sk_reader := RIdle\<rparr>)" if "int i = sint (ro_replyDocs rp)"
    by (rule inv_reader [OF assms, where n = None and R = RIdle])
       (use that cur answered_docs in auto)
  have broken: "socket_inv ((socket_kill err True (notify f (NErr err) s))\<lparr>sk_reader := RDone\<rparr>)" for err
  proof -
    have "socket_inv ((notify f (NErr err) s)\<lparr>sk_reader := RIdle\<rparr>)"
      by (rule inv_reader [OF assms, where n = "Some (NErr err)" and R = RIdle])
         (use cur answered_broken in auto)
    then show ?thesis
      using inv_done [of "(notify f (NErr err) s)\<lparr>sk_reader := RIdle\<rparr>" err True] by (simp add: kill_reader)
  qed
  have crash: "socket_inv (s\<lparr>sk_reader := RCrashed f rp i\<rparr>)"
    by (rule inv_reader [OF assms, where n = None and R = "RCrashed f rp i"])
       (use cur in auto)
  have doc: "socket_inv ((notify f (NDoc rp i b) s)\<lparr>sk_reader := RDocs f rp (i + 1)\<rparr>)" for b
    by (rule inv_reader [OF assms, where n = "Some (NDoc rp i b)" and R = "RDocs f rp (i + 1)"])
       (use cur first_docs_Suc in auto)
  show ?thesis
    unfolding read_document_def Let_def
    using finish broken crash doc by (auto split: sum.split)
qed

lemma inv_read_reply:
  assumes "socket_inv s" and "sk_reader s = RIdle" and "pending_ok s"
  shows "socket_inv (read_reply r s)"
proof (cases r)
  case (Inl err)
  then show ?thesis using inv_done [OF assms(1)] assms(2) by (simp add: read_reply_def)
next
  case (Inr p)
  obtain responseTo opCode rp where p: "read_reply_header p = (responseTo, opCode, rp)" by (cases "read_reply_header p")
  note I = socket_invD [OF assms(1)]
  let ?m = "filter (\<lambda>(i, _). i \<noteq> responseTo) (sk_replies s)"
  let ?f = "map_of (sk_replies s) responseTo"
  have w: "q \<in> snd ` set ?m \<longleftrightarrow> waiting q s \<and> ?f \<noteq> Some q" for q
  proof
    assume "q \<in> snd ` set ?m"
    then obtain j where j: "(j, q) \<in> set (sk_replies s)" "j \<noteq> responseTo" by auto
    have "?f \<noteq> Some q"
    proof
      assume "?f = Some q"
      then have "(responseTo, q) \<in> set (sk_replies s)" by (rule map_of_SomeD)
      then show False using j I(2) inj_onD [of snd "set (sk_replies s)" "(j, q)" "(responseTo, q)"] by (simp add: distinct_map)
    qed
    then show "waiting q s \<and> ?f \<noteq> Some q" using j by (force simp: waiting_def)
  next
    assume q: "waiting q s \<and> ?f \<noteq> Some q"
    then obtain j where j: "(j, q) \<in> set (sk_replies s)" by (auto simp: waiting_def)
    then have "j \<noteq> responseTo" using q I(1) by auto
    then show "q \<in> snd ` set ?m" using j by force
  qed
  have found: "q < sk_made s \<and> due q s = [] \<and> waiting q s" if "?f = Some q" for q
    using map_of_SomeD [OF that] I(5) by (force simp: waiting_def)
  have stop: "socket_inv ((socket_kill err True s)\<lparr>sk_reader := RDone\<rparr>)" for err
    using inv_done [OF assms(1)] assms(2) by simp
  have go: "socket_inv s'" if n: "\<And>q. due q s' = due q s @ (if ?f = Some q then ns else [])"
      and fields: "sk_replies s' = ?m" "sk_dead s' = sk_dead s" "sk_next s' = sk_next s"
        "sk_issued s' = sk_issued s" "sk_made s' = sk_made s" "sk_reader s' \<noteq> RDone"
      and done_or: "\<And>q. ?f = Some q \<Longrightarrow> in_progress (sk_reader s') = None \<and> answered ns \<or>
        in_progress (sk_reader s') = Some (q, rp, 0) \<and> ns = [] \<and> ro_replyDocs rp \<noteq> 0"
      and none: "?f = None \<Longrightarrow> in_progress (sk_reader s') = None" for s' ns
  proof -
    have w': "waiting q s' \<longleftrightarrow> waiting q s \<and> ?f \<noteq> Some q" for q
      using w [of q] fields(1) by (simp add: waiting_def)
    show ?thesis
    proof
      show "distinct (map fst (sk_replies s'))" "distinct (map snd (sk_replies s'))"
        using I(1,2) fields(1) by (simp_all add: distinct_map_filter)
      show "0 < unat i \<and> unat i \<le> sk_issued s' \<and> q < sk_made s' \<and> due q s' = []"
        if "(i, q) \<in> set (sk_replies s')" for i q
      proof -
        have "waiting q s'" using that by (force simp: waiting_def)
        then have "due q s' = due q s" using w' [of q] n [of q] by simp
        then show ?thesis using that I(5) [of i q] fields by auto
      qed
      show "due q s' = []" if "sk_made s' \<le> q" for q
        using that found [of q] I(6) [of q] n [of q] fields(5) by auto
      show "q < sk_made s' \<and> \<not> waiting q s' \<and> first_docs rp' k (due q s') \<and> ro_replyDocs rp' \<noteq> 0"
        if "in_progress (sk_reader s') = Some (q, rp', k)" for q rp' k
        using that none done_or found [of q] n [of q] w' [of q] fields(5) by (cases ?f) fastforce+
      show "answered (due q s')"
        if "q < sk_made s'" "\<not> waiting q s'" "\<And>rp' k. in_progress (sk_reader s') \<noteq> Some (q, rp', k)" for q
      proof (cases "?f = Some q")
        case True
        then show ?thesis using that(3) done_or [of q] found [of q] n [of q] by auto
      next
        case False
        then show ?thesis using that(1,2) I(9) [of q] n [of q] w' [of q] fields(5) assms(2) by simp
      qed
    qed (use I(3,4) fields in auto)
  qed
  show ?thesis
  proof (cases "opCode = 1")
    case True
    show ?thesis
    proof (cases "?f \<noteq> None \<and> ro_replyDocs rp = 0")
      case zero: True
      have "answered [NNone rp]" using zero by (auto simp: answered_def)
      then show ?thesis using True zero assms(2)
        by (intro go [where ns = "[NNone rp]"])
           (use found due_empty in \<open>auto simp: read_reply_def Inr p Let_def due_notify due_cong [of "_\<lparr>sk_replies := _\<rparr>" s]\<close>)
    next
      case False
      then show ?thesis using True
        by (intro go [where ns = "[]"])
           (auto simp: read_reply_def Inr p Let_def due_def split: option.splits)
    qed
  qed (use stop in \<open>simp add: read_reply_def Inr p\<close>)
qed

lemma pending_reader [simp]: "pending_ok (s\<lparr>sk_reader := R\<rparr>) = pending_ok s" "pending_ok (s\<lparr>sk_replies := m\<rparr>) = pending_ok s"
  by (simp_all add: pending_ok_def notices_def)

lemma pending_read_document:
  assumes "socket_inv s" and "pending_ok s" and "sk_reader s = RDocs f rp i"
  shows "pending_ok (read_document first rest f rp i s)"
proof -
  have f: "q \<notin> fst ` set (sk_pending s)" if "f = Some q" for q
    by (rule docs_not_pending [OF assms(2), of rp i]) (use socket_invD(8) [OF assms(1), of q rp i] assms(3) that in simp)
  note n = pending_notify [OF assms(2) f]
  have "pending_ok (socket_kill err True (notify f (NErr err) s))" for err
  proof -
    have "socket_inv ((notify f (NErr err) s)\<lparr>sk_reader := RIdle\<rparr>)"
      by (rule inv_reader [OF assms, where n = "Some (NErr err)" and R = RIdle])
         (use socket_invD(8) [OF assms(1)] assms(3) answered_broken in auto)
    then have "pending_ok (socket_kill err True ((notify f (NErr err) s)\<lparr>sk_reader := RIdle\<rparr>))"
      by (rule pending_kill) (simp add: n)
    then show ?thesis by (simp flip: kill_reader)
  qed
  then show ?thesis using n assms(2) by (auto simp: read_document_def Let_def split: sum.split)
qed

lemma pending_read_reply:
  assumes "socket_inv s" and "pending_ok s"
  shows "pending_ok (read_reply r s)"
proof -
  have "q \<notin> fst ` set (sk_pending s)" if "map_of (sk_replies s) i = Some q" for i q
    using map_of_SomeD [OF that] socket_invD(5) [OF assms(1)] due_empty by blast
  then have "pending_ok (notify (map_of (sk_replies s) i) n (s\<lparr>sk_replies := m\<rparr>))" for i n m
    by (intro pending_notify) (use assms(2) in auto)
  then show ?thesis using pending_kill [OF assms] assms(2)
    by (auto simp: read_reply_def Let_def split: sum.split prod.split)
qed

text \<open>A pending call is made.\<close>

lemma call_pending_due:
  assumes "pending_ok s" and "call_pending s s'"
  shows "pending_ok s'" and "due r s' = due r s"
proof -
  obtain us q n vs where s: "sk_pending s = us @ (q, n) # vs"
      "s' = s\<lparr>sk_pending := us @ vs, sk_log := sk_log s @ [(q, n)]\<rparr>"
    using assms(2) by (auto elim: call_pending.cases)
  have q: "q \<notin> fst ` set us" "q \<notin> fst ` set vs" using assms(1) s(1) by (auto simp: pending_ok_def)
  have n: "notices p s' = notices p s @ (if p = q then [n] else [])" for p by (simp add: notices_def s(2))
  have "notices p s' = [] \<and> (\<exists>e. m = NErr e)" if "(p, m) \<in> set us \<union> set vs" for p m
  proof -
    have "p \<noteq> q" using q that by force
    moreover have "notices p s = [] \<and> (\<exists>e. m = NErr e)"
      by (rule pending_member [OF assms(1)]) (use that in \<open>auto simp: s(1)\<close>)
    ultimately show ?thesis using n by simp
  qed
  moreover have "distinct (map fst (us @ vs))" using assms(1) by (simp add: pending_ok_def s(1))
  ultimately show ok: "pending_ok s'" by (auto simp: pending_ok_def s(2))
  show "due r s' = due r s"
  proof (cases "r = q")
    case True
    have "(q, n) \<in> set (sk_pending s)" by (simp add: s(1))
    then have "due q s = [n]" "notices q s = []" using pending_due [OF assms(1)] assms(1) by (auto simp: pending_ok_def)
    moreover have "q \<notin> fst ` set (sk_pending s')" using q by (auto simp: s(2))
    ultimately show ?thesis using True n [of q] not_pending [of q s'] by simp
  next
    case False
    then show ?thesis using n [of r] by (simp add: due_notices s)
  qed
qed

lemma inv_call:
  assumes "socket_inv s" and "pending_ok s" and "call_pending s s'"
  shows "socket_inv s'"
proof -
  have "sk_replies s' = sk_replies s" "sk_dead s' = sk_dead s" "sk_next s' = sk_next s" "sk_issued s' = sk_issued s"
    "sk_made s' = sk_made s" "sk_reader s' = sk_reader s" using assms(3) by (auto elim: call_pending.cases)
  then show ?thesis using assms(1) call_pending_due(2) [OF assms(2,3)] by (simp add: socket_inv_def waiting_def)
qed

lemma issued_mono: "socket_step s s' \<Longrightarrow> sk_issued s \<le> sk_issued s'"
proof (induction rule: socket_step.induct)
  case (step_query s mongos wr lops ops)
  then show ?case by (auto simp: socket_Query_def Let_def split: sum.split option.split prod.split)
next
  case (step_reply s r)
  then show ?case
    by (auto simp: read_reply_def socket_kill_def Let_def split: sum.split prod.split)
next
  case (step_document s f rp i first rest)
  then show ?case by (auto simp: read_document_def socket_kill_def Let_def split: sum.split)
qed (auto simp: socket_kill_def elim: call_pending.cases)

lemma inv_step:
  "socket_step s s' \<Longrightarrow> socket_inv s \<and> pending_ok s \<Longrightarrow> sk_issued s' < 2 ^ 32 \<Longrightarrow> socket_inv s' \<and> pending_ok s'"
  by (induction rule: socket_step.induct)
     (auto intro: inv_Query inv_kill inv_read_reply inv_read_document pending_Query pending_kill pending_read_reply
       pending_read_document inv_call call_pending_due(1))

lemma inv_new: "socket_inv new_socket" "pending_ok new_socket"
  by (auto simp: socket_inv_def new_socket_def due_def pending_ok_def)

interpretation sock: invariant "\<lambda>s. s = new_socket" socket_step
  "\<lambda>s. sk_issued s < 2 ^ 32 \<longrightarrow> socket_inv s \<and> pending_ok s"
proof unfold_locales
  fix s s'
  assume "sk_issued s < 2 ^ 32 \<longrightarrow> socket_inv s \<and> pending_ok s" and step: "socket_step s s'"
  then show "sk_issued s' < 2 ^ 32 \<longrightarrow> socket_inv s' \<and> pending_ok s'"
    using inv_step [OF step] issued_mono [OF step] by auto
qed (simp add: inv_new)

text \<open>
  C25: Whatever goroutines share a connection, every request with a function to call with its reply is
  in one of four states until the ids wrap around: registered and not called; being answered, with the
  documents so far in order; not called, with one call with an error still to be made by a goroutine that found the
  connection dead or closed it; or answered once: with an empty reply, with all documents of a reply, or
  with an error after some of them. When the reader has left its loop no request is registered or being answered, so
  when the pending calls have been made as well, all have been answered.
\<close>

theorem requests_answered_once:
  assumes "rtranclp socket_step new_socket s" and "sk_issued s < 2 ^ 32" and "r < sk_made s"
  shows "(if waiting r s then sk_dead s = None \<and> notices r s = [] \<and> r \<notin> fst ` set (sk_pending s)
      else (\<exists>rp i. in_progress (sk_reader s) = Some (r, rp, i) \<and> first_docs rp i (notices r s) \<and>
          r \<notin> fst ` set (sk_pending s)) \<or>
        (\<exists>e. filter (\<lambda>(q, _). q = r) (sk_pending s) = [(r, NErr e)] \<and> notices r s = []) \<or>
        (answered (notices r s) \<and> r \<notin> fst ` set (sk_pending s))) \<and>
    (sk_reader s = RDone \<longrightarrow> answered (notices r s) \<or> r \<in> fst ` set (sk_pending s))"
proof -
  have inv: "socket_inv s" "pending_ok s"
    using sock.reachable_inv [of s] assms(1,2) unfolding sock.reachable_def by blast+
  note I = socket_invD [OF inv(1)]
  have w: "sk_dead s = None \<and> notices r s = [] \<and> r \<notin> fst ` set (sk_pending s)" if "waiting r s"
    using that I(3,5) due_empty by (force simp: waiting_def)
  have p: "\<exists>e. filter (\<lambda>(q, _). q = r) (sk_pending s) = [(r, NErr e)] \<and> notices r s = []" if m: "r \<in> fst ` set (sk_pending s)"
  proof -
    obtain n where n: "(r, n) \<in> set (sk_pending s)" using m by force
    then obtain e where e: "n = NErr e" "notices r s = []" using inv(2) by (auto simp: pending_ok_def)
    then show ?thesis using pending_once [OF inv(2) n] by blast
  qed
  have a: "(\<exists>rp i. in_progress (sk_reader s) = Some (r, rp, i) \<and> first_docs rp i (notices r s)) \<or> answered (notices r s)"
    if "\<not> waiting r s" "r \<notin> fst ` set (sk_pending s)"
    using I(8) I(9) [OF assms(3) that(1)] not_pending [OF that(2)] by metis
  have "answered (notices r s)" if d: "sk_reader s = RDone" "r \<notin> fst ` set (sk_pending s)"
    using a [OF _ d(2)] w I(7) [OF d(1)] d(1) by auto
  then show ?thesis using w p a by (cases "r \<in> fst ` set (sk_pending s)") auto
qed

definition sample_socket :: mongo_socket where
  "sample_socket = snd (socket_Query False (\<lambda>b. (b, None)) [] [GetMoreOp ''db'' 0 5 True] new_socket)"

lemma sample_socket_fields:
  "sk_replies sample_socket = [(1, 0)]" "sk_issued sample_socket = 2" "sk_made sample_socket = 1"
  "sk_reader sample_socket = RIdle" "sk_dead sample_socket = None" "sk_log sample_socket = []"
  "sk_pending sample_socket = []"
  by (simp_all add: sample_socket_def socket_Query_def new_socket_def)

theorem requests_answered_once_witness:
  "\<exists>s. call_pending (socket_Close sample_socket) s \<and> answered (notices 0 s) \<and> notices 0 (socket_Close sample_socket) = []"
proof -
  let ?s = "socket_Close sample_socket" and ?e = "(0 :: nat, NErr ''Closed explicitly'')"
  let ?t = "?s\<lparr>sk_pending := [] @ [], sk_log := sk_log ?s @ [?e]\<rparr>"
  have f: "sk_pending ?s = [?e]" "sk_log ?s = []" "sk_reader ?s = RIdle" "sk_replies ?s = []" "sk_issued ?s = 2" "sk_made ?s = 1"
    by (simp_all add: socket_Close_def socket_kill_def sample_socket_fields)
  have "socket_step new_socket sample_socket"
    unfolding sample_socket_def by (rule step_query) (simp add: new_socket_def)
  moreover have "socket_step sample_socket ?s"
    unfolding socket_Close_def by (rule step_kill) (simp add: sample_socket_fields)
  ultimately have r: "rtranclp socket_step new_socket ?s" by (meson rtranclp.rtrancl_refl rtranclp.rtrancl_into_rtrancl)
  have c: "call_pending ?s ?t" by (rule call_made) (simp add: f(1))
  have "socket_step ?s ?t" by (rule step_call [OF _ c]) (simp add: f(3))
  then have rt: "rtranclp socket_step new_socket ?t" using r by (meson rtranclp.rtrancl_into_rtrancl)
  have "answered (notices 0 ?t)" using requests_answered_once [OF rt, of 0] f by (simp add: waiting_def)
  then show ?thesis using c f(2) by (auto simp: notices_def)
qed

subsection \<open>A reply reaches its request\<close>

abbreviation data :: "conn \<Rightarrow> bytes" where
  "data c \<equiv> concat (map fst c)"

lemma fill_ok:
  "\<forall>(d, err) \<in> set c. err = None \<Longrightarrow> 0 < k \<Longrightarrow> k \<le> length (data c) \<Longrightarrow>
     \<exists>c'. fill c k = (Inr (take k (data c)), c') \<and> data c' = drop k (data c) \<and> (\<forall>(d, err) \<in> set c'. err = None)"
proof (induction c k rule: fill.induct)
  case (2 d err cs k)
  consider "k < length d" | "k = length d" | "length d < k" by linarith
  then show ?case
  proof cases
    case 3
    then have "\<exists>c'. fill cs (k - length d) = (Inr (take (k - length d) (data cs)), c') \<and>
        data c' = drop (k - length d) (data cs) \<and> (\<forall>(d, err) \<in> set c'. err = None)"
      using 2 by (intro "2.IH") auto
    then show ?thesis using 3 2(2) by auto
  qed (use 2(2) in auto)
qed simp

text \<open>A reply on the wire, and what its request is called with.\<close>

definition reply_message :: "32 word \<Rightarrow> 32 word \<Rightarrow> 32 word \<Rightarrow> reply_op \<Rightarrow> bytes list \<Rightarrow> bytes" where
  "reply_message len requestId responseTo rp ds = reply_head len requestId responseTo rp @ concat ds"

definition reply_notices :: "reply_op \<Rightarrow> bytes list \<Rightarrow> notice list" where
  "reply_notices rp ds = (if ds = [] then [NNone rp] else map (\<lambda>(i, d). NDoc rp i d) (enumerate 0 ds))"

text \<open>A document carries its length in its first four bytes, and has more than these.\<close>

definition framed :: "bytes \<Rightarrow> bool" where
  "framed d \<longleftrightarrow> 4 < length d \<and> sint (msg_getInt32 d 0) = int (length d)"

lemma getInt32_take: "4 \<le> length d \<Longrightarrow> msg_getInt32 (take 4 d) 0 = msg_getInt32 d 0"
  by (simp add: msg_getInt32_def)

lemma readLoop_docs:
  assumes "\<forall>d \<in> set ds. framed d" and "int (i + length ds) = sint (ro_replyDocs rp)"
    and "\<forall>(d, err) \<in> set c. err = None" and "data c = concat ds @ rest"
    and "sk_reader s = RDocs f rp i"
  shows "\<exists>c'. data c' = rest \<and> (\<forall>(d, err) \<in> set c'. err = None) \<and>
    (\<forall>n. readLoop (Suc (length ds) + n) c s = readLoop n c' (s\<lparr>sk_reader := RIdle, sk_log := sk_log s @
      (case f of None \<Rightarrow> [] | Some r \<Rightarrow> map (\<lambda>(j, d). (r, NDoc rp j d)) (enumerate i ds))\<rparr>))"
  using assms
proof (induction ds arbitrary: i c s)
  case Nil
  then show ?case by (intro exI [of _ c]) (auto split: option.split)
next
  case (Cons d ds)
  let ?l = "length d"
  have d: "4 < ?l" "sint (msg_getInt32 d 0) = int ?l" using Cons.prems(1) by (auto simp: framed_def)
  have "int i \<noteq> sint (ro_replyDocs rp)" using Cons.prems(2) by simp
  obtain c1 where c1: "fill c 4 = (Inr (take 4 d), c1)" "data c1 = drop 4 d @ concat ds @ rest"
      "\<forall>(d, err) \<in> set c1. err = None"
    using fill_ok [OF Cons.prems(3), of 4] Cons.prems(4) d(1) by auto
  obtain c2 where c2: "fill c1 (?l - 4) = (Inr (drop 4 d), c2)" "data c2 = concat ds @ rest"
      "\<forall>(d, err) \<in> set c2. err = None"
    using fill_ok [OF c1(3), of "?l - 4"] c1(2) d(1) by (auto simp: le_diff_conv)
  let ?s = "(notify f (NDoc rp i d) s)\<lparr>sk_reader := RDocs f rp (i + 1)\<rparr>"
  have b4: "sint (msg_getInt32 (take 4 d) 0) = int ?l" using getInt32_take d by simp
  have "readLoop (Suc (length (d # ds)) + n) c s = readLoop (Suc (length ds) + n) c2 ?s" for n
    using Cons.prems(5) \<open>int i \<noteq> _\<close> c1(1) c2(1) b4 d(1) by (simp add: read_document_def)
  moreover obtain c' where "data c' = rest" "\<forall>(d, err) \<in> set c'. err = None"
      "\<forall>n. readLoop (Suc (length ds) + n) c2 ?s = readLoop n c' (?s\<lparr>sk_reader := RIdle, sk_log := sk_log ?s @
        (case f of None \<Rightarrow> [] | Some r \<Rightarrow> map (\<lambda>(j, d). (r, NDoc rp j d)) (enumerate (i + 1) ds))\<rparr>)"
    using Cons.IH [of "i + 1" c2 ?s] Cons.prems(1,2) c2(2,3) by auto
  ultimately show ?case
    by (intro exI [of _ c']) (cases f, auto simp: notify_def)
qed

text \<open>
  C26: However the network cuts a reply into pieces, the reader hands its documents, whole and in
  order, to the function registered under the id the reply is for, and to no other; it forgets the
  registration, leaves all others, and goes on with what follows the reply.
\<close>

theorem reply_dispatched:
  assumes "sk_reader s = RIdle" and "\<forall>d \<in> set ds. framed d" and "int (length ds) = sint (ro_replyDocs rp)"
    and "\<forall>(d, err) \<in> set c. err = None" and "data c = reply_message len requestId responseTo rp ds @ rest"
    and "map_of (sk_replies s) responseTo = Some r"
  shows "\<exists>n c'. 0 < n \<and> data c' = rest \<and> (\<forall>(d, err) \<in> set c'. err = None) \<and>
    (\<forall>m. readLoop (n + m) c s = readLoop m c' (s\<lparr>
       sk_replies := filter (\<lambda>(i, _). i \<noteq> responseTo) (sk_replies s),
       sk_log := sk_log s @ map (Pair r) (reply_notices rp ds)\<rparr>))"
proof -
  let ?h = "reply_head len requestId responseTo rp"
  have h: "length ?h = 36" by (simp add: reply_head_def)
  obtain c1 where c1: "fill c 36 = (Inr ?h, c1)" "data c1 = concat ds @ rest" "\<forall>(d, err) \<in> set c1. err = None"
    using fill_ok [OF assms(4), of 36] assms(5) h by (auto simp: reply_message_def)
  let ?s1 = "s\<lparr>sk_replies := filter (\<lambda>(i, _). i \<noteq> responseTo) (sk_replies s)\<rparr>"
  have first: "readLoop (Suc m) c s = readLoop m c1
      (if ro_replyDocs rp = 0 then notify (Some r) (NNone rp) ?s1 else ?s1\<lparr>sk_reader := RDocs (Some r) rp 0\<rparr>)" for m
    using assms(1,6) c1(1) by (simp add: read_reply_def read_reply_header_eq Let_def)
  show ?thesis
  proof (cases "ds = []")
    case True
    then have "ro_replyDocs rp = 0" using assms(3) by (simp add: signed_eq_0_iff)
    then show ?thesis using True first c1(2,3)
      by (intro exI [of _ 1] exI [of _ c1]) (simp add: notify_def reply_notices_def)
  next
    case False
    then have nz: "ro_replyDocs rp \<noteq> 0" using assms(3) by auto
    let ?s2 = "?s1\<lparr>sk_reader := RDocs (Some r) rp 0\<rparr>"
    obtain c' where "data c' = rest" "\<forall>(d, err) \<in> set c'. err = None"
        "\<forall>m. readLoop (Suc (length ds) + m) c1 ?s2 = readLoop m c' (?s2\<lparr>sk_reader := RIdle, sk_log := sk_log ?s2 @
          map (\<lambda>(j, d). (r, NDoc rp j d)) (enumerate 0 ds)\<rparr>)"
      using readLoop_docs [of ds 0 rp c1 rest ?s2 "Some r"] assms(2,3) c1(2,3) by auto
    moreover have "?s2\<lparr>sk_reader := RIdle, sk_log := sk_log ?s2 @ map (\<lambda>(j, d). (r, NDoc rp j d)) (enumerate 0 ds)\<rparr> =
        ?s1\<lparr>sk_log := sk_log s @ map (Pair r) (reply_notices rp ds)\<rparr>"
      using assms(1) False by (simp add: reply_notices_def comp_def case_prod_beta)
    ultimately show ?thesis using first nz
      by (intro exI [of _ "Suc (Suc (length ds))"] exI [of _ c']) simp
  qed
qed

definition sample_reply :: reply_op where
  "sample_reply = \<lparr>ro_flags = 8, ro_cursorId = 77, ro_firstDoc = 0, ro_replyDocs = 2\<rparr>"

theorem reply_dispatched_witness:
  "\<exists>n. sk_log (fst (readLoop n [(take 10 (reply_message 46 9 1 sample_reply [[5, 0, 0, 0, 0], [5, 0, 0, 0, 0]]), None),
     (drop 10 (reply_message 46 9 1 sample_reply [[5, 0, 0, 0, 0], [5, 0, 0, 0, 0]]), None)] sample_socket)) =
   [(0, NDoc sample_reply 0 [5, 0, 0, 0, 0]), (0, NDoc sample_reply 1 [5, 0, 0, 0, 0])]"
proof -
  let ?ds = "[[5, 0, 0, 0, 0], [5, 0, 0, 0, 0]] :: bytes list"
  let ?m = "reply_message 46 9 1 sample_reply ?ds"
  let ?c = "[(take 10 ?m, None), (drop 10 ?m, None)] :: conn"
  have "\<forall>d \<in> set ?ds. framed d" by (simp add: framed_def msg_getInt32_def)
  moreover have "int (length ?ds) = sint (ro_replyDocs sample_reply)" by (simp add: sample_reply_def)
  moreover have "data ?c = ?m @ []" by simp
  moreover have "map_of (sk_replies sample_socket) 1 = Some 0" by (simp add: sample_socket_fields)
  ultimately obtain n c' where "\<forall>m. readLoop (n + m) ?c sample_socket = readLoop m c' (sample_socket\<lparr>
       sk_replies := filter (\<lambda>(i, _). i \<noteq> 1) (sk_replies sample_socket),
       sk_log := sk_log sample_socket @ map (Pair 0) (reply_notices sample_reply ?ds)\<rparr>)"
    using reply_dispatched [of sample_socket ?ds sample_reply ?c 46 9 1 "[]" 0] sample_socket_fields(4)
    unfolding reply_message_def by auto
  from spec [OF this, of 0] show ?thesis
    by (intro exI [of _ n]) (simp add: sample_socket_fields reply_notices_def)
qed

end
