(* ===== verification/MgoPool.thy ===== *)
theory MgoPool
  imports Prelude Transition "HOL-Library.Multiset"
begin

text \<open>
  The sockets of one MongoDB server, \<open>mgo/server.go\<close>, with the references and credentials of
  \<open>mgo/socket.go\<close> and \<open>mgo/auth.go\<close> and the counters of \<open>mgo/stats.go\<close>. Goroutines share all of
  them; each part of a function that runs under one lock is an \<open>action\<close>, and a goroutine is the list
  of the actions it has still to do, so that any interleaving of the locked parts is a run.
\<close>

subsection \<open>State\<close>

record credential =
  cr_Username :: string
  cr_Password :: string
  cr_Source :: string
  cr_Service :: string
  cr_Mechanism :: string

record pooled =
  k_refs :: nat
  k_dead :: "gerror option"
  k_server :: bool
  k_creds :: "credential list"
  k_logout :: "credential list"

text \<open>The locked parts; a number is a socket, an integer the limit given to \<open>AcquireSocket\<close>.\<close>

datatype action =
    ACheck int
  | AInitial nat int
  | ADial
  | APut nat
  | ARelease nat
  | ALogoutAll nat bool
  | ARecycle nat
  | AKill nat gerror bool
  | AAbend nat
  | ACloseServer

record mgo_stats =
  st_SocketsAlive :: int
  st_SocketsInUse :: int
  st_SocketRefs :: int

text \<open>
  \<open>p_held\<close> counts the references the callers own, \<open>p_sync\<close> is the channel of capacity one that wakes
  the cluster, and \<open>p_panic\<close> is the text of the panic that ended the program.
\<close>

record pool =
  p_closed :: bool
  p_abended :: bool
  p_unused :: "nat list"
  p_live :: "nat list"
  p_sync :: bool
  p_socks :: "pooled list"
  p_stats :: mgo_stats
  p_todo :: "action list multiset"
  p_held :: "nat multiset"
  p_panic :: "string option"

definition new_pool :: pool where
  "new_pool = \<lparr>p_closed = False, p_abended = False, p_unused = [], p_live = [], p_sync = False,
     p_socks = [], p_stats = \<lparr>st_SocketsAlive = 0, st_SocketsInUse = 0, st_SocketRefs = 0\<rparr>,
     p_todo = {#}, p_held = {#}, p_panic = None\<rparr>"

definition upd_sock :: "nat \<Rightarrow> (pooled \<Rightarrow> pooled) \<Rightarrow> pool \<Rightarrow> pool" where
  "upd_sock k f s = s\<lparr>p_socks := (p_socks s)[k := f (p_socks s ! k)]\<rparr>"

definition stats_add :: "int \<Rightarrow> int \<Rightarrow> int \<Rightarrow> pool \<Rightarrow> pool" where
  "stats_add alive inuse refs s = s\<lparr>p_stats := \<lparr>st_SocketsAlive = st_SocketsAlive (p_stats s) + alive,
     st_SocketsInUse = st_SocketsInUse (p_stats s) + inuse, st_SocketRefs = st_SocketRefs (p_stats s) + refs\<rparr>\<rparr>"

subsection \<open>Acquiring\<close>

text \<open>
  \<open>AcquireSocket\<close>: the check of the server, the take-over of a cached socket with \<open>InitialAcquire\<close>
  or the dialing of a new one. Each function gives what its goroutine does next.
\<close>

definition acquire_check :: "int \<Rightarrow> pool \<Rightarrow> action list \<times> pool" where
  "acquire_check limit s =
     (let n = length (p_unused s) in
      if p_closed s then ([], s)
      else if limit > 0 \<and> int (length (p_live s)) - int n \<ge> limit then ([], s)
      else if n > 0 then
        ([AInitial (p_unused s ! (n - 1)) limit], s\<lparr>p_unused := take (n - 1) (p_unused s)\<rparr>)
      else ([ADial], s))"

definition initial_acquire :: "nat \<Rightarrow> int \<Rightarrow> pool \<Rightarrow> action list \<times> pool" where
  "initial_acquire k limit s =
     (if k_refs (p_socks s ! k) > 0 then
        ([], s\<lparr>p_panic := Some ''Socket acquired out of cache with references''\<rparr>)
      else if k_dead (p_socks s ! k) \<noteq> None then ([ACheck limit], s)
      else ([], (stats_add 0 1 1 (upd_sock k (\<lambda>x. x\<lparr>k_refs := k_refs x + 1\<rparr>) s))\<lparr>p_held := add_mset k (p_held s)\<rparr>))"

text \<open>\<open>Connect\<close> and \<open>newSocket\<close>; the dialer may fail.\<close>

definition connect :: "bool \<Rightarrow> pool \<Rightarrow> action list \<times> pool" where
  "connect works s =
     (if works then
        ([APut (length (p_socks s))], stats_add 1 1 1 (s\<lparr>p_socks := p_socks s @
           [\<lparr>k_refs = 1, k_dead = None, k_server = True, k_creds = [], k_logout = []\<rparr>]\<rparr>))
      else ([], s))"

definition put_socket :: "nat \<Rightarrow> pool \<Rightarrow> action list \<times> pool" where
  "put_socket k s =
     (if p_closed s then ([ARelease k, AKill k ''Closed explicitly'' False], s)
      else ([], s\<lparr>p_live := p_live s @ [k], p_held := add_mset k (p_held s)\<rparr>))"

subsection \<open>References\<close>

definition socket_Acquire :: "nat \<Rightarrow> pool \<Rightarrow> pool" where
  "socket_Acquire k s =
     (if k_refs (p_socks s ! k) = 0 then
        s\<lparr>p_panic := Some ''Socket got non-initial acquire with references == 0''\<rparr>
      else (stats_add 0 0 1 (upd_sock k (\<lambda>x. x\<lparr>k_refs := k_refs x + 1\<rparr>) s))\<lparr>p_held := add_mset k (p_held s)\<rparr>)"

definition socket_Release :: "nat \<Rightarrow> pool \<Rightarrow> action list \<times> pool" where
  "socket_Release k s =
     (let x = p_socks s ! k in
      if k_refs x = 0 then ([], s\<lparr>p_panic := Some ''socket.Release() with references == 0''\<rparr>)
      else
        (let s1 = stats_add 0 0 (- 1) (upd_sock k (\<lambda>x. x\<lparr>k_refs := k_refs x - 1\<rparr>) s) in
         if k_refs x = 1 then ([ALogoutAll k (k_server x)], stats_add 0 (- 1) 0 s1) else ([], s1)))"

definition LogoutAll :: "nat \<Rightarrow> bool \<Rightarrow> pool \<Rightarrow> action list \<times> pool" where
  "LogoutAll k recycle s =
     (if recycle then [ARecycle k] else [],
      upd_sock k (\<lambda>x. x\<lparr>k_logout := k_logout x @ k_creds x, k_creds := []\<rparr>) s)"

definition RecycleSocket :: "nat \<Rightarrow> pool \<Rightarrow> action list \<times> pool" where
  "RecycleSocket k s = ([], if p_closed s then s else s\<lparr>p_unused := p_unused s @ [k]\<rparr>)"

subsection \<open>The end of a socket and of the server\<close>

definition kill_socket :: "nat \<Rightarrow> gerror \<Rightarrow> bool \<Rightarrow> pool \<Rightarrow> action list \<times> pool" where
  "kill_socket k err abend s =
     (if k_dead (p_socks s ! k) \<noteq> None then ([], s)
      else (if abend then [AAbend k] else [],
        stats_add (- 1) 0 0 (upd_sock k (\<lambda>x. x\<lparr>k_dead := Some err, k_server := False\<rparr>) s)))"

fun removeSocket :: "nat list \<Rightarrow> nat \<Rightarrow> nat list" where
  "removeSocket [] k = []"
| "removeSocket (x # xs) k = (if x = k then xs else x # removeSocket xs k)"

definition AbendSocket :: "nat \<Rightarrow> pool \<Rightarrow> action list \<times> pool" where
  "AbendSocket k s =
     ([], if p_closed s then s\<lparr>p_abended := True\<rparr>
          else s\<lparr>p_abended := True, p_live := removeSocket (p_live s) k,
             p_unused := removeSocket (p_unused s) k, p_sync := True\<rparr>)"

definition server_Close :: "pool \<Rightarrow> action list \<times> pool" where
  "server_Close s =
     (map (\<lambda>k. AKill k ''Closed explicitly'' False) (p_live s),
      s\<lparr>p_closed := True, p_live := [], p_unused := []\<rparr>)"

subsection \<open>Authentication\<close>

text \<open>
  What a caller that holds a socket does to its credentials: \<open>Login\<close> when they are still valid on
  the connection, \<open>Login\<close> when the server has accepted them, \<open>Logout\<close>, and the start of \<open>Query\<close>,
  which sends a logout for each flagged credential in front of the operations.
\<close>

fun dropAuth :: "string \<Rightarrow> credential list \<Rightarrow> credential option \<times> credential list" where
  "dropAuth db [] = (None, [])"
| "dropAuth db (c # cs) =
     (if cr_Source c = db then (Some c, cs)
      else case dropAuth db cs of (found, cs') \<Rightarrow> (found, c # cs'))"

fun dropLogout :: "credential \<Rightarrow> credential list \<Rightarrow> bool \<times> credential list" where
  "dropLogout cred [] = (False, [])"
| "dropLogout cred (c # cs) =
     (if c = cred then (True, cs)
      else case dropLogout cred cs of (found, cs') \<Rightarrow> (found, c # cs'))"

definition login_cached :: "credential \<Rightarrow> pooled \<Rightarrow> bool \<times> pooled" where
  "login_cached cred x =
     (if cred \<in> set (k_creds x) then (True, x)
      else case dropLogout cred (k_logout x) of
          (True, l) \<Rightarrow> (True, x\<lparr>k_logout := l, k_creds := k_creds x @ [cred]\<rparr>)
        | (False, l) \<Rightarrow> (False, x))"

definition login_accepted :: "credential \<Rightarrow> pooled \<Rightarrow> pooled" where
  "login_accepted cred x = x\<lparr>k_creds := snd (dropAuth (cr_Source cred) (k_creds x)) @ [cred]\<rparr>"

definition socket_Logout :: "string \<Rightarrow> pooled \<Rightarrow> pooled" where
  "socket_Logout db x =
     (case dropAuth db (k_creds x) of
        (Some cred, cs) \<Rightarrow> x\<lparr>k_creds := cs, k_logout := k_logout x @ [cred]\<rparr>
      | (None, cs) \<Rightarrow> x)"

definition flushLogout :: "pooled \<Rightarrow> string list \<times> pooled" where
  "flushLogout x = (map (\<lambda>c. cr_Source c @ ''.$cmd'') (k_logout x), x\<lparr>k_logout := []\<rparr>)"

subsection \<open>Interleavings\<close>

fun exec :: "bool \<Rightarrow> action \<Rightarrow> pool \<Rightarrow> action list \<times> pool" where
  "exec works (ACheck limit) s = acquire_check limit s"
| "exec works (AInitial k limit) s = initial_acquire k limit s"
| "exec works ADial s = connect works s"
| "exec works (APut k) s = put_socket k s"
| "exec works (ARelease k) s = socket_Release k s"
| "exec works (ALogoutAll k recycle) s = LogoutAll k recycle s"
| "exec works (ARecycle k) s = RecycleSocket k s"
| "exec works (AKill k err abend) s = kill_socket k err abend s"
| "exec works (AAbend k) s = AbendSocket k s"
| "exec works ACloseServer s = server_Close s"

inductive credential_step :: "pooled \<Rightarrow> pooled \<Rightarrow> bool" where
  "credential_step x (snd (login_cached cred x))"
| "credential_step x (login_accepted cred x)"
| "credential_step x (socket_Logout db x)"
| "credential_step x (snd (flushLogout x))"

definition proceed :: "action list \<Rightarrow> action list \<Rightarrow> pool \<Rightarrow> pool" where
  "proceed l l' s = s\<lparr>p_todo := add_mset l' (p_todo s - {#l#})\<rparr>"

inductive pool_step :: "pool \<Rightarrow> pool \<Rightarrow> bool" where
  step_go: "a # rest \<in># p_todo s \<Longrightarrow> exec works a s = (next, s') \<Longrightarrow>
     pool_step s (proceed (a # rest) (next @ rest) s')"
| step_AcquireSocket: "pool_step s (s\<lparr>p_todo := add_mset [ACheck limit] (p_todo s)\<rparr>)"
| step_Acquire: "k \<in># p_held s \<Longrightarrow> pool_step s (socket_Acquire k s)"
| step_Release: "k \<in># p_held s \<Longrightarrow>
     pool_step s (s\<lparr>p_held := p_held s - {#k#}, p_todo := add_mset [ARelease k] (p_todo s)\<rparr>)"
| step_credentials: "k \<in># p_held s \<Longrightarrow> credential_step (p_socks s ! k) x \<Longrightarrow>
     pool_step s (upd_sock k (\<lambda>_. x) s)"
| step_kill: "k < length (p_socks s) \<Longrightarrow>
     pool_step s (s\<lparr>p_todo := add_mset [AKill k err abend] (p_todo s)\<rparr>)"
| step_Close: "pool_step s (s\<lparr>p_todo := add_mset [ACloseServer] (p_todo s)\<rparr>)"

subsection \<open>The invariant\<close>

text \<open>How much of something the actions still to be done hold.\<close>

definition pending :: "(action \<Rightarrow> nat) \<Rightarrow> pool \<Rightarrow> nat" where
  "pending w s = (\<Sum>l \<in># p_todo s. sum_list (map w l))"

text \<open>
  Of a socket: the references that goroutines own, its ways to and from the cache, those of them on
  which it must have no credentials, its way to the live sockets, its coming end, and every mention.
\<close>

fun w_ref :: "nat \<Rightarrow> action \<Rightarrow> nat" where
  "w_ref k (APut j) = of_bool (j = k)"
| "w_ref k (ARelease j) = of_bool (j = k)"
| "w_ref k a = 0"

fun w_idle :: "nat \<Rightarrow> action \<Rightarrow> nat" where
  "w_idle k (AInitial j limit) = of_bool (j = k)"
| "w_idle k (ALogoutAll j recycle) = of_bool (j = k \<and> recycle)"
| "w_idle k (ARecycle j) = of_bool (j = k)"
| "w_idle k a = 0"

fun w_clean :: "nat \<Rightarrow> action \<Rightarrow> nat" where
  "w_clean k (AInitial j limit) = of_bool (j = k)"
| "w_clean k (ARecycle j) = of_bool (j = k)"
| "w_clean k a = 0"

fun w_put :: "nat \<Rightarrow> action \<Rightarrow> nat" where
  "w_put k (APut j) = of_bool (j = k)"
| "w_put k a = 0"

fun w_kill :: "nat \<Rightarrow> action \<Rightarrow> nat" where
  "w_kill k (AKill j err abend) = of_bool (j = k)"
| "w_kill k a = 0"

fun w_abend :: "nat \<Rightarrow> action \<Rightarrow> nat" where
  "w_abend k (AAbend j) = of_bool (j = k)"
| "w_abend k a = 0"

fun w_any :: "nat \<Rightarrow> action \<Rightarrow> nat" where
  "w_any k (ACheck limit) = 0"
| "w_any k (AInitial j limit) = of_bool (j = k)"
| "w_any k ADial = 0"
| "w_any k (APut j) = of_bool (j = k)"
| "w_any k (ARelease j) = of_bool (j = k)"
| "w_any k (ALogoutAll j recycle) = of_bool (j = k)"
| "w_any k (ARecycle j) = of_bool (j = k)"
| "w_any k (AKill j err abend) = of_bool (j = k)"
| "w_any k (AAbend j) = of_bool (j = k)"
| "w_any k ACloseServer = 0"

text \<open>What holds of one socket.\<close>

definition sock_ok :: "pool \<Rightarrow> nat \<Rightarrow> bool" where
  "sock_ok s k \<longleftrightarrow>
     k_refs (p_socks s ! k) = count (p_held s) k + pending (w_ref k) s \<and>
     count_list (p_unused s) k + pending (w_idle k) s \<le> 1 \<and>
     (0 < count_list (p_unused s) k + pending (w_idle k) s \<longrightarrow> k_refs (p_socks s ! k) = 0) \<and>
     (0 < count_list (p_unused s) k + pending (w_clean k) s \<longrightarrow> k_creds (p_socks s ! k) = []) \<and>
     (k_server (p_socks s ! k) \<longleftrightarrow> k_dead (p_socks s ! k) = None) \<and>
     (0 < pending (w_abend k) s \<longrightarrow> k_dead (p_socks s ! k) \<noteq> None) \<and>
     (k_dead (p_socks s ! k) = None \<longrightarrow> pending (w_put k) s = 0 \<longrightarrow>
        (if p_closed s then 0 < pending (w_kill k) s else k \<in> set (p_live s)))"

definition stats_ok :: "pool \<Rightarrow> bool" where
  "stats_ok s \<longleftrightarrow>
     st_SocketsAlive (p_stats s) = int (length (filter (\<lambda>x. k_dead x = None) (p_socks s))) \<and>
     st_SocketsInUse (p_stats s) = int (length (filter (\<lambda>x. k_refs x > 0) (p_socks s))) \<and>
     st_SocketRefs (p_stats s) = int (sum_list (map k_refs (p_socks s)))"

definition pool_inv :: "pool \<Rightarrow> bool" where
  "pool_inv s \<longleftrightarrow>
     p_panic s = None \<and>
     (\<forall>k < length (p_socks s). sock_ok s k) \<and>
     (\<forall>k \<ge> length (p_socks s). k \<notin> set (p_live s) \<and> k \<notin> set (p_unused s) \<and> k \<notin># p_held s \<and> pending (w_any k) s = 0) \<and>
     (p_closed s \<longrightarrow> p_live s = [] \<and> p_unused s = []) \<and> stats_ok s"

lemma pending_proceed:
  assumes "l \<in># p_todo s"
  shows "pending w (proceed l l' s) + sum_list (map w l) = pending w s + sum_list (map w l')"
proof -
  obtain M where "p_todo s = add_mset l M" using assms by (metis insert_DiffM)
  then show ?thesis by (simp add: pending_def proceed_def)
qed

lemma pending_ge: "l \<in># p_todo s \<Longrightarrow> sum_list (map w l) \<le> pending w s"
  using pending_proceed [of l s w "[]"] by simp

lemma pending_start [simp]: "pending w (s\<lparr>p_todo := add_mset l (p_todo s)\<rparr>) = sum_list (map w l) + pending w s"
  by (simp add: pending_def)

lemma pending_cong: "p_todo s = p_todo s' \<Longrightarrow> pending w s = pending w s'"
  by (simp add: pending_def)

lemma w_le_any: "w_ref k a \<le> w_any k a" "w_idle k a \<le> w_any k a" "w_clean k a \<le> w_idle k a"
    "w_put k a \<le> w_ref k a" "w_kill k a \<le> w_any k a" "w_abend k a \<le> w_any k a"
  by (cases a; simp)+

lemma pending_mono: "(\<And>a. v a \<le> w a) \<Longrightarrow> pending v s \<le> pending w s"
  unfolding pending_def by (intro sum_mset_mono sum_list_mono) auto

lemma exec_todo: "p_todo (snd (exec works a s)) = p_todo s"
  by (cases a)
     (simp_all add: acquire_check_def initial_acquire_def connect_def put_socket_def socket_Release_def LogoutAll_def
       RecycleSocket_def kill_socket_def AbendSocket_def server_Close_def stats_add_def upd_sock_def Let_def)

lemma proceed_fields [simp]:
  "p_closed (proceed l l' s) = p_closed s" "p_unused (proceed l l' s) = p_unused s"
  "p_live (proceed l l' s) = p_live s" "p_socks (proceed l l' s) = p_socks s"
  "p_stats (proceed l l' s) = p_stats s" "p_held (proceed l l' s) = p_held s"
  "p_panic (proceed l l' s) = p_panic s"
  by (simp_all add: proceed_def)

lemma stats_add_fields [simp]:
  "p_closed (stats_add x y z s) = p_closed s" "p_unused (stats_add x y z s) = p_unused s"
  "p_live (stats_add x y z s) = p_live s" "p_socks (stats_add x y z s) = p_socks s"
  "p_todo (stats_add x y z s) = p_todo s" "p_held (stats_add x y z s) = p_held s"
  "p_panic (stats_add x y z s) = p_panic s" "pending w (stats_add x y z s) = pending w s"
  by (simp_all add: stats_add_def pending_def)

lemma upd_sock_fields [simp]:
  "p_closed (upd_sock k f s) = p_closed s" "p_unused (upd_sock k f s) = p_unused s"
  "p_live (upd_sock k f s) = p_live s" "p_stats (upd_sock k f s) = p_stats s"
  "p_todo (upd_sock k f s) = p_todo s" "p_held (upd_sock k f s) = p_held s"
  "p_panic (upd_sock k f s) = p_panic s" "pending w (upd_sock k f s) = pending w s"
  "p_socks (upd_sock k f s) = (p_socks s)[k := f (p_socks s ! k)]"
  by (simp_all add: upd_sock_def pending_def)

text \<open>
  \<open>t\<close> is a state after an action \<open>a\<close>: its actions have given way to their successors, and the other
  fields are those of \<open>s'\<close>.
\<close>

definition follows :: "pool \<Rightarrow> action \<Rightarrow> action list \<Rightarrow> pool \<Rightarrow> pool \<Rightarrow> bool" where
  "follows s a next s' t \<longleftrightarrow>
     (\<forall>w. pending w t = pending w s + sum_list (map w next) - w a) \<and> (\<forall>w. w a \<le> pending w s) \<and>
     p_closed t = p_closed s' \<and> p_unused t = p_unused s' \<and> p_live t = p_live s' \<and> p_socks t = p_socks s' \<and>
     p_stats t = p_stats s' \<and> p_held t = p_held s' \<and> p_panic t = p_panic s'"

lemma followsD:
  assumes "follows s a next s' t"
  shows "pending w t = pending w s + sum_list (map w next) - w a" "w a \<le> pending w s"
    "p_closed t = p_closed s'" "p_unused t = p_unused s'" "p_live t = p_live s'" "p_socks t = p_socks s'"
    "p_stats t = p_stats s'" "p_held t = p_held s'" "p_panic t = p_panic s'"
  using assms by (auto simp: follows_def)

lemma proceed_follows:
  assumes "a # rest \<in># p_todo s" and "exec works a s = (next, s')"
  shows "follows s a next s' (proceed (a # rest) (next @ rest) s')"
proof -
  have t: "p_todo s' = p_todo s" using exec_todo [of works a s] assms(2) by simp
  then have "a # rest \<in># p_todo s'" using assms(1) by simp
  then have "pending w (proceed (a # rest) (next @ rest) s') = pending w s + sum_list (map w next) - w a" for w
    using pending_proceed [of "a # rest" s' w "next @ rest"] pending_cong [OF t, of w] by simp
  moreover have "w a \<le> pending w s" for w using pending_ge [OF assms(1), of w] by simp
  ultimately show ?thesis by (simp add: follows_def)
qed

lemma pool_invI:
  assumes "p_panic s = None" and "\<And>k. k < length (p_socks s) \<Longrightarrow> sock_ok s k"
    and "\<And>k. length (p_socks s) \<le> k \<Longrightarrow> k \<notin> set (p_live s) \<and> k \<notin> set (p_unused s) \<and> k \<notin># p_held s \<and> pending (w_any k) s = 0"
    and "p_closed s \<Longrightarrow> p_live s = [] \<and> p_unused s = []" and "stats_ok s"
  shows "pool_inv s"
  using assms unfolding pool_inv_def by blast

lemma pool_invD:
  assumes "pool_inv s"
  shows "p_panic s = None" "k < length (p_socks s) \<Longrightarrow> sock_ok s k"
    "length (p_socks s) \<le> k \<Longrightarrow> k \<notin> set (p_live s) \<and> k \<notin> set (p_unused s) \<and> k \<notin># p_held s \<and> pending (w_any k) s = 0"
    "p_closed s \<Longrightarrow> p_live s = [] \<and> p_unused s = []" "stats_ok s"
  using assms unfolding pool_inv_def by blast+

lemma go_known:
  assumes "pool_inv s" and "0 < w_any k a" and "w_any k a \<le> pending (w_any k) s"
  shows "k < length (p_socks s)"
proof (rule ccontr)
  assume "\<not> k < length (p_socks s)"
  then have "pending (w_any k) s = 0" using assms(1) by (simp add: pool_inv_def)
  then show False using assms(2,3) by simp
qed

lemma sock_frame:
  assumes "sock_ok s k" and "p_socks t ! k = p_socks s ! k" "count (p_held t) k = count (p_held s) k"
    "pending (w_ref k) t = pending (w_ref k) s" "pending (w_idle k) t = pending (w_idle k) s"
    "pending (w_clean k) t = pending (w_clean k) s" "pending (w_put k) t = pending (w_put k) s"
    "pending (w_kill k) t = pending (w_kill k) s" "pending (w_abend k) t = pending (w_abend k) s"
    "count_list (p_unused t) k = count_list (p_unused s) k" "p_closed t = p_closed s"
    "k \<in> set (p_live t) \<longleftrightarrow> k \<in> set (p_live s)"
  shows "sock_ok t k"
  using assms(1) unfolding sock_ok_def assms(2-) .

lemma sock_okI:
  assumes "k_refs (p_socks s ! k) = count (p_held s) k + pending (w_ref k) s"
    and "count_list (p_unused s) k + pending (w_idle k) s \<le> 1"
    and "0 < count_list (p_unused s) k + pending (w_idle k) s \<Longrightarrow> k_refs (p_socks s ! k) = 0"
    and "0 < count_list (p_unused s) k + pending (w_clean k) s \<Longrightarrow> k_creds (p_socks s ! k) = []"
    and "k_server (p_socks s ! k) \<longleftrightarrow> k_dead (p_socks s ! k) = None"
    and "0 < pending (w_abend k) s \<Longrightarrow> k_dead (p_socks s ! k) \<noteq> None"
    and "k_dead (p_socks s ! k) = None \<Longrightarrow> pending (w_put k) s = 0 \<Longrightarrow> p_closed s \<Longrightarrow> 0 < pending (w_kill k) s"
    and "k_dead (p_socks s ! k) = None \<Longrightarrow> pending (w_put k) s = 0 \<Longrightarrow> \<not> p_closed s \<Longrightarrow> k \<in> set (p_live s)"
  shows "sock_ok s k"
  using assms unfolding sock_ok_def by presburger

lemma sock_okD:
  assumes "sock_ok s k"
  shows "k_refs (p_socks s ! k) = count (p_held s) k + pending (w_ref k) s"
    and "count_list (p_unused s) k + pending (w_idle k) s \<le> 1"
    and "0 < count_list (p_unused s) k + pending (w_idle k) s \<Longrightarrow> k_refs (p_socks s ! k) = 0"
    and "0 < count_list (p_unused s) k + pending (w_clean k) s \<Longrightarrow> k_creds (p_socks s ! k) = []"
    and "k_server (p_socks s ! k) \<longleftrightarrow> k_dead (p_socks s ! k) = None"
    and "0 < pending (w_abend k) s \<Longrightarrow> k_dead (p_socks s ! k) \<noteq> None"
    and "k_dead (p_socks s ! k) = None \<Longrightarrow> pending (w_put k) s = 0 \<Longrightarrow> p_closed s \<Longrightarrow> 0 < pending (w_kill k) s"
    and "k_dead (p_socks s ! k) = None \<Longrightarrow> pending (w_put k) s = 0 \<Longrightarrow> \<not> p_closed s \<Longrightarrow> k \<in> set (p_live s)"
  using assms unfolding sock_ok_def by (auto split: if_splits)

lemma pool_recycle:
  assumes "pool_inv s" and "follows s (ARecycle j) next s' t" and "RecycleSocket j s = (next, s')"
  shows "pool_inv t"
proof -
  note F = followsD [OF assms(2)] and I = pool_invD [OF assms(1)]
  have j: "j < length (p_socks s)" using go_known [OF assms(1) _ F(2)] by simp
  have T: "pending w t = pending w s - w (ARecycle j)" "p_closed t = p_closed s" "p_live t = p_live s"
      "p_socks t = p_socks s" "p_stats t = p_stats s" "p_held t = p_held s" "p_panic t = p_panic s"
      "p_unused t = p_unused s @ (if p_closed s then [] else [j])" for w
    using assms(3) F by (auto simp: RecycleSocket_def split: if_splits)
  show ?thesis
  proof (rule pool_invI)
    show "sock_ok t k" if "k < length (p_socks t)" for k
    proof -
      have "sock_ok s k" using I(2) that T by simp
      note S = sock_okD [OF this]
      show ?thesis
        using F(2) [of "w_idle k"] F(2) [of "w_clean k"] S(4,6,7,8) S(1,2,3)
        by (intro sock_okI) (auto simp: T S(5) of_bool_def split: if_splits)
    qed
  qed (use I j in \<open>auto simp: T stats_ok_def\<close>)
qed

lemma pool_same:
  assumes "pool_inv s" and "p_closed t = p_closed s" "p_live t = p_live s" "p_socks t = p_socks s"
      "p_stats t = p_stats s" "p_held t = p_held s" "p_panic t = p_panic s" "p_unused t = p_unused s"
    and "\<And>k. pending (w_ref k) t = pending (w_ref k) s" "\<And>k. pending (w_idle k) t \<le> pending (w_idle k) s"
      "\<And>k. pending (w_clean k) t \<le> pending (w_clean k) s" "\<And>k. pending (w_abend k) t \<le> pending (w_abend k) s"
      "\<And>k. pending (w_any k) s = 0 \<Longrightarrow> length (p_socks s) \<le> k \<Longrightarrow> pending (w_any k) t = 0"
      "\<And>k. pending (w_put k) t = pending (w_put k) s"
      "\<And>k. pending (w_kill k) s \<le> pending (w_kill k) t \<or> k_dead (p_socks s ! k) \<noteq> None"
  shows "pool_inv t"
proof (rule pool_invI)
  note I = pool_invD [OF assms(1)]
  show "sock_ok t k" if "k < length (p_socks t)" for k
  proof -
    have "sock_ok s k" using I(2) that assms(4) by simp
    note S = sock_okD [OF this]
    show ?thesis
    proof (rule sock_okI)
      show "count_list (p_unused t) k + pending (w_idle k) t \<le> 1" using S(2) assms(10) [of k] assms(8) by simp
      show "k_refs (p_socks t ! k) = 0" if "0 < count_list (p_unused t) k + pending (w_idle k) t"
      proof -
        have "0 < count_list (p_unused s) k + pending (w_idle k) s" using that assms(10) [of k] unfolding assms(8) by linarith
        then show ?thesis using S(3) assms(4) by simp
      qed
      show "k_creds (p_socks t ! k) = []" if "0 < count_list (p_unused t) k + pending (w_clean k) t"
      proof -
        have "0 < count_list (p_unused s) k + pending (w_clean k) s" using that assms(11) [of k] unfolding assms(8) by linarith
        then show ?thesis using S(4) assms(4) by simp
      qed
      show "k_dead (p_socks t ! k) \<noteq> None" if "0 < pending (w_abend k) t"
        using S(6) that assms(12) [of k] assms(4) by simp
      show "0 < pending (w_kill k) t" if "k_dead (p_socks t ! k) = None" "pending (w_put k) t = 0" "p_closed t"
        using S(7) that assms(15) [of k] assms(2,4,14) by auto
    qed (use S(1,5,8) assms(2-9,14) in auto)
  qed
qed (use pool_invD [OF assms(1)] assms(2-8,13) in \<open>auto simp: stats_ok_def\<close>)

lemma pool_check:
  assumes "pool_inv s" and "follows s (ACheck limit) next s' t" and "acquire_check limit s = (next, s')"
  shows "pool_inv t"
proof -
  note F = followsD [OF assms(2)] and I = pool_invD [OF assms(1)]
  show ?thesis
  proof (cases "next = [] \<or> next = [ADial]")
    case True
    then have "s' = s" using assms(3) by (auto simp: acquire_check_def Let_def split: if_splits)
    then show ?thesis using True F by (intro pool_same [OF assms(1)]) auto
  next
    case False
    then have ne: "p_unused s \<noteq> []" and n: "next = [AInitial (last (p_unused s)) limit]"
      and s': "s' = s\<lparr>p_unused := butlast (p_unused s)\<rparr>"
      using assms(3) by (auto simp: acquire_check_def Let_def last_conv_nth butlast_conv_take split: if_splits)
    obtain xs j where xs: "p_unused s = xs @ [j]" using ne by (metis append_butlast_last_id)
    have T: "pending w t = pending w s + w (AInitial j limit) - w (ACheck limit)" "p_closed t = p_closed s"
        "p_live t = p_live s" "p_socks t = p_socks s" "p_stats t = p_stats s" "p_held t = p_held s"
        "p_panic t = p_panic s" "p_unused t = xs" for w
      using F n s' xs by auto
    show ?thesis
    proof (rule pool_invI)
      show "sock_ok t k" if "k < length (p_socks t)" for k
      proof -
        have "sock_ok s k" using I(2) that T by simp
        note S = sock_okD [OF this]
        show ?thesis using S(4,6,7,8) S(1,2,3) xs
          by (intro sock_okI) (auto simp: T S(5) of_bool_def split: if_splits)
      qed
    qed (use I xs in \<open>auto simp: T stats_ok_def\<close>)
  qed
qed

text \<open>The counters when one socket changes.\<close>

lemma length_filter_update:
  "k < length xs \<Longrightarrow> int (length (filter P (xs[k := y]))) =
     int (length (filter P xs)) + of_bool (P y) - of_bool (P (xs ! k))"
proof (induction xs arbitrary: k)
  case (Cons x xs)
  then show ?case by (cases k) auto
qed simp

lemma sum_list_update_int:
  "k < length xs \<Longrightarrow> int (sum_list (map f (xs[k := y]))) = int (sum_list (map f xs)) + int (f y) - int (f (xs ! k))"
proof (induction xs arbitrary: k)
  case (Cons x xs)
  then show ?case by (cases k) auto
qed simp

lemma pool_initial:
  assumes "pool_inv s" and "follows s (AInitial j limit) next s' t" and "initial_acquire j limit s = (next, s')"
  shows "pool_inv t"
proof -
  note F = followsD [OF assms(2)] and I = pool_invD [OF assms(1)]
  have j: "j < length (p_socks s)" using go_known [OF assms(1) _ F(2)] by simp
  have J: "k_refs (p_socks s ! j) = 0" "pending (w_idle j) s = 1" "count_list (p_unused s) j = 0"
      "count (p_held s) j = 0" "pending (w_ref j) s = 0"
    using sock_okD(1-3) [OF I(2) [OF j]] F(2) [of "w_idle j"] by auto
  show ?thesis
  proof (cases "k_dead (p_socks s ! j) = None")
    case True
    let ?x = "(p_socks s ! j)\<lparr>k_refs := 1\<rparr>"
    have T: "pending w t = pending w s - w (AInitial j limit)" "p_closed t = p_closed s"
        "p_live t = p_live s" "p_socks t = (p_socks s)[j := ?x]" "p_held t = add_mset j (p_held s)"
        "p_panic t = p_panic s" "p_unused t = p_unused s"
        "p_stats t = p_stats (stats_add 0 1 1 s)" for w
      using assms(3) F J True by (auto simp: initial_acquire_def stats_add_def)
    show ?thesis
    proof (rule pool_invI)
      show "sock_ok t k" if "k < length (p_socks t)" for k
      proof (cases "k = j")
        case True
        note S = sock_okD [OF I(2) [OF j]]
        show ?thesis unfolding True using S(4,6,7,8) J j by (intro sock_okI) (auto simp: T S(5))
      next
        case False
        then show ?thesis using that by (intro sock_frame [OF I(2)]) (simp_all add: T)
      qed
      show "stats_ok t"
        using I(5) J(1) j by (simp add: stats_ok_def T stats_add_def length_filter_update sum_list_update_int
          nth_list_update del: map_update)
    qed (use I j in \<open>auto simp: T\<close>)
  next
    case False
    then have "next = [ACheck limit]" "s' = s" using assms(3) J(1) by (auto simp: initial_acquire_def)
    then show ?thesis using F by (intro pool_same [OF assms(1)]) auto
  qed
qed

lemma pool_connect:
  assumes "pool_inv s" and "follows s ADial next s' t" and "connect works s = (next, s')"
  shows "pool_inv t"
proof (cases works)
  case True
  note F = followsD [OF assms(2)] and I = pool_invD [OF assms(1)]
  let ?n = "length (p_socks s)" and ?x = "\<lparr>k_refs = 1, k_dead = None, k_server = True, k_creds = [], k_logout = []\<rparr>"
  have T: "pending w t = pending w s + w (APut ?n) - w ADial" "p_closed t = p_closed s"
      "p_live t = p_live s" "p_socks t = p_socks s @ [?x]" "p_held t = p_held s" "p_panic t = p_panic s"
      "p_unused t = p_unused s" "p_stats t = p_stats (stats_add 1 1 1 s)" for w
    using assms(3) F True by (auto simp: connect_def stats_add_def)
  have new: "pending (w_ref ?n) s = 0" "pending (w_idle ?n) s = 0" "pending (w_clean ?n) s = 0" "pending (w_abend ?n) s = 0"
    using I(3) [of ?n] w_le_any pending_mono [of _ "w_any ?n" s] by (metis le_refl le_zero_eq order_trans)+
  show ?thesis
  proof (rule pool_invI)
    show "sock_ok t k" if "k < length (p_socks t)" for k
    proof (cases "k = ?n")
      case True
      then show ?thesis using I(3) [of ?n] new
        by (intro sock_okI) (simp_all add: T count_list_0_iff not_in_iff)
    next
      case False
      then show ?thesis using that by (intro sock_frame [OF I(2)]) (simp_all add: T nth_append)
    qed
    show "stats_ok t" using I(5) by (simp add: stats_ok_def T stats_add_def)
  qed (use I in \<open>auto simp: T\<close>)
next
  case False
  note F = followsD [OF assms(2)]
  have "next = []" "s' = s" using assms(3) False by (auto simp: connect_def)
  then show ?thesis using F by (intro pool_same [OF assms(1)]) auto
qed

lemma pool_put:
  assumes "pool_inv s" and "follows s (APut j) next s' t" and "put_socket j s = (next, s')"
  shows "pool_inv t"
proof -
  note F = followsD [OF assms(2)] and I = pool_invD [OF assms(1)]
  have j: "j < length (p_socks s)" using go_known [OF assms(1) _ F(2)] by simp
  have E: "next = (if p_closed s then [ARelease j, AKill j ''Closed explicitly'' False] else [])"
    using assms(3) by (simp add: put_socket_def split: if_splits)
  have T: "pending w t = pending w s + (if p_closed s then w (ARelease j) + w (AKill j ''Closed explicitly'' False) else 0)
        - w (APut j)" "p_closed t = p_closed s"
      "p_live t = p_live s @ (if p_closed s then [] else [j])" "p_socks t = p_socks s"
      "p_held t = p_held s + (if p_closed s then {#} else {#j#})" "p_panic t = p_panic s"
      "p_unused t = p_unused s" "p_stats t = p_stats s" for w
    using assms(3) F by (auto simp: E put_socket_def split: if_splits)
  show ?thesis
  proof (rule pool_invI)
    show "sock_ok t k" if "k < length (p_socks t)" for k
    proof -
      have "sock_ok s k" using I(2) that T by simp
      note S = sock_okD [OF this]
      show ?thesis using F(2) [of "w_ref k"] F(2) [of "w_put k"] S(4,6,7,8) S(1,2,3)
        by (intro sock_okI) (auto simp: T S(5) of_bool_def split: if_splits)
    qed
  qed (use I j in \<open>auto simp: T stats_ok_def\<close>)
qed

lemma pool_release:
  assumes "pool_inv s" and "follows s (ARelease j) next s' t" and "socket_Release j s = (next, s')"
  shows "pool_inv t"
proof -
  note F = followsD [OF assms(2)] and I = pool_invD [OF assms(1)]
  have j: "j < length (p_socks s)" using go_known [OF assms(1) _ F(2)] by simp
  let ?r = "k_refs (p_socks s ! j)"
  have J: "0 < ?r" "count_list (p_unused s) j = 0" "pending (w_idle j) s = 0" "0 < pending (w_ref j) s"
    using sock_okD(1,3) [OF I(2) [OF j]] F(2) [of "w_ref j"] by (auto simp: not_less_eq_eq simp flip: neq0_conv)
  define act where "act = ALogoutAll j (k_server (p_socks s ! j))"
  have T: "pending w t = pending w s + (if ?r = 1 then w act else 0) - w (ARelease j)" "p_closed t = p_closed s"
      "p_live t = p_live s" "p_socks t = (p_socks s)[j := (p_socks s ! j)\<lparr>k_refs := ?r - 1\<rparr>]"
      "p_held t = p_held s" "p_panic t = p_panic s" "p_unused t = p_unused s"
      "p_stats t = p_stats (stats_add 0 (if ?r = 1 then - 1 else 0) (- 1) s)" for w
    using assms(3) F J(1) by (auto simp: socket_Release_def Let_def stats_add_def act_def split: if_splits)
  show ?thesis
  proof (rule pool_invI)
    show "sock_ok t k" if "k < length (p_socks t)" for k
    proof (cases "k = j")
      case True
      note S = sock_okD [OF I(2) [OF j]]
      show ?thesis unfolding True using S(4,6,7,8) S(1) J j
        by (intro sock_okI) (auto simp: T S(5) act_def split: if_splits)
    next
      case False
      then show ?thesis using that by (intro sock_frame [OF I(2)]) (simp_all add: T act_def)
    qed
    show "stats_ok t"
      using I(5) J(1) j by (simp add: stats_ok_def T stats_add_def length_filter_update sum_list_update_int del: map_update)
  qed (use I j in \<open>auto simp: T act_def\<close>)
qed

lemma pool_logout:
  assumes "pool_inv s" and "follows s (ALogoutAll j recycle) next s' t" and "LogoutAll j recycle s = (next, s')"
  shows "pool_inv t"
proof -
  note F = followsD [OF assms(2)] and I = pool_invD [OF assms(1)]
  have j: "j < length (p_socks s)" using go_known [OF assms(1) _ F(2)] by simp
  let ?x = "(p_socks s ! j)\<lparr>k_logout := k_logout (p_socks s ! j) @ k_creds (p_socks s ! j), k_creds := []\<rparr>"
  have T: "pending w t = pending w s + (if recycle then w (ARecycle j) else 0) - w (ALogoutAll j recycle)"
      "p_closed t = p_closed s" "p_live t = p_live s" "p_socks t = (p_socks s)[j := ?x]"
      "p_held t = p_held s" "p_panic t = p_panic s" "p_unused t = p_unused s" "p_stats t = p_stats s" for w
    using assms(3) F by (auto simp: LogoutAll_def)
  show ?thesis
  proof (rule pool_invI)
    show "sock_ok t k" if "k < length (p_socks t)" for k
    proof (cases "k = j")
      case True
      note S = sock_okD [OF I(2) [OF j]]
      show ?thesis unfolding True using F(2) [of "w_idle j"] S(1,2,3,6,7,8) j
        by (intro sock_okI) (auto simp: T S(5) split: if_splits)
    next
      case False
      then show ?thesis using that by (intro sock_frame [OF I(2)]) (simp_all add: T)
    qed
    show "stats_ok t"
      using I(5) j by (simp add: stats_ok_def T length_filter_update sum_list_update_int del: map_update)
  qed (use I j in \<open>auto simp: T\<close>)
qed

lemma pool_kill:
  assumes "pool_inv s" and "follows s (AKill j err abend) next s' t" and "kill_socket j err abend s = (next, s')"
  shows "pool_inv t"
proof -
  note F = followsD [OF assms(2)] and I = pool_invD [OF assms(1)]
  have j: "j < length (p_socks s)" using go_known [OF assms(1) _ F(2)] by simp
  show ?thesis
  proof (cases "k_dead (p_socks s ! j) = None")
    case True
    let ?x = "(p_socks s ! j)\<lparr>k_dead := Some err, k_server := False\<rparr>"
    have T: "pending w t = pending w s + (if abend then w (AAbend j) else 0) - w (AKill j err abend)"
        "p_closed t = p_closed s" "p_live t = p_live s" "p_socks t = (p_socks s)[j := ?x]"
        "p_held t = p_held s" "p_panic t = p_panic s" "p_unused t = p_unused s"
        "p_stats t = p_stats (stats_add (- 1) 0 0 s)" for w
      using assms(3) F True by (auto simp: kill_socket_def stats_add_def)
    show ?thesis
    proof (rule pool_invI)
      show "sock_ok t k" if "k < length (p_socks t)" for k
      proof (cases "k = j")
        case True
        note S = sock_okD [OF I(2) [OF j]]
        show ?thesis unfolding True using S(1,2,3,4) j by (intro sock_okI) (auto simp: T split: if_splits)
      next
        case False
        then show ?thesis using that by (intro sock_frame [OF I(2)]) (simp_all add: T)
      qed
      show "stats_ok t" using I(5) j True
        by (simp add: stats_ok_def T stats_add_def length_filter_update sum_list_update_int del: map_update)
    qed (use I j in \<open>auto simp: T\<close>)
  next
    case False
    then have "next = []" "s' = s" using assms(3) by (auto simp: kill_socket_def)
    then show ?thesis using F False by (intro pool_same [OF assms(1)]) (auto simp: of_bool_def)
  qed
qed

lemma set_removeSocket: "set xs - {j} \<subseteq> set (removeSocket xs j)" "set (removeSocket xs j) \<subseteq> set xs"
  "count_list (removeSocket xs j) k \<le> count_list xs k"
  by (induction xs) auto

lemma pool_abend:
  assumes "pool_inv s" and "follows s (AAbend j) next s' t" and "AbendSocket j s = (next, s')"
  shows "pool_inv t"
proof -
  note F = followsD [OF assms(2)] and I = pool_invD [OF assms(1)]
  have j: "j < length (p_socks s)" using go_known [OF assms(1) _ F(2)] by simp
  have dead: "k_dead (p_socks s ! j) \<noteq> None"
    using sock_okD(6) [OF I(2) [OF j]] F(2) [of "w_abend j"] by simp
  have T: "pending w t = pending w s - w (AAbend j)" "p_closed t = p_closed s" "p_socks t = p_socks s"
      "p_live t = (if p_closed s then p_live s else removeSocket (p_live s) j)"
      "p_unused t = (if p_closed s then p_unused s else removeSocket (p_unused s) j)"
      "p_held t = p_held s" "p_panic t = p_panic s" "p_stats t = p_stats s" for w
    using assms(3) F by (auto simp: AbendSocket_def split: if_splits)
  have le: "count_list (p_unused t) k \<le> count_list (p_unused s) k" for k
    unfolding T using set_removeSocket(3) by simp
  show ?thesis
  proof (rule pool_invI)
    show "sock_ok t k" if "k < length (p_socks t)" for k
    proof -
      have "sock_ok s k" using I(2) that T by simp
      note S = sock_okD [OF this]
      have i: "count_list (p_unused t) k + pending (w_idle k) t \<le> count_list (p_unused s) k + pending (w_idle k) s"
          "count_list (p_unused t) k + pending (w_clean k) t \<le> count_list (p_unused s) k + pending (w_clean k) s"
        using le [of k] by (simp_all add: T(1))
      show ?thesis
      proof (rule sock_okI)
        show "count_list (p_unused t) k + pending (w_idle k) t \<le> 1" using S(2) i(1) by linarith
        show "k_refs (p_socks t ! k) = 0" if "0 < count_list (p_unused t) k + pending (w_idle k) t"
          using S(3) i(1) that by (simp only: T(3))
        show "k_creds (p_socks t ! k) = []" if "0 < count_list (p_unused t) k + pending (w_clean k) t"
          using S(4) i(2) that by (simp only: T(3))
      qed (use S(1,6,7,8) dead set_removeSocket(1) [of "p_live s" j] in \<open>auto simp: T S(5)\<close>)
    qed
    show "k \<notin> set (p_live t) \<and> k \<notin> set (p_unused t) \<and> k \<notin># p_held t \<and> pending (w_any k) t = 0"
      if "length (p_socks t) \<le> k" for k
      using I(3) [of k] that set_removeSocket(2) by (auto simp: T)
  qed (use I in \<open>auto simp: T stats_ok_def\<close>)
qed

lemma pool_close:
  assumes "pool_inv s" and "follows s ACloseServer next s' t" and "server_Close s = (next, s')"
  shows "pool_inv t"
proof -
  note F = followsD [OF assms(2)] and I = pool_invD [OF assms(1)]
  have kills: "sum_list (map w (map (\<lambda>k. AKill k ''Closed explicitly'' False) xs)) = 0"
    if "\<And>k err abend. w (AKill k err abend) = 0" for w :: "action \<Rightarrow> nat" and xs using that by (induction xs) auto
  have any: "sum_list (map (w_kill k) (map (\<lambda>k. AKill k ''Closed explicitly'' False) xs)) = count_list xs k"
      "sum_list (map (w_any k) (map (\<lambda>k. AKill k ''Closed explicitly'' False) xs)) = count_list xs k" for k xs
    by (induction xs) auto
  have n: "next = map (\<lambda>k. AKill k ''Closed explicitly'' False) (p_live s)" using assms(3) by (simp add: server_Close_def)
  have T: "p_closed t" "p_socks t = p_socks s" "p_live t = []" "p_unused t = []" "p_held t = p_held s"
      "p_panic t = p_panic s" "p_stats t = p_stats s"
    using assms(3) F by (auto simp: server_Close_def)
  have P: "pending w t = pending w s" if "\<And>k err abend. w (AKill k err abend) = 0" "w ACloseServer = 0" for w
    using F(1) [of w] kills [of w "p_live s"] that unfolding n by simp
  have K: "pending (w_kill k) t = pending (w_kill k) s + count_list (p_live s) k"
      "pending (w_any k) t = pending (w_any k) s + count_list (p_live s) k" for k
    using F(1) [of "w_kill k"] F(1) [of "w_any k"] any unfolding n by simp_all
  show ?thesis
  proof (rule pool_invI)
    show "sock_ok t k" if "k < length (p_socks t)" for k
    proof -
      have "sock_ok s k" using I(2) that T by simp
      note S = sock_okD [OF this]
      show ?thesis using S(1,2,3,4,6,7,8)
        by (intro sock_okI) (auto simp: T P K S(5) count_list_0_iff simp flip: neq0_conv)
    qed
    show "k \<notin> set (p_live t) \<and> k \<notin> set (p_unused t) \<and> k \<notin># p_held t \<and> pending (w_any k) t = 0"
      if "length (p_socks t) \<le> k" for k
      using I(3) [of k] that by (auto simp: T K count_list_0_iff)
  qed (use I in \<open>auto simp: T stats_ok_def\<close>)
qed

lemma pool_go:
  assumes "pool_inv s" and "a # rest \<in># p_todo s" and "exec works a s = (next, s')"
  shows "pool_inv (proceed (a # rest) (next @ rest) s')"
proof -
  note f = proceed_follows [OF assms(2,3)]
  show ?thesis
    using assms(3) f pool_check [OF assms(1)] pool_initial [OF assms(1)] pool_connect [OF assms(1)]
      pool_put [OF assms(1)] pool_release [OF assms(1)] pool_logout [OF assms(1)] pool_recycle [OF assms(1)]
      pool_kill [OF assms(1)] pool_abend [OF assms(1)] pool_close [OF assms(1)]
    by (cases a; simp only: exec.simps; blast)
qed

lemma held_refs:
  assumes "pool_inv s" and "k \<in># p_held s"
  shows "k < length (p_socks s)" "0 < k_refs (p_socks s ! k)" "count_list (p_unused s) k = 0"
    "pending (w_idle k) s = 0" "pending (w_clean k) s = 0"
proof -
  note I = pool_invD [OF assms(1)]
  show k: "k < length (p_socks s)" using I(3) [of k] assms(2) by (meson not_le)
  note S = sock_okD [OF I(2) [OF k]]
  show r: "0 < k_refs (p_socks s ! k)" using S(1) assms(2) by simp
  show "count_list (p_unused s) k = 0" and i: "pending (w_idle k) s = 0" using S(3) r by fastforce+
  show "pending (w_clean k) s = 0" using pending_mono [where v = "w_clean k" and w = "w_idle k" and s = s] w_le_any(3) i by simp
qed

lemma pool_Acquire:
  assumes "pool_inv s" and "j \<in># p_held s"
  shows "pool_inv (socket_Acquire j s)"
proof -
  note I = pool_invD [OF assms(1)] and H = held_refs [OF assms]
  let ?x = "(p_socks s ! j)\<lparr>k_refs := k_refs (p_socks s ! j) + 1\<rparr>"
  obtain t where t: "t = socket_Acquire j s" by simp
  have T: "pending w t = pending w s" "p_closed t = p_closed s" "p_live t = p_live s"
      "p_socks t = (p_socks s)[j := ?x]" "p_held t = add_mset j (p_held s)" "p_panic t = p_panic s"
      "p_unused t = p_unused s" "p_stats t = p_stats (stats_add 0 0 1 s)" for w
    using H(2) by (simp_all add: t socket_Acquire_def stats_add_def pending_def upd_sock_def)
  have "pool_inv t"
  proof (rule pool_invI)
    show "sock_ok t k" if "k < length (p_socks t)" for k
    proof (cases "k = j")
      case True
      note S = sock_okD [OF I(2) [OF H(1)]]
      show ?thesis unfolding True using S(1,4,6,7,8) H by (intro sock_okI) (auto simp: T S(5))
    next
      case False
      then show ?thesis using that by (intro sock_frame [OF I(2)]) (simp_all add: T)
    qed
    show "stats_ok t"
      using I(5) H(1,2) by (simp add: stats_ok_def T stats_add_def length_filter_update sum_list_update_int del: map_update)
  qed (use I H(1) in \<open>auto simp: T\<close>)
  then show ?thesis by (simp add: t)
qed

lemma pool_Release:
  assumes "pool_inv s" and "j \<in># p_held s"
  shows "pool_inv (s\<lparr>p_held := p_held s - {#j#}, p_todo := add_mset [ARelease j] (p_todo s)\<rparr>)"
proof -
  note I = pool_invD [OF assms(1)] and H = held_refs [OF assms]
  obtain t where t: "t = s\<lparr>p_held := p_held s - {#j#}, p_todo := add_mset [ARelease j] (p_todo s)\<rparr>" by simp
  have T: "pending w t = pending w s + w (ARelease j)" "p_closed t = p_closed s" "p_live t = p_live s"
      "p_socks t = p_socks s" "p_held t = p_held s - {#j#}" "p_panic t = p_panic s"
      "p_unused t = p_unused s" "p_stats t = p_stats s" for w
    by (simp_all add: t pending_def)
  have c: "0 < count (p_held s) j" using assms(2) by simp
  have "pool_inv t"
  proof (rule pool_invI)
    show "sock_ok t k" if "k < length (p_socks t)" for k
    proof (cases "k = j")
      case True
      note S = sock_okD [OF I(2) [OF H(1)]]
      show ?thesis unfolding True using S(1,4,6,7,8) H c
        by (intro sock_okI) (auto simp: T S(5) simp del: count_greater_zero_iff)
    next
      case False
      then show ?thesis using that by (intro sock_frame [OF I(2)]) (simp_all add: T)
    qed
    show "k \<notin> set (p_live t) \<and> k \<notin> set (p_unused t) \<and> k \<notin># p_held t \<and> pending (w_any k) t = 0"
      if "length (p_socks t) \<le> k" for k
      using I(3) [of k] that H(1) by (auto simp: T dest: in_diffD)
  qed (use I in \<open>auto simp: T stats_ok_def\<close>)
  then show ?thesis by (simp add: t)
qed

lemma credential_step_same:
  "credential_step x y \<Longrightarrow> k_refs y = k_refs x \<and> k_dead y = k_dead x \<and> k_server y = k_server x"
  by (induction rule: credential_step.induct)
     (auto simp: login_cached_def login_accepted_def socket_Logout_def flushLogout_def split: prod.split bool.split option.split)

lemma pool_credentials:
  assumes "pool_inv s" and "j \<in># p_held s" and "credential_step (p_socks s ! j) y"
  shows "pool_inv (upd_sock j (\<lambda>_. y) s)"
proof -
  note I = pool_invD [OF assms(1)] and H = held_refs [OF assms(1,2)]
  note Y = credential_step_same [OF assms(3)]
  show ?thesis
  proof (rule pool_invI)
    show "sock_ok (upd_sock j (\<lambda>_. y) s) k" if "k < length (p_socks (upd_sock j (\<lambda>_. y) s))" for k
    proof (cases "k = j")
      case True
      note S = sock_okD [OF I(2) [OF H(1)]]
      show ?thesis unfolding True using S(1,6,7,8) H Y by (intro sock_okI) (auto simp: S(5))
    next
      case False
      then show ?thesis using that by (intro sock_frame [OF I(2)]) simp_all
    qed
    show "stats_ok (upd_sock j (\<lambda>_. y) s)"
      using I(5) H(1) Y by (simp add: stats_ok_def length_filter_update sum_list_update_int del: map_update)
  qed (use I in auto)
qed

lemma pool_start:
  assumes "pool_inv s" and "\<And>k. w_any k a \<noteq> 0 \<Longrightarrow> k < length (p_socks s)"
    and "\<And>k. w_ref k a = 0 \<and> w_idle k a = 0 \<and> w_abend k a = 0"
  shows "pool_inv (s\<lparr>p_todo := add_mset [a] (p_todo s)\<rparr>)"
proof -
  have z: "w_clean k a = 0" "w_put k a = 0" for k
    using assms(3) w_le_any(3,4) by (metis le_zero_eq)+
  have "w_any k a = 0" if "length (p_socks s) \<le> k" for k using assms(2) [of k] that by linarith
  then show ?thesis using assms(3) z by (intro pool_same [OF assms(1)]) simp_all
qed

lemma pool_step_inv: "pool_step s s' \<Longrightarrow> pool_inv s \<Longrightarrow> pool_inv s'"
proof (induction rule: pool_step.induct)
  case (step_go a rest s works "next" s')
  then show ?case using pool_go by blast
next
  case (step_kill k s err abend)
  then show ?case by (intro pool_start) (auto split: if_splits)
next
  case (step_AcquireSocket s limit)
  then show ?case by (intro pool_start) auto
next
  case (step_Close s)
  then show ?case by (intro pool_start) auto
qed (blast intro: pool_Acquire pool_Release pool_credentials)+

lemma pool_inv_new: "pool_inv new_pool"
  by (simp add: pool_inv_def new_pool_def stats_ok_def pending_def)

interpretation pl: invariant "\<lambda>s. s = new_pool" pool_step pool_inv
  by unfold_locales (use pool_inv_new pool_step_inv in auto)

lemma pool_reachable_inv: "rtranclp pool_step new_pool s \<Longrightarrow> pool_inv s"
  using pl.reachable_inv unfolding pl.reachable_def by blast

subsection \<open>What the pool promises\<close>

text \<open>
  C31: In any interleaving, no guard of the references panics, a socket has as many references as its
  callers and the goroutines working for them own, and it is in the cache, or on the way to or from
  it, at most once and only when it has none: two callers never get the same socket, and a socket
  comes out of the cache with nobody's credentials.
\<close>

theorem sockets_unshared:
  assumes "rtranclp pool_step new_pool s" and "k < length (p_socks s)"
  shows "p_panic s = None \<and>
    k_refs (p_socks s ! k) = count (p_held s) k + pending (w_ref k) s \<and>
    count_list (p_unused s) k + pending (w_idle k) s \<le> 1 \<and>
    (k \<in># p_held s \<longrightarrow> count_list (p_unused s) k + pending (w_idle k) s = 0) \<and>
    (k \<in> set (p_unused s) \<or> 0 < pending (w_clean k) s \<longrightarrow> k_creds (p_socks s ! k) = [])"
proof -
  have inv: "pool_inv s" by (rule pool_reachable_inv [OF assms(1)])
  note I = pool_invD [OF inv] and S = sock_okD [OF pool_invD(2) [OF inv assms(2)]]
  have "k \<in># p_held s \<longrightarrow> count_list (p_unused s) k + pending (w_idle k) s = 0" using held_refs [OF inv] by simp
  moreover have "k \<in> set (p_unused s) \<Longrightarrow> 0 < count_list (p_unused s) k"
    by (metis count_list_0_iff neq0_conv)
  ultimately show ?thesis using I(1) S(1,2,4) by auto
qed

text \<open>
  C32: When the server has been closed and every goroutine has done what it had to, no connection of
  the server is alive, whenever it was dialed, and the server has let go of all of them.
\<close>

theorem close_leaves_none:
  assumes "rtranclp pool_step new_pool s" and "p_closed s" and "\<forall>l \<in># p_todo s. l = []"
  shows "(\<forall>x \<in> set (p_socks s). k_dead x \<noteq> None) \<and> p_live s = [] \<and> p_unused s = [] \<and>
    st_SocketsAlive (p_stats s) = 0"
proof -
  have inv: "pool_inv s" by (rule pool_reachable_inv [OF assms(1)])
  have quiet: "pending w s = 0" for w using assms(3) by (auto simp: pending_def)
  have dead: "\<forall>x \<in> set (p_socks s). k_dead x \<noteq> None"
    using sock_okD(7) [OF pool_invD(2) [OF inv]] quiet assms(2) by (metis in_set_conv_nth less_irrefl)
  then have "filter (\<lambda>x. k_dead x = None) (p_socks s) = []" by (simp add: filter_empty_conv)
  then show ?thesis using dead pool_invD(4,5) [OF inv] assms(2) by (simp add: stats_ok_def)
qed

text \<open>
  The counters of the statistics are, at every moment, the number of sockets that are alive, the
  number of those that are referenced and the number of references.
\<close>

theorem stats_count:
  assumes "rtranclp pool_step new_pool s"
  shows "p_stats s = \<lparr>st_SocketsAlive = int (length (filter (\<lambda>x. k_dead x = None) (p_socks s))),
    st_SocketsInUse = int (length (filter (\<lambda>x. k_refs x > 0) (p_socks s))),
    st_SocketRefs = int (sum_list (map k_refs (p_socks s)))\<rparr>"
  using pool_invD(5) [OF pool_reachable_inv [OF assms]] by (simp add: stats_ok_def)

subsection \<open>A run\<close>

definition go :: "action list \<Rightarrow> pool \<Rightarrow> pool" where
  "go l s = (case exec True (hd l) s of (next, s') \<Rightarrow> proceed l (next @ tl l) s')"

lemma go_step: "a # rest \<in># p_todo s \<Longrightarrow> pool_step s (go (a # rest) s)"
  unfolding go_def by (auto intro: step_go split: prod.split)

text \<open>A caller has a socket; and then the server is closed.\<close>

definition held_pool :: pool where
  "held_pool = go [APut 0] (go [ADial] (go [ACheck 4096] (new_pool\<lparr>p_todo := {#[ACheck 4096]#}\<rparr>)))"

definition closed_pool :: pool where
  "closed_pool = go [AKill 0 ''Closed explicitly'' False] (go [ACloseServer]
     (held_pool\<lparr>p_todo := add_mset [ACloseServer] (p_todo held_pool)\<rparr>))"

lemmas run_defs = go_def new_pool_def acquire_check_def connect_def put_socket_def server_Close_def kill_socket_def
  stats_add_def upd_sock_def proceed_def

lemma held_pool_eq: "held_pool = \<lparr>p_closed = False, p_abended = False, p_unused = [], p_live = [0], p_sync = False,
     p_socks = [\<lparr>k_refs = 1, k_dead = None, k_server = True, k_creds = [], k_logout = []\<rparr>],
     p_stats = \<lparr>st_SocketsAlive = 1, st_SocketsInUse = 1, st_SocketRefs = 1\<rparr>,
     p_todo = {#[]#}, p_held = {#0#}, p_panic = None\<rparr>"
  by (simp add: held_pool_def run_defs)

lemma held_pool_reachable: "rtranclp pool_step new_pool held_pool"
proof -
  let ?s = "new_pool\<lparr>p_todo := {#[ACheck 4096]#}\<rparr>"
  have "pool_step new_pool ?s" using step_AcquireSocket [of new_pool 4096] by (simp add: new_pool_def)
  moreover have "pool_step ?s (go [ACheck 4096] ?s)" by (rule go_step) simp
  moreover have "pool_step (go [ACheck 4096] ?s) (go [ADial] (go [ACheck 4096] ?s))"
    by (rule go_step) (simp add: run_defs)
  moreover have "pool_step (go [ADial] (go [ACheck 4096] ?s)) held_pool"
    unfolding held_pool_def by (rule go_step) (simp add: run_defs)
  ultimately show ?thesis by (meson rtranclp.rtrancl_refl rtranclp.rtrancl_into_rtrancl)
qed

lemma closed_pool_reachable: "rtranclp pool_step new_pool closed_pool"
proof -
  let ?s = "held_pool\<lparr>p_todo := add_mset [ACloseServer] (p_todo held_pool)\<rparr>"
  have "pool_step held_pool ?s" by (rule step_Close)
  moreover have "pool_step ?s (go [ACloseServer] ?s)" by (rule go_step) simp
  moreover have "pool_step (go [ACloseServer] ?s) closed_pool"
    unfolding closed_pool_def by (rule go_step) (simp add: run_defs held_pool_eq)
  ultimately show ?thesis using held_pool_reachable by (meson rtranclp.rtrancl_into_rtrancl)
qed

theorem sockets_unshared_witness:
  "p_panic held_pool = None \<and> k_refs (p_socks held_pool ! 0) = 1 \<and> count_list (p_unused held_pool) 0 = 0"
  using sockets_unshared [OF held_pool_reachable, of 0] by (simp add: held_pool_eq pending_def)

theorem close_leaves_none_witness:
  "length (p_socks closed_pool) = 1 \<and> k_dead (hd (p_socks closed_pool)) \<noteq> None \<and> p_live closed_pool = []"
proof -
  have "p_closed closed_pool" "\<forall>l \<in># p_todo closed_pool. l = []" "length (p_socks closed_pool) = 1"
    by (simp_all add: closed_pool_def held_pool_eq run_defs)
  moreover from this(3) have "hd (p_socks closed_pool) \<in> set (p_socks closed_pool)"
    by (cases "p_socks closed_pool") simp_all
  ultimately show ?thesis using close_leaves_none [OF closed_pool_reachable] by blast
qed

theorem stats_count_witness: "st_SocketRefs (p_stats held_pool) = 1"
  using stats_count [OF held_pool_reachable] by (simp add: held_pool_eq)

end
