(* ===== verification/MgoServers.thy ===== *)
theory MgoServers
  imports Bson "HOL-Library.List_Lexorder" "HOL-Library.Char_ord"
begin

text \<open>
  The servers a cluster knows, \<open>mgo/server.go\<close>: what is kept of each, its tags and its ping value, the
  slice of servers sorted by address with its binary search, and the choice of the best server.
\<close>

subsection \<open>Servers\<close>

record server_info =
  si_Master :: bool
  si_Mongos :: bool
  si_Tags :: bdoc

definition defaultServerInfo :: server_info where
  "defaultServerInfo = \<lparr>si_Master = False, si_Mongos = False, si_Tags = []\<rparr>"

text \<open>
  The fields the choice reads. \<open>sv_ptr\<close> is the identity of the pointer, \<open>sv_live\<close> and \<open>sv_unused\<close> are
  the lengths of the slices of sockets; durations are numbers of nanoseconds.
\<close>

record mongo_server =
  sv_ptr :: nat
  sv_Addr :: string
  sv_ResolvedAddr :: string
  sv_live :: nat
  sv_unused :: nat
  sv_pingValue :: int
  sv_info :: server_info

subsection \<open>Tags\<close>

text \<open>
  Comparing two values of type \<open>interface\<close>: values of one dynamic type that has no equality panic.
  \<open>dynamic_slice\<close> numbers these types.
\<close>

fun dynamic_slice :: "bval \<Rightarrow> nat" where
  "dynamic_slice (BDoc d) = 1"
| "dynamic_slice (BArr vs) = 2"
| "dynamic_slice (BBin k b) = (if k = 0 \<or> k = 2 then 3 else 4)"
| "dynamic_slice (BScoped js scope) = 5"
| "dynamic_slice v = 0"

definition float_nan :: "64 word \<Rightarrow> bool" where
  "float_nan w \<longleftrightarrow> take_bit 52 w \<noteq> 0 \<and> drop_bit 52 w AND 2047 = 2047"

fun value_eq :: "bval \<Rightarrow> bval \<Rightarrow> bool outcome" where
  "value_eq (BFloat v) (BFloat w) =
     Returns (\<not> float_nan v \<and> \<not> float_nan w \<and> (v = w \<or> push_bit 1 v = 0 \<and> push_bit 1 w = 0))"
| "value_eq v w =
     (if dynamic_slice v \<noteq> 0 \<and> dynamic_slice v = dynamic_slice w
      then Panics ''comparing uncomparable type'' else Returns (v = w))"

fun has_req :: "bdoc \<Rightarrow> string \<Rightarrow> bval \<Rightarrow> bool outcome" where
  "has_req [] name v = Returns False"
| "has_req ((name', v') # own) name v =
     (if name = name' then value_eq v v' else has_req own name v)"

fun has_tag_set :: "bdoc \<Rightarrow> bdoc \<Rightarrow> bool outcome" where
  "has_tag_set own [] = Returns True"
| "has_tag_set own ((name, v) # reqs) =
     (case has_req own name v of
        Panics p \<Rightarrow> Panics p
      | Returns b \<Rightarrow> if b then has_tag_set own reqs else Returns False)"

fun hasTags :: "bdoc \<Rightarrow> bdoc list \<Rightarrow> bool outcome" where
  "hasTags own [] = Returns False"
| "hasTags own (tags # serverTags) =
     (case has_tag_set own tags of
        Panics p \<Rightarrow> Panics p
      | Returns b \<Rightarrow> if b then Returns True else hasTags own serverTags)"

subsection \<open>Pings\<close>

record pings =
  pg_window :: "int list"
  pg_index :: nat
  pg_count :: "32 word"
  pg_value :: int

definition new_pings :: pings where
  "new_pings = \<lparr>pg_window = replicate 6 0, pg_index = 0, pg_count = 0, pg_value = 0\<rparr>"

text \<open>One round of \<open>pinger\<close> that got a socket; the loop looks at the filled part of the window.\<close>

fun max_loop :: "int list \<Rightarrow> nat \<Rightarrow> 32 word \<Rightarrow> int \<Rightarrow> int" where
  "max_loop [] i n m = m"
| "max_loop (d # ds) i n m =
     (if word_of_nat i < n then max_loop ds (i + 1) n (if d > m then d else m) else m)"

definition ping :: "int \<Rightarrow> pings \<Rightarrow> pings" where
  "ping delay p =
     (let w = (pg_window p)[pg_index p := delay]; n = pg_count p + 1
      in \<lparr>pg_window = w, pg_index = (pg_index p + 1) mod length w, pg_count = n, pg_value = max_loop w 0 n 0\<rparr>)"

subsection \<open>The slice of servers\<close>

text \<open>\<open>sort.Search\<close>: the smallest index for which \<open>f\<close> holds, given that it holds from there on.\<close>

function sort_Search :: "(nat \<Rightarrow> bool) \<Rightarrow> nat \<Rightarrow> nat \<Rightarrow> nat" where
  "sort_Search f i j =
     (if i < j then
        (let h = i + (j - i) div 2 in if \<not> f h then sort_Search f (h + 1) j else sort_Search f i h)
      else i)"
  by auto
termination by (relation "measure (\<lambda>(f, i, j). j - i)") (auto simp: Let_def)

declare sort_Search.simps [simp del]

definition slice_Search :: "mongo_server list \<Rightarrow> string \<Rightarrow> nat \<times> bool" where
  "slice_Search s addr =
     (let n = length s; i = sort_Search (\<lambda>i. sv_ResolvedAddr (s ! i) \<ge> addr) 0 n
      in (i, i \<noteq> n \<and> sv_ResolvedAddr (s ! i) = addr))"

definition servers_Search :: "mongo_server list \<Rightarrow> string \<Rightarrow> mongo_server option" where
  "servers_Search s addr = (case slice_Search s addr of (i, ok) \<Rightarrow> if ok then Some (s ! i) else None)"

definition servers_Add :: "mongo_server list \<Rightarrow> mongo_server \<Rightarrow> mongo_server list" where
  "servers_Add s server = sort_key sv_ResolvedAddr (s @ [server])"

definition servers_Remove :: "mongo_server list \<Rightarrow> mongo_server \<Rightarrow> mongo_server option \<times> mongo_server list" where
  "servers_Remove s other =
     (case slice_Search s (sv_ResolvedAddr other) of (i, found) \<Rightarrow>
        if found then (Some (s ! i), take i s @ drop (i + 1) s) else (None, s))"

subsection \<open>The best server\<close>

definition absDuration :: "int \<Rightarrow> int" where
  "absDuration d = (if d < 0 then - d else d)"

definition no_tags :: "bdoc list option \<Rightarrow> mongo_server \<Rightarrow> bool outcome" where
  "no_tags serverTags s =
     (case serverTags of
        None \<Rightarrow> Returns False
      | Some tags \<Rightarrow>
          if si_Mongos (sv_info s) then Returns False
          else case hasTags (si_Tags (sv_info s)) tags of
              Panics p \<Rightarrow> Panics p
            | Returns b \<Rightarrow> Returns (\<not> b))"

definition fit_step :: "bdoc list option \<Rightarrow> mongo_server option \<Rightarrow> mongo_server \<Rightarrow> mongo_server option outcome" where
  "fit_step serverTags best new =
     (case no_tags serverTags new of
        Panics p \<Rightarrow> Panics p
      | Returns lacks \<Rightarrow> Returns
          (case best of
             None \<Rightarrow> if lacks then None else Some new
           | Some b \<Rightarrow>
               let swap =
                 (if lacks then False
                  else if si_Master (sv_info new) \<noteq> si_Master (sv_info b) then si_Master (sv_info b)
                  else if absDuration (sv_pingValue new - sv_pingValue b) > 15000000 then
                    sv_pingValue new < sv_pingValue b
                  else int (sv_live new) - int (sv_unused new) < int (sv_live b) - int (sv_unused b))
               in if swap then Some new else Some b))"

fun fit_loop :: "bdoc list option \<Rightarrow> mongo_server option \<Rightarrow> mongo_server list \<Rightarrow> mongo_server option outcome" where
  "fit_loop serverTags best [] = Returns best"
| "fit_loop serverTags best (new # s) =
     (case fit_step serverTags best new of Panics p \<Rightarrow> Panics p | Returns b \<Rightarrow> fit_loop serverTags b s)"

definition BestFit :: "bdoc list option \<Rightarrow> mongo_server list \<Rightarrow> mongo_server option outcome" where
  "BestFit serverTags s = fit_loop serverTags None s"

subsection \<open>Finding servers by address\<close>

text \<open>What the cluster relies on: a table of values under their keys.\<close>

locale registry =
  fixes empty :: 'm
    and find :: "'m \<Rightarrow> 'k \<Rightarrow> 'v option"
    and add :: "'m \<Rightarrow> 'v \<Rightarrow> 'm"
    and remove :: "'m \<Rightarrow> 'v \<Rightarrow> 'v option \<times> 'm"
    and key :: "'v \<Rightarrow> 'k"
    and ok :: "'m \<Rightarrow> bool"
  assumes ok_empty: "ok empty" and find_empty: "find empty k = None"
    and ok_add: "ok m \<Longrightarrow> find m (key v) = None \<Longrightarrow> ok (add m v)"
    and find_add: "ok m \<Longrightarrow> find m (key v) = None \<Longrightarrow> find (add m v) = (find m)(key v \<mapsto> v)"
    and ok_remove: "ok m \<Longrightarrow> ok (snd (remove m v))"
    and find_remove: "ok m \<Longrightarrow> find (snd (remove m v)) = (find m)(key v := None)"
    and removed: "ok m \<Longrightarrow> fst (remove m v) = find m (key v)"
    and find_key: "ok m \<Longrightarrow> find m k = Some v \<Longrightarrow> key v = k"
begin

lemma find_all:
  "ok m \<Longrightarrow> distinct (map key vs) \<Longrightarrow> \<forall>v \<in> set vs. find m (key v) = None \<Longrightarrow>
     ok (foldl add m vs) \<and> find (foldl add m vs) = find m ++ map_of (map (\<lambda>v. (key v, v)) vs)"
proof (induction vs arbitrary: m)
  case (Cons v vs)
  have "ok (add m v)" using Cons.prems by (intro ok_add) auto
  moreover have f: "find (add m v) = (find m)(key v \<mapsto> v)" using Cons.prems by (intro find_add) auto
  ultimately have "ok (foldl add (add m v) vs) \<and>
      find (foldl add (add m v) vs) = find (add m v) ++ map_of (map (\<lambda>v. (key v, v)) vs)"
    using Cons.prems by (intro Cons.IH) (fastforce simp: f image_iff)+
  moreover have "key v \<notin> dom (map_of (map (\<lambda>v. (key v, v)) vs))"
    using Cons.prems(2) by (auto simp: dom_map_of_conv_image_fst image_image)
  ultimately show ?case by (auto simp: f map_add_def fun_eq_iff split: option.split)
qed simp

lemma remove_absent: "ok m \<Longrightarrow> find m (key v) = None \<Longrightarrow> find (snd (remove m v)) = find m"
  by (simp add: find_remove fun_upd_idem)

end

lemma sort_Search_ok:
  assumes "i \<le> j" and "\<And>a b. i \<le> a \<Longrightarrow> a \<le> b \<Longrightarrow> b < j \<Longrightarrow> f a \<Longrightarrow> f b"
  shows "i \<le> sort_Search f i j \<and> sort_Search f i j \<le> j \<and> (\<forall>x. i \<le> x \<and> x < sort_Search f i j \<longrightarrow> \<not> f x) \<and>
    (\<forall>x. sort_Search f i j \<le> x \<and> x < j \<longrightarrow> f x)"
  using assms
proof (induction f i j rule: sort_Search.induct)
  case (1 f i j)
  show ?case
  proof (cases "i < j")
    case True
    define h where "h = i + (j - i) div 2"
    have h: "i \<le> h" "h < j" using True by (auto simp: h_def)
    show ?thesis
    proof (cases "f h")
      case fh: True
      have "f x" if "h \<le> x" "x < j" for x using "1.prems"(2) [of h x] h that fh by blast
      moreover have "i \<le> sort_Search f i h \<and> sort_Search f i h \<le> h \<and> (\<forall>x. i \<le> x \<and> x < sort_Search f i h \<longrightarrow> \<not> f x) \<and>
          (\<forall>x. sort_Search f i h \<le> x \<and> x < h \<longrightarrow> f x)"
        using True h fh by (intro "1.IH"(2)) (auto simp: h_def intro: "1.prems"(2))
      moreover have "sort_Search f i j = sort_Search f i h"
        using True fh by (subst sort_Search.simps) (simp add: h_def Let_def)
      ultimately show ?thesis using h by (smt (verit) le_trans less_imp_le not_le)
    next
      case fh: False
      have "\<not> f x" if "i \<le> x" "x \<le> h" for x using "1.prems"(2) [of x h] h that fh by blast
      moreover have "h + 1 \<le> sort_Search f (h + 1) j \<and> sort_Search f (h + 1) j \<le> j \<and>
          (\<forall>x. h + 1 \<le> x \<and> x < sort_Search f (h + 1) j \<longrightarrow> \<not> f x) \<and> (\<forall>x. sort_Search f (h + 1) j \<le> x \<and> x < j \<longrightarrow> f x)"
      proof (intro "1.IH"(1))
        show "f b" if "h + 1 \<le> a" "a \<le> b" "b < j" "f a" for a b using "1.prems"(2) [of a b] that h by simp
      qed (use True h fh in \<open>auto simp: h_def\<close>)
      moreover have "sort_Search f i j = sort_Search f (h + 1) j"
        using True fh by (subst sort_Search.simps) (simp add: h_def Let_def)
      ultimately show ?thesis using h by (metis Suc_eq_plus1 le_SucI le_trans not_less_eq_eq)
    qed
  qed (use "1.prems" in \<open>auto simp: sort_Search.simps\<close>)
qed

abbreviation addrs :: "mongo_server list \<Rightarrow> string list" where
  "addrs s \<equiv> map sv_ResolvedAddr s"

definition slice_ok :: "mongo_server list \<Rightarrow> bool" where
  "slice_ok s \<longleftrightarrow> sorted_wrt (<) (addrs s)"

definition by_addr :: "mongo_server list \<Rightarrow> string \<Rightarrow> mongo_server option" where
  "by_addr s = map_of (map (\<lambda>v. (sv_ResolvedAddr v, v)) s)"

lemma slice_ok_iff: "slice_ok s \<longleftrightarrow> sorted (addrs s) \<and> distinct (addrs s)"
  by (simp add: slice_ok_def strict_sorted_iff)

lemma slice_Search_ok:
  assumes "slice_ok s"
  shows "case slice_Search s addr of (i, found) \<Rightarrow>
    (found \<longrightarrow> i < length s \<and> by_addr s addr = Some (s ! i) \<and> sv_ResolvedAddr (s ! i) = addr) \<and>
    (\<not> found \<longrightarrow> by_addr s addr = None)"
proof -
  let ?f = "\<lambda>i. sv_ResolvedAddr (s ! i) \<ge> addr"
  let ?i = "sort_Search ?f 0 (length s)"
  have so: "sorted (addrs s)" "distinct (addrs s)" using assms by (simp_all add: slice_ok_iff)
  have "?f b" if "a \<le> b" "b < length s" "?f a" for a b
    using sorted_nth_mono [OF so(1), of a b] that by simp
  then have S: "?i \<le> length s" "\<forall>x < ?i. \<not> ?f x" "\<forall>x. ?i \<le> x \<and> x < length s \<longrightarrow> ?f x"
    using sort_Search_ok [of 0 "length s" ?f] by blast+
  show ?thesis
  proof (cases "?i \<noteq> length s \<and> sv_ResolvedAddr (s ! ?i) = addr")
    case True
    then have "?i < length s" using S(1) by simp
    then have "by_addr s addr = Some (s ! ?i)" using True so(2) unfolding by_addr_def
      by (intro map_of_is_SomeI) (auto simp: comp_def intro!: image_eqI [where x = "s ! ?i"])
    then show ?thesis using True \<open>?i < length s\<close> by (simp add: slice_Search_def Let_def)
  next
    case False
    have "addr \<notin> sv_ResolvedAddr ` set s"
    proof
      assume "addr \<in> sv_ResolvedAddr ` set s"
      then obtain x where x: "x < length s" "sv_ResolvedAddr (s ! x) = addr" by (auto simp: in_set_conv_nth)
      then have "?i \<le> x" using S(2) by (meson leI order_refl)
      then have i: "?i < length s" using x by simp
      then have "?f ?i" using S(3) by simp
      moreover have "sv_ResolvedAddr (s ! ?i) \<le> addr"
        using sorted_nth_mono [OF so(1) \<open>?i \<le> x\<close>] x i by simp
      ultimately show False using False i by simp
    qed
    then have "by_addr s addr = None" by (auto simp: by_addr_def map_of_eq_None_iff image_image)
    then show ?thesis using False by (simp add: slice_Search_def Let_def)
  qed
qed

lemma servers_Search_eq: "slice_ok s \<Longrightarrow> servers_Search s = by_addr s"
  using slice_Search_ok [of s] by (fastforce simp: servers_Search_def split: prod.splits)

lemma by_addr_Some: "by_addr s addr = Some v \<Longrightarrow> v \<in> set s \<and> sv_ResolvedAddr v = addr"
  unfolding by_addr_def by (auto dest!: map_of_SomeD)

lemma by_addr_None: "by_addr s addr = None \<longleftrightarrow> addr \<notin> sv_ResolvedAddr ` set s"
  by (auto simp: by_addr_def map_of_eq_None_iff image_image)

lemma by_addr_eqI:
  assumes "distinct (addrs s)" and "\<And>v. v \<in> set s \<Longrightarrow> m (sv_ResolvedAddr v) = Some v"
    and "\<And>addr. addr \<notin> sv_ResolvedAddr ` set s \<Longrightarrow> m addr = None"
  shows "by_addr s = m"
proof
  fix addr
  show "by_addr s addr = m addr"
    using assms(2,3) by (cases "by_addr s addr") (auto simp: by_addr_None dest: by_addr_Some)
qed

lemma slice_member:
  assumes "slice_ok s" and "v \<in> set s"
  shows "by_addr s (sv_ResolvedAddr v) = Some v"
  using assms unfolding by_addr_def slice_ok_iff by (intro map_of_is_SomeI) (auto simp: comp_def)

lemma slice_Add:
  assumes "slice_ok s" and "by_addr s (sv_ResolvedAddr v) = None"
  shows "slice_ok (servers_Add s v)" "by_addr (servers_Add s v) = (by_addr s)(sv_ResolvedAddr v \<mapsto> v)"
proof -
  let ?t = "servers_Add s v"
  have set: "set ?t = insert v (set s)" by (simp add: servers_Add_def)
  have new: "sv_ResolvedAddr v \<notin> sv_ResolvedAddr ` set s" using assms(2) by (simp add: by_addr_None)
  have "distinct (addrs (s @ [v]))" using assms(1) new by (simp add: slice_ok_iff)
  then have "distinct (addrs ?t)" by (simp add: servers_Add_def distinct_map inj_on_def image_iff) metis
  moreover have "sorted (addrs ?t)" by (simp add: servers_Add_def)
  ultimately show "slice_ok ?t" by (simp add: slice_ok_iff)
  show "by_addr ?t = (by_addr s)(sv_ResolvedAddr v \<mapsto> v)"
    using \<open>distinct (addrs ?t)\<close> slice_member [OF assms(1)] new
    by (intro by_addr_eqI) (auto simp: set by_addr_None, metis imageI)
qed

lemma slice_Remove:
  assumes "slice_ok s"
  shows "slice_ok (snd (servers_Remove s v))" "fst (servers_Remove s v) = by_addr s (sv_ResolvedAddr v)"
    "by_addr (snd (servers_Remove s v)) = (by_addr s)(sv_ResolvedAddr v := None)"
proof -
  obtain i found where S: "slice_Search s (sv_ResolvedAddr v) = (i, found)" by fastforce
  have "slice_ok (snd (servers_Remove s v)) \<and> fst (servers_Remove s v) = by_addr s (sv_ResolvedAddr v) \<and>
    by_addr (snd (servers_Remove s v)) = (by_addr s)(sv_ResolvedAddr v := None)"
  proof (cases found)
    case True
    then have i: "i < length s" "by_addr s (sv_ResolvedAddr v) = Some (s ! i)" "sv_ResolvedAddr (s ! i) = sv_ResolvedAddr v"
      using slice_Search_ok [OF assms, of "sv_ResolvedAddr v"] S by auto
    let ?t = "take i s @ drop (i + 1) s"
    have split: "s = take i s @ s ! i # drop (i + 1) s" using i(1) by (simp add: id_take_nth_drop)
    have d: "distinct (addrs (take i s @ s ! i # drop (i + 1) s))" and so: "sorted (addrs (take i s @ s ! i # drop (i + 1) s))"
      using assms split by (metis slice_ok_iff)+
    have ok: "slice_ok ?t" using d so by (auto simp: slice_ok_iff sorted_append)
    have set: "set s = insert (s ! i) (set ?t)" by (subst split) auto
    have no: "sv_ResolvedAddr v \<notin> sv_ResolvedAddr ` set ?t" using d i(3) by (auto simp: image_Un)
    have "by_addr ?t = (by_addr s)(sv_ResolvedAddr v := None)"
    proof (rule by_addr_eqI)
      show "distinct (addrs ?t)" using ok by (simp add: slice_ok_iff)
      show "((by_addr s)(sv_ResolvedAddr v := None)) (sv_ResolvedAddr w) = Some w" if "w \<in> set ?t" for w
      proof -
        have "sv_ResolvedAddr w \<noteq> sv_ResolvedAddr v" using that no by (metis imageI)
        moreover have "w \<in> set s" using that unfolding set by (rule insertI2)
        ultimately show ?thesis using slice_member [OF assms] by simp
      qed
      show "((by_addr s)(sv_ResolvedAddr v := None)) addr = None" if "addr \<notin> sv_ResolvedAddr ` set ?t" for addr
        using that i(3) by (cases "addr = sv_ResolvedAddr v") (simp_all add: by_addr_None set del: set_append)
    qed
    then show ?thesis using True S ok i(2) by (simp add: servers_Remove_def)
  next
    case False
    then have "by_addr s (sv_ResolvedAddr v) = None"
      using slice_Search_ok [OF assms, of "sv_ResolvedAddr v"] S by auto
    then show ?thesis using False S assms by (auto simp: servers_Remove_def fun_eq_iff)
  qed
  then show "slice_ok (snd (servers_Remove s v))" "fst (servers_Remove s v) = by_addr s (sv_ResolvedAddr v)"
    "by_addr (snd (servers_Remove s v)) = (by_addr s)(sv_ResolvedAddr v := None)" by blast+
qed

interpretation reg: registry "[]" servers_Search servers_Add servers_Remove sv_ResolvedAddr slice_ok
proof unfold_locales
  show "slice_ok []" by (simp add: slice_ok_def)
  then show "servers_Search [] k = None" for k by (simp add: servers_Search_eq by_addr_def)
  show "slice_ok (servers_Add m v)" if "slice_ok m" "servers_Search m (sv_ResolvedAddr v) = None" for m v
    using slice_Add(1) that by (simp add: servers_Search_eq)
  show "servers_Search (servers_Add m v) = (servers_Search m)(sv_ResolvedAddr v \<mapsto> v)"
    if "slice_ok m" "servers_Search m (sv_ResolvedAddr v) = None" for m v
    using slice_Add that by (simp add: servers_Search_eq)
  show "slice_ok (snd (servers_Remove m v))" if "slice_ok m" for m v using slice_Remove(1) that by simp
  show "servers_Search (snd (servers_Remove m v)) = (servers_Search m)(sv_ResolvedAddr v := None)" if "slice_ok m" for m v
    using slice_Remove(1,3) that by (simp add: servers_Search_eq)
  show "fst (servers_Remove m v) = servers_Search m (sv_ResolvedAddr v)" if "slice_ok m" for m v
    using slice_Remove(2) that by (simp add: servers_Search_eq)
  show "sv_ResolvedAddr v = k" if "slice_ok m" "servers_Search m k = Some v" for m k v
    using that by_addr_Some by (auto simp: servers_Search_eq)
qed

text \<open>
  C33: The sorted slice with its binary search is a table of servers by their address: looking up
  after adding a new server and after removing one gives what it should, and removing gives the
  server that was there.
\<close>

theorem servers_table:
  assumes "slice_ok s" and "servers_Search s (sv_ResolvedAddr v) = None"
  shows "slice_ok (servers_Add s v) \<and> servers_Search (servers_Add s v) = (servers_Search s)(sv_ResolvedAddr v \<mapsto> v) \<and>
    (case servers_Remove s w of (r, s') \<Rightarrow>
       slice_ok s' \<and> r = servers_Search s (sv_ResolvedAddr w) \<and>
       servers_Search s' = (servers_Search s)(sv_ResolvedAddr w := None))"
  using reg.ok_add [OF assms] reg.find_add [OF assms] reg.ok_remove [OF assms(1)] reg.find_remove [OF assms(1)]
    reg.removed [OF assms(1)] by (simp add: case_prod_beta)

definition sample_server :: "string \<Rightarrow> bool \<Rightarrow> mongo_server" where
  "sample_server addr master = \<lparr>sv_ptr = 0, sv_Addr = addr, sv_ResolvedAddr = addr, sv_live = 1, sv_unused = 1,
     sv_pingValue = 3, sv_info = \<lparr>si_Master = master, si_Mongos = False, si_Tags = [(''dc'', BStr ''x'')]\<rparr>\<rparr>"

definition sample_servers :: "mongo_server list" where
  "sample_servers = [sample_server ''a'' True, sample_server ''c'' False]"

theorem servers_table_witness:
  "servers_Search (servers_Add sample_servers (sample_server ''b'' False)) ''b'' = Some (sample_server ''b'' False)"
proof -
  have ok: "slice_ok sample_servers"
    by (simp add: slice_ok_def sample_servers_def sample_server_def less_char_def)
  moreover have "servers_Search sample_servers (sv_ResolvedAddr (sample_server ''b'' False)) = None"
    by (simp add: servers_Search_eq [OF ok]) (simp add: by_addr_def sample_servers_def sample_server_def)
  ultimately show ?thesis
    using servers_table [of sample_servers "sample_server ''b'' False"] by (simp add: sample_server_def)
qed

subsection \<open>The ping value\<close>

lemma max_loop_eq:
  "i + length ds \<le> 6 \<Longrightarrow> max_loop ds i n m = Max (insert m (set (take (unat n - i) ds)))"
proof (induction ds arbitrary: i m)
  case (Cons d ds)
  have lt: "(word_of_nat i :: 32 word) < n \<longleftrightarrow> i < unat n"
    using Cons.prems by (simp add: word_less_nat_alt unat_of_nat take_bit_eq_mod)
  show ?case
  proof (cases "i < unat n")
    case True
    then have "take (unat n - i) (d # ds) = d # take (unat n - (i + 1)) ds"
      by (metis Suc_diff_Suc Suc_eq_plus1 take_Suc_Cons)
    moreover have "Max (insert (if d > m then d else m) A) = Max (insert m (insert d A))" if "finite A" for A
      using that by (cases "A = {}") (auto simp: max_def)
    ultimately show ?thesis using True Cons.IH [of "i + 1"] Cons.prems lt by simp
  next
    case False
    then show ?thesis using lt by simp
  qed
qed simp

definition pings_ok :: "int list \<Rightarrow> pings \<Rightarrow> bool" where
  "pings_ok ds p \<longleftrightarrow> length (pg_window p) = 6 \<and> pg_index p = length ds mod 6 \<and> pg_count p = word_of_nat (length ds) \<and>
     (\<forall>k < length ds. length ds \<le> k + 6 \<longrightarrow> pg_window p ! (k mod 6) = ds ! k)"

lemma pings_ok_ping: "pings_ok ds p \<Longrightarrow> pings_ok (ds @ [d]) (ping d p)"
proof -
  assume p: "pings_ok ds p"
  let ?n = "length ds"
  have "(pg_window p)[?n mod 6 := d] ! (k mod 6) = (ds @ [d]) ! k" if "k < Suc ?n" "Suc ?n \<le> k + 6" for k
  proof (cases "k = ?n")
    case False
    then have "k \<le> ?n" "\<not> 6 dvd ?n - k" using that by (auto dest!: dvd_imp_le)
    then have "?n mod 6 \<noteq> k mod 6" by (simp add: mod_eq_dvd_iff_nat)
    then show ?thesis using p False that by (simp add: pings_ok_def nth_append)
  qed (use p in \<open>simp add: pings_ok_def\<close>)
  moreover have "pg_window (ping d p) = (pg_window p)[?n mod 6 := d]" "pg_index (ping d p) = Suc ?n mod 6"
      "pg_count (ping d p) = word_of_nat (Suc ?n)"
    using p by (simp_all add: pings_ok_def ping_def Let_def mod_Suc_eq)
  ultimately show ?thesis using p unfolding pings_ok_def by simp
qed

lemma in_set_drop: "x \<in> set (drop j xs) \<longleftrightarrow> (\<exists>k \<ge> j. k < length xs \<and> x = xs ! k)"
proof
  assume "x \<in> set (drop j xs)"
  then obtain i where "i < length xs - j" "x = xs ! (j + i)" by (auto simp: in_set_conv_nth)
  then show "\<exists>k \<ge> j. k < length xs \<and> x = xs ! k" by (intro exI [of _ "j + i"]) auto
next
  assume "\<exists>k \<ge> j. k < length xs \<and> x = xs ! k"
  then obtain k where "j \<le> k" "k < length xs" "x = xs ! k" by blast
  then show "x \<in> set (drop j xs)" by (auto simp: in_set_conv_nth intro!: exI [of _ "k - j"])
qed

lemma window_set:
  assumes "pings_ok ds p"
  shows "set (take (length ds) (pg_window p)) = set (drop (length ds - 6) ds)"
proof -
  let ?n = "length ds" and ?w = "pg_window p"
  have w: "length ?w = 6" and e: "\<And>k. k < ?n \<Longrightarrow> ?n \<le> k + 6 \<Longrightarrow> ?w ! (k mod 6) = ds ! k"
    using assms by (auto simp: pings_ok_def)
  have "x \<in> set (drop (?n - 6) ds)" if x: "x \<in> set (take ?n ?w)" for x
  proof -
    obtain i where i: "i < ?n" "i < 6" "x = ?w ! i" using x w by (auto simp: in_set_conv_nth)
    define m where "m = ?n - 1 - i"
    define k where "k = i + 6 * (m div 6)"
    have m: "?n = Suc (i + m)" using i(1) by (simp add: m_def)
    have k: "k < ?n" "?n \<le> k + 6" "k mod 6 = i" using i(2) unfolding k_def m by auto
    then have "x = ds ! k" using e i(3) by blast
    moreover have "?n - 6 \<le> k" using k(2) by simp
    ultimately show ?thesis using k(1) by (force simp: in_set_drop)
  qed
  moreover have "x \<in> set (take ?n ?w)" if x: "x \<in> set (drop (?n - 6) ds)" for x
  proof -
    obtain k where k: "?n - 6 \<le> k" "k < ?n" "x = ds ! k" using x by (auto simp: in_set_drop)
    then have "x = ?w ! (k mod 6)" using e [of k] by simp
    moreover have "k mod 6 < ?n" using k(2) by (meson mod_less_eq_dividend order_le_less_trans)
    ultimately show ?thesis using w by (force simp: in_set_conv_nth)
  qed
  ultimately show ?thesis by blast
qed

text \<open>
  The ping value of a server is the longest of its last six pings, up to the wrap of the count.
\<close>

theorem ping_value:
  assumes "ds \<noteq> []" and "length ds < 2 ^ 32" and "\<forall>d \<in> set ds. 0 \<le> d"
  shows "pg_value (foldl (\<lambda>p d. ping d p) new_pings ds) = Max (set (drop (length ds - 6) ds))"
proof -
  have ok: "pings_ok xs (foldl (\<lambda>p d. ping d p) new_pings xs)" for xs
  proof (induction xs rule: rev_induct)
    case Nil
    show ?case by (simp add: pings_ok_def new_pings_def)
  qed (simp add: pings_ok_ping)
  obtain xs d where ds: "ds = xs @ [d]" using assms(1) by (metis rev_exhaust)
  let ?p = "foldl (\<lambda>p d. ping d p) new_pings ds"
  let ?S = "set (drop (length ds - 6) ds)"
  have v: "pg_value ?p = max_loop (pg_window ?p) 0 (pg_count ?p) 0" by (simp add: ds ping_def Let_def)
  have "unat (pg_count ?p) = length ds" "length (pg_window ?p) = 6"
    using ok [of ds] assms(2) by (simp_all add: pings_ok_def unat_of_nat take_bit_eq_mod)
  then have "pg_value ?p = Max (insert 0 ?S)" using v max_loop_eq [of 0 "pg_window ?p"] window_set [OF ok [of ds]] by simp
  moreover have ne: "?S \<noteq> {}" using assms(1) by (cases ds) auto
  moreover have "\<forall>x \<in> ?S. 0 \<le> x" using assms(3) by (meson in_set_dropD)
  then have "0 \<le> Max ?S" using ne by (meson List.finite_set Max_in)
  ultimately show ?thesis by simp
qed

theorem ping_value_witness: "pg_value (foldl (\<lambda>p d. ping d p) new_pings [9, 1, 2, 3, 4, 5, 6]) = 6"
  using ping_value [of "[9, 1, 2, 3, 4, 5, 6]"] by simp

subsection \<open>The choice\<close>

definition in_use :: "mongo_server \<Rightarrow> int" where
  "in_use v = int (sv_live v) - int (sv_unused v)"

definition eligible :: "bdoc list option \<Rightarrow> mongo_server \<Rightarrow> bool" where
  "eligible tags v \<longleftrightarrow> no_tags tags v = Returns False"

definition near :: "mongo_server \<Rightarrow> mongo_server \<Rightarrow> bool" where
  "near v w \<longleftrightarrow> \<bar>sv_pingValue v - sv_pingValue w\<bar> \<le> 15000000"

text \<open>What the loop knows of the servers it has seen.\<close>

definition best_of :: "bdoc list option \<Rightarrow> mongo_server list \<Rightarrow> mongo_server option \<Rightarrow> bool" where
  "best_of tags seen best \<longleftrightarrow>
     (case best of
        None \<Rightarrow> \<forall>v \<in> set seen. \<not> eligible tags v
      | Some b \<Rightarrow> b \<in> set seen \<and> eligible tags b \<and>
          (si_Master (sv_info b) \<longrightarrow> (\<forall>v \<in> set seen. eligible tags v \<longrightarrow> si_Master (sv_info v))) \<and>
          ((\<forall>v \<in> set seen. \<forall>w \<in> set seen. near v w) \<longrightarrow>
             (\<forall>v \<in> set seen. eligible tags v \<and> si_Master (sv_info v) = si_Master (sv_info b) \<longrightarrow> in_use b \<le> in_use v)))"

lemma best_of_SomeI:
  assumes "b \<in> set seen" and "eligible tags b"
    and "\<And>v. v \<in> set seen \<Longrightarrow> eligible tags v \<Longrightarrow> si_Master (sv_info b) \<Longrightarrow> si_Master (sv_info v)"
    and "\<And>v. \<lbrakk>\<forall>v \<in> set seen. \<forall>w \<in> set seen. near v w; v \<in> set seen; eligible tags v;
      si_Master (sv_info v) = si_Master (sv_info b)\<rbrakk> \<Longrightarrow> in_use b \<le> in_use v"
  shows "best_of tags seen (Some b)"
  using assms unfolding best_of_def by simp

lemma absDuration_eq: "absDuration d = \<bar>d\<bar>"
  by (simp add: absDuration_def)

lemma best_of_step:
  assumes "best_of tags seen best" and "fit_step tags best new = Returns best'"
  shows "best_of tags (seen @ [new]) best'"
proof -
  obtain lacks where l: "no_tags tags new = Returns lacks" using assms(2) by (auto simp: fit_step_def split: outcome.splits)
  have e: "eligible tags new \<longleftrightarrow> \<not> lacks" by (simp add: eligible_def l)
  show ?thesis
  proof (cases best)
    case None
    then have "best' = (if lacks then None else Some new)" using assms(2) l by (simp add: fit_step_def)
    then show ?thesis using assms(1) None e by (auto simp: best_of_def near_def)
  next
    case (Some b)
    have "fit_step tags (Some b) new = Returns (if \<not> lacks \<and> (if si_Master (sv_info new) \<noteq> si_Master (sv_info b) then si_Master (sv_info b)
        else if \<not> near new b then sv_pingValue new < sv_pingValue b else in_use new < in_use b) then Some new else Some b)"
      by (simp add: fit_step_def l near_def absDuration_eq in_use_def Let_def not_le)
    then have B: "best' = (if \<not> lacks \<and> (if si_Master (sv_info new) \<noteq> si_Master (sv_info b) then si_Master (sv_info b)
        else if \<not> near new b then sv_pingValue new < sv_pingValue b else in_use new < in_use b) then Some new else Some b)"
      using assms(2) Some by simp
    have S: "b \<in> set seen" "eligible tags b"
        "si_Master (sv_info b) \<Longrightarrow> v \<in> set seen \<Longrightarrow> eligible tags v \<Longrightarrow> si_Master (sv_info v)"
        "\<lbrakk>\<forall>v \<in> set seen. \<forall>w \<in> set seen. near v w; v \<in> set seen; eligible tags v;
          si_Master (sv_info v) = si_Master (sv_info b)\<rbrakk> \<Longrightarrow> in_use b \<le> in_use v" for v
      using assms(1) unfolding Some best_of_def by auto
    show ?thesis
    proof (cases "best' = Some new \<and> best' \<noteq> Some b")
      case True
      then have n: "eligible tags new" "si_Master (sv_info new) \<Longrightarrow> si_Master (sv_info b)"
          "si_Master (sv_info new) \<noteq> si_Master (sv_info b) \<Longrightarrow> si_Master (sv_info b)"
          "si_Master (sv_info new) = si_Master (sv_info b) \<Longrightarrow> near new b \<Longrightarrow> in_use new \<le> in_use b"
        using B e True by (simp_all split: if_splits)
      have "in_use new \<le> in_use v"
        if "\<forall>v \<in> set (seen @ [new]). \<forall>w \<in> set (seen @ [new]). near v w" "v \<in> set seen" "eligible tags v"
          "si_Master (sv_info v) = si_Master (sv_info new)" for v
      proof (cases "si_Master (sv_info new) = si_Master (sv_info b)")
        case True
        then have "in_use new \<le> in_use b" "in_use b \<le> in_use v" using n(4) S(1) S(4) [of v] that by simp_all
        then show ?thesis by simp
      next
        case False
        then have "si_Master (sv_info b)" "\<not> si_Master (sv_info new)" using n(3) by auto
        then show ?thesis using S(3) [of v] that(2-4) by simp
      qed
      note use = this
      have "best_of tags (seen @ [new]) (Some new)"
      proof (rule best_of_SomeI)
        show "si_Master (sv_info v)"
          if "v \<in> set (seen @ [new])" "eligible tags v" "si_Master (sv_info new)" for v
          using that n(2) S(3) [of v] by auto
        show "in_use new \<le> in_use v"
          if "\<forall>v \<in> set (seen @ [new]). \<forall>w \<in> set (seen @ [new]). near v w" "v \<in> set (seen @ [new])"
            "eligible tags v" "si_Master (sv_info v) = si_Master (sv_info new)" for v
          using use [OF that(1) _ that(3,4)] that(2) by auto
      qed (use n(1) in simp_all)
      then show ?thesis using True by simp
    next
      case False
      then have b: "best' = Some b" using B by (auto split: if_splits)
      have n: "si_Master (sv_info new)" if "eligible tags new" "si_Master (sv_info b)"
        using that B b e by (auto split: if_splits)
      have m: "in_use b \<le> in_use new" if "eligible tags new" "si_Master (sv_info new) = si_Master (sv_info b)" "near new b"
        using that B b e by (auto split: if_splits)
      show ?thesis
        unfolding b
      proof (rule best_of_SomeI)
        show "si_Master (sv_info v)"
          if "v \<in> set (seen @ [new])" "eligible tags v" "si_Master (sv_info b)" for v
          using that n S(3) [of v] by auto
        show "in_use b \<le> in_use v"
          if "\<forall>v \<in> set (seen @ [new]). \<forall>w \<in> set (seen @ [new]). near v w" "v \<in> set (seen @ [new])"
            "eligible tags v" "si_Master (sv_info v) = si_Master (sv_info b)" for v
          using that m S(1) S(4) [of v] by auto
      qed (use S(1,2) in simp_all)
    qed
  qed
qed

lemma best_of_loop:
  "best_of tags seen best \<Longrightarrow> fit_loop tags best s = Returns r \<Longrightarrow> best_of tags (seen @ s) r"
proof (induction s arbitrary: seen best)
  case (Cons new s)
  then obtain b where b: "fit_step tags best new = Returns b" "fit_loop tags b s = Returns r" by (auto split: outcome.splits)
  show ?case using Cons.IH [OF best_of_step [OF Cons.prems(1) b(1)] b(2)] by simp
qed simp

definition text_tags :: "bdoc list option \<Rightarrow> bool" where
  "text_tags tags \<longleftrightarrow> (\<forall>ts. tags = Some ts \<longrightarrow> (\<forall>d \<in> set ts. \<forall>(n, v) \<in> set d. \<exists>t. v = BStr t))"

lemma has_req_returns: "has_req own n (BStr t) \<noteq> Panics p"
  by (induction own n "BStr t" rule: has_req.induct) auto

lemma has_tag_set_returns: "\<forall>(n, v) \<in> set d. \<exists>t. v = BStr t \<Longrightarrow> has_tag_set own d \<noteq> Panics p"
  by (induction own d rule: has_tag_set.induct) (auto simp: has_req_returns split: outcome.splits)

lemma hasTags_returns: "\<forall>d \<in> set ts. \<forall>(n, v) \<in> set d. \<exists>t. v = BStr t \<Longrightarrow> hasTags own ts \<noteq> Panics p"
  by (induction own ts rule: hasTags.induct) (simp_all add: has_tag_set_returns split: outcome.splits)

lemma fit_loop_returns: "text_tags tags \<Longrightarrow> \<exists>r. fit_loop tags best s = Returns r"
proof (induction s arbitrary: best)
  case (Cons new s)
  have "no_tags tags new \<noteq> Panics p" for p
    using Cons.prems hasTags_returns by (auto simp: no_tags_def text_tags_def split: option.split outcome.split)
  then obtain b where "fit_step tags best new = Returns b"
    by (cases "no_tags tags new") (auto simp: fit_step_def)
  then show ?case using Cons by simp
qed simp

text \<open>
  C34: For tags that are texts the choice never panics; it takes a server that has the tags if there is
  one, a slave if one has them, and when all servers are equally near the least used of its kind.
\<close>

theorem best_fit:
  assumes "text_tags tags"
  shows "\<exists>r. BestFit tags s = Returns r \<and> (r = None \<longleftrightarrow> (\<forall>v \<in> set s. \<not> eligible tags v)) \<and>
    (\<forall>b. r = Some b \<longrightarrow> b \<in> set s \<and> eligible tags b \<and>
       (si_Master (sv_info b) \<longrightarrow> (\<forall>v \<in> set s. eligible tags v \<longrightarrow> si_Master (sv_info v))) \<and>
       ((\<forall>v \<in> set s. \<forall>w \<in> set s. near v w) \<longrightarrow>
          (\<forall>v \<in> set s. eligible tags v \<and> si_Master (sv_info v) = si_Master (sv_info b) \<longrightarrow> in_use b \<le> in_use v)))"
proof -
  obtain r where r: "fit_loop tags None s = Returns r" using fit_loop_returns [OF assms] by blast
  then have "best_of tags ([] @ s) r" by (rule best_of_loop [rotated]) (simp add: best_of_def)
  then show ?thesis using r unfolding BestFit_def best_of_def by (cases r) auto
qed

theorem best_fit_witness:
  "\<exists>b. BestFit (Some [[(''dc'', BStr ''x'')]]) sample_servers = Returns (Some b) \<and> \<not> si_Master (sv_info b)"
proof -
  let ?t = "Some [[(''dc'', BStr ''x'')]]"
  have "text_tags ?t" by (simp add: text_tags_def)
  then obtain r where r: "BestFit ?t sample_servers = Returns r" "r = None \<longleftrightarrow> (\<forall>v \<in> set sample_servers. \<not> eligible ?t v)"
      "\<forall>b. r = Some b \<longrightarrow> si_Master (sv_info b) \<longrightarrow> (\<forall>v \<in> set sample_servers. eligible ?t v \<longrightarrow> si_Master (sv_info v))"
    using best_fit [of ?t sample_servers] by blast
  have "eligible ?t (sample_server ''c'' False)" by (simp add: eligible_def no_tags_def sample_server_def)
  then show ?thesis using r by (cases r) (auto simp: sample_servers_def sample_server_def)
qed

end
