(* ===== verification/MgoCluster.thy ===== *)
theory MgoCluster
  imports MgoServers Transition "HOL-Library.Multiset"
begin

text \<open>
  The cluster, \<open>mgo/cluster.go\<close>: the servers it knows and which of them are masters, the synchronization
  of its topology, in which goroutines ask all servers for their peers, and the way to a socket. The
  answers of the servers, the resolver and the pools are arguments. The records in the two slices
  stand for the objects they point to, so setting the info of a server sets it in both.
\<close>

subsection \<open>State\<close>

record cluster =
  cl_userSeeds :: "string list"
  cl_dynaSeeds :: "string list"
  cl_servers :: "mongo_server list"
  cl_masters :: "mongo_server list"
  cl_references :: nat
  cl_direct :: bool
  cl_failFast :: bool
  cl_syncCount :: "64 word"
  cl_cachedIndex :: "(string \<Rightarrow> bool option) option"
  cl_sync :: bool
  cl_closed :: "nat list"
  cl_fresh :: nat
  cl_panic :: "string option"

definition newCluster :: "string list \<Rightarrow> bool \<Rightarrow> bool \<Rightarrow> cluster" where
  "newCluster userSeeds direct failFast =
     \<lparr>cl_userSeeds = userSeeds, cl_dynaSeeds = [], cl_servers = [], cl_masters = [], cl_references = 1,
      cl_direct = direct, cl_failFast = failFast, cl_syncCount = 0, cl_cachedIndex = None, cl_sync = False,
      cl_closed = [], cl_fresh = 0, cl_panic = None\<rparr>"

subsection \<open>References\<close>

definition cluster_Acquire :: "cluster \<Rightarrow> cluster" where
  "cluster_Acquire c = c\<lparr>cl_references := cl_references c + 1\<rparr>"

definition cluster_syncServers :: "cluster \<Rightarrow> cluster" where
  "cluster_syncServers c = c\<lparr>cl_sync := True\<rparr>"

definition close_server :: "mongo_server \<Rightarrow> cluster \<Rightarrow> cluster" where
  "close_server v c = c\<lparr>cl_closed := sv_ptr v # cl_closed c\<rparr>"

definition cluster_Release :: "cluster \<Rightarrow> cluster" where
  "cluster_Release c =
     (if cl_references c = 0 then c\<lparr>cl_panic := Some ''cluster.Release() with references == 0''\<rparr>
      else
        (let c1 = c\<lparr>cl_references := cl_references c - 1\<rparr> in
         if cl_references c1 = 0 then cluster_syncServers (fold close_server (cl_servers c1) c1) else c1))"

definition LiveServers :: "cluster \<Rightarrow> string list" where
  "LiveServers c = map sv_Addr (cl_servers c)"

subsection \<open>Servers\<close>

definition removeServer :: "mongo_server \<Rightarrow> cluster \<Rightarrow> cluster" where
  "removeServer v c =
     (case servers_Remove (cl_servers c) v of (other, s) \<Rightarrow>
        (let c1 = c\<lparr>cl_masters := snd (servers_Remove (cl_masters c) v), cl_servers := s\<rparr>;
             c2 = (case other of None \<Rightarrow> c1 | Some w \<Rightarrow> close_server w c1)
         in close_server v c2))"

definition set_info :: "nat \<Rightarrow> server_info \<Rightarrow> mongo_server list \<Rightarrow> mongo_server list" where
  "set_info p info s = map (\<lambda>v. if sv_ptr v = p then v\<lparr>sv_info := info\<rparr> else v) s"

definition SetInfo :: "mongo_server \<Rightarrow> server_info \<Rightarrow> cluster \<Rightarrow> cluster" where
  "SetInfo v info c = c\<lparr>cl_servers := set_info (sv_ptr v) info (cl_servers c),
     cl_masters := set_info (sv_ptr v) info (cl_masters c)\<rparr>"

definition addServer :: "mongo_server \<Rightarrow> server_info \<Rightarrow> bool \<Rightarrow> cluster \<Rightarrow> cluster" where
  "addServer v info completeSync c =
     (case servers_Search (cl_servers c) (sv_ResolvedAddr v) of
        None \<Rightarrow>
          if \<not> completeSync then close_server v c
          else SetInfo v info (c\<lparr>cl_servers := servers_Add (cl_servers c) v,
            cl_masters := (if si_Master info then servers_Add (cl_masters c) v else cl_masters c)\<rparr>)
      | Some current \<Rightarrow>
          if sv_ptr v \<noteq> sv_ptr current then
            c\<lparr>cl_panic := Some ''addServer attempting to add duplicated server''\<rparr>
          else SetInfo v info (c\<lparr>cl_masters :=
            (if si_Master (sv_info current) \<noteq> si_Master info then
               (if si_Master info then servers_Add (cl_masters c) current
                else snd (servers_Remove (cl_masters c) v))
             else cl_masters c)\<rparr>))"

definition known_add :: "string list \<Rightarrow> string \<Rightarrow> string list" where
  "known_add known addr = (if addr \<in> set known then known else known @ [addr])"

definition getKnownAddrs :: "cluster \<Rightarrow> string list" where
  "getKnownAddrs c = foldl known_add [] (cl_userSeeds c @ cl_dynaSeeds c @ map sv_Addr (cl_servers c))"

text \<open>\<open>cluster.server\<close>, and the part of \<open>newServer\<close> that makes the object.\<close>

definition cluster_server :: "string \<Rightarrow> string \<Rightarrow> cluster \<Rightarrow> mongo_server \<times> cluster" where
  "cluster_server addr resolved c =
     (case servers_Search (cl_servers c) resolved of
        Some v \<Rightarrow> (v, c)
      | None \<Rightarrow>
          (\<lparr>sv_ptr = cl_fresh c, sv_Addr = addr, sv_ResolvedAddr = resolved, sv_live = 0, sv_unused = 0,
            sv_pingValue = 0, sv_info = defaultServerInfo\<rparr>, c\<lparr>cl_fresh := cl_fresh c + 1\<rparr>))"

subsection \<open>Asking a server\<close>

record is_master_result =
  im_IsMaster :: bool
  im_Secondary :: bool
  im_Primary :: string
  im_Hosts :: "string list"
  im_Passives :: "string list"
  im_Tags :: bdoc
  im_Msg :: string

text \<open>
  \<open>syncServer\<close>: a try is a socket and the answer to \<open>ismaster\<close> or the error of one of them. The retries
  start at zero.
\<close>

function sync_try :: "bool \<Rightarrow> (nat \<Rightarrow> gerror + is_master_result) \<Rightarrow> nat \<Rightarrow> gerror \<Rightarrow> gerror + is_master_result" where
  "sync_try failFast attempt retry tryerr =
     (if retry \<ge> 3 \<or> retry = 1 \<and> failFast then Inl tryerr
      else case attempt retry of
          Inl e \<Rightarrow> sync_try failFast attempt (retry + 1) e
        | Inr r \<Rightarrow> Inr r)"
  by auto
termination by (relation "measure (\<lambda>(failFast, attempt, retry, tryerr). 3 - retry)") auto

declare sync_try.simps [simp del]

definition syncServer ::
  "bool \<Rightarrow> bool \<Rightarrow> (nat \<Rightarrow> gerror + is_master_result) \<Rightarrow> string \<Rightarrow> gerror + (server_info \<times> string list)"
where
  "syncServer direct failFast attempt addr =
     (case sync_try failFast attempt 0 '''' of
        Inl e \<Rightarrow> Inl e
      | Inr r \<Rightarrow>
          if im_IsMaster r \<or> im_Secondary r \<or> direct then
            Inr (\<lparr>si_Master = im_IsMaster r, si_Mongos = (im_Msg r = ''isdbgrid''), si_Tags = im_Tags r\<rparr>,
              (if im_Primary r \<noteq> '''' then [im_Primary r] else []) @ im_Hosts r @ im_Passives r)
          else Inl (addr @ '' is not a master nor slave''))"

subsection \<open>Synchronizing\<close>

text \<open>
  A goroutine of \<open>spawnSync\<close>: before the address is resolved, before \<open>cluster.server\<close>, asking, removing
  a server that failed, deciding about one that answered, and adding it. \<open>GAdd\<close> knows the hosts it has to
  go on with, unless it adds what another goroutine has left pending.
\<close>

datatype goroutine =
    GStart string bool
  | GServer string string
  | GSync mongo_server
  | GRemove mongo_server
  | GDecide mongo_server server_info "string list"
  | GAdd mongo_server server_info "string list option"

record sync_state =
  y_cluster :: cluster
  y_notYetAdded :: "string \<Rightarrow> (mongo_server \<times> server_info) option"
  y_addIfFound :: "string set"
  y_seen :: "string set"
  y_complete :: bool
  y_goroutines :: "goroutine multiset"

definition spawn :: "bool \<Rightarrow> server_info \<Rightarrow> string list \<Rightarrow> goroutine list" where
  "spawn direct info hosts = (if direct then [] else map (\<lambda>h. GStart h (si_Master info)) hosts)"

fun run_goroutine ::
  "(string \<Rightarrow> gerror + string) \<Rightarrow> (string \<Rightarrow> nat \<Rightarrow> gerror + is_master_result) \<Rightarrow> goroutine \<Rightarrow> sync_state \<Rightarrow>
   goroutine list \<times> sync_state"
where
  "run_goroutine resolve attempt (GStart addr byMaster) s =
     (case resolve addr of
        Inl e \<Rightarrow> ([], s)
      | Inr r \<Rightarrow>
          (case (if byMaster then y_notYetAdded s r else None) of
             Some (v, info) \<Rightarrow> ([GAdd v info None], s\<lparr>y_notYetAdded := (y_notYetAdded s)(r := None)\<rparr>)
           | None \<Rightarrow>
               (let s1 = (if byMaster then s\<lparr>y_addIfFound := insert r (y_addIfFound s)\<rparr> else s) in
                if r \<in> y_seen s then ([], s1)
                else ([GServer addr r], s1\<lparr>y_seen := insert r (y_seen s)\<rparr>))))"
| "run_goroutine resolve attempt (GServer addr r) s =
     (case cluster_server addr r (y_cluster s) of (v, c) \<Rightarrow> ([GSync v], s\<lparr>y_cluster := c\<rparr>))"
| "run_goroutine resolve attempt (GSync v) s =
     (case syncServer (cl_direct (y_cluster s)) (cl_failFast (y_cluster s)) (attempt (sv_ResolvedAddr v)) (sv_Addr v) of
        Inl e \<Rightarrow> ([GRemove v], s)
      | Inr (info, hosts) \<Rightarrow> ([GDecide v info hosts], s))"
| "run_goroutine resolve attempt (GRemove v) s = ([], s\<lparr>y_cluster := removeServer v (y_cluster s)\<rparr>)"
| "run_goroutine resolve attempt (GDecide v info hosts) s =
     (if cl_direct (y_cluster s) \<or> si_Master info \<or> sv_ResolvedAddr v \<in> y_addIfFound s
      then ([GAdd v info (Some hosts)], s\<lparr>y_complete := True\<rparr>)
      else (spawn (cl_direct (y_cluster s)) info hosts,
        s\<lparr>y_notYetAdded := (y_notYetAdded s)(sv_ResolvedAddr v \<mapsto> (v, info))\<rparr>))"
| "run_goroutine resolve attempt (GAdd v info hosts) s =
     ((case hosts of None \<Rightarrow> [] | Some hs \<Rightarrow> spawn (cl_direct (y_cluster s)) info hs),
      s\<lparr>y_cluster := addServer v info True (y_cluster s)\<rparr>)"

definition sync_start :: "cluster \<Rightarrow> sync_state" where
  "sync_start c = \<lparr>y_cluster = c, y_notYetAdded = (\<lambda>r. None), y_addIfFound = {}, y_seen = {}, y_complete = False,
     y_goroutines = mset (map (\<lambda>addr. GStart addr False) (getKnownAddrs c))\<rparr>"

inductive sync_step ::
  "(string \<Rightarrow> gerror + string) \<Rightarrow> (string \<Rightarrow> nat \<Rightarrow> gerror + is_master_result) \<Rightarrow> sync_state \<Rightarrow> sync_state \<Rightarrow> bool"
  for resolve attempt
where
  "g \<in># y_goroutines s \<Longrightarrow> run_goroutine resolve attempt g s = (next, s') \<Longrightarrow>
     sync_step resolve attempt s (s'\<lparr>y_goroutines := y_goroutines s - {#g#} + mset next\<rparr>)"

text \<open>
  What follows when all have ended; \<open>ks\<close> are the addresses left in \<open>notYetAdded\<close>, in the order in which
  the map gives them.
\<close>

definition settle :: "sync_state \<Rightarrow> string \<Rightarrow> cluster \<Rightarrow> cluster" where
  "settle s r c =
     (case y_notYetAdded s r of
        None \<Rightarrow> c
      | Some (v, info) \<Rightarrow> if y_complete s then removeServer v c else addServer v info False c)"

definition sync_finish :: "sync_state \<Rightarrow> string list \<Rightarrow> cluster" where
  "sync_finish s ks =
     (let c = fold (settle s) ks (y_cluster s)
      in if y_complete s then c\<lparr>cl_dynaSeeds := map sv_Addr (cl_servers c)\<rparr> else c)"

subsection \<open>Servers and masters\<close>

definition cluster_ok :: "cluster \<Rightarrow> bool" where
  "cluster_ok c \<longleftrightarrow> slice_ok (cl_servers c) \<and>
     cl_masters c = filter (\<lambda>v. si_Master (sv_info v)) (cl_servers c) \<and>
     (\<forall>v \<in> set (cl_servers c). sv_ptr v < cl_fresh c) \<and> inj_on sv_ptr (set (cl_servers c))"

abbreviation found :: "cluster \<Rightarrow> string \<Rightarrow> mongo_server option" where
  "found c \<equiv> by_addr (cl_servers c)"

lemma slice_eqI: "slice_ok s \<Longrightarrow> slice_ok t \<Longrightarrow> set s = set t \<Longrightarrow> s = t"
  unfolding slice_ok_iff
  by (rule map_sorted_distinct_set_unique [of sv_ResolvedAddr]) (auto simp: distinct_map)

lemma slice_ok_filter: "slice_ok s \<Longrightarrow> slice_ok (filter P s)"
  by (simp add: slice_ok_iff sorted_filter distinct_map_filter)

lemma found_iff: "slice_ok s \<Longrightarrow> by_addr s r = Some v \<longleftrightarrow> v \<in> set s \<and> sv_ResolvedAddr v = r"
  using by_addr_Some slice_member by blast

lemma slice_Remove_eq:
  assumes "slice_ok s"
  shows "snd (servers_Remove s v) = filter (\<lambda>w. sv_ResolvedAddr w \<noteq> sv_ResolvedAddr v) s"
proof (rule slice_eqI)
  note R = slice_Remove [OF assms, of v]
  have "w \<in> set (snd (servers_Remove s v)) \<longleftrightarrow> w \<in> set s \<and> sv_ResolvedAddr w \<noteq> sv_ResolvedAddr v" for w
    using found_iff [OF R(1), of "sv_ResolvedAddr w" w] found_iff [OF assms, of "sv_ResolvedAddr w" w] R(3)
    by (auto split: if_splits)
  then show "set (snd (servers_Remove s v)) = set (filter (\<lambda>w. sv_ResolvedAddr w \<noteq> sv_ResolvedAddr v) s)" by auto
qed (use slice_Remove(1) [OF assms] slice_ok_filter [OF assms] in auto)

lemma set_Add [simp]: "set (servers_Add s v) = insert v (set s)"
  by (simp add: servers_Add_def)

lemma addrs_set_info [simp]: "addrs (set_info p info s) = addrs s"
  by (simp add: set_info_def comp_def if_distrib cong: if_cong)

lemma slice_ok_set_info [simp]: "slice_ok (set_info p info s) = slice_ok s"
  by (simp add: slice_ok_def del: map_map)

lemma removeServer_ok:
  assumes "cluster_ok c"
  shows "cluster_ok (removeServer v c)" "found (removeServer v c) = (found c)(sv_ResolvedAddr v := None)"
    "cl_fresh (removeServer v c) = cl_fresh c" "cl_direct (removeServer v c) = cl_direct c"
    "cl_failFast (removeServer v c) = cl_failFast c" "cl_panic (removeServer v c) = cl_panic c"
    "set (cl_servers (removeServer v c)) \<subseteq> set (cl_servers c)"
proof -
  have s: "slice_ok (cl_servers c)" and m: "slice_ok (cl_masters c)"
    using assms slice_ok_filter by (auto simp: cluster_ok_def)
  let ?c = "removeServer v c"
  have S: "cl_servers ?c = snd (servers_Remove (cl_servers c) v)" "cl_masters ?c = snd (servers_Remove (cl_masters c) v)"
    and same: "cl_fresh ?c = cl_fresh c" "cl_direct ?c = cl_direct c" "cl_failFast ?c = cl_failFast c"
      "cl_panic ?c = cl_panic c"
    by (simp_all add: removeServer_def close_server_def Let_def split: prod.split option.split)
  have "cl_masters ?c = filter (\<lambda>v. si_Master (sv_info v)) (cl_servers ?c)"
    unfolding S slice_Remove_eq [OF s] slice_Remove_eq [OF m] using assms by (simp add: cluster_ok_def conj_commute)
  then show "cluster_ok ?c"
    using assms slice_Remove(1) [OF s, of v] slice_Remove_eq [OF s, of v]
    by (auto simp: cluster_ok_def S same intro: inj_on_subset)
  show "found ?c = (found c)(sv_ResolvedAddr v := None)" using slice_Remove(3) [OF s] by (simp add: S)
  show "set (cl_servers ?c) \<subseteq> set (cl_servers c)" using slice_Remove_eq [OF s, of v] by (auto simp: S)
qed (simp_all add: removeServer_def close_server_def Let_def split: prod.split option.split)

text \<open>A server that may be added: it is the one known under its address, if there is one.\<close>

definition addable :: "mongo_server \<Rightarrow> cluster \<Rightarrow> bool" where
  "addable v c \<longleftrightarrow> sv_ptr v < cl_fresh c \<and>
     (\<forall>w \<in> set (cl_servers c). sv_ptr w = sv_ptr v \<longleftrightarrow> sv_ResolvedAddr w = sv_ResolvedAddr v)"

lemma set_info_set:
  "set (set_info p info s) = {w \<in> set s. sv_ptr w \<noteq> p} \<union> (\<lambda>w. w\<lparr>sv_info := info\<rparr>) ` {w \<in> set s. sv_ptr w = p}"
  by (auto simp: set_info_def)

lemma addServer_ok:
  assumes "cluster_ok c" and "addable v c"
    and "full \<or> found c (sv_ResolvedAddr v) \<noteq> None"
  shows "cluster_ok (addServer v info full c)"
    and "\<exists>w. found (addServer v info full c) = (found c)(sv_ResolvedAddr v \<mapsto> w) \<and> sv_info w = info \<and> sv_ptr w = sv_ptr v"
    and "cl_fresh (addServer v info full c) = cl_fresh c" "cl_direct (addServer v info full c) = cl_direct c"
      "cl_failFast (addServer v info full c) = cl_failFast c" "cl_panic (addServer v info full c) = cl_panic c"
proof -
  have s: "slice_ok (cl_servers c)" and m: "slice_ok (cl_masters c)"
    using assms slice_ok_filter by (auto simp: cluster_ok_def)
  let ?c = "addServer v info full c" and ?p = "sv_ptr v" and ?r = "sv_ResolvedAddr v"
  have masters: "set (cl_masters c) = {w \<in> set (cl_servers c). si_Master (sv_info w)}"
    using assms(1) by (auto simp: cluster_ok_def)
  have inj: "inj_on sv_ptr (set (cl_servers c))" using assms(1) by (simp add: cluster_ok_def)
  have same: "sv_ptr w = ?p \<longleftrightarrow> sv_ResolvedAddr w = ?r" if "w \<in> set (cl_servers c)" for w
    using assms(2) that by (simp add: addable_def)
  have "cluster_ok ?c \<and>
    (\<exists>w. found ?c = (found c)(?r \<mapsto> w) \<and> sv_info w = info \<and> sv_ptr w = ?p) \<and> cl_panic ?c = cl_panic c"
  proof (cases "found c ?r")
    case None
    then have no: "\<And>w. w \<in> set (cl_servers c) \<Longrightarrow> sv_ptr w \<noteq> ?p"
      using same by (metis by_addr_None imageI)
    have nm: "by_addr (cl_masters c) ?r = None" using None masters by (auto simp: by_addr_None)
    let ?v = "v\<lparr>sv_info := info\<rparr>"
    have S: "cl_servers ?c = set_info ?p info (servers_Add (cl_servers c) v)"
      "cl_masters ?c = set_info ?p info (if si_Master info then servers_Add (cl_masters c) v else cl_masters c)"
      and rest: "cl_panic ?c = cl_panic c" "cl_fresh ?c = cl_fresh c"
      using None assms(3) s by (auto simp: addServer_def servers_Search_eq SetInfo_def)
    have ss: "set (cl_servers ?c) = insert ?v (set (cl_servers c))"
      using no by (auto simp: S set_info_set)
    have sm: "set (cl_masters ?c) = {w \<in> set (cl_servers ?c). si_Master (sv_info w)}"
      using no masters unfolding ss by (auto simp: S set_info_set)
    have ok: "slice_ok (cl_servers ?c)" "slice_ok (cl_masters ?c)"
      using slice_Add(1) [OF s None] slice_Add(1) [OF m nm] m by (simp_all add: S)
    have "cl_masters ?c = filter (\<lambda>v. si_Master (sv_info v)) (cl_servers ?c)"
      using ok slice_ok_filter sm by (intro slice_eqI) auto
    moreover have "inj_on sv_ptr (set (cl_servers ?c))" using inj no unfolding ss
      by (simp add: inj_on_insert image_iff) (metis DiffD1)
    moreover have "\<forall>w \<in> set (cl_servers ?c). sv_ptr w < cl_fresh ?c"
      using assms(1,2) unfolding ss rest by (auto simp: cluster_ok_def addable_def)
    moreover have "found ?c = (found c)(?r \<mapsto> ?v)"
      using ok(1) None slice_member [OF s]
      by (intro by_addr_eqI) (auto simp: ss slice_ok_iff by_addr_None, metis imageI)
    ultimately show ?thesis using ok(1) rest by (auto simp: cluster_ok_def)
  next
    case (Some cur)
    then have cur: "cur \<in> set (cl_servers c)" "sv_ResolvedAddr cur = ?r" "sv_ptr cur = ?p"
      using found_iff [OF s] same by auto
    have uniq: "w = cur" if "w \<in> set (cl_servers c)" "sv_ptr w = ?p" for w
      using inj cur that by (auto simp: inj_on_def)
    let ?v = "cur\<lparr>sv_info := info\<rparr>"
    have S: "cl_servers ?c = set_info ?p info (cl_servers c)"
      "cl_masters ?c = set_info ?p info
        (if si_Master (sv_info cur) \<noteq> si_Master info then
           (if si_Master info then servers_Add (cl_masters c) cur else snd (servers_Remove (cl_masters c) v))
         else cl_masters c)"
      and rest: "cl_panic ?c = cl_panic c" "cl_fresh ?c = cl_fresh c"
      using Some cur s by (auto simp: addServer_def servers_Search_eq SetInfo_def)
    have ss: "set (cl_servers ?c) = insert ?v (set (cl_servers c) - {cur})"
    proof -
      have "{w \<in> set (cl_servers c). sv_ptr w \<noteq> ?p} = set (cl_servers c) - {cur}"
        "{w \<in> set (cl_servers c). sv_ptr w = ?p} = {cur}"
        using cur(1,3) uniq by blast+
      then show ?thesis unfolding S(1) set_info_set by simp
    qed
    define M where "M = (if si_Master (sv_info cur) \<noteq> si_Master info then
        (if si_Master info then servers_Add (cl_masters c) cur else snd (servers_Remove (cl_masters c) v))
      else cl_masters c)"
    have "{w \<in> set (cl_masters c). sv_ResolvedAddr w \<noteq> ?r} = set (cl_masters c) - {cur}"
      using masters same uniq cur by blast
    then have M: "set M = (if si_Master info then insert cur (set (cl_masters c)) else set (cl_masters c) - {cur})"
      using masters cur(1) by (auto simp: M_def slice_Remove_eq [OF m])
    have pm: "sv_ptr w = ?p \<longleftrightarrow> w = cur" if "w \<in> insert cur (set (cl_masters c))" for w
      using that cur(1,3) uniq masters by blast
    have "{w \<in> set M. sv_ptr w \<noteq> ?p} = set (cl_masters c) - {cur}"
      using pm unfolding M by (cases "si_Master info") auto
    moreover have "{w \<in> set M. sv_ptr w = ?p} = (if si_Master info then {cur} else {})"
      using pm unfolding M by (cases "si_Master info") auto
    ultimately have sM: "set (set_info ?p info M) = (set (cl_masters c) - {cur}) \<union> (if si_Master info then {?v} else {})"
      by (simp add: set_info_set)
    have gen: "(set (cl_masters c) - {cur}) \<union> (if si_Master info then {x} else {}) =
        {w \<in> insert x (set (cl_servers c) - {cur}). si_Master (sv_info w)}"
      if "si_Master (sv_info x) = si_Master info" for x
      unfolding masters using that by auto
    have sm: "set (cl_masters ?c) = {w \<in> set (cl_servers ?c). si_Master (sv_info w)}"
    proof -
      have "set (cl_masters ?c) = set (set_info ?p info M)" unfolding M_def S(2) ..
      also note sM
      also have "(set (cl_masters c) - {cur}) \<union> (if si_Master info then {?v} else {}) =
          {w \<in> insert ?v (set (cl_servers c) - {cur}). si_Master (sv_info w)}"
        by (rule gen) simp
      finally show ?thesis unfolding ss .
    qed
    have nm: "\<not> si_Master (sv_info cur) \<Longrightarrow> by_addr (cl_masters c) (sv_ResolvedAddr cur) = None"
    proof (rule ccontr)
      assume n: "\<not> si_Master (sv_info cur)" "by_addr (cl_masters c) (sv_ResolvedAddr cur) \<noteq> None"
      then obtain w where w: "w \<in> set (cl_masters c)" "sv_ResolvedAddr w = ?r"
        unfolding by_addr_None cur(2) by (auto simp: image_iff)
      then have "w = cur" using masters same [of w] uniq [of w] by simp
      then show False using n(1) w(1) masters by simp
    qed
    have ok: "slice_ok (cl_servers ?c)" "slice_ok (cl_masters ?c)"
      using s m slice_Add(1) [OF m nm] slice_Remove(1) [OF m] by (auto simp: S)
    have "cl_masters ?c = filter (\<lambda>v. si_Master (sv_info v)) (cl_servers ?c)"
      using ok slice_ok_filter sm by (intro slice_eqI) auto
    moreover have "inj_on sv_ptr (set (cl_servers ?c))"
    proof -
      have "inj_on sv_ptr (set (cl_servers c) - {cur})" using inj by (rule inj_on_subset) blast
      moreover have "sv_ptr ?v \<notin> sv_ptr ` (set (cl_servers c) - {cur})" using uniq cur(3) by auto
      ultimately show ?thesis unfolding ss by (simp add: inj_on_insert image_iff)
    qed
    moreover have "\<forall>w \<in> set (cl_servers ?c). sv_ptr w < cl_fresh ?c"
      using assms(1) cur(1) unfolding ss rest by (auto simp: cluster_ok_def)
    moreover have "found ?c = (found c)(?r \<mapsto> ?v)"
    proof (rule by_addr_eqI)
      show "distinct (addrs (cl_servers ?c))" using ok(1) by (simp add: slice_ok_iff)
      show "((found c)(?r \<mapsto> ?v)) (sv_ResolvedAddr w) = Some w" if w: "w \<in> set (cl_servers ?c)" for w
      proof (cases "w = ?v")
        case False
        then have w: "w \<in> set (cl_servers c)" "w \<noteq> cur" using w unfolding ss by auto
        then have "sv_ResolvedAddr w \<noteq> ?r" using same uniq by blast
        then show ?thesis using slice_member [OF s w(1)] by simp
      qed (simp add: cur(2))
      show "((found c)(?r \<mapsto> ?v)) addr = None" if a: "addr \<notin> sv_ResolvedAddr ` set (cl_servers ?c)" for addr
      proof -
        have "addr \<noteq> ?r" using a cur(2) unfolding ss by auto
        moreover have "addr \<notin> sv_ResolvedAddr ` set (cl_servers c)"
          using a cur(2) calculation unfolding ss by auto
        ultimately show ?thesis by (simp add: by_addr_None)
      qed
    qed
    ultimately show ?thesis using ok(1) rest cur(3) by (auto simp: cluster_ok_def)
  qed
  then show "cluster_ok ?c" "\<exists>w. found ?c = (found c)(?r \<mapsto> w) \<and> sv_info w = info \<and> sv_ptr w = ?p"
    "cl_panic ?c = cl_panic c" by blast+
  show "cl_fresh ?c = cl_fresh c" "cl_direct ?c = cl_direct c" "cl_failFast ?c = cl_failFast c"
    by (simp_all add: addServer_def close_server_def SetInfo_def split: option.split)
qed

definition ident :: "mongo_server \<Rightarrow> nat \<times> string" where
  "ident v = (sv_ptr v, sv_ResolvedAddr v)"

lemma ident_set_info: "ident ` set (set_info p info s) = ident ` set s"
proof -
  have "map ident (set_info p info s) = map ident s" by (simp add: set_info_def ident_def)
  then show ?thesis by (metis set_map)
qed

lemma addServer_ident: "ident ` set (cl_servers (addServer v info full c)) \<subseteq> insert (ident v) (ident ` set (cl_servers c))"
  by (auto simp: addServer_def SetInfo_def close_server_def ident_set_info split: option.split)

end
