(* ===== verification/MgoSync.thy ===== *)
theory MgoSync
  imports MgoCluster
begin

text \<open>
  The synchronization of the topology: a declarative description of the servers the goroutines of
  \<open>syncServersLoop\<close> ask and keep, the phases an address goes through, and the invariant that ties
  the two together, kept by every step in any order. It ends after a bounded number of steps, and then in
  the cluster the description names.
\<close>

subsection \<open>Which servers there are\<close>

text \<open>What a server says when asked, if it does.\<close>

definition answer :: "(string \<Rightarrow> nat \<Rightarrow> gerror + is_master_result) \<Rightarrow> cluster \<Rightarrow> string \<Rightarrow> (server_info \<times> string list) option" where
  "answer attempt c r =
     (case syncServer (cl_direct c) (cl_failFast c) (attempt r) '''' of Inl e \<Rightarrow> None | Inr ih \<Rightarrow> Some ih)"

lemma syncServer_answer:
  "case syncServer (cl_direct c) (cl_failFast c) (attempt r) addr of
     Inl e \<Rightarrow> answer attempt c r = None | Inr ih \<Rightarrow> answer attempt c r = Some ih"
  by (auto simp: answer_def syncServer_def split: sum.split)

text \<open>The addresses that are asked: those known at the start and the peers of those that answer.\<close>

inductive_set contacted ::
  "(string \<Rightarrow> gerror + string) \<Rightarrow> (string \<Rightarrow> nat \<Rightarrow> gerror + is_master_result) \<Rightarrow> cluster \<Rightarrow> string set"
  for resolve attempt c
where
  contacted_known: "addr \<in> set (getKnownAddrs c) \<Longrightarrow> resolve addr = Inr r \<Longrightarrow> r \<in> contacted resolve attempt c"
| contacted_peer: "r \<in> contacted resolve attempt c \<Longrightarrow> answer attempt c r = Some (info, hosts) \<Longrightarrow>
     \<not> cl_direct c \<Longrightarrow> h \<in> set hosts \<Longrightarrow> resolve h = Inr r' \<Longrightarrow> r' \<in> contacted resolve attempt c"

text \<open>A master vouches for its peers; a server is kept when it is a master, vouched for, or the only one asked.\<close>

definition vouched ::
  "(string \<Rightarrow> gerror + string) \<Rightarrow> (string \<Rightarrow> nat \<Rightarrow> gerror + is_master_result) \<Rightarrow> cluster \<Rightarrow> string \<Rightarrow> bool" where
  "vouched resolve attempt c r' \<longleftrightarrow> (\<exists>r info hosts h. r \<in> contacted resolve attempt c \<and>
     answer attempt c r = Some (info, hosts) \<and> si_Master info \<and> \<not> cl_direct c \<and> h \<in> set hosts \<and> resolve h = Inr r')"

definition kept ::
  "(string \<Rightarrow> gerror + string) \<Rightarrow> (string \<Rightarrow> nat \<Rightarrow> gerror + is_master_result) \<Rightarrow> cluster \<Rightarrow> string \<Rightarrow> bool" where
  "kept resolve attempt c r \<longleftrightarrow> r \<in> contacted resolve attempt c \<and>
     (\<exists>info hosts. answer attempt c r = Some (info, hosts) \<and>
        (cl_direct c \<or> si_Master info \<or> vouched resolve attempt c r))"

definition primary_found ::
  "(string \<Rightarrow> gerror + string) \<Rightarrow> (string \<Rightarrow> nat \<Rightarrow> gerror + is_master_result) \<Rightarrow> cluster \<Rightarrow> bool" where
  "primary_found resolve attempt c \<longleftrightarrow> (\<exists>r info hosts. r \<in> contacted resolve attempt c \<and>
     answer attempt c r = Some (info, hosts) \<and> (cl_direct c \<or> si_Master info))"

subsection \<open>The phases of an address\<close>

fun tok :: "goroutine \<Rightarrow> string option" where
  "tok (GStart addr b) = None"
| "tok (GServer addr r) = Some r"
| "tok (GSync v) = Some (sv_ResolvedAddr v)"
| "tok (GRemove v) = Some (sv_ResolvedAddr v)"
| "tok (GDecide v info hosts) = Some (sv_ResolvedAddr v)"
| "tok (GAdd v info hosts) = Some (sv_ResolvedAddr v)"

definition toks :: "string \<Rightarrow> goroutine multiset \<Rightarrow> goroutine multiset" where
  "toks r G = filter_mset (\<lambda>g. tok g = Some r) G"

definition compat :: "string \<Rightarrow> mongo_server \<Rightarrow> mongo_server option \<Rightarrow> bool" where
  "compat r v f \<longleftrightarrow> sv_ResolvedAddr v = r \<and> (\<forall>w. f = Some w \<longrightarrow> sv_ptr w = sv_ptr v)"

text \<open>
  An address is first not seen, then has one goroutine at a time, and ends pending, gone or in the
  cluster. The arguments are whether it has been seen, its goroutines, what is pending, what the
  cluster has, whether it is in \<open>addIfFound\<close> and whether the synchronization is complete.
\<close>

inductive phase :: "bool \<Rightarrow> (server_info \<times> string list) option \<Rightarrow> bool \<Rightarrow> mongo_server option \<Rightarrow> string \<Rightarrow>
    bool \<Rightarrow> goroutine multiset \<Rightarrow> (mongo_server \<times> server_info) option \<Rightarrow> mongo_server option \<Rightarrow> bool \<Rightarrow> bool \<Rightarrow> bool"
  for direct ans keep f0 r
where
  ph_unseen: "phase direct ans keep f0 r False {#} None f0 ai c"
| ph_server: "phase direct ans keep f0 r True {#GServer addr r#} None f0 ai c"
| ph_sync: "compat r v f0 \<Longrightarrow> phase direct ans keep f0 r True {#GSync v#} None f0 ai c"
| ph_remove: "compat r v f0 \<Longrightarrow> ans = None \<Longrightarrow> phase direct ans keep f0 r True {#GRemove v#} None f0 ai c"
| ph_decide: "compat r v f0 \<Longrightarrow> ans = Some (info, hosts) \<Longrightarrow>
     phase direct ans keep f0 r True {#GDecide v info hosts#} None f0 ai c"
| ph_pending: "compat r v f0 \<Longrightarrow> ans = Some (info, hosts) \<Longrightarrow> \<not> direct \<Longrightarrow> \<not> si_Master info \<Longrightarrow>
     phase direct ans keep f0 r True {#} (Some (v, info)) f0 False c"
| ph_add: "compat r v f0 \<Longrightarrow> ans = Some (info, hosts) \<Longrightarrow> k = None \<or> k = Some hosts \<Longrightarrow> keep \<Longrightarrow>
     (direct \<or> si_Master info \<longrightarrow> c) \<Longrightarrow> phase direct ans keep f0 r True {#GAdd v info k#} None f0 ai c"
| ph_gone: "ans = None \<Longrightarrow> phase direct ans keep f0 r True {#} None None ai c"
| ph_in: "ans = Some (info, hosts) \<Longrightarrow> keep \<Longrightarrow> (direct \<or> si_Master info \<longrightarrow> c) \<Longrightarrow> sv_info v = info \<Longrightarrow>
     phase direct ans keep f0 r True {#} None (Some v) ai c"

lemma phase_weaken:
  assumes "phase direct ans keep f0 r seen T n f ai c" and "c \<longrightarrow> c'" and "n = None \<or> ai' = ai"
  shows "phase direct ans keep f0 r seen T n f ai' c'"
  using assms by (cases rule: phase.cases) (auto intro: phase.intros)

lemma phase_goroutine:
  assumes "phase direct ans keep f0 r seen T n f ai c" and "g \<in># T"
  shows "T = {#g#} \<and> seen \<and> n = None \<and> f = f0 \<and>
    (case g of
       GStart addr b \<Rightarrow> False
     | GServer addr r' \<Rightarrow> r' = r
     | GSync v \<Rightarrow> compat r v f
     | GRemove v \<Rightarrow> compat r v f \<and> ans = None
     | GDecide v info hosts \<Rightarrow> compat r v f \<and> ans = Some (info, hosts)
     | GAdd v info k \<Rightarrow> compat r v f \<and> keep \<and> (direct \<or> si_Master info \<longrightarrow> c) \<and>
         (\<exists>hosts. ans = Some (info, hosts) \<and> (k = None \<or> k = Some hosts)))"
  using assms by (cases rule: phase.cases) auto

lemma phase_unseen:
  assumes "phase direct ans keep f0 r False T n f ai c"
  shows "T = {#} \<and> n = None \<and> f = f0"
  using assms by (cases rule: phase.cases) auto

lemma phase_pending:
  assumes "phase direct ans keep f0 r seen T (Some (v, info)) f ai c"
  shows "seen \<and> T = {#} \<and> f = f0 \<and> compat r v f \<and> (\<exists>hosts. ans = Some (info, hosts)) \<and> \<not> direct \<and> \<not> si_Master info \<and> \<not> ai"
  using assms by (cases rule: phase.cases) auto

lemma phase_end:
  assumes "phase direct ans keep f0 r True {#} None f ai c"
  shows "(ans = None \<and> f = None) \<or>
     (\<exists>info hosts v. ans = Some (info, hosts) \<and> keep \<and> (direct \<or> si_Master info \<longrightarrow> c) \<and> f = Some v \<and> sv_info v = info)"
  using assms by (cases rule: phase.cases) auto

subsection \<open>The invariant\<close>

fun carries :: "goroutine \<Rightarrow> mongo_server set" where
  "carries (GStart addr b) = {}"
| "carries (GServer addr r) = {}"
| "carries (GSync v) = {v}"
| "carries (GRemove v) = {v}"
| "carries (GDecide v info hosts) = {v}"
| "carries (GAdd v info hosts) = {v}"

definition idents :: "sync_state \<Rightarrow> (nat \<times> string) set" where
  "idents s = ident ` (set (cl_servers (y_cluster s)) \<union> (\<Union>g \<in> set_mset (y_goroutines s). carries g) \<union>
     {v. \<exists>r info. y_notYetAdded s r = Some (v, info)})"

definition decided :: "string \<Rightarrow> sync_state \<Rightarrow> bool" where
  "decided r s \<longleftrightarrow> y_notYetAdded s r = None \<and> (\<forall>g \<in># toks r (y_goroutines s). \<exists>v info k. g = GAdd v info k)"

fun spawns :: "goroutine \<Rightarrow> bool" where
  "spawns (GServer addr r) = True"
| "spawns (GSync v) = True"
| "spawns (GDecide v info hosts) = True"
| "spawns (GAdd v info k) = (k \<noteq> None)"
| "spawns g = False"

definition handled :: "(string \<Rightarrow> gerror + string) \<Rightarrow> string \<Rightarrow> bool \<Rightarrow> sync_state \<Rightarrow> bool" where
  "handled resolve h b s \<longleftrightarrow> (\<forall>r. resolve h = Inr r \<longrightarrow> GStart h b \<in># y_goroutines s \<or>
     r \<in> y_seen s \<and> (b \<longrightarrow> r \<in> y_addIfFound s \<or> decided r s))"

definition sync_inv ::
  "(string \<Rightarrow> gerror + string) \<Rightarrow> (string \<Rightarrow> nat \<Rightarrow> gerror + is_master_result) \<Rightarrow> cluster \<Rightarrow> sync_state \<Rightarrow> bool" where
  "sync_inv resolve attempt c s \<longleftrightarrow>
     (cluster_ok (y_cluster s) \<and> cl_direct (y_cluster s) = cl_direct c \<and> cl_failFast (y_cluster s) = cl_failFast c \<and>
        cl_panic (y_cluster s) = cl_panic c) \<and>
     (\<forall>r. phase (cl_direct c) (answer attempt c r) (kept resolve attempt c r) (found c r) r (r \<in> y_seen s)
        (toks r (y_goroutines s)) (y_notYetAdded s r) (found (y_cluster s) r) (r \<in> y_addIfFound s) (y_complete s)) \<and>
     ((\<forall>p a. (p, a) \<in> idents s \<longrightarrow> p < cl_fresh (y_cluster s)) \<and>
        (\<forall>p a a'. (p, a) \<in> idents s \<longrightarrow> (p, a') \<in> idents s \<longrightarrow> a' = a)) \<and>
     (y_seen s \<subseteq> contacted resolve attempt c \<and> (\<forall>r \<in> y_addIfFound s. vouched resolve attempt c r) \<and>
        (\<forall>h b r. GStart h b \<in># y_goroutines s \<longrightarrow> resolve h = Inr r \<longrightarrow>
           r \<in> contacted resolve attempt c \<and> (b \<longrightarrow> vouched resolve attempt c r))) \<and>
     (y_complete s \<longrightarrow> primary_found resolve attempt c) \<and>
     (\<forall>h \<in> set (getKnownAddrs c). handled resolve h False s) \<and>
     (\<forall>r \<in> y_seen s. \<forall>info hosts. answer attempt c r = Some (info, hosts) \<longrightarrow> \<not> cl_direct c \<longrightarrow>
        (\<exists>g \<in># toks r (y_goroutines s). spawns g) \<or> (\<forall>h \<in> set hosts. handled resolve h (si_Master info) s))"

lemma sync_invI:
  assumes "cluster_ok (y_cluster s)" "cl_direct (y_cluster s) = cl_direct c" "cl_failFast (y_cluster s) = cl_failFast c"
      "cl_panic (y_cluster s) = cl_panic c"
    and "\<And>r. phase (cl_direct c) (answer attempt c r) (kept resolve attempt c r) (found c r) r (r \<in> y_seen s)
        (toks r (y_goroutines s)) (y_notYetAdded s r) (found (y_cluster s) r) (r \<in> y_addIfFound s) (y_complete s)"
    and "\<And>p a. (p, a) \<in> idents s \<Longrightarrow> p < cl_fresh (y_cluster s)"
      "\<And>p a a'. (p, a) \<in> idents s \<Longrightarrow> (p, a') \<in> idents s \<Longrightarrow> a' = a"
    and "y_seen s \<subseteq> contacted resolve attempt c" "\<And>r. r \<in> y_addIfFound s \<Longrightarrow> vouched resolve attempt c r"
      "\<And>h b r. GStart h b \<in># y_goroutines s \<Longrightarrow> resolve h = Inr r \<Longrightarrow>
         r \<in> contacted resolve attempt c \<and> (b \<longrightarrow> vouched resolve attempt c r)"
    and "y_complete s \<Longrightarrow> primary_found resolve attempt c"
    and "\<And>h. h \<in> set (getKnownAddrs c) \<Longrightarrow> handled resolve h False s"
    and "\<And>r info hosts. r \<in> y_seen s \<Longrightarrow> answer attempt c r = Some (info, hosts) \<Longrightarrow> \<not> cl_direct c \<Longrightarrow>
        (\<exists>g \<in># toks r (y_goroutines s). spawns g) \<or> (\<forall>h \<in> set hosts. handled resolve h (si_Master info) s)"
  shows "sync_inv resolve attempt c s"
  unfolding sync_inv_def by (intro conjI allI ballI impI) (rule assms assms(10) [THEN conjunct1] assms(10) [THEN conjunct2, THEN mp]; assumption)+

lemma sync_invD:
  assumes "sync_inv resolve attempt c s"
  shows "cluster_ok (y_cluster s)" "cl_direct (y_cluster s) = cl_direct c" "cl_failFast (y_cluster s) = cl_failFast c"
      "cl_panic (y_cluster s) = cl_panic c"
    and "phase (cl_direct c) (answer attempt c r) (kept resolve attempt c r) (found c r) r (r \<in> y_seen s)
        (toks r (y_goroutines s)) (y_notYetAdded s r) (found (y_cluster s) r) (r \<in> y_addIfFound s) (y_complete s)"
    and "(p, a) \<in> idents s \<Longrightarrow> p < cl_fresh (y_cluster s)"
      "(p, a) \<in> idents s \<Longrightarrow> (p, a') \<in> idents s \<Longrightarrow> a' = a"
    and "y_seen s \<subseteq> contacted resolve attempt c" "r \<in> y_addIfFound s \<Longrightarrow> vouched resolve attempt c r"
      "GStart h b \<in># y_goroutines s \<Longrightarrow> resolve h = Inr r \<Longrightarrow>
         r \<in> contacted resolve attempt c \<and> (b \<longrightarrow> vouched resolve attempt c r)"
    and "y_complete s \<Longrightarrow> primary_found resolve attempt c"
    and "h \<in> set (getKnownAddrs c) \<Longrightarrow> handled resolve h False s"
    and "r \<in> y_seen s \<Longrightarrow> answer attempt c r = Some (info, hosts) \<Longrightarrow> \<not> cl_direct c \<Longrightarrow>
        (\<exists>g \<in># toks r (y_goroutines s). spawns g) \<or> (\<forall>h \<in> set hosts. handled resolve h (si_Master info) s)"
  using assms unfolding sync_inv_def by blast+

subsection \<open>Every step keeps the invariant\<close>

lemma toks_simps [simp]:
  "toks r (A + B) = toks r A + toks r B" "toks r {#} = {#}"
  "toks r (add_mset g A) = (if tok g = Some r then add_mset g (toks r A) else toks r A)"
  "g \<in># toks r A \<longleftrightarrow> g \<in># A \<and> tok g = Some r"
  by (simp_all add: toks_def)

lemma toks_diff: "g \<in># A \<Longrightarrow> toks r (A - {#g#}) = toks r A - (if tok g = Some r then {#g#} else {#})"
  by (simp add: toks_def)

lemma toks_spawn [simp]: "toks r (mset (spawn direct info hosts)) = {#}"
  by (auto simp: toks_def spawn_def simp flip: set_mset_eq_empty_iff)

lemma mem_other: "g' \<noteq> g \<Longrightarrow> g' \<in># A - {#g#} \<longleftrightarrow> g' \<in># A"
  by (simp add: in_diff_count not_in_iff [symmetric])

lemma spawn_mem: "GStart h b \<in> set (spawn direct info hosts) \<longleftrightarrow> \<not> direct \<and> h \<in> set hosts \<and> b = si_Master info"
  by (auto simp: spawn_def)

lemma handled_mono:
  assumes "handled resolve h b s" and "y_seen s \<subseteq> y_seen t" and "y_addIfFound s \<subseteq> y_addIfFound t"
    and "\<And>r. r \<in> y_seen s \<Longrightarrow> decided r s \<Longrightarrow> decided r t"
    and "\<And>r. GStart h b \<in># y_goroutines s \<Longrightarrow> resolve h = Inr r \<Longrightarrow> GStart h b \<in># y_goroutines t \<or>
      r \<in> y_seen t \<and> (b \<longrightarrow> r \<in> y_addIfFound t \<or> decided r t)"
  shows "handled resolve h b t"
  unfolding handled_def
proof (intro allI impI)
  fix r
  assume r: "resolve h = Inr r"
  then consider "GStart h b \<in># y_goroutines s" | "r \<in> y_seen s" "b \<longrightarrow> r \<in> y_addIfFound s \<or> decided r s"
    using assms(1) by (auto simp: handled_def)
  then show "GStart h b \<in># y_goroutines t \<or> r \<in> y_seen t \<and> (b \<longrightarrow> r \<in> y_addIfFound t \<or> decided r t)"
  proof cases
    case 1
    then show ?thesis using assms(5) r by blast
  next
    case 2
    then show ?thesis using assms(2-4) by blast
  qed
qed

text \<open>A step of a goroutine that works for an address \<open>r0\<close> leaves all other addresses as they are.\<close>

lemma step_at:
  assumes inv: "sync_inv resolve attempt c s" and g: "g \<in># y_goroutines s" "tok g = Some here"
    and gos: "y_goroutines t = y_goroutines s - {#g#} + mset nxt"
    and same: "y_seen t = y_seen s" "y_addIfFound t = y_addIfFound s"
      "\<And>r. r \<noteq> here \<Longrightarrow> y_notYetAdded t r = y_notYetAdded s r"
      "\<And>r. r \<noteq> here \<Longrightarrow> found (y_cluster t) r = found (y_cluster s) r"
      "\<And>r. r \<noteq> here \<Longrightarrow> toks r (mset nxt) = {#}"
    and cl: "cluster_ok (y_cluster t)" "cl_direct (y_cluster t) = cl_direct (y_cluster s)"
      "cl_failFast (y_cluster t) = cl_failFast (y_cluster s)" "cl_panic (y_cluster t) = cl_panic (y_cluster s)"
    and complete: "y_complete s \<longrightarrow> y_complete t" "y_complete t \<Longrightarrow> primary_found resolve attempt c"
    and ph: "phase (cl_direct c) (answer attempt c here) (kept resolve attempt c here) (found c here) here True
      (toks here (mset nxt)) (y_notYetAdded t here) (found (y_cluster t) here) (here \<in> y_addIfFound s) (y_complete t)"
    and ids: "\<And>p a. (p, a) \<in> idents t \<Longrightarrow> (p, a) \<in> idents s \<or>
        p = cl_fresh (y_cluster s) \<and> a = here \<and> cl_fresh (y_cluster s) < cl_fresh (y_cluster t)"
      "cl_fresh (y_cluster s) \<le> cl_fresh (y_cluster t)"
    and new: "\<And>h b r. GStart h b \<in># mset nxt \<Longrightarrow> resolve h = Inr r \<Longrightarrow>
      r \<in> contacted resolve attempt c \<and> (b \<longrightarrow> vouched resolve attempt c r)"
    and dec: "decided here s \<Longrightarrow> decided here t"
    and peers: "\<And>info hosts. answer attempt c here = Some (info, hosts) \<Longrightarrow> \<not> cl_direct c \<Longrightarrow> spawns g \<Longrightarrow>
      (\<exists>g \<in># toks here (mset nxt). spawns g) \<or> (\<forall>h \<in> set hosts. GStart h (si_Master info) \<in># mset nxt)"
  shows "sync_inv resolve attempt c t"
proof (rule sync_invI)
  note I = sync_invD [OF inv]
  have tk: "g \<in># toks here (y_goroutines s)" using g by simp
  note G = phase_goroutine [OF I(5) tk]
  have toks: "toks r (y_goroutines t) = (if r = here then toks here (mset nxt) else toks r (y_goroutines s))" for r
    using same(5) [of r] g G by (simp add: gos toks_diff)
  have starts: "GStart h b \<in># y_goroutines t" if "GStart h b \<in># y_goroutines s" for h b
    using that g(2) unfolding gos by (cases "GStart h b = g") (auto simp: in_diff_count)
  have decs: "decided r t" if "decided r s" for r
    using that dec same(3) toks unfolding decided_def by (cases "r = here") (auto simp: decided_def)
  have hm: "handled resolve h b t" if "handled resolve h b s" for h b
    using that by (rule handled_mono) (use same(1,2) decs starts in auto)
  show "cluster_ok (y_cluster t)" "cl_direct (y_cluster t) = cl_direct c" "cl_failFast (y_cluster t) = cl_failFast c"
      "cl_panic (y_cluster t) = cl_panic c"
    using cl I(2-4) by simp_all
  show "phase (cl_direct c) (answer attempt c r) (kept resolve attempt c r) (found c r) r (r \<in> y_seen t)
      (toks r (y_goroutines t)) (y_notYetAdded t r) (found (y_cluster t) r) (r \<in> y_addIfFound t) (y_complete t)" for r
  proof (cases "r = here")
    case True
    then show ?thesis using ph G same(1,2) toks by simp
  next
    case False
    then show ?thesis using phase_weaken [OF I(5) complete(1)] same toks by simp
  qed
  show "p < cl_fresh (y_cluster t)" if "(p, a) \<in> idents t" for p a
    using ids(1) [OF that] ids(2) I(6) [of p a] by auto
  show "a' = a" if "(p, a) \<in> idents t" "(p, a') \<in> idents t" for p a a'
    using ids(1) [OF that(1)] ids(1) [OF that(2)] I(6) [of p a] I(6) [of p a'] I(7) [of p a a'] by auto
  show "r \<in> contacted resolve attempt c \<and> (b \<longrightarrow> vouched resolve attempt c r)"
    if "GStart h b \<in># y_goroutines t" "resolve h = Inr r" for h b r
    using that new I(10) unfolding gos by (auto dest: in_diffD)
  show "(\<exists>g \<in># toks r (y_goroutines t). spawns g) \<or> (\<forall>h \<in> set hosts. handled resolve h (si_Master info) t)"
    if a: "r \<in> y_seen t" "answer attempt c r = Some (info, hosts)" "\<not> cl_direct c" for r info hosts
  proof -
    have old: "(\<exists>g \<in># toks r (y_goroutines s). spawns g) \<or> (\<forall>h \<in> set hosts. handled resolve h (si_Master info) s)"
      using I(13) a same(1) by simp
    show ?thesis
    proof (cases "r = here \<and> spawns g")
      case True
      then have "(\<exists>g \<in># toks here (mset nxt). spawns g) \<or> (\<forall>h \<in> set hosts. GStart h (si_Master info) \<in># mset nxt)"
        using peers a(2,3) by blast
      then show ?thesis using True toks by (auto simp: handled_def gos)
    next
      case False
      then show ?thesis using old toks G hm by (cases "r = here") auto
    qed
  qed
  show "handled resolve h False t" if "h \<in> set (getKnownAddrs c)" for h using hm I(12) that by blast
qed (use sync_invD(8,9) [OF inv] same complete(2) in \<open>simp_all\<close>)

lemma idents_goroutines: "idents s = ident ` set (cl_servers (y_cluster s)) \<union>
    ident ` (\<Union>g \<in> set_mset (y_goroutines s). carries g) \<union> ident ` {v. \<exists>r info. y_notYetAdded s r = Some (v, info)}"
  by (simp add: idents_def image_Un)

lemma idents_step:
  assumes "g \<in># y_goroutines s" and "y_goroutines t = y_goroutines s - {#g#} + mset nxt"
    and "ident ` set (cl_servers (y_cluster t)) \<subseteq> idents s \<union> X"
    and "\<And>g' v. g' \<in> set nxt \<Longrightarrow> v \<in> carries g' \<Longrightarrow> ident v \<in> idents s \<union> X"
    and "\<And>r v info. y_notYetAdded t r = Some (v, info) \<Longrightarrow> ident v \<in> idents s \<union> X"
  shows "idents t \<subseteq> idents s \<union> X"
proof -
  have "ident v \<in> idents s \<union> X" if v: "v \<in> carries g'" "g' \<in># y_goroutines t" for g' v
  proof (cases "g' \<in> set nxt")
    case False
    then have "g' \<in># y_goroutines s" using v(2) unfolding assms(2) by (auto dest: in_diffD)
    then have "ident v \<in> ident ` (\<Union>g \<in> set_mset (y_goroutines s). carries g)" using v(1) by blast
    then show ?thesis unfolding idents_goroutines by blast
  qed (use assms(4) v(1) in simp)
  then have "ident ` (\<Union>g \<in> set_mset (y_goroutines t). carries g) \<subseteq> idents s \<union> X" by blast
  moreover have "ident ` {v. \<exists>r info. y_notYetAdded t r = Some (v, info)} \<subseteq> idents s \<union> X" using assms(5) by blast
  ultimately show ?thesis using assms(3) unfolding idents_goroutines [of t] by (intro Un_least)
qed

lemma idents_mem:
  "g \<in># y_goroutines s \<Longrightarrow> v \<in> carries g \<Longrightarrow> ident v \<in> idents s"
  "v \<in> set (cl_servers (y_cluster s)) \<Longrightarrow> ident v \<in> idents s"
  "y_notYetAdded s r = Some (v, info) \<Longrightarrow> ident v \<in> idents s"
  by (auto simp: idents_def)

abbreviation after :: "goroutine \<Rightarrow> goroutine list \<Rightarrow> sync_state \<Rightarrow> sync_state \<Rightarrow> sync_state" where
  "after g nxt s t \<equiv> t\<lparr>y_goroutines := y_goroutines s - {#g#} + mset nxt\<rparr>"

lemma not_decided: "g \<in># y_goroutines s \<Longrightarrow> tok g = Some r \<Longrightarrow> \<forall>v info k. g \<noteq> GAdd v info k \<Longrightarrow> \<not> decided r s"
  unfolding decided_def by (metis toks_simps(4))

lemma inv_server:
  assumes inv: "sync_inv resolve attempt c s" and g: "GServer addr r0 \<in># y_goroutines s"
    and run: "run_goroutine resolve attempt (GServer addr r0) s = (nxt, s')"
  shows "sync_inv resolve attempt c (after (GServer addr r0) nxt s s')"
proof -
  note I = sync_invD [OF inv]
  have G: "y_notYetAdded s r0 = None" "found (y_cluster s) r0 = found c r0"
    using phase_goroutine [OF I(5) [of r0], of "GServer addr r0"] g by simp_all
  have ok: "slice_ok (cl_servers (y_cluster s))" using I(1) by (simp add: cluster_ok_def)
  obtain v c1 where v: "cluster_server addr r0 (y_cluster s) = (v, c1)" by fastforce
  then have n: "nxt = [GSync v]" "s' = s\<lparr>y_cluster := c1\<rparr>" using run by auto
  have c1: "cl_servers c1 = cl_servers (y_cluster s)" "cl_masters c1 = cl_masters (y_cluster s)"
      "cl_direct c1 = cl_direct (y_cluster s)" "cl_failFast c1 = cl_failFast (y_cluster s)"
      "cl_panic c1 = cl_panic (y_cluster s)" "cl_fresh (y_cluster s) \<le> cl_fresh c1"
    and cv: "compat r0 v (found (y_cluster s) r0)"
    and id: "ident v \<in> idents s \<or> ident v = (cl_fresh (y_cluster s), r0) \<and> cl_fresh (y_cluster s) < cl_fresh c1"
    using v ok by (auto simp: cluster_server_def servers_Search_eq compat_def ident_def idents_def
        split: option.splits dest: by_addr_Some)
  have rv: "sv_ResolvedAddr v = r0" using cv by (simp add: compat_def)
  let ?t = "after (GServer addr r0) nxt s s'"
  let ?X = "if cl_fresh (y_cluster s) < cl_fresh c1 then {(cl_fresh (y_cluster s), r0)} else {}"
  have ids: "idents ?t \<subseteq> idents s \<union> ?X"
    using id idents_mem(2,3) by (intro idents_step [OF g]) (auto simp: n c1)
  show ?thesis
  proof (rule step_at [OF inv g, where here = r0 and nxt = nxt])
    show "cluster_ok (y_cluster ?t)" using I(1) c1 by (auto simp: cluster_ok_def n)
    show "(p, a) \<in> idents s \<or> p = cl_fresh (y_cluster s) \<and> a = r0 \<and> cl_fresh (y_cluster s) < cl_fresh (y_cluster ?t)"
      if "(p, a) \<in> idents ?t" for p a
      using ids that by (auto simp: n split: if_splits)
    show "phase (cl_direct c) (answer attempt c r0) (kept resolve attempt c r0) (found c r0) r0 True
        (toks r0 (mset nxt)) (y_notYetAdded ?t r0) (found (y_cluster ?t) r0) (r0 \<in> y_addIfFound s) (y_complete ?t)"
      using ph_sync [OF cv] by (simp add: n c1 rv G [simplified])
    show "decided r0 s \<Longrightarrow> decided r0 ?t" using not_decided [OF g] by simp
  qed (use I(11) c1 rv in \<open>simp_all add: n\<close>)
qed

lemma inv_sync:
  assumes inv: "sync_inv resolve attempt c s" and g: "GSync v \<in># y_goroutines s"
    and run: "run_goroutine resolve attempt (GSync v) s = (nxt, s')"
  shows "sync_inv resolve attempt c (after (GSync v) nxt s s')"
proof -
  note I = sync_invD [OF inv]
  let ?r = "sv_ResolvedAddr v"
  have G: "compat ?r v (found c ?r)" "y_notYetAdded s ?r = None" "found (y_cluster s) ?r = found c ?r"
    using phase_goroutine [OF I(5) [of ?r], of "GSync v"] g by auto
  consider "nxt = [GRemove v]" "answer attempt c ?r = None"
    | info hosts where "nxt = [GDecide v info hosts]" "answer attempt c ?r = Some (info, hosts)"
  proof (cases "syncServer (cl_direct c) (cl_failFast c) (attempt ?r) (sv_Addr v)")
    case (Inl e)
    then show thesis using that(1) run syncServer_answer [of attempt c ?r "sv_Addr v"] I(2,3) by simp
  next
    case (Inr ih)
    then show thesis
      using that(2) [of "fst ih" "snd ih"] run syncServer_answer [of attempt c ?r "sv_Addr v"] I(2,3)
      by (cases ih) simp
  qed
  note cases = this
  have s': "s' = s" using run by (auto split: sum.splits prod.splits)
  let ?t = "after (GSync v) nxt s s'"
  have ids: "idents ?t \<subseteq> idents s \<union> {}"
  proof (rule idents_step [OF g])
    show "ident v' \<in> idents s \<union> {}" if "g' \<in> set nxt" "v' \<in> carries g'" for g' v'
      using cases by cases (use that idents_mem(1) [OF g] in auto)
  qed (use idents_mem(2,3) in \<open>auto simp: s'\<close>)
  show ?thesis
  proof (rule step_at [OF inv g, where here = ?r and nxt = nxt])
    show "phase (cl_direct c) (answer attempt c ?r) (kept resolve attempt c ?r) (found c ?r) ?r True
        (toks ?r (mset nxt)) (y_notYetAdded ?t ?r) (found (y_cluster ?t) ?r) (?r \<in> y_addIfFound s) (y_complete ?t)"
      using cases by cases (auto simp: s' G intro!: ph_remove ph_decide)
    show "decided ?r s \<Longrightarrow> decided ?r ?t" using not_decided [OF g] by simp
    show "toks r (mset nxt) = {#}" if "r \<noteq> ?r" for r using cases by cases (use that in auto)
    show "(\<exists>g \<in># toks ?r (mset nxt). spawns g) \<or> (\<forall>h \<in> set hosts. GStart h (si_Master info) \<in># mset nxt)"
      if "answer attempt c ?r = Some (info, hosts)" for info hosts
      using cases by cases (use that in auto)
    show "r \<in> contacted resolve attempt c \<and> (b \<longrightarrow> vouched resolve attempt c r)"
      if "GStart h b \<in># mset nxt" for h b r
      using cases by cases (use that in auto)
  qed (use I(1,11) ids in \<open>auto simp: s'\<close>)
qed

lemma inv_remove:
  assumes inv: "sync_inv resolve attempt c s" and g: "GRemove v \<in># y_goroutines s"
    and run: "run_goroutine resolve attempt (GRemove v) s = (nxt, s')"
  shows "sync_inv resolve attempt c (after (GRemove v) nxt s s')"
proof -
  note I = sync_invD [OF inv]
  let ?r = "sv_ResolvedAddr v"
  have G: "answer attempt c ?r = None" "y_notYetAdded s ?r = None"
    using phase_goroutine [OF I(5) [of ?r], of "GRemove v"] g by simp_all
  have n: "nxt = []" "s' = s\<lparr>y_cluster := removeServer v (y_cluster s)\<rparr>" using run by auto
  note R = removeServer_ok [OF I(1), of v]
  let ?t = "after (GRemove v) nxt s s'"
  have ids: "idents ?t \<subseteq> idents s \<union> {}"
    using idents_mem(2,3) R(7) by (intro idents_step [OF g]) (auto simp: n)
  show ?thesis
  proof (rule step_at [OF inv g, where here = ?r and nxt = nxt])
    show "phase (cl_direct c) (answer attempt c ?r) (kept resolve attempt c ?r) (found c ?r) ?r True
        (toks ?r (mset nxt)) (y_notYetAdded ?t ?r) (found (y_cluster ?t) ?r) (?r \<in> y_addIfFound s) (y_complete ?t)"
      using ph_gone [OF G(1)] by (simp add: n R G)
    show "decided ?r s \<Longrightarrow> decided ?r ?t" using not_decided [OF g] by simp
  qed (use I(11) R ids in \<open>auto simp: n\<close>)
qed


lemma spawn_carries: "g \<in> set (spawn direct info hosts) \<Longrightarrow> carries g = {}"
  by (auto simp: spawn_def split: if_splits)

lemma contacted_primary:
  "r \<in> contacted resolve attempt c \<Longrightarrow> answer attempt c r = Some (info, hosts) \<Longrightarrow>
     cl_direct c \<or> si_Master info \<or> vouched resolve attempt c r \<Longrightarrow>
   kept resolve attempt c r \<and> primary_found resolve attempt c"
  unfolding kept_def primary_found_def vouched_def by blast

lemma spawn_contacted:
  assumes "r \<in> contacted resolve attempt c" and "answer attempt c r = Some (info, hosts)"
    and "GStart h b \<in># mset (spawn (cl_direct c) info hosts)" and "resolve h = Inr r'"
  shows "r' \<in> contacted resolve attempt c \<and> (b \<longrightarrow> vouched resolve attempt c r')"
proof -
  have h: "\<not> cl_direct c" "h \<in> set hosts" "b = si_Master info" using assms(3) by (simp_all add: spawn_mem)
  then have "r' \<in> contacted resolve attempt c" using assms(1,2,4) by (blast intro: contacted_peer)
  then show ?thesis using assms(1,2,4) h unfolding vouched_def by blast
qed

lemma inv_decide:
  assumes inv: "sync_inv resolve attempt c s" and g: "GDecide v info hosts \<in># y_goroutines s"
    and run: "run_goroutine resolve attempt (GDecide v info hosts) s = (nxt, s')"
  shows "sync_inv resolve attempt c (after (GDecide v info hosts) nxt s s')"
proof -
  note I = sync_invD [OF inv]
  let ?r = "sv_ResolvedAddr v" and ?g = "GDecide v info hosts"
  have G: "compat ?r v (found c ?r)" "answer attempt c ?r = Some (info, hosts)" "?r \<in> y_seen s"
    "y_notYetAdded s ?r = None" "found (y_cluster s) ?r = found c ?r"
    using phase_goroutine [OF I(5) [of ?r], of ?g] g by auto
  have con: "?r \<in> contacted resolve attempt c" using G(3) I(8) by blast
  let ?t = "after ?g nxt s s'"
  show ?thesis
  proof (cases "cl_direct c \<or> si_Master info \<or> ?r \<in> y_addIfFound s")
    case True
    have n: "nxt = [GAdd v info (Some hosts)]" "s' = s\<lparr>y_complete := True\<rparr>" using run True I(2) by auto
    have k: "kept resolve attempt c ?r" "primary_found resolve attempt c"
      using contacted_primary [OF con G(2)] True I(9) by blast+
    have ids: "idents ?t \<subseteq> idents s \<union> {}"
      using idents_mem(1) [OF g] idents_mem(2,3) by (intro idents_step [OF g]) (auto simp: n)
    show ?thesis
    proof (rule step_at [OF inv g, where here = ?r and nxt = nxt])
      show "phase (cl_direct c) (answer attempt c ?r) (kept resolve attempt c ?r) (found c ?r) ?r True
          (toks ?r (mset nxt)) (y_notYetAdded ?t ?r) (found (y_cluster ?t) ?r) (?r \<in> y_addIfFound s) (y_complete ?t)"
        using ph_add [OF G(1,2), of "Some hosts"] k(1) by (simp add: n G(2,4,5))
      show "decided ?r s \<Longrightarrow> decided ?r ?t" using not_decided [OF g] by simp
    qed (use I(1) k ids in \<open>auto simp: n\<close>)
  next
    case False
    have n: "nxt = spawn (cl_direct c) info hosts" "s' = s\<lparr>y_notYetAdded := (y_notYetAdded s)(?r \<mapsto> (v, info))\<rparr>"
      using run False I(2) by auto
    have ids: "idents ?t \<subseteq> idents s \<union> {}"
      using idents_mem(1) [OF g] idents_mem(2,3) spawn_carries
      by (intro idents_step [OF g]) (auto simp: n split: if_splits)
    show ?thesis
    proof (rule step_at [OF inv g, where here = ?r and nxt = nxt])
      show "phase (cl_direct c) (answer attempt c ?r) (kept resolve attempt c ?r) (found c ?r) ?r True
          (toks ?r (mset nxt)) (y_notYetAdded ?t ?r) (found (y_cluster ?t) ?r) (?r \<in> y_addIfFound s) (y_complete ?t)"
        using ph_pending [OF G(1,2), where direct = "cl_direct c"] False by (simp add: n G(2,5))
      show "decided ?r s \<Longrightarrow> decided ?r ?t" using not_decided [OF g] by simp
      show "r \<in> contacted resolve attempt c \<and> (b \<longrightarrow> vouched resolve attempt c r)"
        if "GStart h b \<in># mset nxt" "resolve h = Inr r" for h b r
        using spawn_contacted [OF con G(2)] that unfolding n by blast
      show "(\<exists>g \<in># toks ?r (mset nxt). spawns g) \<or> (\<forall>h \<in> set hs. GStart h (si_Master i) \<in># mset nxt)"
        if "answer attempt c ?r = Some (i, hs)" "\<not> cl_direct c" for i hs
        using that G(2) by (simp add: n(1) spawn_mem)
    qed (use I(1,11) ids in \<open>auto simp: n\<close>)
  qed
qed

lemma inv_add:
  assumes inv: "sync_inv resolve attempt c s" and g: "GAdd v info k \<in># y_goroutines s"
    and run: "run_goroutine resolve attempt (GAdd v info k) s = (nxt, s')"
  shows "sync_inv resolve attempt c (after (GAdd v info k) nxt s s')"
proof -
  note I = sync_invD [OF inv]
  let ?r = "sv_ResolvedAddr v" and ?g = "GAdd v info k"
  obtain hosts where G: "compat ?r v (found (y_cluster s) ?r)" "answer attempt c ?r = Some (info, hosts)" "?r \<in> y_seen s"
    "y_notYetAdded s ?r = None" "kept resolve attempt c ?r" "cl_direct c \<or> si_Master info \<longrightarrow> y_complete s"
    "k = None \<or> k = Some hosts"
    using phase_goroutine [OF I(5) [of ?r], of ?g] g by auto
  have con: "?r \<in> contacted resolve attempt c" using G(3) I(8) by blast
  have n: "nxt = (case k of None \<Rightarrow> [] | Some hs \<Rightarrow> spawn (cl_direct c) info hs)"
    "s' = s\<lparr>y_cluster := addServer v info True (y_cluster s)\<rparr>" using run by (cases k; auto simp: I(2))+
  have slice: "slice_ok (cl_servers (y_cluster s))" using I(1) by (simp add: cluster_ok_def)
  have vid: "ident v \<in> idents s" using idents_mem(1) [OF g] by simp
  have "addable v (y_cluster s)"
  proof -
    have "sv_ResolvedAddr w = ?r" if "w \<in> set (cl_servers (y_cluster s))" "sv_ptr w = sv_ptr v" for w
      using I(7) [of "sv_ptr v" ?r] vid idents_mem(2) [OF that(1)] that(2) by (simp add: ident_def)
    moreover have "sv_ptr w = sv_ptr v" if "w \<in> set (cl_servers (y_cluster s))" "sv_ResolvedAddr w = ?r" for w
      using G(1) found_iff [OF slice] that by (auto simp: compat_def)
    moreover have "sv_ptr v < cl_fresh (y_cluster s)" using I(6) vid by (simp add: ident_def)
    ultimately show ?thesis unfolding addable_def by blast
  qed
  note A = addServer_ok [OF I(1) this, of True info, simplified]
  then obtain w where w: "found (addServer v info True (y_cluster s)) = (found (y_cluster s))(?r \<mapsto> w)" "sv_info w = info"
    by blast
  let ?t = "after ?g nxt s s'"
  have sp: "k \<noteq> None \<Longrightarrow> nxt = spawn (cl_direct c) info hosts" "k = None \<Longrightarrow> nxt = []" using G(7) n(1) by auto
  have tk: "toks r (mset nxt) = {#}" for r using sp by (cases "k = None") auto
  have car: "carries g' = {}" if "g' \<in> set nxt" for g' using sp that spawn_carries by (cases "k = None") auto
  have ids: "idents ?t \<subseteq> idents s \<union> {}"
  proof (rule idents_step [OF g])
    show "ident ` set (cl_servers (y_cluster ?t)) \<subseteq> idents s \<union> {}"
      using addServer_ident [of v info True "y_cluster s"] vid idents_mem(2) by (auto simp: n(2))
  qed (use idents_mem(3) car in \<open>auto simp: n(2)\<close>)
  show ?thesis
  proof (rule step_at [OF inv g, where here = ?r and nxt = nxt])
    show "phase (cl_direct c) (answer attempt c ?r) (kept resolve attempt c ?r) (found c ?r) ?r True
        (toks ?r (mset nxt)) (y_notYetAdded ?t ?r) (found (y_cluster ?t) ?r) (?r \<in> y_addIfFound s) (y_complete ?t)"
      using ph_in [OF G(2,5,6) w(2)] by (simp add: n(2) w(1) tk G(4))
    show "decided ?r ?t" using tk G(4) phase_goroutine [OF I(5) [of ?r], of ?g] g
      by (simp add: decided_def n(2) toks_diff)
    show "r \<in> contacted resolve attempt c \<and> (b \<longrightarrow> vouched resolve attempt c r)"
      if "GStart h b \<in># mset nxt" "resolve h = Inr r" for h b r
      using spawn_contacted [OF con G(2)] that sp by (cases "k = None") auto
    show "(\<exists>g \<in># toks ?r (mset nxt). spawns g) \<or> (\<forall>h \<in> set hs. GStart h (si_Master i) \<in># mset nxt)"
      if "answer attempt c ?r = Some (i, hs)" "\<not> cl_direct c" "spawns ?g" for i hs
      using that G(2) sp(1) by (simp add: spawn_mem)
  qed (use I(11) ids A tk w(1) in \<open>auto simp: n(2)\<close>)
qed


text \<open>A goroutine that starts on an address.\<close>

lemma start_at:
  assumes inv: "sync_inv resolve attempt c s" and g: "GStart h b \<in># y_goroutines s" "resolve h = Inr here"
    and gos: "y_goroutines t = y_goroutines s - {#GStart h b#} + mset nxt" "\<And>g. g \<in> set nxt \<Longrightarrow> tok g = Some here"
    and same: "y_cluster t = y_cluster s" "y_complete t = y_complete s" "y_seen t = insert here (y_seen s)"
      "\<And>r. r \<noteq> here \<Longrightarrow> y_notYetAdded t r = y_notYetAdded s r"
      "y_addIfFound t = y_addIfFound s \<or> b \<and> y_addIfFound t = insert here (y_addIfFound s)"
    and ph: "phase (cl_direct c) (answer attempt c here) (kept resolve attempt c here) (found c here) here True
      (toks here (y_goroutines t)) (y_notYetAdded t here) (found (y_cluster s) here) (here \<in> y_addIfFound t) (y_complete t)"
    and ids: "idents t \<subseteq> idents s \<union> {}"
    and by_master: "b \<Longrightarrow> here \<in> y_addIfFound t \<or> decided here t"
    and dec: "here \<in> y_seen s \<Longrightarrow> decided here s \<Longrightarrow> decided here t"
    and peers: "here \<notin> y_seen s \<Longrightarrow> \<exists>g \<in> set nxt. spawns g"
  shows "sync_inv resolve attempt c t"
proof (rule sync_invI)
  note I = sync_invD [OF inv]
  have con: "here \<in> contacted resolve attempt c" "b \<longrightarrow> vouched resolve attempt c here" using I(10) g by blast+
  have tk: "toks r (mset nxt) = (if r = here then mset nxt else {#})" for r
    using gos(2) by (induction nxt) auto
  have toks: "toks r (y_goroutines t) = toks r (y_goroutines s) + (if r = here then mset nxt else {#})" for r
    using g by (simp add: gos toks_diff tk)
  have decs: "decided r t" if "r \<in> y_seen s" "decided r s" for r
    using that dec same(4) toks unfolding decided_def by (cases "r = here") (auto simp: decided_def)
  have hm: "handled resolve h' b' t" if "handled resolve h' b' s" for h' b'
  proof (rule handled_mono [OF that])
    show "y_seen s \<subseteq> y_seen t" "y_addIfFound s \<subseteq> y_addIfFound t" using same(3,5) by auto
    show "GStart h' b' \<in># y_goroutines t \<or> r \<in> y_seen t \<and> (b' \<longrightarrow> r \<in> y_addIfFound t \<or> decided r t)"
      if m: "GStart h' b' \<in># y_goroutines s" "resolve h' = Inr r" for r
    proof (cases "GStart h' b' = GStart h b")
      case True
      then show ?thesis using m g(2) same(3) by_master by simp
    next
      case False
      then have "GStart h' b' \<in># y_goroutines t" using m(1) unfolding gos(1) by (simp add: mem_other)
      then show ?thesis by blast
    qed
  qed (rule decs)
  show "cluster_ok (y_cluster t)" "cl_direct (y_cluster t) = cl_direct c" "cl_failFast (y_cluster t) = cl_failFast c"
      "cl_panic (y_cluster t) = cl_panic c"
    using I(1-4) same(1) by simp_all
  show "phase (cl_direct c) (answer attempt c r) (kept resolve attempt c r) (found c r) r (r \<in> y_seen t)
      (toks r (y_goroutines t)) (y_notYetAdded t r) (found (y_cluster t) r) (r \<in> y_addIfFound t) (y_complete t)" for r
  proof (cases "r = here")
    case True
    then show ?thesis using ph same(1,3) by simp
  next
    case False
    then have "(r \<in> y_seen t) = (r \<in> y_seen s)" "(r \<in> y_addIfFound t) = (r \<in> y_addIfFound s)"
      using same(3,5) by auto
    then show ?thesis using I(5) [of r] same False toks by simp
  qed
  show "p < cl_fresh (y_cluster t)" if "(p, a) \<in> idents t" for p a using ids that I(6) [of p a] same(1) by auto
  show "a' = a" if "(p, a) \<in> idents t" "(p, a') \<in> idents t" for p a a' using ids that I(7) [of p a a'] by auto
  show "y_seen t \<subseteq> contacted resolve attempt c" using I(8) con same(3) by auto
  show "vouched resolve attempt c r" if "r \<in> y_addIfFound t" for r using I(9) [of r] con same(5) that by auto
  show "r \<in> contacted resolve attempt c \<and> (b' \<longrightarrow> vouched resolve attempt c r)"
    if m: "GStart h' b' \<in># y_goroutines t" "resolve h' = Inr r" for h' b' r
  proof -
    have "GStart h' b' \<notin> set nxt" using gos(2) [of "GStart h' b'"] by auto
    then have "GStart h' b' \<in># y_goroutines s" using m(1) unfolding gos(1) by (auto dest: in_diffD)
    then show ?thesis using I(10) m(2) by blast
  qed
  show "primary_found resolve attempt c" if "y_complete t" using I(11) same(2) that by simp
  show "handled resolve h False t" if "h \<in> set (getKnownAddrs c)" for h using hm I(12) that by blast
  show "(\<exists>g \<in># toks r (y_goroutines t). spawns g) \<or> (\<forall>h \<in> set hosts. handled resolve h (si_Master info) t)"
    if a: "r \<in> y_seen t" "answer attempt c r = Some (info, hosts)" "\<not> cl_direct c" for r info hosts
  proof (cases "r \<in> y_seen s")
    case True
    then have "(\<exists>g \<in># toks r (y_goroutines s). spawns g) \<or> (\<forall>h \<in> set hosts. handled resolve h (si_Master info) s)"
      using I(13) a by simp
    then show ?thesis using hm toks [of r] by (cases "r = here") (auto simp del: toks_simps(4))
  next
    case False
    then have "r = here" using a(1) same(3) by simp
    then have "\<exists>g \<in> set nxt. spawns g" using peers False by simp
    then show ?thesis using toks \<open>r = here\<close> by auto
  qed
qed

lemma inv_start:
  assumes inv: "sync_inv resolve attempt c s" and g: "GStart h b \<in># y_goroutines s"
    and run: "run_goroutine resolve attempt (GStart h b) s = (nxt, s')"
  shows "sync_inv resolve attempt c (after (GStart h b) nxt s s')"
proof (cases "resolve h")
  case (Inl e)
  note I = sync_invD [OF inv]
  have n: "nxt = []" "s' = s" using run Inl by auto
  let ?t = "after (GStart h b) nxt s s'"
  have toks: "toks r (y_goroutines ?t) = toks r (y_goroutines s)" for r using g by (simp add: n toks_diff)
  have decs: "decided r ?t" if "decided r s" for r
    using that unfolding decided_def toks by (simp add: n)
  have hm: "handled resolve h' b' ?t" if "handled resolve h' b' s" for h' b'
    using that
  proof (rule handled_mono)
    show "GStart h' b' \<in># y_goroutines ?t \<or> r \<in> y_seen ?t \<and> (b' \<longrightarrow> r \<in> y_addIfFound ?t \<or> decided r ?t)"
      if m: "GStart h' b' \<in># y_goroutines s" "resolve h' = Inr r" for r
    proof -
      have "GStart h' b' \<noteq> GStart h b" using m(2) Inl by auto
      then have "GStart h' b' \<in># y_goroutines ?t" using m(1) by (simp add: n mem_other)
      then show ?thesis by blast
    qed
  qed (use decs in \<open>auto simp: n\<close>)
  have ids: "idents ?t \<subseteq> idents s \<union> {}"
    using idents_mem(2,3) by (intro idents_step [OF g]) (auto simp: n)
  show ?thesis
  proof (rule sync_invI)
    show "phase (cl_direct c) (answer attempt c r) (kept resolve attempt c r) (found c r) r (r \<in> y_seen ?t)
      (toks r (y_goroutines ?t)) (y_notYetAdded ?t r) (found (y_cluster ?t) r) (r \<in> y_addIfFound ?t) (y_complete ?t)" for r
      using I(5) [of r] unfolding toks by (simp add: n)
    show "r \<in> contacted resolve attempt c \<and> (b' \<longrightarrow> vouched resolve attempt c r)"
      if "GStart h' b' \<in># y_goroutines ?t" "resolve h' = Inr r" for h' b' r
      using that I(10) by (auto simp: n dest: in_diffD)
    show "(\<exists>g \<in># toks r (y_goroutines ?t). spawns g) \<or> (\<forall>h \<in> set hosts. handled resolve h (si_Master info) ?t)"
      if "r \<in> y_seen ?t" "answer attempt c r = Some (info, hosts)" "\<not> cl_direct c" for r info hosts
      using I(13) [of r info hosts] that hm unfolding toks by (auto simp: n)
    show "a' = a" if "(p, a) \<in> idents ?t" "(p, a') \<in> idents ?t" for p a a' using ids that I(7) [of p a a'] by auto
    show "p < cl_fresh (y_cluster ?t)" if "(p, a) \<in> idents ?t" for p a using ids that I(6) [of p a] by (auto simp: n)
  qed (use I(1-4,8,9,11,12) hm in \<open>auto simp: n\<close>)
next
  case (Inr r)
  note I = sync_invD [OF inv]
  let ?t = "after (GStart h b) nxt s s'"
  have con: "r \<in> contacted resolve attempt c" "b \<longrightarrow> vouched resolve attempt c r" using I(10) g Inr by blast+
  have td: "toks r (y_goroutines s - {#GStart h b#}) = toks r (y_goroutines s)" using g by (simp add: toks_diff)
  show ?thesis
  proof (cases "if b then y_notYetAdded s r else None")
    case (Some vi)
    then obtain v info where n0: "b" "y_notYetAdded s r = Some (v, info)" by (cases vi) (auto split: if_splits)
    have n: "nxt = [GAdd v info None]" "s' = s\<lparr>y_notYetAdded := (y_notYetAdded s)(r := None)\<rparr>" using run Inr n0 by auto
    obtain hosts where P: "r \<in> y_seen s" "toks r (y_goroutines s) = {#}" "compat r v (found c r)"
      "answer attempt c r = Some (info, hosts)" "\<not> cl_direct c" "\<not> si_Master info" "found (y_cluster s) r = found c r"
      using phase_pending [of "cl_direct c"] I(5) [of r] unfolding n0(2) by metis
    have rv: "sv_ResolvedAddr v = r" using P(3) by (simp add: compat_def)
    have k: "kept resolve attempt c r" using contacted_primary [OF con(1) P(4)] con(2) n0(1) by blast
    have ids: "idents ?t \<subseteq> idents s \<union> {}"
      using idents_mem(2,3) idents_mem(3) [OF n0(2)] by (intro idents_step [OF g]) (auto simp: n split: if_splits)
    have dt: "decided r ?t" by (simp add: decided_def n rv td P(2))
    show ?thesis
    proof (rule start_at [OF inv g Inr, where nxt = nxt])
      show "phase (cl_direct c) (answer attempt c r) (kept resolve attempt c r) (found c r) r True
        (toks r (y_goroutines ?t)) (y_notYetAdded ?t r) (found (y_cluster s) r) (r \<in> y_addIfFound ?t) (y_complete ?t)"
        using ph_add [OF P(3,4), of None] k P(5,6) by (simp add: n rv td P(2,4,7))
    qed (use dt ids P(1) in \<open>simp_all add: n rv insert_absorb\<close>)
  next
    case None
    define s1 where "s1 = (if b then s\<lparr>y_addIfFound := insert r (y_addIfFound s)\<rparr> else s)"
    have n: "(nxt, s') = (if r \<in> y_seen s then ([], s1) else ([GServer h r], s1\<lparr>y_seen := insert r (y_seen s)\<rparr>))"
      using run Inr None unfolding s1_def by (simp add: Let_def)
    have s1: "y_cluster s1 = y_cluster s" "y_complete s1 = y_complete s" "y_seen s1 = y_seen s"
      "y_notYetAdded s1 = y_notYetAdded s" "y_addIfFound s1 = (if b then insert r (y_addIfFound s) else y_addIfFound s)"
      by (auto simp: s1_def)
    have nn: "y_notYetAdded s r = None" if b using None that by simp
    show ?thesis
    proof (cases "r \<in> y_seen s")
      case True
      then have n: "nxt = []" "s' = s1" using n by auto
      have tt: "toks r (y_goroutines ?t) = toks r (y_goroutines s)" by (simp add: n td)
      have "phase (cl_direct c) (answer attempt c r) (kept resolve attempt c r) (found c r) r True
        (toks r (y_goroutines ?t)) (y_notYetAdded ?t r) (found (y_cluster s) r) (r \<in> y_addIfFound ?t) (y_complete ?t)"
        using phase_weaken [OF I(5) [of r], of "y_complete s" "b \<or> r \<in> y_addIfFound s"] nn True
        unfolding tt by (cases b) (simp_all add: n s1)
      moreover have "idents ?t \<subseteq> idents s \<union> {}"
        using idents_mem(2,3) by (intro idents_step [OF g]) (auto simp: n s1)
      ultimately show ?thesis
        by (intro start_at [OF inv g Inr, where nxt = nxt]) (use True n s1 in \<open>auto simp: decided_def td\<close>)
    next
      case False
      then have n: "nxt = [GServer h r]" "s' = s1\<lparr>y_seen := insert r (y_seen s)\<rparr>" using n by auto
      have U: "toks r (y_goroutines s) = {#}" "y_notYetAdded s r = None" "found (y_cluster s) r = found c r"
        using phase_unseen I(5) [of r] False by auto
      have "idents ?t \<subseteq> idents s \<union> {}"
        using idents_mem(2,3) by (intro idents_step [OF g]) (auto simp: n s1)
      then show ?thesis
        by (intro start_at [OF inv g Inr, where nxt = nxt])
          (use False n s1 U ph_server [of "cl_direct c" "answer attempt c r"] in \<open>auto simp: td\<close>)
    qed
  qed
qed


lemma sync_inv_step:
  assumes "sync_inv resolve attempt c s" and "sync_step resolve attempt s t"
  shows "sync_inv resolve attempt c t"
  using assms(2)
proof (cases rule: sync_step.cases)
  case (1 g nxt s')
  show ?thesis
    using assms(1) 1(2,3) unfolding 1(1)
    by (cases g; hypsubst) (erule (2) inv_start inv_server inv_sync inv_remove inv_decide inv_add)+
qed

lemma sync_inv_start:
  assumes "cluster_ok c"
  shows "sync_inv resolve attempt c (sync_start c)"
proof -
  let ?s = "sync_start c"
  have S: "y_cluster ?s = c" "y_notYetAdded ?s = (\<lambda>r. None)" "y_addIfFound ?s = {}" "y_seen ?s = {}" "\<not> y_complete ?s"
    "y_goroutines ?s = image_mset (\<lambda>addr. GStart addr False) (mset (getKnownAddrs c))"
    by (simp_all add: sync_start_def)
  have gs: "GStart h b \<in># y_goroutines ?s \<longleftrightarrow> h \<in> set (getKnownAddrs c) \<and> \<not> b" for h b by (auto simp: S)
  have tk: "toks r (y_goroutines ?s) = {#}" for r
    unfolding S toks_def by (induction "getKnownAddrs c" rule: list.induct) (simp_all add: filter_mset_image_mset)
  have ids: "idents ?s = ident ` set (cl_servers c)"
    unfolding idents_def by (auto simp: S)
  show ?thesis
  proof (rule sync_invI)
    show "phase (cl_direct c) (answer attempt c r) (kept resolve attempt c r) (found c r) r (r \<in> y_seen ?s)
        (toks r (y_goroutines ?s)) (y_notYetAdded ?s r) (found (y_cluster ?s) r) (r \<in> y_addIfFound ?s) (y_complete ?s)" for r
      unfolding tk using ph_unseen by (simp add: S(1-4))
    show "p < cl_fresh (y_cluster ?s)" if "(p, a) \<in> idents ?s" for p a
      using assms that by (auto simp: ids S ident_def cluster_ok_def)
    show "a' = a" if "(p, a) \<in> idents ?s" "(p, a') \<in> idents ?s" for p a a'
      using assms that by (auto simp: ids ident_def cluster_ok_def inj_on_def)
    show "r \<in> contacted resolve attempt c \<and> (b \<longrightarrow> vouched resolve attempt c r)"
      if "GStart h b \<in># y_goroutines ?s" "resolve h = Inr r" for h b r
      using that contacted_known unfolding gs by blast
    show "handled resolve h False ?s" if "h \<in> set (getKnownAddrs c)" for h
      using that gs by (simp add: handled_def)
  qed (use assms in \<open>simp_all add: S\<close>)
qed

interpretation sync: invariant "\<lambda>s. cluster_ok c \<and> s = sync_start c" "sync_step resolve attempt" "sync_inv resolve attempt c"
  for resolve attempt c
  by unfold_locales (use sync_inv_start sync_inv_step in blast)+

text \<open>When all goroutines have ended, the addresses seen are those contacted, and those vouched for are not pending.\<close>

lemma sync_ended:
  assumes inv: "sync_inv resolve attempt c s" and "y_goroutines s = {#}"
  shows "y_seen s = contacted resolve attempt c"
    and "r \<in> contacted resolve attempt c \<Longrightarrow> y_notYetAdded s r \<noteq> None \<Longrightarrow>
      \<not> kept resolve attempt c r \<and> (\<exists>v info hosts. y_notYetAdded s r = Some (v, info) \<and>
        found (y_cluster s) r = found c r \<and> compat r v (found (y_cluster s) r) \<and> answer attempt c r = Some (info, hosts))"
proof -
  note I = sync_invD [OF inv]
  have H: "handled resolve h b s \<longleftrightarrow>
      (\<forall>r. resolve h = Inr r \<longrightarrow> r \<in> y_seen s \<and> (b \<longrightarrow> r \<in> y_addIfFound s \<or> y_notYetAdded s r = None))" for h b
    by (simp add: handled_def decided_def assms(2))
  have peers: "handled resolve h (si_Master info) s"
    if "r \<in> y_seen s" "answer attempt c r = Some (info, hosts)" "\<not> cl_direct c" "h \<in> set hosts" for r info hosts h
    using I(13) [OF that(1-3)] that(4) by (simp add: assms(2))
  have "r \<in> y_seen s" if "r \<in> contacted resolve attempt c" for r
    using that
  proof induction
    case (contacted_known addr r)
    then show ?case using I(12) [of addr] H by blast
  next
    case (contacted_peer r info hosts h r')
    then show ?case using peers [of r info hosts h] H by blast
  qed
  then show seen: "y_seen s = contacted resolve attempt c" using I(8) by blast
  show "\<not> kept resolve attempt c r \<and> (\<exists>v info hosts. y_notYetAdded s r = Some (v, info) \<and>
      found (y_cluster s) r = found c r \<and> compat r v (found (y_cluster s) r) \<and> answer attempt c r = Some (info, hosts))"
    if n: "y_notYetAdded s r \<noteq> None"
  proof -
    obtain v info where vi: "y_notYetAdded s r = Some (v, info)" using n by auto
    have F: "found (y_cluster s) r = found c r" using phase_pending I(5) [of r] unfolding vi by blast
    have P: "compat r v (found (y_cluster s) r)" "\<exists>hosts. answer attempt c r = Some (info, hosts)" "\<not> cl_direct c"
      "\<not> si_Master info" "r \<notin> y_addIfFound s"
      using phase_pending I(5) [of r] unfolding vi by blast+
    have "\<not> vouched resolve attempt c r"
    proof
      assume "vouched resolve attempt c r"
      then obtain q i hs h where q: "q \<in> contacted resolve attempt c" "answer attempt c q = Some (i, hs)" "si_Master i"
        "\<not> cl_direct c" "h \<in> set hs" "resolve h = Inr r"
        unfolding vouched_def by blast
      then have "handled resolve h True s" using peers [of q i hs h] seen by simp
      then have "r \<in> y_addIfFound s \<or> y_notYetAdded s r = None" using q(6) H [of h True] by simp
      then show False using P(5) n by simp
    qed
    then have "\<not> kept resolve attempt c r" using P(2-4) unfolding kept_def by auto
    then show ?thesis using P(1,2) F vi by blast
  qed
qed


subsection \<open>What is left at the end\<close>

lemma settle_complete:
  assumes "y_complete s" and "\<And>r v info. r \<in> set ks \<Longrightarrow> y_notYetAdded s r = Some (v, info) \<Longrightarrow> sv_ResolvedAddr v = r"
    and "\<And>r. r \<in> set ks \<Longrightarrow> y_notYetAdded s r \<noteq> None" and "cluster_ok c"
  shows "cluster_ok (fold (settle s) ks c) \<and> cl_panic (fold (settle s) ks c) = cl_panic c \<and>
    (\<forall>r. found (fold (settle s) ks c) r = (if r \<in> set ks then None else found c r))"
  using assms(2-)
proof (induction ks arbitrary: c)
  case (Cons k ks)
  obtain v info where v: "y_notYetAdded s k = Some (v, info)" using Cons.prems(2) [of k] by auto
  have k: "sv_ResolvedAddr v = k" using Cons.prems(1) [OF _ v] by simp
  have st: "settle s k c = removeServer v c" using v assms(1) by (simp add: settle_def)
  note R = removeServer_ok [OF Cons.prems(3), of v]
  have "cluster_ok (fold (settle s) ks (removeServer v c)) \<and>
      cl_panic (fold (settle s) ks (removeServer v c)) = cl_panic (removeServer v c) \<and>
      (\<forall>r. found (fold (settle s) ks (removeServer v c)) r = (if r \<in> set ks then None else found (removeServer v c) r))"
    using Cons.IH [OF Cons.prems(1,2) R(1)] by simp
  then show ?case by (simp add: st R(2,6) k)
qed simp

lemma addServer_unknown:
  assumes "slice_ok (cl_servers c)" and "found c (sv_ResolvedAddr v) = None"
  shows "addServer v info False c = close_server v c"
  using assms by (simp add: addServer_def servers_Search_eq)

definition infos :: "cluster \<Rightarrow> string \<Rightarrow> server_info option" where
  "infos c r = map_option sv_info (found c r)"

text \<open>Adding what is left when no primary was found only updates servers the cluster has.\<close>

lemma settle_incomplete:
  assumes "\<not> y_complete s" and "distinct ks"
    and "\<And>r. r \<in> set ks \<Longrightarrow> \<exists>v info. y_notYetAdded s r = Some (v, info) \<and> compat r v (found c r) \<and> sv_ptr v < cl_fresh c"
    and "\<And>r v info w. y_notYetAdded s r = Some (v, info) \<Longrightarrow> w \<in> set (cl_servers c) \<Longrightarrow> sv_ptr w = sv_ptr v \<Longrightarrow>
      sv_ResolvedAddr w = sv_ResolvedAddr v"
    and "cluster_ok c"
  shows "cluster_ok (fold (settle s) ks c) \<and> cl_panic (fold (settle s) ks c) = cl_panic c \<and>
    (\<forall>r. infos (fold (settle s) ks c) r =
      (if r \<in> set ks \<and> found c r \<noteq> None then map_option snd (y_notYetAdded s r) else infos c r))"
  using assms(2-)
proof (induction ks arbitrary: c)
  case (Cons k ks)
  obtain v info where v: "y_notYetAdded s k = Some (v, info)" "compat k v (found c k)" "sv_ptr v < cl_fresh c"
    using Cons.prems(2) [of k] by auto
  have k: "sv_ResolvedAddr v = k" using v(2) by (simp add: compat_def)
  have st: "settle s k c = addServer v info False c" using v assms(1) by (simp add: settle_def)
  have slice: "slice_ok (cl_servers c)" using Cons.prems(4) by (simp add: cluster_ok_def)
  let ?c = "addServer v info False c"
  have C: "cluster_ok ?c \<and> cl_panic ?c = cl_panic c \<and> cl_fresh ?c = cl_fresh c \<and>
      (\<forall>r. r \<noteq> k \<longrightarrow> found ?c r = found c r) \<and>
      infos ?c k = (if found c k \<noteq> None then Some info else None) \<and> (found ?c k \<noteq> None \<longrightarrow> found c k \<noteq> None) \<and>
      ident ` set (cl_servers ?c) \<subseteq> ident ` set (cl_servers c)"
  proof (cases "found c k")
    case None
    have e: "?c = close_server v c" using addServer_unknown [OF slice] None k by simp
    show ?thesis using Cons.prems(4) None by (simp add: e close_server_def cluster_ok_def infos_def)
  next
    case (Some w)
    have w: "sv_ptr w = sv_ptr v" "sv_ResolvedAddr w = k" "w \<in> set (cl_servers c)"
      using v(2) Some found_iff [OF slice] by (auto simp: compat_def)
    have "x = w" if "x \<in> set (cl_servers c)" "sv_ResolvedAddr x = k" for x
      using found_iff [OF slice, of k x] Some that by simp
    then have "addable v c"
      unfolding addable_def using v(3) Cons.prems(3) [OF v(1)] w(1) by (metis k)
    note A = addServer_ok [OF Cons.prems(4) this, of False info]
    have "ident v = ident w" using w k by (simp add: ident_def)
    then have "ident ` set (cl_servers ?c) \<subseteq> ident ` set (cl_servers c)"
      using addServer_ident [of v info False c] w(3) by auto
    then show ?thesis using A Some k by (auto simp: infos_def)
  qed
  have "\<exists>v' info'. y_notYetAdded s r = Some (v', info') \<and> compat r v' (found ?c r) \<and> sv_ptr v' < cl_fresh ?c"
    if "r \<in> set ks" for r
    using Cons.prems(1) Cons.prems(2) [of r] that C by (cases "r = k") auto
  moreover have "sv_ResolvedAddr w = sv_ResolvedAddr v'"
    if n: "y_notYetAdded s r = Some (v', info')" "w \<in> set (cl_servers ?c)" "sv_ptr w = sv_ptr v'" for r v' info' w
  proof -
    have "ident w \<in> ident ` set (cl_servers c)" using C n(2) by blast
    then obtain w' where "w' \<in> set (cl_servers c)" "ident w' = ident w" by force
    then show ?thesis using Cons.prems(3) [OF n(1), of w'] n(3) by (simp add: ident_def)
  qed
  ultimately have F: "cluster_ok (fold (settle s) ks ?c) \<and> cl_panic (fold (settle s) ks ?c) = cl_panic ?c \<and>
    (\<forall>r. infos (fold (settle s) ks ?c) r =
      (if r \<in> set ks \<and> found ?c r \<noteq> None then map_option snd (y_notYetAdded s r) else infos ?c r))"
    using Cons.IH [of ?c] Cons.prems(1) C by simp
  have "infos (fold (settle s) ks ?c) r =
      (if r \<in> set (k # ks) \<and> found c r \<noteq> None then map_option snd (y_notYetAdded s r) else infos c r)" for r
  proof (cases "r = k")
    case True
    then show ?thesis using F C v(1) Cons.prems(1) by (simp add: infos_def)
  next
    case False
    then have "found ?c r = found c r" using C by blast
    then show ?thesis using F False by (auto simp: infos_def)
  qed
  then show ?case using F C by (simp add: st)
qed simp


subsection \<open>The topology found\<close>

text \<open>The servers after a synchronization, by address: not asked, silent, and answering ones.\<close>

definition topology ::
  "(string \<Rightarrow> gerror + string) \<Rightarrow> (string \<Rightarrow> nat \<Rightarrow> gerror + is_master_result) \<Rightarrow> cluster \<Rightarrow> string \<Rightarrow> server_info option"
where
  "topology resolve attempt c r =
     (if r \<notin> contacted resolve attempt c then infos c r
      else case answer attempt c r of
          None \<Rightarrow> None
        | Some (info, hosts) \<Rightarrow>
            if (if primary_found resolve attempt c then kept resolve attempt c r else found c r \<noteq> None)
            then Some info else None)"

lemma sync_complete_iff:
  assumes inv: "sync_inv resolve attempt c s" and "y_goroutines s = {#}"
  shows "y_complete s \<longleftrightarrow> primary_found resolve attempt c"
proof
  note I = sync_invD [OF inv] and E = sync_ended [OF assms]
  assume "primary_found resolve attempt c"
  then obtain r info hosts where r: "r \<in> contacted resolve attempt c" "answer attempt c r = Some (info, hosts)"
    "cl_direct c \<or> si_Master info"
    unfolding primary_found_def by blast
  then have "kept resolve attempt c r" by (auto simp: kept_def)
  then have "y_notYetAdded s r = None" using E(2) [OF r(1)] by blast
  then show "y_complete s" using phase_end I(5) [of r] r E(1) assms(2) by (fastforce simp: toks_def)
qed (use sync_invD(11) [OF inv] in blast)

lemma sync_left:
  assumes inv: "sync_inv resolve attempt c s" and "y_goroutines s = {#}" and "y_notYetAdded s r = None"
  shows "topology resolve attempt c r = infos (y_cluster s) r"
proof (cases "r \<in> contacted resolve attempt c")
  case True
  note C = sync_complete_iff [OF assms(1,2)]
  have tk: "toks r (y_goroutines s) = {#}" by (simp add: assms(2))
  consider "answer attempt c r = None" "found (y_cluster s) r = None"
    | info hosts v where "answer attempt c r = Some (info, hosts)" "kept resolve attempt c r"
        "found (y_cluster s) r = Some v" "sv_info v = info"
    using phase_end [of "cl_direct c" "answer attempt c r"] sync_invD(5) [OF inv, of r] True
      sync_ended(1) [OF assms(1,2)] unfolding tk assms(3) by fastforce
  then show ?thesis
  proof cases
    case 2
    have "primary_found resolve attempt c" using 2(2) unfolding kept_def vouched_def primary_found_def by blast
    then show ?thesis using 2 True by (simp add: topology_def infos_def)
  qed (simp add: topology_def infos_def True)
next
  case False
  then have "r \<notin> y_seen s" using sync_invD(8) [OF inv] by blast
  then have "found (y_cluster s) r = found c r" using phase_unseen sync_invD(5) [OF inv, of r] by auto
  then show ?thesis using False by (simp add: topology_def infos_def)
qed

lemma sync_settled:
  assumes inv: "sync_inv resolve attempt c s" and "y_goroutines s = {#}"
    and "distinct ks" and "set ks = dom (y_notYetAdded s)"
  defines "c' \<equiv> fold (settle s) ks (y_cluster s)"
  shows "cluster_ok c' \<and> cl_panic c' = cl_panic c \<and> infos c' r = topology resolve attempt c r"
proof -
  note I = sync_invD [OF inv] and C = sync_complete_iff [OF assms(1,2)]
  have pend: "\<exists>v info hosts. y_notYetAdded s r = Some (v, info) \<and> found (y_cluster s) r = found c r \<and>
      compat r v (found (y_cluster s) r) \<and> answer attempt c r = Some (info, hosts) \<and>
      \<not> kept resolve attempt c r \<and> r \<in> contacted resolve attempt c" if "r \<in> set ks" for r
  proof -
    have n: "y_notYetAdded s r \<noteq> None" using that assms(4) by auto
    then have "r \<in> y_seen s" using phase_pending I(5) [of r] by fastforce
    then show ?thesis using sync_ended(2) [OF assms(1,2) _ n] I(8) by blast
  qed
  have left: "topology resolve attempt c r = infos (y_cluster s) r" if "r \<notin> set ks" for r
    using sync_left [OF assms(1,2), of r] that assms(4) by auto
  have addr: "sv_ResolvedAddr v = r" if "r \<in> set ks" "y_notYetAdded s r = Some (v, info)" for r v info
    using pend [OF that(1)] that(2) by (auto simp: compat_def)
  show ?thesis
  proof (cases "y_complete s")
    case True
    have S: "cluster_ok c' \<and> cl_panic c' = cl_panic (y_cluster s) \<and>
        (\<forall>r. found c' r = (if r \<in> set ks then None else found (y_cluster s) r))"
      unfolding c'_def by (rule settle_complete [OF True]) (use addr assms(4) I(1) in auto)
    have "topology resolve attempt c r = None" if "r \<in> set ks"
      using pend [OF that] True C by (auto simp: topology_def)
    then show ?thesis using S left [of r] I(4) by (auto simp: infos_def)
  next
    case False
    have S: "cluster_ok c' \<and> cl_panic c' = cl_panic (y_cluster s) \<and> (\<forall>r. infos c' r =
        (if r \<in> set ks \<and> found (y_cluster s) r \<noteq> None then map_option snd (y_notYetAdded s r) else infos (y_cluster s) r))"
      unfolding c'_def
    proof (rule settle_incomplete [OF False assms(3)])
      show "\<exists>v info. y_notYetAdded s r = Some (v, info) \<and> compat r v (found (y_cluster s) r) \<and>
          sv_ptr v < cl_fresh (y_cluster s)" if "r \<in> set ks" for r
        using pend [OF that] I(6) idents_mem(3) [of s r] unfolding ident_def by blast
      show "sv_ResolvedAddr w = sv_ResolvedAddr v"
        if "y_notYetAdded s r = Some (v, info)" "w \<in> set (cl_servers (y_cluster s))" "sv_ptr w = sv_ptr v" for r v info w
        using I(7) [of "sv_ptr v" "sv_ResolvedAddr v" "sv_ResolvedAddr w"] idents_mem(2) [OF that(2)]
          idents_mem(3) [OF that(1)] that(3) by (simp add: ident_def)
    qed (rule I(1))
    have "topology resolve attempt c r = (if found (y_cluster s) r \<noteq> None then map_option snd (y_notYetAdded s r) else None)"
      if "r \<in> set ks"
      using pend [OF that] False C by (force simp: topology_def)
    then show ?thesis using S left [of r] I(4) by (cases "r \<in> set ks") (auto simp: infos_def)
  qed
qed

end
