(* ===== verification/MgoTopology.thy ===== *)
theory MgoTopology
  imports MgoSync
begin

text \<open>
  What a synchronization of the topology achieves: it ends, and however its goroutines were scheduled it
  ends in the cluster \<open>topology\<close> describes, with as masters the servers that say they are.
\<close>

subsection \<open>It ends\<close>

text \<open>The hosts an address can send goroutines to, and the steps a goroutine has left.\<close>

definition peers_of :: "(string \<Rightarrow> nat \<Rightarrow> gerror + is_master_result) \<Rightarrow> cluster \<Rightarrow> string \<Rightarrow> nat" where
  "peers_of attempt c r = (case answer attempt c r of None \<Rightarrow> 0 | Some (info, hosts) \<Rightarrow> length hosts)"

fun steps_left :: "(string \<Rightarrow> nat \<Rightarrow> gerror + is_master_result) \<Rightarrow> cluster \<Rightarrow> goroutine \<Rightarrow> nat" where
  "steps_left attempt c (GStart addr b) = 2"
| "steps_left attempt c (GServer addr r) = 4 + 2 * peers_of attempt c r"
| "steps_left attempt c (GSync v) = 3 + 2 * peers_of attempt c (sv_ResolvedAddr v)"
| "steps_left attempt c (GRemove v) = 1"
| "steps_left attempt c (GDecide v info hosts) = 2 + 2 * length hosts"
| "steps_left attempt c (GAdd v info k) = 1 + 2 * (case k of None \<Rightarrow> 0 | Some hosts \<Rightarrow> length hosts)"

definition sync_bound ::
  "(string \<Rightarrow> nat \<Rightarrow> gerror + is_master_result) \<Rightarrow> cluster \<Rightarrow> string set \<Rightarrow> goroutine multiset \<Rightarrow> nat"
where
  "sync_bound attempt c R G = (\<Sum>r \<in> R. 4 + 2 * peers_of attempt c r) + (\<Sum>g \<in># G. steps_left attempt c g)"

lemma steps_left_spawn: "(\<Sum>g \<in># mset (spawn direct info hosts). steps_left attempt c g) \<le> 2 * length hosts"
proof -
  have "(\<Sum>g \<in># mset (map (\<lambda>h. GStart h b) hs). steps_left attempt c g) = 2 * length hs" for b hs
    by (induction hs) simp_all
  then show ?thesis by (simp add: spawn_def)
qed

lemma run_goroutine_lowers:
  assumes "finite R" and "run_goroutine resolve attempt g s = (nxt, s')"
    and "cl_direct (y_cluster s) = cl_direct c" and "cl_failFast (y_cluster s) = cl_failFast c"
    and "\<And>h b r. g = GStart h b \<Longrightarrow> resolve h = Inr r \<Longrightarrow> r \<in> R"
    and "\<And>h r. g = GServer h r \<Longrightarrow> slice_ok (cl_servers (y_cluster s))"
  shows "sync_bound attempt c (R - y_seen s') (mset nxt) < sync_bound attempt c (R - y_seen s) {#g#}"
proof (cases g)
  case (GStart h b)
  show ?thesis
  proof (cases "resolve h")
    case (Inr r)
    let ?f = "\<lambda>r. 4 + 2 * peers_of attempt c r"
    have S: "sum ?f (R - y_seen s) = ?f r + sum ?f (R - insert r (y_seen s))" if "r \<notin> y_seen s"
      unfolding Diff_insert [of R r "y_seen s"] by (rule sum.remove) (use assms(1) assms(5) [OF GStart Inr] that in auto)
    have "nxt = [] \<and> y_seen s' = y_seen s \<or> (\<exists>v info. nxt = [GAdd v info None] \<and> y_seen s' = y_seen s) \<or>
        nxt = [GServer h r] \<and> r \<notin> y_seen s \<and> y_seen s' = insert r (y_seen s)"
      using assms(2) Inr by (auto simp: GStart Let_def split: if_splits option.splits)
    then show ?thesis
    proof (elim disjE exE conjE)
      assume "nxt = [GServer h r]" "r \<notin> y_seen s" "y_seen s' = insert r (y_seen s)"
      then show ?thesis using S by (simp add: sync_bound_def GStart)
    qed (simp_all add: sync_bound_def GStart)
  qed (use assms(2) in \<open>auto simp: GStart sync_bound_def\<close>)
next
  case (GServer h r)
  have "sv_ResolvedAddr (fst (cluster_server h r (y_cluster s))) = r"
    using assms(6) [OF GServer] by (auto simp: cluster_server_def servers_Search_eq split: option.split dest: by_addr_Some)
  then show ?thesis using assms(2) by (auto simp: GServer sync_bound_def split: prod.splits)
next
  case (GSync v)
  show ?thesis
    using assms(2-4) syncServer_answer [of attempt c "sv_ResolvedAddr v" "sv_Addr v"]
    by (auto simp: GSync sync_bound_def peers_of_def split: sum.splits)
next
  case (GDecide v info hosts)
  then show ?thesis
    using assms(2) steps_left_spawn [of attempt c "cl_direct c" info hosts]
    by (auto simp: sync_bound_def assms(3) split: if_splits)
next
  case (GAdd v info k)
  show ?thesis
    using assms(2) steps_left_spawn [of attempt c "cl_direct c" info "the k"]
    by (cases k) (auto simp: GAdd sync_bound_def assms(3))
qed (use assms(2) in \<open>auto simp: sync_bound_def\<close>)

lemma sync_step_lowers:
  assumes fin: "finite (contacted resolve attempt c)" and inv: "sync_inv resolve attempt c s"
    and step: "sync_step resolve attempt s t"
  shows "sync_bound attempt c (contacted resolve attempt c - y_seen t) (y_goroutines t) <
    sync_bound attempt c (contacted resolve attempt c - y_seen s) (y_goroutines s)"
  using step
proof (cases rule: sync_step.cases)
  case (1 g nxt s')
  note I = sync_invD [OF inv]
  have split: "sync_bound attempt c R (A + B) = sync_bound attempt c R A + (\<Sum>g \<in># B. steps_left attempt c g)" for R A B
    by (simp add: sync_bound_def)
  have "sync_bound attempt c (contacted resolve attempt c - y_seen s') (mset nxt) <
      sync_bound attempt c (contacted resolve attempt c - y_seen s) {#g#}"
    by (rule run_goroutine_lowers [OF fin 1(3) I(2,3)]) (use I(1,10) 1(2) in \<open>auto simp: cluster_ok_def\<close>)
  moreover have "y_goroutines s = {#g#} + (y_goroutines s - {#g#})" using 1(2) by simp
  ultimately show ?thesis
    using split [of _ "{#g#}" "y_goroutines s - {#g#}"] split [of _ "mset nxt" "y_goroutines s - {#g#}"]
    by (simp add: 1(1) add.commute)
qed

interpretation sync_ends: potential "sync_step resolve attempt" "\<lambda>s t. False"
    "\<lambda>s. finite (contacted resolve attempt c) \<and> sync_inv resolve attempt c s"
    "\<lambda>s. sync_bound attempt c (contacted resolve attempt c - y_seen s) (y_goroutines s)"
  for resolve attempt c
  by unfold_locales (use sync_step_lowers sync_inv_step in blast)+

lemma sync_run: "(sync_step resolve attempt ^^ n) s t \<Longrightarrow> sync_ends.run resolve attempt s n t"
  by (induction n arbitrary: t) (auto intro: sync_ends.run_refl sync_ends.run_part)

lemma sync_step_enabled: "y_goroutines s \<noteq> {#} \<Longrightarrow> \<exists>t. sync_step resolve attempt s t"
proof -
  assume "y_goroutines s \<noteq> {#}"
  then obtain g where "g \<in># y_goroutines s" by blast
  moreover obtain nxt s' where "run_goroutine resolve attempt g s = (nxt, s')" by fastforce
  ultimately show ?thesis using sync_step.intros by blast
qed


subsection \<open>A scheduler\<close>

text \<open>One order of running goroutines: each new one behind all others.\<close>

fun run_fifo ::
  "(string \<Rightarrow> gerror + string) \<Rightarrow> (string \<Rightarrow> nat \<Rightarrow> gerror + is_master_result) \<Rightarrow> nat \<Rightarrow> goroutine list \<Rightarrow> sync_state \<Rightarrow>
   goroutine list \<times> sync_state"
where
  "run_fifo resolve attempt 0 gs s = (gs, s)"
| "run_fifo resolve attempt (Suc n) [] s = ([], s)"
| "run_fifo resolve attempt (Suc n) (g # gs) s =
     (case run_goroutine resolve attempt g s of (nxt, s') \<Rightarrow> run_fifo resolve attempt n (gs @ nxt) s')"

lemma run_goroutine_others:
  "run_goroutine resolve attempt g (s\<lparr>y_goroutines := G\<rparr>) =
     (fst (run_goroutine resolve attempt g s), (snd (run_goroutine resolve attempt g s))\<lparr>y_goroutines := G\<rparr>)"
  by (cases g) (auto simp: Let_def split: sum.split option.split prod.split)

lemma run_fifo_steps:
  "run_fifo resolve attempt n gs s = (gs', s') \<Longrightarrow>
     rtranclp (sync_step resolve attempt) (s\<lparr>y_goroutines := mset gs\<rparr>) (s'\<lparr>y_goroutines := mset gs'\<rparr>)"
proof (induction resolve attempt n gs s rule: run_fifo.induct)
  case (3 resolve attempt n g gs s)
  obtain nxt s1 where r: "run_goroutine resolve attempt g s = (nxt, s1)" by fastforce
  have "sync_step resolve attempt (s\<lparr>y_goroutines := mset (g # gs)\<rparr>)
      (s1\<lparr>y_goroutines := mset (g # gs)\<rparr>\<lparr>y_goroutines := mset (g # gs) - {#g#} + mset nxt\<rparr>)"
    using sync_step.intros [of g "s\<lparr>y_goroutines := mset (g # gs)\<rparr>" resolve attempt]
    by (simp add: run_goroutine_others r)
  then have "sync_step resolve attempt (s\<lparr>y_goroutines := mset (g # gs)\<rparr>) (s1\<lparr>y_goroutines := mset (gs @ nxt)\<rparr>)"
    by simp
  then show ?case using 3 r by (simp del: mset.simps)
qed auto

lemma y_goroutines_self: "s\<lparr>y_goroutines := y_goroutines s\<rparr> = s"
  by simp

subsection \<open>Properties\<close>

text \<open>
  C36: a synchronization ends: when finitely many addresses can be reached, a run of its goroutines, in
  whatever order, has a bounded number of steps, and as long as goroutines are left one can run.
\<close>

theorem sync_bounded:
  assumes "cluster_ok c" and "finite (contacted resolve attempt c)"
    and "(sync_step resolve attempt ^^ n) (sync_start c) s"
  shows "n \<le> 2 * length (getKnownAddrs c) + (\<Sum>r \<in> contacted resolve attempt c. 4 + 2 * peers_of attempt c r) \<and>
    (y_goroutines s = {#} \<or> (\<exists>t. sync_step resolve attempt s t))"
proof
  have "sum_mset (image_mset (steps_left attempt c) (mset (map (\<lambda>addr. GStart addr False) as))) = 2 * length as" for as
    by (induction as) simp_all
  then have b: "sync_bound attempt c (contacted resolve attempt c - y_seen (sync_start c)) (y_goroutines (sync_start c)) =
      (\<Sum>r \<in> contacted resolve attempt c. 4 + 2 * peers_of attempt c r) + 2 * length (getKnownAddrs c)"
    by (simp add: sync_start_def sync_bound_def)
  show "n \<le> 2 * length (getKnownAddrs c) + (\<Sum>r \<in> contacted resolve attempt c. 4 + 2 * peers_of attempt c r)"
    using sync_ends.run_bound [OF sync_run [OF assms(3)], of c] sync_inv_start [OF assms(1)] assms(2) unfolding b by simp
  show "y_goroutines s = {#} \<or> (\<exists>t. sync_step resolve attempt s t)" using sync_step_enabled by blast
qed

text \<open>
  C35: however the goroutines of a synchronization are scheduled, and in whatever order the servers left
  pending are gone through, it ends with the servers that \<open>topology\<close> names: those a master is or vouches
  for when there is one, and otherwise those known before that answered, each with what it said. The
  masters are the servers that said so, and the synchronization counts as complete if a primary was found.
\<close>

theorem sync_result:
  assumes "cluster_ok c" and "rtranclp (sync_step resolve attempt) (sync_start c) s" and "y_goroutines s = {#}"
    and "distinct ks" and "set ks = dom (y_notYetAdded s)"
  shows "infos (sync_finish s ks) = topology resolve attempt c \<and>
    (y_complete s \<longleftrightarrow> primary_found resolve attempt c) \<and>
    cl_masters (sync_finish s ks) = filter (\<lambda>v. si_Master (sv_info v)) (cl_servers (sync_finish s ks)) \<and>
    cl_panic (sync_finish s ks) = cl_panic c"
proof -
  have inv: "sync_inv resolve attempt c s"
    using sync.inv_steps [OF assms(2)] sync_inv_start [OF assms(1)] by blast
  have "infos (sync_finish s ks) = infos (fold (settle s) ks (y_cluster s))"
    "cl_masters (sync_finish s ks) = cl_masters (fold (settle s) ks (y_cluster s))"
    "cl_servers (sync_finish s ks) = cl_servers (fold (settle s) ks (y_cluster s))"
    "cl_panic (sync_finish s ks) = cl_panic (fold (settle s) ks (y_cluster s))"
    by (auto simp: sync_finish_def Let_def infos_def fun_eq_iff)
  then show ?thesis
    using sync_settled [OF inv assms(3-5)] sync_complete_iff [OF inv assms(3)]
    by (simp add: cluster_ok_def fun_eq_iff)
qed


subsection \<open>A replica set of two\<close>

definition answering :: "bool \<Rightarrow> string list \<Rightarrow> is_master_result" where
  "answering master hosts = \<lparr>im_IsMaster = master, im_Secondary = \<not> master, im_Primary = '''', im_Hosts = hosts,
     im_Passives = [], im_Tags = [], im_Msg = ''''\<rparr>"

definition pair_attempt :: "string \<Rightarrow> nat \<Rightarrow> gerror + is_master_result" where
  "pair_attempt r n = Inr (if r = ''a'' then answering True [''a'', ''b''] else answering False [''c''])"

definition pair_resolve :: "string \<Rightarrow> gerror + string" where
  "pair_resolve h = (if h = ''a'' \<or> h = ''b'' then Inr h else Inl ''no such host'')"

abbreviation pair_cluster :: cluster where
  "pair_cluster \<equiv> newCluster [''b'', ''a''] False False"

lemma pair_cluster_ok: "cluster_ok pair_cluster"
  by (simp add: newCluster_def cluster_ok_def slice_ok_iff)

definition pair_end :: sync_state where
  "pair_end = snd (run_fifo pair_resolve pair_attempt 20 [GStart ''b'' False, GStart ''a'' False] (sync_start pair_cluster))"

lemma pair_contacted: "contacted pair_resolve pair_attempt pair_cluster = {''a'', ''b''}"
proof
  show "contacted pair_resolve pair_attempt pair_cluster \<subseteq> {''a'', ''b''}"
  proof
    fix r
    assume "r \<in> contacted pair_resolve pair_attempt pair_cluster"
    then show "r \<in> {''a'', ''b''}" by cases (auto simp: pair_resolve_def split: if_splits)
  qed
  have "addr \<in> contacted pair_resolve pair_attempt pair_cluster" if "addr \<in> {''a'', ''b''}" for addr
    using that by (intro contacted_known [of addr])
      (auto simp: getKnownAddrs_def newCluster_def known_add_def pair_resolve_def)
  then show "{''a'', ''b''} \<subseteq> contacted pair_resolve pair_attempt pair_cluster" by blast
qed

lemma pair_run:
  "rtranclp (sync_step pair_resolve pair_attempt) (sync_start pair_cluster) (pair_end\<lparr>y_goroutines := {#}\<rparr>)"
proof -
  let ?gs = "[GStart ''b'' False, GStart ''a'' False]"
  have "fst (run_fifo pair_resolve pair_attempt 20 ?gs (sync_start pair_cluster)) = []" by code_simp
  then have "run_fifo pair_resolve pair_attempt 20 ?gs (sync_start pair_cluster) = ([], pair_end)"
    by (simp add: pair_end_def prod_eq_iff)
  from run_fifo_steps [OF this]
  have "rtranclp (sync_step pair_resolve pair_attempt) ((sync_start pair_cluster)\<lparr>y_goroutines := mset ?gs\<rparr>)
      (pair_end\<lparr>y_goroutines := {#}\<rparr>)" by simp
  moreover have "(sync_start pair_cluster)\<lparr>y_goroutines := mset ?gs\<rparr> = sync_start pair_cluster"
    by (simp add: sync_start_def newCluster_def getKnownAddrs_def known_add_def)
  ultimately show ?thesis by simp
qed

lemma pair_pending: "y_notYetAdded pair_end = Map.empty"
  by (simp add: pair_end_def eval_nat_numeral sync_start_def newCluster_def getKnownAddrs_def known_add_def
      pair_resolve_def cluster_server_def servers_Search_eq slice_ok_iff syncServer_def sync_try.simps
      pair_attempt_def answering_def spawn_def addServer_def SetInfo_def fun_eq_iff by_addr_def)

theorem sync_bounded_witness:
  "\<exists>n. (sync_step pair_resolve pair_attempt ^^ n) (sync_start pair_cluster) (pair_end\<lparr>y_goroutines := {#}\<rparr>) \<and> n \<le> 18"
proof -
  obtain n where n: "(sync_step pair_resolve pair_attempt ^^ n) (sync_start pair_cluster) (pair_end\<lparr>y_goroutines := {#}\<rparr>)"
    using pair_run by (auto dest: rtranclp_imp_relpowp)
  have "length (getKnownAddrs pair_cluster) = 2" by (simp add: getKnownAddrs_def newCluster_def known_add_def)
  moreover have "peers_of pair_attempt pair_cluster ''a'' = 2" "peers_of pair_attempt pair_cluster ''b'' = 1" by code_simp+
  ultimately have "n \<le> 18" using sync_bounded [OF pair_cluster_ok _ n] by (simp add: pair_contacted)
  then show ?thesis using n by blast
qed

theorem sync_result_witness:
  "infos (sync_finish (pair_end\<lparr>y_goroutines := {#}\<rparr>) []) = topology pair_resolve pair_attempt pair_cluster \<and>
   map sv_Addr (cl_servers (sync_finish pair_end [])) = [''a'', ''b''] \<and>
   map sv_Addr (cl_masters (sync_finish pair_end [])) = [''a''] \<and> y_complete pair_end"
proof (intro conjI)
  show "infos (sync_finish (pair_end\<lparr>y_goroutines := {#}\<rparr>) []) = topology pair_resolve pair_attempt pair_cluster"
    using sync_result [OF pair_cluster_ok pair_run, of "[]"] by (simp add: pair_pending)
  show "map sv_Addr (cl_servers (sync_finish pair_end [])) = [''a'', ''b'']" by code_simp
  show "map sv_Addr (cl_masters (sync_finish pair_end [])) = [''a'']" by code_simp
  show "y_complete pair_end" by code_simp
qed

end
