(* ===== verification/MgoIter.thy ===== *)
theory MgoIter
  imports MgoSocket MgoQueue
begin

text \<open>
  Iterating over the documents of a query, \<open>Query.Iter\<close>, \<open>Iter.Next\<close> and their helpers in
  \<open>mgo/session.go\<close>: documents arrive through \<open>replyFunc\<close>, called by the goroutine that reads the
  connection, wait in a queue, and \<open>Next\<close> takes them, asking for more when few are left. Every part that
  holds the lock of the iterator is one step. How many documents a reply stands for when more are
  asked early, \<open>int(iter.prefetch*float64(rdocs))\<close>, is the argument \<open>ahead\<close>.
\<close>

subsection \<open>State\<close>

datatype iter_error = NotFound | Failed gerror

text \<open>\<open>it_sent\<close> records the limits of the requests sent; \<open>it_timed\<close> tells that there is a timeout.\<close>

record iter =
  it_docData :: "bytes mqueue"
  it_err :: "iter_error option"
  it_collection :: string
  it_opLimit :: "32 word"
  it_cursorId :: "64 word"
  it_limit :: "32 word"
  it_docsToReceive :: int
  it_docsBeforeMore :: int
  it_timed :: bool
  it_timedout :: bool
  it_sent :: "32 word list"

definition docs_waiting :: "iter \<Rightarrow> int" where
  "docs_waiting it = int (mq_Len (it_docData it))"

subsection \<open>Replies\<close>

definition iter_replyFunc :: "(int \<Rightarrow> int) \<Rightarrow> notice \<Rightarrow> iter \<Rightarrow> iter" where
  "iter_replyFunc ahead n it =
     (let it1 = it\<lparr>it_docsToReceive := it_docsToReceive it - 1\<rparr> in
      case n of
        NErr e \<Rightarrow> it1\<lparr>it_err := Some (Failed e)\<rparr>
      | NNone rp \<Rightarrow>
          if ro_cursorId rp \<noteq> 0 then it1\<lparr>it_cursorId := ro_cursorId rp\<rparr> else it1\<lparr>it_err := Some NotFound\<rparr>
      | NDoc rp docNum d \<Rightarrow>
          (let rdocs = sint (ro_replyDocs rp);
               docsToProcess = docs_waiting it1 + rdocs;
               it2 = (if docNum = 0
                 then it1\<lparr>it_docsToReceive := it_docsToReceive it1 + (rdocs - 1),
                   it_docsBeforeMore :=
                     (if it_limit it1 = 0 \<or> sint (word_of_int docsToProcess :: 32 word) < sint (it_limit it1)
                      then docsToProcess - ahead rdocs else - 1),
                   it_cursorId := ro_cursorId rp\<rparr>
                 else it1)
           in it2\<lparr>it_docData := mq_Push d (it_docData it2)\<rparr>))"

subsection \<open>Requests\<close>

text \<open>
  \<open>Iter.acquireSocket\<close>: \<open>ses\<close> is the socket of the session, by its server, which is nil once the socket is
  dead; \<open>fresh\<close> and \<open>login\<close> are the errors of getting another one from the server of the cursor. The result tells
  whether it is another one.
\<close>

definition iter_acquireSocket ::
  "gerror + nat option \<Rightarrow> nat option \<Rightarrow> gerror option \<Rightarrow> gerror option \<Rightarrow> gerror + bool"
where
  "iter_acquireSocket ses server fresh login =
     (case ses of
        Inl e \<Rightarrow> Inl e
      | Inr srv \<Rightarrow>
          if srv \<noteq> server then
            (case fresh of
               Some e \<Rightarrow> Inl e
             | None \<Rightarrow> (case login of Some e \<Rightarrow> Inl e | None \<Rightarrow> Inr True))
          else Inr False)"

text \<open>
  What becomes of a request: no socket, sent, an error of \<open>Write\<close>, or a socket that died after
  \<open>acquireSocket\<close> looked at it and before \<open>Query\<close> has its lock.
\<close>

datatype request_result = NoSocket gerror | Requested | WriteFailed gerror | SocketDead gerror

definition more_limit :: "iter \<Rightarrow> iter" where
  "more_limit it =
     (if 0 < sint (it_limit it)
      then (let limit = it_limit it - word_of_int (it_docsToReceive it) - word_of_int (docs_waiting it)
            in if sint limit < sint (it_opLimit it) then it\<lparr>it_opLimit := limit\<rparr> else it)
      else it)"

text \<open>
  \<open>getMore\<close> runs with the lock of the iterator held. When \<open>Query\<close> finds the socket dead it calls \<open>replyFunc\<close>, which
  waits for that lock: it does not return, which is \<open>None\<close>. A socket that is dead before is replaced.
\<close>

definition getMore :: "request_result \<Rightarrow> iter \<Rightarrow> iter option" where
  "getMore m it =
     (case m of
        NoSocket e \<Rightarrow> Some (it\<lparr>it_err := Some (Failed e)\<rparr>)
      | Requested \<Rightarrow>
          (let it1 = more_limit it
           in Some (it1\<lparr>it_docsToReceive := it_docsToReceive it1 + 1, it_sent := it_sent it1 @ [it_opLimit it1]\<rparr>))
      | WriteFailed e \<Rightarrow>
          (let it1 = more_limit it
           in Some (it1\<lparr>it_err := Some (Failed e), it_docsToReceive := it_docsToReceive it1 + 1\<rparr>))
      | SocketDead e \<Rightarrow> None)"

text \<open>\<open>killCursor\<close>; the argument is the error of \<open>acquireSocket\<close> or \<open>Query\<close>. It tells whether it failed.\<close>

definition killCursor :: "gerror option \<Rightarrow> iter \<Rightarrow> bool \<times> iter" where
  "killCursor k it =
     (if it_cursorId it \<noteq> 0
      then (k \<noteq> None,
        it\<lparr>it_err := (case k of
             Some e \<Rightarrow> if it_err it = None \<or> it_err it = Some NotFound then Some (Failed e) else it_err it
           | None \<Rightarrow> it_err it),
           it_cursorId := 0\<rparr>)
      else (False, it))"

text \<open>\<open>Query.Iter\<close>.\<close>

definition new_iter :: "string \<Rightarrow> 32 word \<Rightarrow> 32 word \<Rightarrow> iter" where
  "new_iter collection opLimit limit =
     \<lparr>it_docData = mq_empty, it_err = None, it_collection = collection, it_opLimit = opLimit, it_cursorId = 0,
      it_limit = limit, it_docsToReceive = 1, it_docsBeforeMore = 0, it_timed = False, it_timedout = False,
      it_sent = []\<rparr>"

definition query_Iter :: "(int \<Rightarrow> int) \<Rightarrow> request_result \<Rightarrow> iter \<Rightarrow> iter" where
  "query_Iter ahead m it =
     (case m of
        NoSocket e \<Rightarrow> it\<lparr>it_err := Some (Failed e)\<rparr>
      | Requested \<Rightarrow> it\<lparr>it_sent := [it_opLimit it]\<rparr>
      | WriteFailed e \<Rightarrow> it\<lparr>it_err := Some (Failed e)\<rparr>
      | SocketDead e \<Rightarrow> (iter_replyFunc ahead (NErr e) it)\<lparr>it_err := Some (Failed e)\<rparr>)"

definition iter_Err :: "iter \<Rightarrow> gerror option" where
  "iter_Err it = (case it_err it of Some (Failed e) \<Rightarrow> Some e | _ \<Rightarrow> None)"

definition iter_Close :: "gerror option \<Rightarrow> iter \<Rightarrow> gerror option \<times> iter" where
  "iter_Close k it = (let it1 = snd (killCursor k it) in (iter_Err it1, it1))"

subsection \<open>Next\<close>

text \<open>
  What a part of \<open>Next\<close> that holds the lock comes to: a document to unmarshal, false, waiting for a
  reply, a panic, the message without its number, or waiting for the lock it holds.
\<close>

datatype next_result = NextDoc bytes | NextFalse | NextWait | NextPanic string | NextStuck

text \<open>A round of the loop; \<open>None\<close> leaves it. \<open>expired\<close> tells that the time is over.\<close>

definition wait_round :: "bool \<Rightarrow> request_result \<Rightarrow> iter \<Rightarrow> next_result option \<times> iter" where
  "wait_round expired m it =
     (if it_err it = None \<and> docs_waiting it = 0 \<and> (0 < it_docsToReceive it \<or> it_cursorId it \<noteq> 0) then
        if it_docsToReceive it = 0 then
          if it_timed it \<and> expired then (Some NextFalse, it\<lparr>it_timedout := True\<rparr>)
          else case getMore m it of
              None \<Rightarrow> (Some NextStuck, it)
            | Some it1 \<Rightarrow> (if it_err it1 \<noteq> None then None else Some NextWait, it1)
        else (Some NextWait, it)
      else (None, it))"

definition take_more :: "request_result \<Rightarrow> bytes \<Rightarrow> iter \<Rightarrow> next_result \<times> iter" where
  "take_more m d it =
     (if it_cursorId it \<noteq> 0 \<and> it_err it = None then
        if it_docsBeforeMore it = 0 then
          case getMore m it of
            None \<Rightarrow> (NextStuck, it)
          | Some it1 \<Rightarrow> (NextDoc d, it1\<lparr>it_docsBeforeMore := it_docsBeforeMore it1 - 1\<rparr>)
        else (NextDoc d, it\<lparr>it_docsBeforeMore := it_docsBeforeMore it - 1\<rparr>)
      else (NextDoc d, it))"

definition next_take :: "gerror option \<Rightarrow> request_result \<Rightarrow> iter \<Rightarrow> next_result \<times> iter" where
  "next_take k m it =
     (case mq_Pop (it_docData it) of
        Some (d, q) \<Rightarrow>
          (let it1 = it\<lparr>it_docData := q\<rparr> in
           if 0 < sint (it_limit it1) then
             (let it2 = it1\<lparr>it_limit := it_limit it1 - 1\<rparr> in
              if it_limit it2 = 0 then
                if 0 < docs_waiting it2 then (NextPanic ''data remains after limit exhausted'', it2)
                else case killCursor k (it2\<lparr>it_err := Some NotFound\<rparr>) of
                    (failed, it3) \<Rightarrow> if failed then (NextFalse, it3) else take_more m d it3
              else take_more m d it2)
           else take_more m d it1)
      | None \<Rightarrow>
          if it_err it \<noteq> None then (NextFalse, it)
          else if it_cursorId it = 0 then (NextFalse, it\<lparr>it_err := Some NotFound\<rparr>)
          else (NextPanic ''unreachable'', it))"

definition next_body ::
  "bool \<Rightarrow> gerror option \<Rightarrow> request_result \<Rightarrow> request_result \<Rightarrow> iter \<Rightarrow> next_result \<times> iter"
where
  "next_body expired k m1 m2 it =
     (case wait_round expired m1 it of
        (Some r, it1) \<Rightarrow> (r, it1)
      | (None, it1) \<Rightarrow> next_take k m2 it1)"

text \<open>Only the round that returns sets \<open>timedout\<close>, so it can be reset before every round.\<close>

definition next_round ::
  "bool \<Rightarrow> gerror option \<Rightarrow> request_result \<Rightarrow> request_result \<Rightarrow> iter \<Rightarrow> next_result \<times> iter"
where
  "next_round expired k m1 m2 it = next_body expired k m1 m2 (it\<lparr>it_timedout := False\<rparr>)"

text \<open>
  After the lock is released: \<open>check\<close> stands for unmarshalling the document and then looking for a query
  error in it, by \<open>checkQueryError\<close>.
\<close>

definition next_finish :: "(string \<Rightarrow> bytes \<Rightarrow> gerror option) \<Rightarrow> bytes \<Rightarrow> iter \<Rightarrow> bool \<times> iter" where
  "next_finish check d it =
     (case check (it_collection it) d of
        None \<Rightarrow> (True, it)
      | Some e \<Rightarrow> (False, if it_err it = None then it\<lparr>it_err := Some (Failed e)\<rparr> else it))"

subsection \<open>An iteration\<close>

text \<open>
  A goroutine that calls \<open>Next\<close> until it returns false, the connections, and the server, for a session that keeps
  its socket: it is not \<open>Eventual\<close> and nobody refreshes it meanwhile. So requests go over one connection, and when that is lost,
  \<open>n_broken\<close>, over a fresh one. \<open>Ended\<close> has the error the iterator had when \<open>Next\<close> returned false,
  and \<open>Rejected\<close> the document of which \<open>Next\<close> returned false. \<open>n_reading\<close> is the reply of which documents are still to be handed over,
  with the number of the next; \<open>n_replies\<close> counts the replies begun; \<open>n_server\<close> is what the cursor
  has not sent yet; \<open>n_got\<close> are the documents handed to \<open>Unmarshal\<close>. \<open>n_crossed\<close> tells that a request went over
  a fresh connection while the lost one had a reply outstanding, and \<open>n_errors\<close> counts the errors it has then still to report.
\<close>

datatype caller =
    Calling | Waiting | Checking bytes | Ended "iter_error option" | Rejected bytes "iter_error option"
  | Stuck | Panicked string

record iteration =
  n_iter :: iter
  n_caller :: caller
  n_got :: "bytes list"
  n_reading :: "(reply_op \<times> nat \<times> bytes list) option"
  n_replies :: nat
  n_server :: "bytes list"
  n_broken :: "gerror option"
  n_errors :: nat
  n_crossed :: bool

definition pending :: "iteration \<Rightarrow> nat" where
  "pending s = length (it_sent (n_iter s)) - n_replies s"

text \<open>
  What a server may answer to a request with limit \<open>n\<close>: the next \<open>k\<close> documents and the id of the cursor.
  It does not send more than it is asked for, closes the cursor only when all has been sent, and sends an
  empty reply only then. Limits below zero, which close the cursor early, are not considered.
\<close>

definition good_reply :: "32 word \<Rightarrow> bytes list \<Rightarrow> reply_op \<Rightarrow> bool" where
  "good_reply n srv rp \<longleftrightarrow>
     (let k = sint (ro_replyDocs rp) in
      0 \<le> k \<and> k \<le> int (length srv) \<and> (0 < sint n \<longrightarrow> k \<le> sint n) \<and>
      (ro_cursorId rp = 0 \<longrightarrow> k = int (length srv)) \<and> (k = 0 \<longrightarrow> ro_cursorId rp = 0))"

text \<open>The next state of the caller after a part of \<open>Next\<close>, with the documents it got.\<close>

fun after_next :: "next_result \<Rightarrow> iter \<Rightarrow> bytes list \<Rightarrow> caller \<times> bytes list" where
  "after_next (NextDoc d) it got = (Checking d, got @ [d])"
| "after_next NextFalse it got = (Ended (it_err it), got)"
| "after_next NextWait it got = (Waiting, got)"
| "after_next (NextPanic p) it got = (Panicked p, got)"
| "after_next NextStuck it got = (Stuck, got)"

text \<open>
  Over the connection in use requests are sent while it is up; \<open>Query\<close> finds its socket dead if it was lost
  since \<open>acquireSocket\<close>.
\<close>

fun possible :: "gerror option \<Rightarrow> request_result \<Rightarrow> bool" where
  "possible broken Requested = (broken = None)"
| "possible broken (SocketDead e) = (broken = Some e)"
| "possible broken _ = True"

text \<open>A call of \<open>replyFunc\<close> needs the lock, and wakes a caller that waits.\<close>

definition reply_call :: "(int \<Rightarrow> int) \<Rightarrow> notice \<Rightarrow> iteration \<Rightarrow> iteration" where
  "reply_call ahead n s = s\<lparr>n_iter := iter_replyFunc ahead n (n_iter s),
     n_caller := (if n_caller s = Waiting then Calling else n_caller s)\<rparr>"

text \<open>Replies outstanding on the lost connection are given up for errors when a request goes over a fresh one.\<close>

definition outstanding :: "iteration \<Rightarrow> nat" where
  "outstanding s = pending s + (if n_reading s = None then 0 else 1)"

definition reconnect :: "nat \<Rightarrow> iteration \<Rightarrow> iteration" where
  "reconnect j s = s\<lparr>n_broken := None, n_reading := None, n_replies := length (it_sent (n_iter s)),
     n_server := drop j (n_server s), n_errors := n_errors s + outstanding s,
     n_crossed := (n_crossed s \<or> 0 < outstanding s)\<rparr>"

definition locked :: "caller \<Rightarrow> bool" where
  "locked c \<longleftrightarrow> c = Stuck \<or> (\<exists>p. c = Panicked p)"

inductive iterate :: "(int \<Rightarrow> int) \<Rightarrow> (string \<Rightarrow> bytes \<Rightarrow> gerror option) \<Rightarrow> iteration \<Rightarrow> iteration \<Rightarrow> bool"
  for ahead check
where
  it_next: "n_caller s = Calling \<Longrightarrow> possible (n_broken s) m1 \<Longrightarrow> possible (n_broken s) m2 \<Longrightarrow>
     next_round expired k m1 m2 (n_iter s) = (r, it1) \<Longrightarrow> after_next r it1 (n_got s) = (c, got) \<Longrightarrow>
     iterate ahead check s (s\<lparr>n_iter := it1, n_caller := c, n_got := got\<rparr>)"
| it_fresh: "n_caller s = Calling \<Longrightarrow> n_broken s = Some e \<Longrightarrow> (pending s = 0 \<Longrightarrow> j = 0) \<Longrightarrow>
     next_round expired k Requested Requested (n_iter s) = (r, it1) \<Longrightarrow> it_sent it1 \<noteq> it_sent (n_iter s) \<Longrightarrow>
     after_next r it1 (n_got s) = (c, got) \<Longrightarrow>
     iterate ahead check s ((reconnect j s)\<lparr>n_iter := it1, n_caller := c, n_got := got\<rparr>)"
| it_late: "\<not> locked (n_caller s) \<Longrightarrow> 0 < n_errors s \<Longrightarrow>
     iterate ahead check s ((reply_call ahead (NErr e) s)\<lparr>n_errors := n_errors s - 1\<rparr>)"
| it_finish: "n_caller s = Checking d \<Longrightarrow> next_finish check d (n_iter s) = (ok, it1) \<Longrightarrow>
     iterate ahead check s (s\<lparr>n_iter := it1, n_caller := (if ok then Calling else Rejected d (it_err it1))\<rparr>)"
| it_empty: "\<not> locked (n_caller s) \<Longrightarrow> n_broken s = None \<Longrightarrow> n_reading s = None \<Longrightarrow> 0 < pending s \<Longrightarrow>
     good_reply (it_sent (n_iter s) ! n_replies s) (n_server s) rp \<Longrightarrow> ro_replyDocs rp = 0 \<Longrightarrow>
     iterate ahead check s ((reply_call ahead (NNone rp) s)\<lparr>n_replies := n_replies s + 1\<rparr>)"
| it_begin: "n_broken s = None \<Longrightarrow> n_reading s = None \<Longrightarrow> 0 < pending s \<Longrightarrow>
     good_reply (it_sent (n_iter s) ! n_replies s) (n_server s) rp \<Longrightarrow> k = nat (sint (ro_replyDocs rp)) \<Longrightarrow> 0 < k \<Longrightarrow>
     iterate ahead check s (s\<lparr>n_replies := n_replies s + 1, n_reading := Some (rp, 0, take k (n_server s)),
       n_server := drop k (n_server s)\<rparr>)"
| it_document: "\<not> locked (n_caller s) \<Longrightarrow> n_broken s = None \<Longrightarrow> n_reading s = Some (rp, i, d # ds) \<Longrightarrow>
     iterate ahead check s ((reply_call ahead (NDoc rp i d) s)
       \<lparr>n_reading := (if ds = [] then None else Some (rp, i + 1, ds))\<rparr>)"
| it_break: "n_broken s = None \<Longrightarrow> iterate ahead check s (s\<lparr>n_broken := Some e\<rparr>)"
| it_lost: "\<not> locked (n_caller s) \<Longrightarrow> n_broken s = Some e \<Longrightarrow> n_reading s \<noteq> None \<Longrightarrow>
     iterate ahead check s ((reply_call ahead (NErr e) s)\<lparr>n_reading := None\<rparr>)"
| it_unanswered: "\<not> locked (n_caller s) \<Longrightarrow> n_broken s = Some e \<Longrightarrow> n_reading s = None \<Longrightarrow> 0 < pending s \<Longrightarrow>
     iterate ahead check s ((reply_call ahead (NErr e) s)\<lparr>n_replies := n_replies s + 1\<rparr>)"

definition iter_begin :: "string \<Rightarrow> 32 word \<Rightarrow> 32 word \<Rightarrow> bytes list \<Rightarrow> iteration" where
  "iter_begin collection opLimit limit docs =
     \<lparr>n_iter = query_Iter (\<lambda>n. n) Requested (new_iter collection opLimit limit), n_caller = Calling, n_got = [],
      n_reading = None, n_replies = 0, n_server = docs, n_broken = None, n_errors = 0, n_crossed = False\<rparr>"

text \<open>
  For such a session \<open>acquireSocket\<close> gives the same socket while it is up, and another one, if there is any, once
  it is dead, which the rules \<open>it_next\<close> and \<open>it_fresh\<close> stand for.
\<close>

lemma same_or_fresh:
  "iter_acquireSocket (Inr (if broken = None then Some srv else None)) (Some srv) fresh login =
     (if broken = None then Inr False
      else case fresh of Some e \<Rightarrow> Inl e | None \<Rightarrow> (case login of Some e \<Rightarrow> Inl e | None \<Rightarrow> Inr True))"
  by (simp add: iter_acquireSocket_def)

end
