(* ===== verification/MgoCursor.thy ===== *)
theory MgoCursor
  imports MgoIter "HOL-Library.Sublist"
begin

text \<open>
  What an iteration over a query delivers, however the replies of the server and the calls of \<open>Next\<close>
  interleave: all documents in order, no panic, no lost wakeup; and what goes wrong when the connection is
  lost, a document is bad at the limit, or the batch is larger than the limit.
\<close>

subsection \<open>The invariant\<close>

definition queued :: "iteration \<Rightarrow> bytes list" where
  "queued s = mq_content (it_docData (n_iter s))"

definition in_flight :: "iteration \<Rightarrow> bytes list" where
  "in_flight s = (case n_reading s of None \<Rightarrow> [] | Some (rp, i, ds) \<Rightarrow> ds)"

definition fresh :: "iteration \<Rightarrow> bool" where
  "fresh s \<longleftrightarrow> (\<exists>rp ds. n_reading s = Some (rp, 0, ds))"

text \<open>A request is outstanding until the first document of its reply is handed over.\<close>

definition asked :: "iteration \<Rightarrow> bool" where
  "asked s \<longleftrightarrow> 0 < pending s \<or> fresh s"

definition owed :: "iteration \<Rightarrow> nat" where
  "owed s = pending s + (case n_reading s of None \<Rightarrow> 0 | Some (rp, i, ds) \<Rightarrow> if i = 0 then 1 else length ds)"

abbreviation err :: "iteration \<Rightarrow> iter_error option" where
  "err s \<equiv> it_err (n_iter s)"

definition wanted :: "32 word \<Rightarrow> bytes list \<Rightarrow> bytes list" where
  "wanted limit docs = (if limit = 0 then docs else take (nat (sint limit)) docs)"

definition delivering :: "bytes list \<Rightarrow> iteration \<Rightarrow> bool" where
  "delivering docs s \<longleftrightarrow>
     mq_ok (it_docData (n_iter s)) \<and> \<not> it_timed (n_iter s) \<and>
     (\<exists>rest. docs = n_got s @ queued s @ in_flight s @ rest \<and> (err s = None \<longrightarrow> rest = n_server s)) \<and>
     (err s = None \<longrightarrow> it_docsToReceive (n_iter s) = int (owed s)) \<and>
     (\<forall>rp i ds. n_reading s = Some (rp, i, ds) \<longrightarrow> ds \<noteq> [] \<and> sint (ro_replyDocs rp) = int i + int (length ds) \<and>
        (err s = None \<longrightarrow> (0 < i \<longrightarrow> it_cursorId (n_iter s) = ro_cursorId rp) \<and>
           (ro_cursorId rp = 0 \<longrightarrow> n_server s = []))) \<and>
     n_replies s \<le> length (it_sent (n_iter s)) \<and> pending s \<le> 1 \<and> (fresh s \<longrightarrow> pending s = 0) \<and>
     (err s = None \<longrightarrow> asked s \<longrightarrow>
        it_docsBeforeMore (n_iter s) < 0 \<or> queued s = [] \<and> (n_reading s = None \<or> fresh s)) \<and>
     (err s = None \<longrightarrow> \<not> asked s \<longrightarrow> it_cursorId (n_iter s) = 0 \<longrightarrow> n_server s = []) \<and>
     (n_broken s = None \<longrightarrow> 0 < pending s \<longrightarrow> err s = None)"

definition limited :: "32 word \<Rightarrow> iteration \<Rightarrow> bool" where
  "limited limit s \<longleftrightarrow>
     (if limit = 0 then it_limit (n_iter s) = 0
      else 0 < sint limit \<and> sint (it_limit (n_iter s)) = sint limit - int (length (n_got s)) \<and>
        int (length (queued s) + length (in_flight s)) \<le> sint (it_limit (n_iter s)) \<and>
        (err s = None \<longrightarrow> 0 < sint (it_limit (n_iter s))) \<and>
        (err s = None \<longrightarrow> 0 < sint (it_opLimit (n_iter s))) \<and>
        (err s = None \<longrightarrow> \<not> asked s \<longrightarrow> 0 \<le> it_docsBeforeMore (n_iter s) \<longrightarrow>
           int (length (queued s) + length (in_flight s)) < sint (it_limit (n_iter s))) \<and>
        (0 < pending s \<longrightarrow> 0 < sint (it_sent (n_iter s) ! n_replies s) \<and>
           sint (it_sent (n_iter s) ! n_replies s) + int (length (queued s) + length (in_flight s))
             \<le> sint (it_limit (n_iter s))))"

definition complete :: "32 word \<Rightarrow> bytes list \<Rightarrow> iteration \<Rightarrow> bool" where
  "complete limit docs s \<longleftrightarrow> (err s = Some NotFound \<longrightarrow>
     docs = n_got s @ queued s \<or> limit \<noteq> 0 \<and> int (length (n_got s)) = sint limit \<and> queued s = [])"

abbreviation live :: "32 word \<Rightarrow> bytes list \<Rightarrow> iteration \<Rightarrow> bool" where
  "live limit docs s \<equiv> delivering docs s \<and> limited limit s \<and> complete limit docs s"

definition iter_inv :: "32 word \<Rightarrow> bytes list \<Rightarrow> iteration \<Rightarrow> bool" where
  "iter_inv limit docs s \<longleftrightarrow> prefix (n_got s) docs \<and>
     (case n_caller s of
        Ended e \<Rightarrow> e \<noteq> None \<and> (e = Some NotFound \<longrightarrow> n_got s = wanted limit docs)
      | Rejected d e \<Rightarrow> e \<noteq> None
      | Panicked p \<Rightarrow> False
      | Stuck \<Rightarrow> n_broken s \<noteq> None
      | Waiting \<Rightarrow> live limit docs s \<and> err s = None \<and> queued s = [] \<and> (0 < pending s \<or> n_reading s \<noteq> None)
      | _ \<Rightarrow> live limit docs s)"

lemma deliveringI:
  assumes "mq_ok (it_docData (n_iter s))" and "\<not> it_timed (n_iter s)"
    and "docs = n_got s @ queued s @ in_flight s @ rest" and "err s = None \<Longrightarrow> rest = n_server s"
    and "err s = None \<Longrightarrow> it_docsToReceive (n_iter s) = int (owed s)"
    and "\<And>rp i ds. n_reading s = Some (rp, i, ds) \<Longrightarrow> ds \<noteq> [] \<and> sint (ro_replyDocs rp) = int i + int (length ds)"
    and "\<And>rp i ds. n_reading s = Some (rp, i, ds) \<Longrightarrow> err s = None \<Longrightarrow> 0 < i \<Longrightarrow> it_cursorId (n_iter s) = ro_cursorId rp"
    and "\<And>rp i ds. n_reading s = Some (rp, i, ds) \<Longrightarrow> err s = None \<Longrightarrow> ro_cursorId rp = 0 \<Longrightarrow> n_server s = []"
    and "n_replies s \<le> length (it_sent (n_iter s))" and "pending s \<le> 1" and "fresh s \<Longrightarrow> pending s = 0"
    and "err s = None \<Longrightarrow> asked s \<Longrightarrow>
        it_docsBeforeMore (n_iter s) < 0 \<or> queued s = [] \<and> (n_reading s = None \<or> fresh s)"
    and "err s = None \<Longrightarrow> \<not> asked s \<Longrightarrow> it_cursorId (n_iter s) = 0 \<Longrightarrow> n_server s = []"
    and "n_broken s = None \<Longrightarrow> 0 < pending s \<Longrightarrow> err s = None"
  shows "delivering docs s"
  unfolding delivering_def by (intro conjI allI impI exI [of _ rest]; (rule assms; assumption | insert assms(6), blast))

lemma deliveringD:
  assumes "delivering docs s"
  shows "mq_ok (it_docData (n_iter s))" and "\<not> it_timed (n_iter s)"
    and "\<exists>rest. docs = n_got s @ queued s @ in_flight s @ rest"
    and "err s = None \<Longrightarrow> docs = n_got s @ queued s @ in_flight s @ n_server s"
    and "err s = None \<Longrightarrow> it_docsToReceive (n_iter s) = int (owed s)"
    and "n_reading s = Some (rp, i, ds) \<Longrightarrow> ds \<noteq> [] \<and> sint (ro_replyDocs rp) = int i + int (length ds)"
    and "n_reading s = Some (rp, i, ds) \<Longrightarrow> err s = None \<Longrightarrow> 0 < i \<Longrightarrow> it_cursorId (n_iter s) = ro_cursorId rp"
    and "n_reading s = Some (rp, i, ds) \<Longrightarrow> err s = None \<Longrightarrow> ro_cursorId rp = 0 \<Longrightarrow> n_server s = []"
    and "n_replies s \<le> length (it_sent (n_iter s))" and "pending s \<le> 1" and "fresh s \<Longrightarrow> pending s = 0"
    and "err s = None \<Longrightarrow> asked s \<Longrightarrow>
        it_docsBeforeMore (n_iter s) < 0 \<or> queued s = [] \<and> (n_reading s = None \<or> fresh s)"
    and "err s = None \<Longrightarrow> \<not> asked s \<Longrightarrow> it_cursorId (n_iter s) = 0 \<Longrightarrow> n_server s = []"
    and "n_broken s = None \<Longrightarrow> 0 < pending s \<Longrightarrow> err s = None"
  using assms unfolding delivering_def by blast+

lemma docs_waiting_queued: "docs_waiting (n_iter s) = int (length (queued s))"
  by (simp add: docs_waiting_def queued_def mq_Len_content)

lemma owed_0: "owed s = 0 \<longleftrightarrow> pending s = 0 \<and> n_reading s = None"
  if "\<And>rp i ds. n_reading s = Some (rp, i, ds) \<Longrightarrow> ds \<noteq> []"
  using that by (cases "n_reading s") (auto simp: owed_def split: if_splits)

lemma owed_not_asked: "\<not> asked s \<Longrightarrow> owed s = length (in_flight s)"
  by (auto simp: owed_def asked_def fresh_def in_flight_def split: option.splits)

subsection \<open>Asking for more\<close>

lemma sint_small: "0 \<le> x \<Longrightarrow> x < 2 ^ 31 \<Longrightarrow> sint (word_of_int x :: 32 word) = x"
  by (simp add: sint_sbintrunc' signed_take_bit_int_eq_self)

lemma sint_32: "sint (w :: 32 word) < 2 ^ 31"
  using sint_lt [of w] by simp

lemma sint_diff:
  assumes "0 \<le> x" and "0 \<le> y" and "x + y \<le> sint (w :: 32 word)"
  shows "sint (w - word_of_int x - word_of_int y) = sint w - x - y"
proof -
  have w: "w - word_of_int x - word_of_int y = word_of_int (sint w - x - y)" by simp
  moreover have "sint w - x - y < 2 ^ 31" "0 \<le> sint w - x - y" using assms sint_32 [of w] by linarith+
  ultimately show ?thesis unfolding w by (intro sint_small)
qed

text \<open>The state after a request for more.\<close>

definition requested :: "iteration \<Rightarrow> iteration" where
  "requested s = s\<lparr>n_iter := the (getMore Requested (n_iter s))\<rparr>"

lemma more_limit_simps [simp]:
  "it_docData (more_limit it) = it_docData it" "it_err (more_limit it) = it_err it"
  "it_cursorId (more_limit it) = it_cursorId it" "it_limit (more_limit it) = it_limit it"
  "it_docsToReceive (more_limit it) = it_docsToReceive it" "it_docsBeforeMore (more_limit it) = it_docsBeforeMore it"
  "it_timed (more_limit it) = it_timed it" "it_sent (more_limit it) = it_sent it"
  by (simp_all add: more_limit_def Let_def)


lemma getMore_Requested:
  "getMore Requested (n_iter s) = Some (n_iter (requested s))"
  "n_caller (requested s) = n_caller s" "n_got (requested s) = n_got s" "n_reading (requested s) = n_reading s"
  "n_replies (requested s) = n_replies s" "n_server (requested s) = n_server s" "n_broken (requested s) = n_broken s"
  by (simp_all add: requested_def getMore_def Let_def)

lemma requested_iter:
  "it_docData (n_iter (requested s)) = it_docData (n_iter s)" "err (requested s) = err s"
  "it_cursorId (n_iter (requested s)) = it_cursorId (n_iter s)" "it_limit (n_iter (requested s)) = it_limit (n_iter s)"
  "it_docsToReceive (n_iter (requested s)) = it_docsToReceive (n_iter s) + 1"
  "it_docsBeforeMore (n_iter (requested s)) = it_docsBeforeMore (n_iter s)"
  "it_timed (n_iter (requested s)) = it_timed (n_iter s)"
  "it_opLimit (n_iter (requested s)) = it_opLimit (more_limit (n_iter s))"
  "it_sent (n_iter (requested s)) = it_sent (n_iter s) @ [it_opLimit (more_limit (n_iter s))]"
  by (simp_all add: requested_def getMore_def Let_def)

lemma requested_simps [simp]:
  "queued (requested s) = queued s" "in_flight (requested s) = in_flight s" "fresh (requested s) = fresh s"
  by (simp_all add: queued_def in_flight_def fresh_def getMore_Requested requested_iter)

lemma requested_pending: "n_replies s \<le> length (it_sent (n_iter s)) \<Longrightarrow> pending (requested s) = pending s + 1"
  by (simp add: pending_def getMore_Requested requested_iter)

text \<open>A new request is fine when none is outstanding and the next one is not due, or nothing is queued.\<close>

lemma live_requested:
  assumes "delivering docs s" and "limited limit s" and "complete limit docs s" and "err s = None" and "\<not> asked s"
    and room: "limit \<noteq> 0 \<Longrightarrow> int (length (queued s) + length (in_flight s)) < sint (it_limit (n_iter s))"
    and now: "it_docsBeforeMore (n_iter s) < 0 \<or> queued s = [] \<and> n_reading s = None"
  shows "delivering docs (requested s) \<and> limited limit (requested s) \<and> complete limit docs (requested s)"
proof (intro conjI)
  note A = deliveringD [OF assms(1)]
  let ?s = "requested s"
  have p: "pending ?s = 1" "asked ?s" "pending s = 0"
    using requested_pending [OF A(9)] assms(5) by (auto simp: asked_def)
  have ow: "owed ?s = owed s + 1" using p by (simp add: owed_def getMore_Requested split: option.split)
  show "delivering docs ?s"
  proof (rule deliveringI [where rest = "n_server s"])
    show "fresh ?s \<Longrightarrow> pending ?s = 0" using assms(5) by (simp add: asked_def)
    show "it_docsBeforeMore (n_iter ?s) < 0 \<or> queued ?s = [] \<and> (n_reading ?s = None \<or> fresh ?s)"
      using now by (auto simp: getMore_Requested requested_iter)
    show "n_replies ?s \<le> length (it_sent (n_iter ?s))" using A(9) by (simp add: getMore_Requested requested_iter)
    show "it_docsToReceive (n_iter ?s) = int (owed ?s)" using A(5) [OF assms(4)] ow by (simp add: requested_iter)
  qed (use A assms(4) p now in \<open>simp_all add: getMore_Requested requested_iter\<close>)
  show "limited limit ?s"
  proof (cases "limit = 0")
    case False
    have L: "0 < sint limit" "sint (it_limit (n_iter s)) = sint limit - int (length (n_got s))"
      "int (length (queued s) + length (in_flight s)) \<le> sint (it_limit (n_iter s))"
      "0 < sint (it_limit (n_iter s))" "0 < sint (it_opLimit (n_iter s))"
      using assms(2,4) False by (simp_all add: limited_def)
    have D: "it_docsToReceive (n_iter s) = int (length (in_flight s))"
      using A(5) [OF assms(4)] owed_not_asked [OF assms(5)] by simp
    let ?l = "sint (it_limit (n_iter s)) - int (length (in_flight s)) - int (length (queued s))"
    have l: "sint (it_limit (n_iter s) - word_of_int (it_docsToReceive (n_iter s)) - word_of_int (docs_waiting (n_iter s))) = ?l"
      using L(3) unfolding D docs_waiting_queued by (intro sint_diff) auto
    have "sint (it_opLimit (more_limit (n_iter s))) = min ?l (sint (it_opLimit (n_iter s)))"
      using L(4) l by (auto simp: more_limit_def Let_def)
    moreover have "0 < ?l" using room False by simp
    ultimately have op: "0 < sint (it_opLimit (more_limit (n_iter s)))" "sint (it_opLimit (more_limit (n_iter s))) \<le> ?l"
      using L(5) by auto
    have "n_replies s = length (it_sent (n_iter s))" using A(9) p(3) by (simp add: pending_def)
    then have "it_sent (n_iter ?s) ! n_replies ?s = it_opLimit (more_limit (n_iter s))"
      by (simp add: getMore_Requested requested_iter nth_append)
    then show ?thesis
      using L op p(2) False by (auto simp: limited_def getMore_Requested requested_iter)
  qed (use assms(2) in \<open>simp add: limited_def requested_iter\<close>)
  show "complete limit docs ?s" using assms(3,4) by (simp add: complete_def requested_iter)
qed

text \<open>Fields that the rest of the state does not depend on.\<close>

lemma live_docsBeforeMore:
  assumes "delivering docs s" and "limited limit s" and "complete limit docs s" and "err s = None"
    and "b < 0 \<and> (asked s \<longrightarrow> it_docsBeforeMore (n_iter s) < 0 \<or> queued s = [] \<and> (n_reading s = None \<or> fresh s)) \<or>
      0 \<le> b \<and> \<not> asked s \<and> 0 \<le> it_docsBeforeMore (n_iter s)"
  defines "t \<equiv> s\<lparr>n_iter := (n_iter s)\<lparr>it_docsBeforeMore := b\<rparr>\<rparr>"
  shows "delivering docs t \<and> limited limit t \<and> complete limit docs t"
proof -
  have same: "queued t = queued s" "in_flight t = in_flight s" "fresh t = fresh s" "pending t = pending s"
    "asked t = asked s" "owed t = owed s"
    by (simp_all add: t_def queued_def in_flight_def fresh_def pending_def asked_def owed_def)
  note A = deliveringD [OF assms(1)]
  have "delivering docs t"
    by (rule deliveringI [where rest = "n_server s"], unfold same) (use A assms(4,5) in \<open>auto simp: t_def\<close>)
  moreover have "limited limit t" using assms(2,5) unfolding limited_def same by (auto simp: t_def)
  moreover have "complete limit docs t" using assms(3) unfolding complete_def same by (simp add: t_def)
  ultimately show ?thesis by blast
qed


text \<open>An error leaves little to keep.\<close>

lemma live_failed:
  assumes "delivering docs s" and "limited limit s" and "x \<noteq> NotFound" and none: "pending s = 0"
    and it: "it_docData it = it_docData (n_iter s)" "it_timed it = it_timed (n_iter s)" "it_err it = Some x"
      "it_sent it = it_sent (n_iter s)" "it_limit it = it_limit (n_iter s)"
  defines "t \<equiv> s\<lparr>n_iter := it\<rparr>"
  shows "delivering docs t \<and> limited limit t \<and> complete limit docs t"
proof -
  have same: "queued t = queued s" "in_flight t = in_flight s" "fresh t = fresh s" "pending t = pending s"
    by (simp_all add: t_def queued_def in_flight_def fresh_def pending_def it)
  note A = deliveringD [OF assms(1)]
  obtain rest where rest: "docs = n_got s @ queued s @ in_flight s @ rest" using A(3) by blast
  have "delivering docs t"
    by (rule deliveringI [where rest = rest], unfold same) (use A none rest in \<open>auto simp: t_def it\<close>)
  moreover have "limited limit t" using assms(2) none unfolding limited_def same by (auto simp: t_def it)
  moreover have "complete limit docs t" using assms(3) by (simp add: complete_def t_def it)
  ultimately show ?thesis by blast
qed

lemma live_take_more:
  assumes "delivering docs s" and "limited limit s" and "complete limit docs s"
    and "err s = None \<Longrightarrow> asked s \<Longrightarrow> it_docsBeforeMore (n_iter s) < 0"
    and "possible (n_broken s) m" and "take_more m d (n_iter s) = (r, it)"
  shows "r = NextDoc d \<and> delivering docs (s\<lparr>n_iter := it\<rparr>) \<and> limited limit (s\<lparr>n_iter := it\<rparr>) \<and>
      complete limit docs (s\<lparr>n_iter := it\<rparr>) \<or> r = NextStuck \<and> n_broken s \<noteq> None"
proof (cases "it_cursorId (n_iter s) \<noteq> 0 \<and> err s = None")
  case c: True
  show ?thesis
  proof (cases "it_docsBeforeMore (n_iter s) = 0")
    case True
    have na: "\<not> asked s" using assms(4) c True by auto
    show ?thesis
    proof (cases m)
      case (SocketDead e)
      then show ?thesis using assms(5,6) c True by (simp add: take_more_def getMore_def)
    next
      case (NoSocket e)
      have r: "r = NextDoc d" "it = (n_iter s)\<lparr>it_err := Some (Failed e), it_docsBeforeMore := - 1\<rparr>"
        using assms(6) c True NoSocket by (simp_all add: take_more_def getMore_def)
      then show ?thesis
        using live_failed [OF assms(1,2), of "Failed e" it] na by (simp add: asked_def)
    next
      case (WriteFailed e)
      have r: "r = NextDoc d" "it = (more_limit (n_iter s))\<lparr>it_err := Some (Failed e),
          it_docsToReceive := it_docsToReceive (n_iter s) + 1, it_docsBeforeMore := - 1\<rparr>"
        using assms(6) c True WriteFailed by (simp_all add: take_more_def getMore_def Let_def)
      then show ?thesis
        using live_failed [OF assms(1,2), of "Failed e" it] na by (simp add: asked_def)
    next
      case Requested
      let ?s = "s\<lparr>n_iter := (n_iter s)\<lparr>it_docsBeforeMore := - 1\<rparr>\<rparr>"
      have r: "r = NextDoc d" "s\<lparr>n_iter := it\<rparr> = requested ?s"
        using assms(6) c True Requested
        by (auto simp: take_more_def getMore_def requested_def more_limit_def Let_def docs_waiting_def)
      have L: "delivering docs ?s \<and> limited limit ?s \<and> complete limit docs ?s"
        using live_docsBeforeMore [OF assms(1-3), of "- 1"] c na by simp
      have same: "queued ?s = queued s" "in_flight ?s = in_flight s" "asked ?s = asked s"
        by (simp_all add: queued_def in_flight_def asked_def pending_def fresh_def)
      have "int (length (queued s) + length (in_flight s)) < sint (it_limit (n_iter s))" if "limit \<noteq> 0"
        using assms(2) that c na True by (simp add: limited_def)
      then show ?thesis
        unfolding r(2) using live_requested [of docs ?s limit] L na r(1) c unfolding same by simp
    qed
  next
    case False
    then have r: "r = NextDoc d" "it = (n_iter s)\<lparr>it_docsBeforeMore := it_docsBeforeMore (n_iter s) - 1\<rparr>"
      using assms(6) c by (simp_all add: take_more_def)
    show ?thesis
      using live_docsBeforeMore [OF assms(1-3), of "it_docsBeforeMore (n_iter s) - 1"] c r assms(4) False by fastforce
  qed
qed (use assms in \<open>auto simp: take_more_def\<close>)


subsection \<open>Taking a document\<close>

text \<open>The state once the first queued document is taken, with the limit lowered.\<close>

definition taken :: "bytes \<Rightarrow> bytes mqueue \<Rightarrow> iteration \<Rightarrow> iteration" where
  "taken d q s = s\<lparr>n_got := n_got s @ [d], n_iter := (n_iter s)\<lparr>it_docData := q, it_limit :=
     (if 0 < sint (it_limit (n_iter s)) then it_limit (n_iter s) - 1 else it_limit (n_iter s))\<rparr>\<rparr>"

lemma sint_pred: "0 < sint (w :: 32 word) \<Longrightarrow> sint (w - 1) = sint w - 1"
  using sint_diff [of 1 0 w] by simp

lemma taken_live:
  assumes "delivering docs s" and "limited limit s" and "complete limit docs s"
    and "mq_Pop (it_docData (n_iter s)) = Some (d, q)"
  shows "delivering docs (taken d q s)"
    and "err s = None \<Longrightarrow> asked s \<Longrightarrow> it_docsBeforeMore (n_iter (taken d q s)) < 0"
    and "limit = 0 \<or> 0 < sint (it_limit (n_iter (taken d q s))) \<or> err s \<noteq> None \<Longrightarrow> limited limit (taken d q s)"
    and "limit = 0 \<or> 0 < sint (it_limit (n_iter (taken d q s))) \<Longrightarrow> complete limit docs (taken d q s)"
    and "asked (taken d q s) = asked s" and "limit = 0 \<Longrightarrow> it_limit (n_iter s) = 0"
    and "limit \<noteq> 0 \<Longrightarrow> 0 < sint (it_limit (n_iter s)) \<and>
      sint (it_limit (n_iter (taken d q s))) = sint limit - int (length (n_got (taken d q s))) \<and>
      int (length (queued (taken d q s)) + length (in_flight (taken d q s))) \<le> sint (it_limit (n_iter (taken d q s)))"
    and "limit \<noteq> 0 \<Longrightarrow> 0 < pending s \<Longrightarrow> 0 < sint (it_limit (n_iter (taken d q s)))"
proof -
  note A = deliveringD [OF assms(1)]
  let ?t = "taken d q s"
  have q: "mq_ok q" "queued s = d # mq_content q"
    using mq_Pop_Some [OF A(1) assms(4)] by (simp_all add: queued_def)
  have same: "queued ?t = mq_content q" "in_flight ?t = in_flight s" "fresh ?t = fresh s" "pending ?t = pending s"
    "asked ?t = asked s" "owed ?t = owed s" "n_got ?t = n_got s @ [d]" "n_reading ?t = n_reading s" "err ?t = err s"
    "it_docsBeforeMore (n_iter ?t) = it_docsBeforeMore (n_iter s)" "n_server ?t = n_server s"
    "it_cursorId (n_iter ?t) = it_cursorId (n_iter s)" "it_sent (n_iter ?t) = it_sent (n_iter s)"
    "n_replies ?t = n_replies s" "n_broken ?t = n_broken s" "it_opLimit (n_iter ?t) = it_opLimit (n_iter s)" "it_timed (n_iter ?t) = it_timed (n_iter s)"
    "it_docsToReceive (n_iter ?t) = it_docsToReceive (n_iter s)" "it_docData (n_iter ?t) = q"
    by (simp_all add: taken_def queued_def in_flight_def fresh_def pending_def asked_def owed_def)
  show "asked ?t = asked s" by (rule same)
  obtain rest where rest: "docs = n_got s @ queued s @ in_flight s @ rest" "err s = None \<Longrightarrow> rest = n_server s"
    using assms(1) unfolding delivering_def by auto
  show due: "it_docsBeforeMore (n_iter ?t) < 0" if "err s = None" "asked s"
    unfolding same using A(12) [OF that] q(2) by simp
  show "delivering docs ?t"
  proof (rule deliveringI [where rest = rest], unfold same)
    show "docs = (n_got s @ [d]) @ mq_content q @ in_flight s @ rest" using rest(1) q(2) by simp
    show "it_docsBeforeMore (n_iter s) < 0 \<or> mq_content q = [] \<and> (n_reading s = None \<or> fresh s)"
      if "err s = None" "asked s" using A(12) [OF that] q(2) by simp
  qed (assumption | rule q(1) rest(2) A)+
  show "limit = 0 \<Longrightarrow> it_limit (n_iter s) = 0" using assms(2) by (simp add: limited_def)
  have L: "0 < sint (it_limit (n_iter s))" "sint (it_limit (n_iter ?t)) = sint (it_limit (n_iter s)) - 1"
    if "limit \<noteq> 0"
  proof -
    show p: "0 < sint (it_limit (n_iter s))" using assms(2) that q by (simp add: limited_def)
    show "sint (it_limit (n_iter ?t)) = sint (it_limit (n_iter s)) - 1" using sint_pred [OF p] p by (simp add: taken_def)
  qed
  show "0 < sint (it_limit (n_iter s)) \<and> sint (it_limit (n_iter ?t)) = sint limit - int (length (n_got ?t)) \<and>
      int (length (queued ?t) + length (in_flight ?t)) \<le> sint (it_limit (n_iter ?t))" if "limit \<noteq> 0"
    using assms(2) L [OF that] that q unfolding same by (simp add: limited_def)
  show "0 < sint (it_limit (n_iter ?t))" if "limit \<noteq> 0" "0 < pending s"
    using assms(2) L [OF that(1)] that q by (simp add: limited_def)
  show "limited limit ?t" if "limit = 0 \<or> 0 < sint (it_limit (n_iter ?t)) \<or> err s \<noteq> None"
  proof (cases "limit = 0")
    case True
    then show ?thesis using assms(2) by (simp add: limited_def taken_def)
  next
    case False
    have Q: "length (queued s) = Suc (length (mq_content q))" using q by simp
    show ?thesis
      using assms(2) that L(2) [OF False] unfolding limited_def same Q
      by (simp add: False) (elim conjE, intro conjI impI; simp)
  qed
  show "complete limit docs ?t" if "limit = 0 \<or> 0 < sint (it_limit (n_iter ?t))"
    using assms(3) q that unfolding complete_def same by auto
qed


text \<open>When the limit is reached nothing is left to come.\<close>

lemma live_exhausted:
  assumes "delivering docs s" and "limit \<noteq> 0" and "int (length (n_got s)) = sint limit"
    and "queued s = []" and "in_flight s = []" and "pending s = 0" and "0 < sint limit"
    and "it_docData it = it_docData (n_iter s)" "it_timed it = it_timed (n_iter s)" "it_err it = Some x"
      "it_sent it = it_sent (n_iter s)" "it_limit it = 0"
  defines "t \<equiv> s\<lparr>n_iter := it\<rparr>"
  shows "delivering docs t \<and> limited limit t \<and> complete limit docs t"
proof -
  have same: "queued t = queued s" "in_flight t = in_flight s" "fresh t = fresh s" "pending t = pending s"
    by (simp_all add: t_def queued_def in_flight_def fresh_def pending_def assms(8,11))
  note A = deliveringD [OF assms(1)]
  obtain rest where "docs = n_got s @ queued s @ in_flight s @ rest" using A(3) by blast
  then have "delivering docs t"
    by (intro deliveringI [where rest = rest], unfold same) (use A assms(6,9-11) in \<open>auto simp: t_def assms(8)\<close>)
  moreover have "limited limit t" unfolding limited_def same using assms(2-7,10,12) by (simp add: t_def)
  moreover have "complete limit docs t" unfolding complete_def same using assms(2-4) by (simp add: t_def)
  ultimately show ?thesis by blast
qed

lemma wanted_all:
  assumes "delivering docs s" and "limited limit s" and "docs = n_got s"
  shows "n_got s = wanted limit docs"
proof (cases "limit = 0")
  case False
  then have "int (length (n_got s)) \<le> sint limit" using assms(2) by (simp add: limited_def)
  then show ?thesis using False assms(3) by (simp add: wanted_def)
qed (simp add: wanted_def assms(3))

lemma wanted_limit:
  assumes "docs = n_got s @ rest" and "limit \<noteq> 0" and "int (length (n_got s)) = sint limit"
  shows "n_got s = wanted limit docs"
  using assms by (simp add: wanted_def flip: assms(3))

text \<open>The document that reaches the limit.\<close>

lemma live_take_last:
  assumes "delivering docs s" and "limited limit s" and "complete limit docs s"
    and Some: "mq_Pop (it_docData (n_iter s)) = Some (d, q)" and "next_take k m (n_iter s) = (r, it)"
    and "\<not> (limit = 0 \<or> 0 < sint (it_limit (n_iter (taken d q s))))"
  shows "r = NextDoc d \<and> live limit docs (s\<lparr>n_iter := it, n_got := n_got s @ [d]\<rparr>) \<or>
    r = NextFalse \<and> it_err it \<noteq> None \<and> it_err it \<noteq> Some NotFound"
proof -
  let ?t = "taken d q s"
  note T = taken_live [OF assms(1-3) Some]
  have upd: "?t\<lparr>n_iter := it\<rparr> = s\<lparr>n_iter := it, n_got := n_got s @ [d]\<rparr>" by (simp add: taken_def)
  have n: "limit \<noteq> 0" and le: "sint (it_limit (n_iter ?t)) \<le> 0" using assms(6) by auto
  note T7 = T(7) [OF n]
  have "length (queued ?t) + length (in_flight ?t) = 0" "sint (it_limit (n_iter ?t)) = 0" using T7 le by linarith+
  then have e: "queued ?t = []" "in_flight ?t = []" "sint (it_limit (n_iter ?t)) = 0" by simp_all
  have l: "it_limit (n_iter ?t) = 0" using e(3) by (simp add: signed_eq_0_iff)
  have g: "int (length (n_got ?t)) = sint limit" using T7 e(3) by simp
  have p: "pending ?t = 0" using T(8) [OF n] e(3) by (cases "0 < pending s") (simp_all add: taken_def pending_def)
  have lp: "0 < sint limit" using assms(2) n by (simp add: limited_def)
  obtain failed it3 where kc: "killCursor k ((n_iter ?t)\<lparr>it_err := Some NotFound\<rparr>) = (failed, it3)" by fastforce
  have w: "docs_waiting (n_iter ?t) = 0" using docs_waiting_queued e(1) by simp
  have nt: "next_take k m (n_iter s) = (if failed then (NextFalse, it3) else take_more m d it3)"
    using Some T7 l w kc by (simp add: next_take_def taken_def Let_def)
  have k3: "it_docData it3 = it_docData (n_iter ?t)" "it_timed it3 = it_timed (n_iter ?t)"
    "it_sent it3 = it_sent (n_iter ?t)" "it_limit it3 = 0" "it_err it3 \<noteq> None"
    "failed \<Longrightarrow> it_err it3 \<noteq> Some NotFound"
    using kc l by (auto simp: killCursor_def split: if_splits option.splits)
  show ?thesis
  proof (cases failed)
    case True
    then show ?thesis using nt assms(5) k3(5,6) by simp
  next
    case False
    then have r: "r = NextDoc d" "it = it3" using nt assms(5) k3(5) by (auto simp: take_more_def)
    obtain x where "it_err it3 = Some x" using k3(5) by blast
    from live_exhausted [OF T(1) n g e(1,2) p lp k3(1,2) this k3(3,4)] show ?thesis
      using r upd by auto
  qed
qed

text \<open>The second part of \<open>Next\<close> in a live state: a document, the end, or the lock.\<close>

lemma live_take:
  assumes "delivering docs s" and "limited limit s" and "complete limit docs s"
    and "possible (n_broken s) m" and "next_take k m (n_iter s) = (r, it)"
    and leave: "err s \<noteq> None \<or> queued s \<noteq> [] \<or> it_docsToReceive (n_iter s) \<le> 0 \<and> it_cursorId (n_iter s) = 0"
  shows "(\<exists>d. r = NextDoc d \<and> live limit docs (s\<lparr>n_iter := it, n_got := n_got s @ [d]\<rparr>)) \<or>
    r = NextFalse \<and> it_err it \<noteq> None \<and> (it_err it = Some NotFound \<longrightarrow> n_got s = wanted limit docs) \<or>
    r = NextStuck \<and> n_broken s \<noteq> None \<and> (\<exists>d. prefix (n_got s @ [d]) docs)"
proof (cases "mq_Pop (it_docData (n_iter s))")
  case None
  note A = deliveringD [OF assms(1)]
  have q: "queued s = []" using mq_Pop_None [OF A(1) None] by (simp add: queued_def)
  show ?thesis
  proof (cases "err s")
    case e: None
    then have c: "it_docsToReceive (n_iter s) \<le> 0" "it_cursorId (n_iter s) = 0" using leave q by auto
    then have "owed s = 0" using A(5) [OF e] by simp
    then have o: "pending s = 0" "n_reading s = None" using owed_0 [of s] A(6) by blast+
    then have "n_server s = []" using A(13) [OF e _ c(2)] by (simp add: asked_def fresh_def)
    then have "docs = n_got s" using A(4) [OF e] q o by (simp add: in_flight_def)
    then show ?thesis using assms(5) None e c(2) wanted_all [OF assms(1,2)] by (auto simp: next_take_def)
  next
    case (Some x)
    have "n_got s = wanted limit docs" if nf: "x = NotFound"
    proof -
      consider "docs = n_got s" | "limit \<noteq> 0" "int (length (n_got s)) = sint limit"
        using assms(3) q Some nf by (auto simp: complete_def)
      then show ?thesis
      proof cases
        case 2
        then show ?thesis using A(3) wanted_limit by (metis append.assoc)
      qed (use wanted_all [OF assms(1,2)] in blast)
    qed
    then show ?thesis using assms(5) None Some by (simp add: next_take_def)
  qed
next
  case (Some dq)
  obtain d q where dq: "dq = (d, q)" by fastforce
  let ?t = "taken d q s"
  note T = taken_live [OF assms(1-3) Some [unfolded dq]]
  have tf: "n_got ?t = n_got s @ [d]" "n_broken ?t = n_broken s" "err ?t = err s" "n_reading ?t = n_reading s"
    by (simp_all add: taken_def)
  have upd: "?t\<lparr>n_iter := it\<rparr> = s\<lparr>n_iter := it, n_got := n_got s @ [d]\<rparr>" by (simp add: taken_def)
  have pre: "prefix (n_got s @ [d]) docs" using deliveringD(3) [OF T(1)] by (auto simp: tf prefix_def)
  show ?thesis
  proof (cases "limit = 0 \<or> 0 < sint (it_limit (n_iter ?t))")
    case True
    have "next_take k m (n_iter s) = take_more m d (n_iter ?t)"
    proof (cases "limit = 0")
      case True
      have "n_iter ?t = (n_iter s)\<lparr>it_docData := q\<rparr>" using T(6) [OF True] by (cases "n_iter s") (simp add: taken_def)
      then show ?thesis using T(6) [OF True] Some dq by (simp add: next_take_def)
    next
      case False
      then have "0 < sint (it_limit (n_iter s))" "it_limit (n_iter ?t) \<noteq> 0" using T(7) True by auto
      then show ?thesis using Some dq by (simp add: next_take_def taken_def Let_def)
    qed
    then have "take_more m d (n_iter ?t) = (r, it)" using assms(5) by simp
    from live_take_more [OF T(1) _ _ _ _ this, of limit]
    show ?thesis
      using T(2-5) True assms(4) pre unfolding tf upd by blast
  next
    case False
    then show ?thesis using live_take_last [OF assms(1-3) Some [unfolded dq] assms(5)] by blast
  qed
qed


lemma getMore_failed:
  assumes "getMore m it = Some it1" and "\<forall>e. m \<noteq> SocketDead e" and "m \<noteq> Requested"
  shows "\<exists>e. it_err it1 = Some (Failed e) \<and> it_docData it1 = it_docData it \<and> it_timed it1 = it_timed it \<and>
    it_sent it1 = it_sent it \<and> it_limit it1 = it_limit it"
  using assms by (cases m) (auto simp: getMore_def Let_def)

text \<open>A whole part of \<open>Next\<close>.\<close>

lemma live_next:
  assumes live: "delivering docs s" "limited limit s" "complete limit docs s"
    and pos: "possible (n_broken s) m1" "possible (n_broken s) m2"
    and run: "next_body expired k m1 m2 (n_iter s) = (r, it)"
  shows "(\<exists>d. r = NextDoc d \<and> live limit docs (s\<lparr>n_iter := it, n_got := n_got s @ [d]\<rparr>)) \<or>
    r = NextFalse \<and> it_err it \<noteq> None \<and> (it_err it = Some NotFound \<longrightarrow> n_got s = wanted limit docs) \<or>
    r = NextWait \<and> live limit docs (s\<lparr>n_iter := it\<rparr>) \<and> it_err it = None \<and> queued (s\<lparr>n_iter := it\<rparr>) = [] \<and>
      (0 < pending (s\<lparr>n_iter := it\<rparr>) \<or> n_reading s \<noteq> None) \<or>
    r = NextStuck \<and> n_broken s \<noteq> None"
proof (cases "err s = None \<and> queued s = [] \<and> (0 < it_docsToReceive (n_iter s) \<or> it_cursorId (n_iter s) \<noteq> 0)")
  case False
  then have "wait_round expired m1 (n_iter s) = (None, n_iter s)"
    by (auto simp: wait_round_def docs_waiting_queued)
  then have "next_take k m2 (n_iter s) = (r, it)" using run by (simp add: next_body_def)
  moreover have "err s \<noteq> None \<or> queued s \<noteq> [] \<or> it_docsToReceive (n_iter s) \<le> 0 \<and> it_cursorId (n_iter s) = 0"
    using False by auto
  ultimately show ?thesis using live_take [OF live pos(2)] by blast
next
  case True
  note A = deliveringD [OF live(1)]
  show ?thesis
  proof (cases "it_docsToReceive (n_iter s) = 0")
    case False
    then have w: "r = NextWait" "it = n_iter s"
      using run True by (simp_all add: next_body_def wait_round_def docs_waiting_queued)
    have "owed s \<noteq> 0" using A(5) True False by simp
    then have "0 < pending s \<or> n_reading s \<noteq> None" by (auto simp: owed_def split: option.splits)
    then show ?thesis using w live True by simp
  next
    case D: True
    then have o: "pending s = 0" "n_reading s = None" using A(5,6) True owed_0 [of s] by auto
    have na: "\<not> asked s" using o by (simp add: asked_def fresh_def)
    have wr: "wait_round expired m1 (n_iter s) = (case getMore m1 (n_iter s) of
        None \<Rightarrow> (Some NextStuck, n_iter s)
      | Some it1 \<Rightarrow> (if it_err it1 \<noteq> None then None else Some NextWait, it1))"
      using True D A(2) by (simp add: wait_round_def docs_waiting_queued)
    consider (dead) e where "m1 = SocketDead e" | (req) "m1 = Requested"
      | (bad) "m1 \<noteq> Requested" "\<forall>e. m1 \<noteq> SocketDead e" by (cases m1) auto
    then show ?thesis
    proof cases
      case dead
      then show ?thesis using run pos(1) wr by (auto simp: next_body_def getMore_def)
    next
      case req
      have "r = NextWait" "it = n_iter (requested s)"
        using run True wr unfolding req by (auto simp: next_body_def getMore_Requested requested_iter)
      moreover have "s\<lparr>n_iter := n_iter (requested s)\<rparr> = requested s" by (simp add: requested_def)
      moreover have "live limit docs (requested s)"
        using live_requested [OF live _ na] True o live(2) by (auto simp: in_flight_def limited_def)
      moreover have "0 < pending (requested s)" using requested_pending [OF A(9)] by simp
      ultimately show ?thesis using True by (simp add: requested_iter)
    next
      case bad
      then obtain it1 where g: "getMore m1 (n_iter s) = Some it1" by (cases m1) (auto simp: getMore_def Let_def)
      from getMore_failed [OF g bad(2,1)] obtain e where e: "it_err it1 = Some (Failed e)"
        "it_docData it1 = it_docData (n_iter s)" "it_timed it1 = it_timed (n_iter s)"
        "it_sent it1 = it_sent (n_iter s)" "it_limit it1 = it_limit (n_iter s)" by blast
      have "mq_Pop (it_docData it1) = None"
      proof (rule ccontr)
        assume "mq_Pop (it_docData it1) \<noteq> None"
        then obtain d q where "mq_Pop (it_docData (n_iter s)) = Some (d, q)" using e(2) by auto
        from mq_Pop_Some [OF A(1) this] show False using True by (simp add: queued_def)
      qed
      then have "r = NextFalse" "it = it1" using run e(1) g by (auto simp: next_body_def wr next_take_def)
      then show ?thesis using e(1) by simp
    qed
  qed
qed

subsection \<open>Every step keeps the invariant\<close>

lemma live_prefix: "delivering docs s \<Longrightarrow> prefix (n_got s) docs"
  using deliveringD(3) by (auto simp: prefix_def)

text \<open>The invariant looks at the caller apart from the rest.\<close>

lemma delivering_caller [simp]:
  "delivering docs (s\<lparr>n_caller := c\<rparr>) = delivering docs s" "limited limit (s\<lparr>n_caller := c\<rparr>) = limited limit s"
  "complete limit docs (s\<lparr>n_caller := c\<rparr>) = complete limit docs s" "queued (s\<lparr>n_caller := c\<rparr>) = queued s"
  "pending (s\<lparr>n_caller := c\<rparr>) = pending s"
  by (simp_all add: delivering_def limited_def complete_def queued_def in_flight_def pending_def asked_def fresh_def
      owed_def)

lemma delivering_timedout:
  assumes "t = s\<lparr>n_iter := (n_iter s)\<lparr>it_timedout := b\<rparr>\<rparr>"
  shows "delivering docs t = delivering docs s" "limited limit t = limited limit s"
    "complete limit docs t = complete limit docs s"
  by (simp_all add: assms delivering_def limited_def complete_def queued_def in_flight_def pending_def asked_def
      fresh_def owed_def)

lemma inv_next:
  assumes inv: "iter_inv limit docs s" and c: "n_caller s = Calling"
    and pos: "possible (n_broken s) m1" "possible (n_broken s) m2"
    and run: "next_round expired k m1 m2 (n_iter s) = (r, it)" "after_next r it (n_got s) = (c', got)"
  shows "iter_inv limit docs (s\<lparr>n_iter := it, n_caller := c', n_got := got\<rparr>)"
proof -
  have live: "delivering docs s" "limited limit s" "complete limit docs s" using inv c by (simp_all add: iter_inv_def)
  have pre: "prefix (n_got s) docs" using inv by (simp add: iter_inv_def)
  have sw: "s\<lparr>n_iter := it, n_caller := c', n_got := got\<rparr> = (s\<lparr>n_iter := it, n_got := got\<rparr>)\<lparr>n_caller := c'\<rparr>" by simp
  let ?s = "s\<lparr>n_iter := (n_iter s)\<lparr>it_timedout := False\<rparr>\<rparr>"
  have "next_body expired k m1 m2 (n_iter ?s) = (r, it)" using run(1) by (simp add: next_round_def)
  from live_next [of docs ?s limit m1 m2 expired k r it, unfolded delivering_timedout [OF refl], OF live _ _ this] pos
  have "(\<exists>d. r = NextDoc d \<and> live limit docs (s\<lparr>n_iter := it, n_got := n_got s @ [d]\<rparr>)) \<or>
    r = NextFalse \<and> it_err it \<noteq> None \<and> (it_err it = Some NotFound \<longrightarrow> n_got s = wanted limit docs) \<or>
    r = NextWait \<and> live limit docs (s\<lparr>n_iter := it\<rparr>) \<and> it_err it = None \<and> queued (s\<lparr>n_iter := it\<rparr>) = [] \<and>
      (0 < pending (s\<lparr>n_iter := it\<rparr>) \<or> n_reading s \<noteq> None) \<or>
    r = NextStuck \<and> n_broken s \<noteq> None" by simp
  then show ?thesis
  proof (elim disjE exE conjE)
    fix d
    assume d: "r = NextDoc d" "delivering docs (s\<lparr>n_iter := it, n_got := n_got s @ [d]\<rparr>)"
      "limited limit (s\<lparr>n_iter := it, n_got := n_got s @ [d]\<rparr>)"
      "complete limit docs (s\<lparr>n_iter := it, n_got := n_got s @ [d]\<rparr>)"
    then show ?thesis using run(2) live_prefix [OF d(2)] unfolding sw by (auto simp: iter_inv_def)
  next
    assume "r = NextWait" "delivering docs (s\<lparr>n_iter := it\<rparr>)" "limited limit (s\<lparr>n_iter := it\<rparr>)"
      "complete limit docs (s\<lparr>n_iter := it\<rparr>)" "it_err it = None" "queued (s\<lparr>n_iter := it\<rparr>) = []"
      "0 < pending (s\<lparr>n_iter := it\<rparr>)"
    then show ?thesis using run(2) pre unfolding sw by (auto simp: iter_inv_def)
  next
    assume "r = NextWait" "delivering docs (s\<lparr>n_iter := it\<rparr>)" "limited limit (s\<lparr>n_iter := it\<rparr>)"
      "complete limit docs (s\<lparr>n_iter := it\<rparr>)" "it_err it = None" "queued (s\<lparr>n_iter := it\<rparr>) = []"
      "n_reading s \<noteq> None"
    then show ?thesis using run(2) pre unfolding sw by (auto simp: iter_inv_def)
  qed (use run(2) pre in \<open>auto simp: iter_inv_def\<close>)
qed


lemma inv_finish:
  assumes inv: "iter_inv limit docs s" and c: "n_caller s = Checking d"
    and run: "next_finish check d (n_iter s) = (ok, it)"
  shows "iter_inv limit docs (s\<lparr>n_iter := it, n_caller := (if ok then Calling else Rejected d (it_err it))\<rparr>)"
proof (cases ok)
  case True
  then have "it = n_iter s" using run by (auto simp: next_finish_def split: option.splits)
  then show ?thesis using True inv c by (simp add: iter_inv_def)
next
  case False
  then have "it_err it \<noteq> None" using run by (auto simp: next_finish_def split: option.splits if_splits)
  then show ?thesis using False inv by (auto simp: iter_inv_def)
qed

text \<open>The connection does something: the caller is awake, or will be.\<close>

lemma inv_environment:
  assumes inv: "iter_inv limit docs s" and "\<not> locked (n_caller s)"
    and same: "n_got t = n_got s" "n_caller t = (if n_caller s = Waiting then Calling else n_caller s)"
    and live: "delivering docs s \<Longrightarrow> limited limit s \<Longrightarrow> complete limit docs s \<Longrightarrow> live limit docs t"
  shows "iter_inv limit docs t"
  using assms by (cases "n_caller s") (auto simp: iter_inv_def locked_def)


lemma replyFunc_simps [simp]:
  "it_timed (iter_replyFunc ahead n it) = it_timed it" "it_limit (iter_replyFunc ahead n it) = it_limit it"
  "it_opLimit (iter_replyFunc ahead n it) = it_opLimit it" "it_sent (iter_replyFunc ahead n it) = it_sent it"
  by (auto simp: iter_replyFunc_def Let_def split: notice.split)

lemma reply_call_simps [simp]:
  "n_iter (reply_call ahead n s) = iter_replyFunc ahead n (n_iter s)" "n_got (reply_call ahead n s) = n_got s"
  "n_reading (reply_call ahead n s) = n_reading s" "n_replies (reply_call ahead n s) = n_replies s"
  "n_server (reply_call ahead n s) = n_server s" "n_broken (reply_call ahead n s) = n_broken s"
  "n_errors (reply_call ahead n s) = n_errors s" "n_crossed (reply_call ahead n s) = n_crossed s"
  "n_caller (reply_call ahead n s) = (if n_caller s = Waiting then Calling else n_caller s)"
  by (simp_all add: reply_call_def)

text \<open>The connection is lost.\<close>

lemma live_lost:
  assumes "delivering docs s" and "limited limit s" and "complete limit docs s"
    and "n_broken t \<noteq> None" "n_reading t = None" "n_got t = n_got s" "n_server t = n_server s" "n_iter t = iter_replyFunc ahead (NErr e) (n_iter s)"
    and "n_replies s \<le> n_replies t" "n_replies t \<le> length (it_sent (n_iter s))"
      "0 < pending t \<longrightarrow> n_replies t = n_replies s"
  shows "delivering docs t \<and> limited limit t \<and> complete limit docs t"
proof -
  note A = deliveringD [OF assms(1)]
  have it: "it_docData (n_iter t) = it_docData (n_iter s)" "err t = Some (Failed e)" "it_sent (n_iter t) = it_sent (n_iter s)"
    "it_limit (n_iter t) = it_limit (n_iter s)" "it_timed (n_iter t) = it_timed (n_iter s)"
    by (simp_all add: assms(8) iter_replyFunc_def)
  have same: "queued t = queued s" "in_flight t = []" "\<not> fresh t" "pending t \<le> pending s"
    using assms(9) by (simp_all add: queued_def in_flight_def fresh_def pending_def it assms(5))
  obtain rest where rest: "docs = n_got s @ queued s @ in_flight s @ rest" using A(3) by blast
  have "delivering docs t"
    by (rule deliveringI [where rest = "in_flight s @ rest"])
      (use A(1,2,10) rest same assms(4-7,10) in \<open>simp_all add: it\<close>)
  moreover have "limited limit t"
    using assms(2,11) same(4) unfolding limited_def same it assms(6) by (auto simp: it)
  moreover have "complete limit docs t" using it(2) by (simp add: complete_def)
  ultimately show ?thesis by blast
qed


lemma live_empty:
  assumes "delivering docs s" and "limited limit s" and "complete limit docs s"
    and "n_broken s = None" "n_reading s = None" "0 < pending s"
    and "good_reply (it_sent (n_iter s) ! n_replies s) (n_server s) rp" "ro_replyDocs rp = 0"
    and t: "n_reading t = None" "n_got t = n_got s" "n_server t = n_server s" "n_broken t = n_broken s"
      "n_iter t = iter_replyFunc ahead (NNone rp) (n_iter s)" "n_replies t = n_replies s + 1"
  shows "delivering docs t \<and> limited limit t \<and> complete limit docs t"
proof -
  note A = deliveringD [OF assms(1)]
  have e: "err s = None" using A(14) assms(4,6) by blast
  have rp: "ro_cursorId rp = 0" "n_server s = []" using assms(7,8) by (auto simp: good_reply_def Let_def)
  have it: "it_docData (n_iter t) = it_docData (n_iter s)" "err t = Some NotFound" "it_sent (n_iter t) = it_sent (n_iter s)"
    "it_limit (n_iter t) = it_limit (n_iter s)" "it_timed (n_iter t) = it_timed (n_iter s)"
    using rp(1) by (simp_all add: t iter_replyFunc_def)
  have p: "pending t = 0" "n_replies t \<le> length (it_sent (n_iter t))"
    using A(10) assms(6) t(6) by (simp_all add: pending_def it)
  have same: "queued t = queued s" "in_flight t = []" "\<not> fresh t"
    by (simp_all add: queued_def in_flight_def fresh_def it t(1))
  have d: "docs = n_got s @ queued s" using A(4) [OF e] rp(2) assms(5) by (simp add: in_flight_def)
  have "delivering docs t"
    by (rule deliveringI [where rest = "[]"]) (use A(1,2) d p same t(1-4,6) in \<open>simp_all add: it\<close>)
  moreover have "limited limit t" using assms(2) p unfolding limited_def same it t(2) by auto
  moreover have "complete limit docs t" using d by (simp add: complete_def same t(2))
  ultimately show ?thesis by blast
qed

lemma live_begin:
  assumes "delivering docs s" and "limited limit s" and "complete limit docs s"
    and "n_broken s = None" "n_reading s = None" "0 < pending s"
    and "good_reply (it_sent (n_iter s) ! n_replies s) (n_server s) rp"
    and k: "k = nat (sint (ro_replyDocs rp))" "0 < k"
  defines "t \<equiv> s\<lparr>n_replies := n_replies s + 1, n_reading := Some (rp, 0, take k (n_server s)),
    n_server := drop k (n_server s)\<rparr>"
  shows "delivering docs t \<and> limited limit t \<and> complete limit docs t"
proof -
  note A = deliveringD [OF assms(1)]
  have e: "err s = None" using A(14) assms(4,6) by blast
  have rp: "int k = sint (ro_replyDocs rp)" "k \<le> length (n_server s)"
      "0 < sint (it_sent (n_iter s) ! n_replies s) \<Longrightarrow> int k \<le> sint (it_sent (n_iter s) ! n_replies s)"
      "ro_cursorId rp = 0 \<Longrightarrow> k = length (n_server s)"
    using assms(7) k by (auto simp: good_reply_def Let_def)
  have p: "pending t = 0" "n_replies t \<le> length (it_sent (n_iter t))" "pending s = 1"
    using A(10) assms(6) by (simp_all add: pending_def t_def)
  have same: "queued t = queued s" "in_flight t = take k (n_server s)" "fresh t" "n_iter t = n_iter s" "n_got t = n_got s"
    "n_reading t = Some (rp, 0, take k (n_server s))" "n_server t = drop k (n_server s)" "asked t" "in_flight s = []"
    by (auto simp: queued_def in_flight_def fresh_def t_def asked_def assms(5))
  have ow: "owed t = owed s" using p assms(5) by (simp add: owed_def same)
  have ask: "asked s" using assms(6) by (simp add: asked_def)
  have "delivering docs t"
  proof (rule deliveringI [where rest = "n_server t"])
    show "docs = n_got t @ queued t @ in_flight t @ n_server t" using A(4) [OF e] by (simp add: same)
    show "ds \<noteq> [] \<and> sint (ro_replyDocs rp') = int i + int (length ds)" if "n_reading t = Some (rp', i, ds)" for rp' i ds
      using that rp(1,2) k(2) by (auto simp: same)
    show "it_docsToReceive (n_iter t) = int (owed t)" using A(5) [OF e] ow by (simp add: same)
    show "n_server t = []" if "n_reading t = Some (rp', i, ds)" "ro_cursorId rp' = 0" for rp' i ds
      using that rp(4) by (auto simp: same)
    show "it_docsBeforeMore (n_iter t) < 0 \<or> queued t = [] \<and> (n_reading t = None \<or> fresh t)"
      using A(12) [OF e ask] by (auto simp: same)
  qed (use A(1,2) p same e in simp_all)
  moreover have "limited limit t"
  proof (cases "limit = 0")
    case False
    have L: "0 < sint (it_sent (n_iter s) ! n_replies s)"
      "sint (it_sent (n_iter s) ! n_replies s) + int (length (queued s)) \<le> sint (it_limit (n_iter s))"
      using assms(2,6) False by (simp_all add: limited_def same(9))
    then have "int (length (queued s) + k) \<le> sint (it_limit (n_iter s))" using rp(3) by simp
    then show ?thesis
      using assms(2) False p(1) rp(2) same(8) unfolding limited_def same(1-7,9)
      by simp (elim conjE, intro conjI impI; simp)
  qed (use assms(2) in \<open>simp add: limited_def same\<close>)
  moreover have "complete limit docs t" using e by (simp add: complete_def same)
  ultimately show ?thesis by blast
qed

text \<open>The first document of the reply being read is handed over.\<close>

definition handed :: "(int \<Rightarrow> int) \<Rightarrow> reply_op \<Rightarrow> nat \<Rightarrow> bytes \<Rightarrow> bytes list \<Rightarrow> iteration \<Rightarrow> iteration" where
  "handed ahead rp i d ds s = s\<lparr>n_iter := iter_replyFunc ahead (NDoc rp i d) (n_iter s),
     n_reading := (if ds = [] then None else Some (rp, i + 1, ds))\<rparr>"

lemma handed_simps [simp]:
  "n_got (handed ahead rp i d ds s) = n_got s" "n_server (handed ahead rp i d ds s) = n_server s"
  "n_replies (handed ahead rp i d ds s) = n_replies s" "n_broken (handed ahead rp i d ds s) = n_broken s"
  "n_reading (handed ahead rp i d ds s) = (if ds = [] then None else Some (rp, i + 1, ds))"
  "err (handed ahead rp i d ds s) = err s" "it_sent (n_iter (handed ahead rp i d ds s)) = it_sent (n_iter s)"
  "it_limit (n_iter (handed ahead rp i d ds s)) = it_limit (n_iter s)"
  "it_timed (n_iter (handed ahead rp i d ds s)) = it_timed (n_iter s)"
  "it_opLimit (n_iter (handed ahead rp i d ds s)) = it_opLimit (n_iter s)"
  "in_flight (handed ahead rp i d ds s) = ds" "\<not> fresh (handed ahead rp i d ds s)"
  "pending (handed ahead rp i d ds s) = pending s" "asked (handed ahead rp i d ds s) = (0 < pending s)"
  by (auto simp: handed_def iter_replyFunc_def Let_def in_flight_def fresh_def pending_def asked_def)

lemma handed_queued:
  assumes "mq_ok (it_docData (n_iter s))"
  shows "mq_ok (it_docData (n_iter (handed ahead rp i d ds s)))" "queued (handed ahead rp i d ds s) = queued s @ [d]"
  using mq_Push_ok [OF assms] by (simp_all add: handed_def iter_replyFunc_def Let_def queued_def)

lemma handed_later:
  assumes "0 < i"
  shows "it_docsToReceive (n_iter (handed ahead rp i d ds s)) = it_docsToReceive (n_iter s) - 1"
    "it_cursorId (n_iter (handed ahead rp i d ds s)) = it_cursorId (n_iter s)"
    "it_docsBeforeMore (n_iter (handed ahead rp i d ds s)) = it_docsBeforeMore (n_iter s)"
  using assms by (simp_all add: handed_def iter_replyFunc_def Let_def)

lemma handed_first:
  assumes "sint (ro_replyDocs rp) = int (length ds) + 1"
  shows "it_docsToReceive (n_iter (handed ahead rp 0 d ds s)) = it_docsToReceive (n_iter s) - 1 + int (length ds)"
    "it_cursorId (n_iter (handed ahead rp 0 d ds s)) = ro_cursorId rp"
    "it_docsBeforeMore (n_iter (handed ahead rp 0 d ds s)) = (if it_limit (n_iter s) = 0 \<or>
        sint (word_of_int (int (length (queued s) + length ds + 1)) :: 32 word) < sint (it_limit (n_iter s))
      then int (length (queued s) + length ds + 1) - ahead (int (length ds + 1)) else - 1)"
proof -
  have "docs_waiting ((n_iter s)\<lparr>it_docsToReceive := x\<rparr>) = int (length (queued s))" for x
    using docs_waiting_queued [of s] by (simp add: docs_waiting_def)
  then show "it_docsBeforeMore (n_iter (handed ahead rp 0 d ds s)) = (if it_limit (n_iter s) = 0 \<or>
        sint (word_of_int (int (length (queued s) + length ds + 1)) :: 32 word) < sint (it_limit (n_iter s))
      then int (length (queued s) + length ds + 1) - ahead (int (length ds + 1)) else - 1)"
    by (simp add: handed_def iter_replyFunc_def Let_def assms add.assoc add.commute add.left_commute)
qed (simp_all add: handed_def iter_replyFunc_def Let_def assms)

lemma delivering_handed:
  assumes "delivering docs s" and r: "n_reading s = Some (rp, i, d # ds)"
  shows "delivering docs (handed ahead rp i d ds s)"
proof -
  let ?t = "handed ahead rp i d ds s"
  note A = deliveringD [OF assms(1)]
  have n: "sint (ro_replyDocs rp) = int i + int (length ds) + 1" using A(6) [OF r] by simp
  have first: "sint (ro_replyDocs rp) = int (length ds) + 1" if "i = 0" using n that by simp
  have none: "pending s = 0" if "i = 0" using A(11) r that by (simp add: fresh_def)
  have old: "\<not> fresh s" if "0 < i" using r that by (simp add: fresh_def)
  obtain rest where rest: "docs = n_got s @ queued s @ in_flight s @ rest" "err s = None \<Longrightarrow> rest = n_server s"
    using assms(1) unfolding delivering_def by auto
  have cur: "it_cursorId (n_iter ?t) = ro_cursorId rp" if "err s = None"
    using A(7) [OF r that] handed_first(2) [OF first] handed_later(2) by (cases "i = 0") simp_all
  show ?thesis
  proof (rule deliveringI [where rest = rest])
    show "docs = n_got ?t @ queued ?t @ in_flight ?t @ rest"
      using rest(1) handed_queued(2) [OF A(1)] by (simp add: in_flight_def r)
    show "it_docsToReceive (n_iter ?t) = int (owed ?t)" if "err ?t = None"
    proof (cases "i = 0")
      case True
      then show ?thesis using that A(5) none handed_first(1) [OF first] by (simp add: owed_def r)
    next
      case False
      then show ?thesis using that A(5) handed_later(1) by (simp add: owed_def r)
    qed
    show "it_docsBeforeMore (n_iter ?t) < 0 \<or> queued ?t = [] \<and> (n_reading ?t = None \<or> fresh ?t)"
      if "err ?t = None" "asked ?t"
    proof (cases "i = 0")
      case False
      then have "0 < i" "asked s" using that by (simp_all add: asked_def)
      then have "it_docsBeforeMore (n_iter s) < 0" using A(12) that(1) old r by simp
      then show ?thesis using False by (simp add: handed_later(3))
    qed (use that none in simp)
    show "n_server ?t = []" if "err ?t = None" "it_cursorId (n_iter ?t) = 0" using that cur A(8) [OF r] by simp
  qed (use A n r cur rest(2) handed_queued(1) [OF A(1)] in \<open>auto split: if_splits\<close>)
qed

lemma limited_handed:
  assumes "delivering docs s" and "limited limit s" and r: "n_reading s = Some (rp, i, d # ds)"
  shows "limited limit (handed ahead rp i d ds s)"
proof (cases "limit = 0")
  case False
  let ?t = "handed ahead rp i d ds s"
  note A = deliveringD [OF assms(1)]
  have fl: "in_flight s = d # ds" by (simp add: in_flight_def r)
  have sum: "length (queued ?t) + length (in_flight ?t) = length (queued s) + length (in_flight s)"
    by (simp add: handed_queued(2) [OF A(1)] fl)
  have L: "int (length (queued s) + length (in_flight s)) \<le> sint (it_limit (n_iter s))"
    "err s = None \<Longrightarrow> 0 < sint (it_limit (n_iter s))"
    using assms(2) False by (simp_all add: limited_def)
  have "int (length (queued s) + length (in_flight s)) < sint (it_limit (n_iter s))"
    if "err s = None" "\<not> asked ?t" "0 \<le> it_docsBeforeMore (n_iter ?t)"
  proof (cases "i = 0")
    case True
    let ?k = "int (length (queued s) + length ds + 1)"
    have "sint (ro_replyDocs rp) = int (length ds) + 1" using A(6) [OF r] True by simp
    then have "sint (word_of_int ?k :: 32 word) < sint (it_limit (n_iter s))"
      using that(1,3) L(2) unfolding True by (auto simp: handed_first(3) split: if_splits)
    moreover have "sint (word_of_int ?k :: 32 word) = ?k"
      using L(1) sint_32 [of "it_limit (n_iter s)"] by (intro sint_small) (simp_all add: fl)
    ultimately show ?thesis by (simp add: fl)
  next
    case i: False
    then have "\<not> asked s" using that(2) r by (simp add: asked_def fresh_def)
    then show ?thesis using assms(2) that i \<open>limit \<noteq> 0\<close> by (simp add: limited_def handed_later(3))
  qed
  then show ?thesis
    using assms(2) False unfolding limited_def unfolding sum unfolding handed_simps
    by simp (elim conjE, intro conjI impI; simp)
qed (use assms(2) in \<open>simp add: limited_def\<close>)

lemma flying_not_found:
  assumes "delivering docs s" and "limited limit s" and "complete limit docs s" and "in_flight s \<noteq> []"
  shows "err s \<noteq> Some NotFound"
proof
  assume e: "err s = Some NotFound"
  show False
  proof (cases "docs = n_got s @ queued s")
    case True
    then show False using deliveringD(3) [OF assms(1)] assms(4) by auto
  next
    case False
    then have "limit \<noteq> 0" "int (length (n_got s)) = sint limit" using assms(3) e by (auto simp: complete_def)
    then have "int (length (queued s) + length (in_flight s)) \<le> 0" using assms(2) by (simp add: limited_def)
    then have "length (in_flight s) = 0" by linarith
    then show False using assms(4) by simp
  qed
qed

lemma live_document:
  assumes "delivering docs s" and "limited limit s" and "complete limit docs s"
    and "n_reading s = Some (rp, i, d # ds)"
  shows "live limit docs (handed ahead rp i d ds s)"
  using delivering_handed [OF assms(1,4)] limited_handed [OF assms(1,2,4)] flying_not_found [OF assms(1-3)] assms(4)
  by (simp add: complete_def in_flight_def)

text \<open>The connection is lost, or a fresh one is used when nothing is outstanding on it.\<close>

lemma live_broken:
  assumes "delivering docs s" and "limited limit s" and "complete limit docs s" and "b = None \<Longrightarrow> pending s = 0"
  shows "live limit docs (s\<lparr>n_broken := b\<rparr>)"
proof -
  let ?t = "s\<lparr>n_broken := b\<rparr>"
  have same: "queued ?t = queued s" "in_flight ?t = in_flight s" "fresh ?t = fresh s" "pending ?t = pending s"
    "asked ?t = asked s" "owed ?t = owed s"
    by (simp_all add: queued_def in_flight_def fresh_def pending_def asked_def owed_def)
  have fields: "n_iter ?t = n_iter s" "n_got ?t = n_got s" "n_reading ?t = n_reading s" "n_server ?t = n_server s"
    "n_replies ?t = n_replies s" "n_broken ?t = b"
    by simp_all
  have "limited limit ?t = limited limit s" "complete limit docs ?t = complete limit docs s"
    unfolding limited_def complete_def same fields by (rule refl)+
  moreover have "delivering docs ?t"
    using assms(1,4) unfolding delivering_def same fields by (elim conjE, intro conjI) (assumption | simp)+
  ultimately show ?thesis using assms(2,3) by simp
qed

lemma reconnect_idle:
  assumes "delivering docs s" and "outstanding s = 0"
  shows "reconnect 0 s = s\<lparr>n_broken := None\<rparr>"
proof -
  have o: "pending s = 0" "n_reading s = None" using assms(2) by (simp_all add: outstanding_def split: if_splits)
  then have "n_replies s = length (it_sent (n_iter s))" using deliveringD(9) [OF assms(1)] by (simp add: pending_def)
  then show ?thesis using o assms(2) by (intro iteration.equality) (simp_all add: reconnect_def)
qed

lemma iter_inv_step:
  assumes inv: "iter_inv limit docs s" and step: "iterate ahead check s t" and "n_errors s = 0" and "\<not> n_crossed t"
  shows "iter_inv limit docs t"
  using step
proof (cases rule: iterate.cases)
  case (it_next m1 m2 expired k r it1 c got)
  then show ?thesis using inv_next [OF inv] by blast
next
  case (it_fresh e j expired k r it1 c got)
  have live: "delivering docs s" "limited limit s" "complete limit docs s" using inv it_fresh(2) by (simp_all add: iter_inv_def)
  have o: "outstanding s = 0" using assms(4) by (simp add: it_fresh(1) reconnect_def)
  then have p: "pending s = 0" by (simp add: outstanding_def)
  then have t: "t = (s\<lparr>n_broken := None\<rparr>)\<lparr>n_iter := it1, n_caller := c, n_got := got\<rparr>"
    using reconnect_idle [OF live(1) o] it_fresh(4) by (simp add: it_fresh(1))
  have "iter_inv limit docs (s\<lparr>n_broken := None\<rparr>)"
    using live_broken [OF live p] live_prefix [OF live(1)] it_fresh(2) by (simp add: iter_inv_def)
  then show ?thesis unfolding t
    by (rule inv_next [of limit docs "s\<lparr>n_broken := None\<rparr>" Requested Requested expired k r it1 c got])
      (use it_fresh in simp_all)
next
  case (it_late e)
  then show ?thesis using assms(3) by simp
next
  case (it_finish d ok it1)
  then show ?thesis using inv_finish [OF inv] by blast
next
  case (it_empty rp)
  show ?thesis
  proof (rule inv_environment [OF inv it_empty(2)])
    show "live limit docs t" if "delivering docs s" "limited limit s" "complete limit docs s"
      by (rule live_empty [OF that it_empty(3-7)]) (simp_all add: it_empty(1) it_empty(4))
  qed (simp_all add: it_empty(1))
next
  case (it_begin rp k)
  have "live limit docs t" if "delivering docs s" "limited limit s" "complete limit docs s"
    unfolding it_begin(1) by (rule live_begin [OF that it_begin(2-7)])
  then show ?thesis using inv by (cases "n_caller s") (auto simp: iter_inv_def it_begin(1) queued_def)
next
  case (it_document rp i d ds)
  show ?thesis
  proof (rule inv_environment [OF inv it_document(2)])
    have "t = (handed ahead rp i d ds s)\<lparr>n_caller := (if n_caller s = Waiting then Calling else n_caller s)\<rparr>"
      by (simp add: it_document(1) handed_def reply_call_def)
    then show "live limit docs t" if "delivering docs s" "limited limit s" "complete limit docs s"
      using live_document [OF that it_document(4)] by simp
  qed (simp_all add: it_document(1))
next
  case (it_break e)
  have "live limit docs t" if "delivering docs s" "limited limit s" "complete limit docs s"
    unfolding it_break(1) by (rule live_broken [OF that]) simp
  then show ?thesis using inv by (cases "n_caller s") (auto simp: iter_inv_def it_break queued_def pending_def)
next
  case (it_lost e)
  show ?thesis
  proof (rule inv_environment [OF inv it_lost(2)])
    show "live limit docs t" if "delivering docs s" "limited limit s" "complete limit docs s"
      by (rule live_lost [OF that]) (use it_lost(3) deliveringD(9) [OF that(1)] in \<open>simp_all add: it_lost(1)\<close>)
  qed (simp_all add: it_lost(1))
next
  case (it_unanswered e)
  show ?thesis
  proof (rule inv_environment [OF inv it_unanswered(2)])
    show "live limit docs t" if "delivering docs s" "limited limit s" "complete limit docs s"
    proof (rule live_lost [OF that])
      have "pending t = 0" using deliveringD(10) [OF that(1)] it_unanswered(5) by (simp add: it_unanswered(1) pending_def)
      then show "0 < pending t \<longrightarrow> n_replies t = n_replies s" by simp
      show "n_replies t \<le> length (it_sent (n_iter s))" using it_unanswered(5) by (simp add: it_unanswered(1) pending_def)
    qed (use it_unanswered(3,4) in \<open>simp_all add: it_unanswered(1)\<close>)
  qed (simp_all add: it_unanswered(1))
qed

text \<open>The limits a query may have: none, or a batch size no larger than it.\<close>

definition limits_ok :: "32 word \<Rightarrow> 32 word \<Rightarrow> bool" where
  "limits_ok opLimit limit \<longleftrightarrow> limit = 0 \<or> 0 < sint opLimit \<and> sint opLimit \<le> sint limit"

lemma iter_inv_begin:
  assumes "limits_ok opLimit limit"
  shows "iter_inv limit docs (iter_begin collection opLimit limit docs)"
proof -
  let ?s = "iter_begin collection opLimit limit docs"
  have s: "n_reading ?s = None" "n_got ?s = []" "n_replies ?s = 0" "n_server ?s = docs" "n_broken ?s = None"
    "n_caller ?s = Calling" "it_docData (n_iter ?s) = mq_empty" "err ?s = None" "it_sent (n_iter ?s) = [opLimit]"
    "it_opLimit (n_iter ?s) = opLimit" "it_limit (n_iter ?s) = limit" "it_docsToReceive (n_iter ?s) = 1"
    "\<not> it_timed (n_iter ?s)"
    by (simp_all add: iter_begin_def query_Iter_def new_iter_def)
  have d: "queued ?s = []" "in_flight ?s = []" "\<not> fresh ?s" "pending ?s = 1" "asked ?s" "owed ?s = 1"
    by (simp_all add: queued_def in_flight_def fresh_def pending_def asked_def owed_def s mq_content_empty)
  have "delivering docs ?s"
    by (rule deliveringI [where rest = docs]) (simp_all add: s d mq_ok_empty)
  moreover have "limited limit ?s" using assms unfolding limited_def d s by (auto simp: limits_ok_def)
  moreover have "complete limit docs ?s" by (simp add: complete_def s)
  ultimately show ?thesis by (simp add: iter_inv_def s)
qed

text \<open>
  After a request has gone over a fresh connection while the lost one had a reply outstanding, no more is known than
  that an error comes or has come.
\<close>

definition crossed_inv :: "iteration \<Rightarrow> bool" where
  "crossed_inv s \<longleftrightarrow> (0 < n_errors s \<or> err s \<noteq> None) \<and> (n_caller s = Waiting \<longrightarrow> err s = None) \<and>
     (n_caller s = Stuck \<longrightarrow> n_broken s \<noteq> None)"

definition cursor_inv :: "32 word \<Rightarrow> bytes list \<Rightarrow> iteration \<Rightarrow> bool" where
  "cursor_inv limit docs s \<longleftrightarrow> (if n_crossed s then crossed_inv s else n_errors s = 0 \<and> iter_inv limit docs s)"

lemma killCursor_err: "it_err it \<noteq> None \<Longrightarrow> it_err (snd (killCursor k it)) \<noteq> None"
  by (auto simp: killCursor_def split: option.split)

lemma take_more_failed: "it_err it \<noteq> None \<Longrightarrow> take_more m d it = (NextDoc d, it)"
  by (auto simp: take_more_def)

lemma next_take_err:
  assumes "next_take k m it = (r, it1)" and "it_err it \<noteq> None"
  shows "it_err it1 \<noteq> None"
proof (cases "mq_Pop (it_docData it)")
  case (Some dq)
  obtain d q where dq: "dq = (d, q)" by (cases dq)
  obtain f it3 where kc: "killCursor k (it\<lparr>it_docData := q, it_limit := it_limit it - 1, it_err := Some NotFound\<rparr>) = (f, it3)"
    by fastforce
  then have "it_err it3 \<noteq> None" using killCursor_err [of "it\<lparr>it_docData := q, it_limit := it_limit it - 1, it_err := Some NotFound\<rparr>" k] by simp
  then show ?thesis using assms kc Some dq
    by (auto simp: next_take_def Let_def take_more_failed split: if_splits)
qed (use assms in \<open>simp add: next_take_def\<close>)

lemma next_round_err:
  assumes "next_round expired k m1 m2 it = (r, it1)" and "it_err it \<noteq> None"
  shows "it_err it1 \<noteq> None"
proof -
  have "next_take k m2 (it\<lparr>it_timedout := False\<rparr>) = (r, it1)"
    using assms by (simp add: next_round_def next_body_def wait_round_def)
  then show ?thesis using next_take_err assms(2) by fastforce
qed

lemma take_more_not_wait: "fst (take_more m d it) \<noteq> NextWait" "fst (take_more m d it) = NextStuck \<Longrightarrow> \<exists>e. m = SocketDead e"
  by (auto simp: take_more_def getMore_def Let_def split: option.splits request_result.splits if_splits)

lemma next_take_results:
  "fst (next_take k m it) \<noteq> NextWait" "fst (next_take k m it) = NextStuck \<Longrightarrow> \<exists>e. m = SocketDead e"
  using take_more_not_wait
  by (auto simp: next_take_def Let_def split: option.splits if_splits prod.splits)

lemma next_round_wait:
  assumes "next_round expired k m1 m2 it = (NextWait, it1)"
  shows "it_err it1 = None"
proof -
  let ?it = "it\<lparr>it_timedout := False\<rparr>"
  obtain ro it2 where w: "wait_round expired m1 ?it = (ro, it2)" by fastforce
  have "ro = Some NextWait \<and> it2 = it1" using assms w next_take_results(1) [of k m2 it2]
    by (cases ro) (auto simp: next_round_def next_body_def)
  then show ?thesis using w by (auto simp: wait_round_def split: if_splits option.splits)
qed

lemma next_round_stuck:
  assumes "next_round expired k m1 m2 it = (NextStuck, it1)"
  shows "(\<exists>e. m1 = SocketDead e) \<or> (\<exists>e. m2 = SocketDead e)"
proof -
  let ?it = "it\<lparr>it_timedout := False\<rparr>"
  obtain ro it2 where w: "wait_round expired m1 ?it = (ro, it2)" by fastforce
  show ?thesis
  proof (cases ro)
    case None
    then show ?thesis using assms w next_take_results(2) [of k m2 it2] by (auto simp: next_round_def next_body_def)
  next
    case (Some x)
    then have "x = NextStuck" using assms w by (simp add: next_round_def next_body_def)
    then have "getMore m1 ?it = None" using w Some by (auto simp: wait_round_def split: if_splits option.splits)
    then show ?thesis by (auto simp: getMore_def Let_def split: request_result.splits)
  qed
qed

lemma after_next_cases:
  "after_next r it got = (c, got') \<Longrightarrow> (c = Waiting \<longrightarrow> r = NextWait) \<and> (c = Stuck \<longrightarrow> r = NextStuck)"
  by (cases r) auto

lemma crossed_next:
  assumes "next_round expired k m1 m2 (n_iter s) = (r, it1)" and "after_next r it1 got0 = (c, got)"
    and "n_iter t = it1" and "n_caller t = c" and "0 < n_errors t \<or> err s \<noteq> None"
    and "(\<exists>e. m1 = SocketDead e) \<or> (\<exists>e. m2 = SocketDead e) \<Longrightarrow> n_broken t \<noteq> None"
  shows "crossed_inv t"
  using next_round_err [OF assms(1)] next_round_wait next_round_stuck after_next_cases [OF assms(2)] assms
  unfolding crossed_inv_def by blast

lemma replyFunc_err: "it_err it \<noteq> None \<Longrightarrow> it_err (iter_replyFunc ahead n it) \<noteq> None"
  by (auto simp: iter_replyFunc_def Let_def split: notice.split)

lemma crossed_step:
  assumes step: "iterate ahead check s t" and "n_crossed s \<Longrightarrow> crossed_inv s" and "n_crossed t"
  shows "crossed_inv t"
  using step
proof (cases rule: iterate.cases)
  case (it_next m1 m2 expired k r it1 c got)
  then have "crossed_inv s" using assms(2,3) by simp
  then show ?thesis using it_next
    by (intro crossed_next [OF it_next(5,6)]) (auto simp: crossed_inv_def)
next
  case (it_fresh e j expired k r it1 c got)
  have "0 < n_errors t \<or> err s \<noteq> None"
    using assms(2,3) by (auto simp: it_fresh(1) reconnect_def crossed_inv_def)
  then show ?thesis using it_fresh(1) by (intro crossed_next [OF it_fresh(5,7)]) auto
next
  case (it_finish d ok it1)
  then have "crossed_inv s" using assms(2,3) by simp
  then show ?thesis using it_finish
    by (auto simp: crossed_inv_def next_finish_def split: option.splits if_splits)
next
  case (it_begin rp k)
  then show ?thesis using assms(2,3) by (simp add: crossed_inv_def)
next
  case (it_break e)
  then show ?thesis using assms(2,3) by (simp add: crossed_inv_def)
next
  case (it_late e)
  then show ?thesis by (simp add: crossed_inv_def locked_def iter_replyFunc_def)
qed (use assms(2,3) replyFunc_err in \<open>auto simp: crossed_inv_def locked_def\<close>)

lemma cursor_inv_step:
  assumes "cursor_inv limit docs s" and "iterate ahead check s t"
  shows "cursor_inv limit docs t"
proof (cases "n_crossed t")
  case True
  then show ?thesis using crossed_step [OF assms(2)] assms(1) by (simp add: cursor_inv_def split: if_splits)
next
  case False
  have "\<not> n_crossed s" using assms(2) False by cases (auto simp: reconnect_def)
  then have s: "n_errors s = 0" "iter_inv limit docs s" using assms(1) by (simp_all add: cursor_inv_def)
  have "n_errors t = 0" using assms(2) False s(1) by cases (auto simp: reconnect_def)
  then show ?thesis using iter_inv_step [OF s(2) assms(2) s(1) False] False by (simp add: cursor_inv_def)
qed

lemma cursor_inv_begin:
  assumes "limits_ok opLimit limit"
  shows "cursor_inv limit docs (iter_begin collection opLimit limit docs)"
  using iter_inv_begin [OF assms] by (simp add: cursor_inv_def) (simp add: iter_begin_def)

interpretation iteration: invariant
    "\<lambda>s. limits_ok opLimit limit \<and> s = iter_begin collection opLimit limit docs" "iterate ahead check"
    "cursor_inv limit docs"
  for opLimit limit collection docs ahead check
  by unfold_locales (use cursor_inv_begin cursor_inv_step in blast)+


subsection \<open>Properties\<close>


lemma good_reply_exists:
  "\<exists>rp. good_reply l srv rp \<and> (ro_replyDocs rp = 0 \<or> 0 < nat (sint (ro_replyDocs rp)))"
proof (cases srv)
  case Nil
  have "good_reply l srv \<lparr>ro_flags = 0, ro_cursorId = 0, ro_firstDoc = 0, ro_replyDocs = 0\<rparr>"
    by (simp add: good_reply_def Nil)
  then show ?thesis by force
next
  case (Cons d ds)
  have "good_reply l srv \<lparr>ro_flags = 0, ro_cursorId = (if ds = [] then 0 else 1), ro_firstDoc = 0, ro_replyDocs = 1\<rparr>"
    by (simp add: good_reply_def Cons)
  then show ?thesis by force
qed

lemma uncrossed_wakes:
  assumes inv: "iter_inv limit docs s" and w: "n_caller s = Waiting"
  shows "\<exists>t. rtranclp (iterate ahead check) s t \<and> n_caller t = Calling"
proof -
  have out: "0 < pending s \<or> n_reading s \<noteq> None" and del: "delivering docs s" using inv w by (simp_all add: iter_inv_def)
  have nl: "\<not> locked (n_caller s)" using w by (simp add: locked_def)
    have doc: "\<exists>t. iterate ahead check u t \<and> n_caller t = Calling"
      if "n_caller u = Waiting" "n_broken u = None" "n_reading u = Some (rp, i, d # ds)" for u rp i d ds
      using iterate.it_document [of u rp i d ds ahead check] that by (fastforce simp: locked_def)
    have wake: "n_caller ((reply_call ahead n s)\<lparr>n_reading := x\<rparr>) = Calling"
      "n_caller ((reply_call ahead n s)\<lparr>n_replies := k\<rparr>) = Calling" for n x k
      using w by simp_all
    show "\<exists>t. rtranclp (iterate ahead check) s t \<and> n_caller t = Calling"
    proof (cases "n_broken s")
      case (Some e)
      show ?thesis
      proof (cases "n_reading s = None")
        case True
        then have "0 < pending s" using out by simp
        from iterate.it_unanswered [OF nl Some True this, of ahead check] show ?thesis
          using wake(2) by (blast intro: r_into_rtranclp)
      next
        case False
        from iterate.it_lost [OF nl Some this, of ahead check] show ?thesis
          using wake(1) by (blast intro: r_into_rtranclp)
      qed
    next
      case None
      show ?thesis
      proof (cases "n_reading s")
        case (Some r)
        obtain rp i ds where r: "r = (rp, i, ds)" by (cases r)
        then obtain d ds' where "ds = d # ds'" using deliveringD(6) [OF del, of rp i ds] Some by (cases ds) auto
        then show ?thesis using doc [OF w None, of rp i d ds'] Some r by (blast intro: r_into_rtranclp)
      next
        case N: None
        then have p: "0 < pending s" using out by simp
        obtain rp where rp: "good_reply (it_sent (n_iter s) ! n_replies s) (n_server s) rp"
          "ro_replyDocs rp = 0 \<or> 0 < nat (sint (ro_replyDocs rp))" using good_reply_exists by blast
        show ?thesis
        proof (cases "ro_replyDocs rp = 0")
          case True
          from iterate.it_empty [OF nl None N p rp(1) True, of ahead check] show ?thesis
            using wake(2) by (blast intro: r_into_rtranclp)
        next
          case False
          let ?k = "nat (sint (ro_replyDocs rp))"
          have k: "0 < ?k" "?k \<le> length (n_server s)" using rp False by (auto simp: good_reply_def Let_def)
          let ?u = "s\<lparr>n_replies := n_replies s + 1, n_reading := Some (rp, 0, take ?k (n_server s)),
            n_server := drop ?k (n_server s)\<rparr>"
          have st: "iterate ahead check s ?u" by (rule iterate.it_begin [OF None N p rp(1) refl k(1)])
          obtain d ds where "take ?k (n_server s) = d # ds" using k by (cases "take ?k (n_server s)") auto
          then obtain t where "iterate ahead check ?u t" "n_caller t = Calling" using doc [of ?u rp 0 d ds] w None by auto
          then show ?thesis using st by (meson r_into_rtranclp rtranclp.rtrancl_into_rtrancl)
        qed
      qed
    qed
qed

text \<open>
  C28: no wakeup is lost: when \<open>Next\<close> waits, a reply or an error is still to come for it, so it can go on, whatever
  becomes of the connections; and it waits for its own lock only after a connection has been lost.
\<close>

theorem iter_wakes:
  assumes "limits_ok opLimit limit"
    and "rtranclp (iterate ahead check) (iter_begin collection opLimit limit docs) s"
  shows "(n_caller s = Waiting \<longrightarrow> (\<exists>t. rtranclp (iterate ahead check) s t \<and> n_caller t = Calling)) \<and>
    (n_caller s = Stuck \<longrightarrow> n_broken s \<noteq> None)"
proof
  have inv: "cursor_inv limit docs s" using iteration.inv_steps [OF assms(2)] cursor_inv_begin [OF assms(1)] by blast
  then show "n_caller s = Stuck \<longrightarrow> n_broken s \<noteq> None" by (auto simp: cursor_inv_def crossed_inv_def iter_inv_def split: if_splits)
  show "n_caller s = Waiting \<longrightarrow> (\<exists>t. rtranclp (iterate ahead check) s t \<and> n_caller t = Calling)"
  proof
    assume w: "n_caller s = Waiting"
    have nl: "\<not> locked (n_caller s)" using w by (simp add: locked_def)
    show "\<exists>t. rtranclp (iterate ahead check) s t \<and> n_caller t = Calling"
    proof (cases "n_crossed s")
      case True
      then have "0 < n_errors s" using inv w by (auto simp: cursor_inv_def crossed_inv_def)
      from iterate.it_late [OF nl this, of ahead check] show ?thesis using w
        by (intro exI [of _ "(reply_call ahead (NErr undefined) s)\<lparr>n_errors := n_errors s - 1\<rparr>"]) (simp add: r_into_rtranclp)
    next
      case False
      then show ?thesis using uncrossed_wakes [OF _ w, of limit docs ahead check] inv by (simp add: cursor_inv_def)
    qed
  qed
qed

subsection \<open>Running an iteration\<close>

text \<open>One step, chosen by an event, when it is possible.\<close>

datatype event = ENext request_result | EFresh | ELate gerror | EFinish | EReply reply_op | EEmpty reply_op | EDocument |
  EBreak gerror

fun act :: "(int \<Rightarrow> int) \<Rightarrow> (string \<Rightarrow> bytes \<Rightarrow> gerror option) \<Rightarrow> event \<Rightarrow> iteration \<Rightarrow> iteration option" where
  "act ahead check (ENext m) s =
     (if n_caller s = Calling \<and> possible (n_broken s) m
      then (case next_round False None m m (n_iter s) of (r, it1) \<Rightarrow>
        case after_next r it1 (n_got s) of (c, got) \<Rightarrow> Some (s\<lparr>n_iter := it1, n_caller := c, n_got := got\<rparr>))
      else None)"
| "act ahead check EFresh s =
     (if n_caller s = Calling \<and> n_broken s \<noteq> None
      then (case next_round False None Requested Requested (n_iter s) of (r, it1) \<Rightarrow>
        case after_next r it1 (n_got s) of (c, got) \<Rightarrow>
          if it_sent it1 \<noteq> it_sent (n_iter s) then Some ((reconnect 0 s)\<lparr>n_iter := it1, n_caller := c, n_got := got\<rparr>) else None)
      else None)"
| "act ahead check (ELate e) s =
     (if \<not> locked (n_caller s) \<and> 0 < n_errors s
      then Some ((reply_call ahead (NErr e) s)\<lparr>n_errors := n_errors s - 1\<rparr>) else None)"
| "act ahead check EFinish s =
     (case n_caller s of
        Checking d \<Rightarrow> (case next_finish check d (n_iter s) of (ok, it1) \<Rightarrow>
          Some (s\<lparr>n_iter := it1, n_caller := (if ok then Calling else Rejected d (it_err it1))\<rparr>))
      | _ \<Rightarrow> None)"
| "act ahead check (EReply rp) s =
     (let k = nat (sint (ro_replyDocs rp)) in
      if n_broken s = None \<and> n_reading s = None \<and> 0 < pending s \<and>
        good_reply (it_sent (n_iter s) ! n_replies s) (n_server s) rp \<and> 0 < k
      then Some (s\<lparr>n_replies := n_replies s + 1, n_reading := Some (rp, 0, take k (n_server s)),
        n_server := drop k (n_server s)\<rparr>)
      else None)"
| "act ahead check (EEmpty rp) s =
     (if \<not> locked (n_caller s) \<and> n_broken s = None \<and> n_reading s = None \<and> 0 < pending s \<and>
        good_reply (it_sent (n_iter s) ! n_replies s) (n_server s) rp \<and> ro_replyDocs rp = 0
      then Some ((reply_call ahead (NNone rp) s)\<lparr>n_replies := n_replies s + 1\<rparr>) else None)"
| "act ahead check EDocument s =
     (case n_reading s of
        Some (rp, i, d # ds) \<Rightarrow>
          if n_broken s = None \<and> \<not> locked (n_caller s)
          then Some ((reply_call ahead (NDoc rp i d) s)\<lparr>n_reading := (if ds = [] then None else Some (rp, i + 1, ds))\<rparr>)
          else None
      | _ \<Rightarrow> None)"
| "act ahead check (EBreak e) s = (if n_broken s = None then Some (s\<lparr>n_broken := Some e\<rparr>) else None)"

fun acts :: "(int \<Rightarrow> int) \<Rightarrow> (string \<Rightarrow> bytes \<Rightarrow> gerror option) \<Rightarrow> event list \<Rightarrow> iteration \<Rightarrow> iteration option" where
  "acts ahead check [] s = Some s"
| "acts ahead check (e # es) s =
     (case act ahead check e s of None \<Rightarrow> None | Some t \<Rightarrow> acts ahead check es t)"

lemma act_step: "act ahead check e s = Some t \<Longrightarrow> iterate ahead check s t"
proof (induction ahead check e s rule: act.induct)
  case (1 ahead check m s)
  then show ?case by (auto split: if_splits prod.splits intro: iterate.it_next)
next
  case (2 ahead check s)
  then show ?case by (auto split: if_splits prod.splits intro: iterate.it_fresh)
next
  case (3 ahead check e s)
  then show ?case using iterate.it_late [of s ahead check e] by (auto simp del: One_nat_def split: if_splits)
next
  case (4 ahead check s)
  then show ?case by (auto split: caller.splits prod.splits intro: iterate.it_finish)
next
  case (5 ahead check rp s)
  then show ?case
    using iterate.it_begin [of s rp "nat (sint (ro_replyDocs rp))" ahead check] by (simp add: Let_def split: if_splits)
next
  case (6 ahead check rp s)
  then show ?case using iterate.it_empty [of s rp ahead check] by (auto split: if_splits)
next
  case (7 ahead check s)
  then obtain rp i d ds where r: "n_reading s = Some (rp, i, d # ds)"
    by (auto split: option.splits prod.splits list.splits)
  show ?case using 7 iterate.it_document [OF _ _ r, of ahead check] by (simp add: r split: if_splits)
next
  case (8 ahead check e s)
  then show ?case by (auto split: if_splits intro: iterate.it_break)
qed

lemma acts_run: "acts ahead check es s = Some t \<Longrightarrow> rtranclp (iterate ahead check) s t"
  by (induction es arbitrary: s) (auto split: option.splits intro: converse_rtranclp_into_rtranclp act_step)

lemma locked_code [code]: "locked c = (case c of Stuck \<Rightarrow> True | Panicked p \<Rightarrow> True | _ \<Rightarrow> False)"
  by (cases c) (simp_all add: locked_def)

abbreviation accept :: "string \<Rightarrow> bytes \<Rightarrow> gerror option" where
  "accept \<equiv> \<lambda>c d. None"

definition reply_of :: "nat \<Rightarrow> nat \<Rightarrow> reply_op" where
  "reply_of k cursor =
     \<lparr>ro_flags = 0, ro_cursorId = word_of_nat cursor, ro_firstDoc = 0, ro_replyDocs = word_of_nat k\<rparr>"

definition two_docs :: iteration where
  "two_docs = iter_begin ''db.c'' 0 0 [[1], [2]]"





definition waiting_run :: iteration where
  "waiting_run = the (acts (\<lambda>n. 0) accept [ENext Requested] two_docs)"

theorem iter_wakes_witness:
  "n_caller waiting_run = Waiting \<and> (\<exists>t. rtranclp (iterate (\<lambda>n. 0) accept) waiting_run t \<and> n_caller t = Calling)"
proof
  have "acts (\<lambda>n. 0) accept [ENext Requested] two_docs \<noteq> None" by code_simp
  then have "acts (\<lambda>n. 0) accept [ENext Requested] two_docs = Some waiting_run" by (auto simp: waiting_run_def)
  then have run: "rtranclp (iterate (\<lambda>n. 0) accept) (iter_begin ''db.c'' 0 0 [[1], [2]]) waiting_run"
    unfolding two_docs_def [symmetric] by (rule acts_run)
  have ok: "limits_ok 0 0" by (simp add: limits_ok_def)
  show w: "n_caller waiting_run = Waiting" by code_simp
  show "\<exists>t. rtranclp (iterate (\<lambda>n. 0) accept) waiting_run t \<and> n_caller t = Calling"
    using iter_wakes [OF ok run] w by blast
qed

definition one_doc :: iteration where
  "one_doc = iter_begin ''db.c'' 1 1 [[1]]"

definition rejecting :: "string \<Rightarrow> bytes \<Rightarrow> gerror option" where
  "rejecting c d = Some ''bad document''"

definition lost_run :: iteration where
  "lost_run = the (acts (\<lambda>n. 0) rejecting [ENext Requested, EReply (reply_of 1 0), EDocument, ENext Requested, EFinish] one_doc)"

text \<open>
  when the document that reaches the limit of a query cannot be unmarshalled, or is a query error, \<open>Next\<close>
  returns false and \<open>Err\<close> and \<open>Close\<close> report no error.
\<close>

theorem iter_error_lost:
  "rtranclp (iterate (\<lambda>n. 0) rejecting) one_doc lost_run \<and> n_caller lost_run = Rejected [1] (Some NotFound) \<and>
   iter_Err (n_iter lost_run) = None \<and> fst (iter_Close None (n_iter lost_run)) = None"
proof (intro conjI)
  have "acts (\<lambda>n. 0) rejecting [ENext Requested, EReply (reply_of 1 0), EDocument, ENext Requested, EFinish] one_doc \<noteq> None"
    by code_simp
  then have "acts (\<lambda>n. 0) rejecting [ENext Requested, EReply (reply_of 1 0), EDocument, ENext Requested, EFinish] one_doc =
      Some lost_run" by (auto simp: lost_run_def)
  then show "rtranclp (iterate (\<lambda>n. 0) rejecting) one_doc lost_run" by (rule acts_run)
  show "n_caller lost_run = Rejected [1] (Some NotFound)" by code_simp
  show "iter_Err (n_iter lost_run) = None" by code_simp
  show "fst (iter_Close None (n_iter lost_run)) = None" by code_simp
qed

definition batch_run :: "iteration option" where
  "batch_run = acts (\<lambda>n. 0) accept [ENext Requested, EReply (reply_of 2 0), EDocument, EDocument, ENext Requested]
     (iter_begin ''db.c'' 10 1 [[1], [2]])"

text \<open>
  The condition on the limits is needed: with a batch size set after a smaller limit, a server that sends
  what it is asked for makes \<open>Next\<close> panic.
\<close>

theorem iter_batch_panics:
  "map_option n_caller batch_run = Some (Panicked ''data remains after limit exhausted'')"
  by code_simp

definition crossed_events :: "event list" where
  "crossed_events = [ENext Requested, EReply (reply_of 2 7), EDocument, EBreak ''EOF'', EFresh, EFinish,
     ELate ''EOF'', EEmpty (reply_of 0 0), ENext Requested]"

definition crossed_end :: iteration where
  "crossed_end = the (acts (\<lambda>n. n) accept crossed_events two_docs)"

text \<open>
  So is the condition on the connections: when a connection is lost in the middle of a reply and the next
  request has gone over a fresh one, the error is forgotten as soon as that is answered by an empty reply:
  \<open>Next\<close> returns false without an error though a document is missing.
\<close>

theorem iter_crossed_lost:
  "rtranclp (iterate (\<lambda>n. n) accept) two_docs crossed_end \<and> n_crossed crossed_end \<and> n_got crossed_end = [[1]] \<and>
   n_caller crossed_end = Ended (Some NotFound) \<and> fst (iter_Close None (n_iter crossed_end)) = None"
proof (intro conjI)
  have "acts (\<lambda>n. n) accept crossed_events two_docs \<noteq> None" by code_simp
  then have "acts (\<lambda>n. n) accept crossed_events two_docs = Some crossed_end" by (auto simp: crossed_end_def)
  then show "rtranclp (iterate (\<lambda>n. n) accept) two_docs crossed_end" by (rule acts_run)
  show "n_crossed crossed_end" by code_simp
  show "n_got crossed_end = [[1]]" by code_simp
  show "n_caller crossed_end = Ended (Some NotFound)" by code_simp
  show "fst (iter_Close None (n_iter crossed_end)) = None" by code_simp
qed

end
