(* ===== verification/MgoSession.thy ===== *)
theory MgoSession
  imports Prelude Transition "HOL-Library.Multiset"
begin

text \<open>
  Sessions, \<open>mgo/session.go\<close>: the sockets a session reserves according to its consistency mode, which
  its copies share. Sessions share sockets, so sockets and their
  references are in a store, as are the sessions; what \<open>cluster.AcquireSocket\<close> gives and the
  outcome of \<open>socketLogin\<close> are arguments.
\<close>

subsection \<open>State\<close>

datatype mode = Eventual | Monotonic | Strong

record session =
  ss_open :: bool
  ss_slaveSocket :: "nat option"
  ss_masterSocket :: "nat option"
  ss_slaveOk :: bool
  ss_consistency :: mode

text \<open>
  \<open>w_master\<close> tells of a socket whether its server was a master when it was acquired from the pool, and
  \<open>w_held\<close> are the sockets callers have and have still to release, once for each time.
\<close>

record sessions =
  w_refs :: "nat \<Rightarrow> nat"
  w_master :: "nat \<Rightarrow> bool"
  w_cluster :: nat
  w_sessions :: "session list"
  w_held :: "nat multiset"
  w_panic :: "string option"

definition panic :: "string \<Rightarrow> sessions \<Rightarrow> sessions" where
  "panic p w = w\<lparr>w_panic := Some p\<rparr>"

abbreviation update :: "nat \<Rightarrow> session \<Rightarrow> sessions \<Rightarrow> sessions" where
  "update i s w \<equiv> w\<lparr>w_sessions := (w_sessions w)[i := s]\<rparr>"

subsection \<open>Sockets\<close>

definition ref_Acquire :: "nat \<Rightarrow> sessions \<Rightarrow> sessions" where
  "ref_Acquire k w =
     (if w_refs w k = 0 then panic ''Socket got non-initial acquire with references == 0'' w
      else w\<lparr>w_refs := (w_refs w)(k := w_refs w k + 1)\<rparr>)"

definition ref_Release :: "nat \<Rightarrow> sessions \<Rightarrow> sessions" where
  "ref_Release k w =
     (if w_refs w k = 0 then panic ''socket.Release() with references == 0'' w
      else w\<lparr>w_refs := (w_refs w)(k := w_refs w k - 1)\<rparr>)"

text \<open>A socket out of the pool, or a new one, with one reference.\<close>

definition ref_Initial :: "nat \<Rightarrow> bool \<Rightarrow> sessions \<Rightarrow> sessions" where
  "ref_Initial k master w = w\<lparr>w_refs := (w_refs w)(k := 1), w_master := (w_master w)(k := master)\<rparr>"

definition release_option :: "nat option \<Rightarrow> sessions \<Rightarrow> sessions" where
  "release_option ko w = (case ko of None \<Rightarrow> w | Some k \<Rightarrow> ref_Release k w)"

definition acquire_option :: "nat option \<Rightarrow> sessions \<Rightarrow> sessions" where
  "acquire_option ko w = (case ko of None \<Rightarrow> w | Some k \<Rightarrow> ref_Acquire k w)"

definition setSocket :: "nat \<Rightarrow> nat \<Rightarrow> sessions \<Rightarrow> sessions" where
  "setSocket i k w =
     (let w1 = ref_Acquire k w; s = w_sessions w1 ! i in
      if w_master w1 k then
        if ss_masterSocket s \<noteq> None then panic ''setSocket(master) with existing master socket reserved'' w1
        else update i (s\<lparr>ss_masterSocket := Some k\<rparr>) w1
      else
        if ss_slaveSocket s \<noteq> None then panic ''setSocket(slave) with existing slave socket reserved'' w1
        else update i (s\<lparr>ss_slaveSocket := Some k\<rparr>) w1)"

definition unsetSocket :: "nat \<Rightarrow> sessions \<Rightarrow> sessions" where
  "unsetSocket i w =
     (let s = w_sessions w ! i;
          w1 = release_option (ss_slaveSocket s) (release_option (ss_masterSocket s) w)
      in update i (s\<lparr>ss_masterSocket := None, ss_slaveSocket := None\<rparr>) w1)"

subsection \<open>Sessions\<close>

definition refresh_mode :: "session \<Rightarrow> session" where
  "refresh_mode s = s\<lparr>ss_slaveOk := (ss_consistency s \<noteq> Strong)\<rparr>"

definition Refresh :: "nat \<Rightarrow> sessions \<Rightarrow> sessions" where
  "Refresh i w = unsetSocket i (update i (refresh_mode (w_sessions w ! i)) w)"

definition SetMode :: "nat \<Rightarrow> mode \<Rightarrow> bool \<Rightarrow> sessions \<Rightarrow> sessions" where
  "SetMode i consistency refresh w =
     (let s = (w_sessions w ! i)\<lparr>ss_consistency := consistency\<rparr> in
      if refresh then unsetSocket i (update i (refresh_mode s) w)
      else if consistency = Strong then update i (s\<lparr>ss_slaveOk := False\<rparr>) w
      else if ss_masterSocket s = None then update i (s\<lparr>ss_slaveOk := True\<rparr>) w
      else update i s w)"

definition newSession :: "mode \<Rightarrow> sessions \<Rightarrow> sessions" where
  "newSession consistency w =
     (let s = \<lparr>ss_open = True, ss_slaveSocket = None, ss_masterSocket = None, ss_slaveOk = False,
                ss_consistency = Eventual\<rparr>
      in SetMode (length (w_sessions w)) consistency True
           (w\<lparr>w_cluster := w_cluster w + 1, w_sessions := w_sessions w @ [s]\<rparr>))"

text \<open>\<open>copySession\<close>; the copy shares the sockets. A session that has been closed panics.\<close>

definition copySession :: "nat \<Rightarrow> sessions \<Rightarrow> sessions" where
  "copySession i w =
     (let s = w_sessions w ! i in
      if \<not> ss_open s then panic ''Session already closed'' w
      else
        (let w1 = acquire_option (ss_slaveSocket s) (acquire_option (ss_masterSocket s)
                    (w\<lparr>w_cluster := w_cluster w + 1\<rparr>))
         in w1\<lparr>w_sessions := w_sessions w1 @ [s]\<rparr>))"

definition Clone :: "nat \<Rightarrow> sessions \<Rightarrow> sessions" where
  "Clone i w = copySession i w"

text \<open>\<open>New\<close> and \<open>Copy\<close> differ in the credentials they keep.\<close>

definition Copy :: "nat \<Rightarrow> sessions \<Rightarrow> sessions" where
  "Copy i w =
     (let w1 = copySession i w in
      if ss_open (w_sessions w ! i) then Refresh (length (w_sessions w)) w1 else w1)"

definition session_Close :: "nat \<Rightarrow> sessions \<Rightarrow> sessions" where
  "session_Close i w =
     (if ss_open (w_sessions w ! i)
      then (let w1 = unsetSocket i w
            in update i ((w_sessions w1 ! i)\<lparr>ss_open := False\<rparr>) (w1\<lparr>w_cluster := w_cluster w1 - 1\<rparr>))
      else w)"

subsection \<open>A socket for an operation\<close>

definition reserved :: "bool \<Rightarrow> session \<Rightarrow> nat option" where
  "reserved slaveOk s =
     (case ss_masterSocket s of
        Some k \<Rightarrow> Some k
      | None \<Rightarrow> if ss_slaveOk s \<and> slaveOk then ss_slaveSocket s else None)"

text \<open>
  The part of \<open>acquireSocket\<close> that has to ask the cluster: \<open>r\<close> is an error or a socket with whether its server
  is a master, and \<open>login\<close> the error of \<open>socketLogin\<close>.
\<close>

definition acquire_new ::
  "nat \<Rightarrow> bool \<Rightarrow> gerror + (nat \<times> bool) \<Rightarrow> gerror option \<Rightarrow> sessions \<Rightarrow> (gerror + nat) \<times> sessions"
where
  "acquire_new i slaveOk r login w =
     (if \<not> ss_open (w_sessions w ! i) then (Inl '''', panic ''Session already closed'' w)
      else case r of
          Inl e \<Rightarrow> (Inl e, w)
        | Inr (k, master) \<Rightarrow>
            (let w1 = ref_Initial k master w in
             case login of
               Some e \<Rightarrow> (Inl e, ref_Release k w1)
             | None \<Rightarrow>
                 (let s = w_sessions w1 ! i;
                      w2 = (if ss_consistency s \<noteq> Eventual \<or> ss_slaveSocket s \<noteq> None then setSocket i k w1 else w1);
                      s2 = w_sessions w2 ! i
                  in (Inr k, (if \<not> slaveOk \<and> ss_consistency s2 = Monotonic
                      then update i (s2\<lparr>ss_slaveOk := False\<rparr>) w2 else w2)))))"

definition acquireSocket ::
  "nat \<Rightarrow> bool \<Rightarrow> gerror + (nat \<times> bool) \<Rightarrow> gerror option \<Rightarrow> sessions \<Rightarrow> (gerror + nat) \<times> sessions"
where
  "acquireSocket i slaveOk r login w =
     (case reserved slaveOk (w_sessions w ! i) of
        Some k \<Rightarrow> (Inr k, ref_Acquire k w)
      | None \<Rightarrow> acquire_new i slaveOk r login w)"

text \<open>What the caller got it holds until it releases it.\<close>

definition held :: "(gerror + nat) \<times> sessions \<Rightarrow> sessions" where
  "held rw = (case fst rw of Inl e \<Rightarrow> snd rw | Inr k \<Rightarrow> (snd rw)\<lparr>w_held := add_mset k (w_held (snd rw))\<rparr>)"

definition release_held :: "nat \<Rightarrow> sessions \<Rightarrow> sessions" where
  "release_held k w = (ref_Release k w)\<lparr>w_held := w_held w - {#k#}\<rparr>"


subsection \<open>Sessions in use\<close>

text \<open>
  A step is one call. What the cluster gives is out of the pool, so it has no references, and it is a
  master when it is asked for one; nobody uses a session that was closed.
\<close>

definition given :: "bool \<Rightarrow> gerror + (nat \<times> bool) \<Rightarrow> sessions \<Rightarrow> bool" where
  "given slaveOk r w \<longleftrightarrow>
     (case r of Inl e \<Rightarrow> True | Inr (k, master) \<Rightarrow> w_refs w k = 0 \<and> (\<not> slaveOk \<longrightarrow> master))"

inductive session_step :: "sessions \<Rightarrow> sessions \<Rightarrow> bool" where
  st_new: "session_step w (newSession consistency w)"
| st_clone: "i < length (w_sessions w) \<Longrightarrow> ss_open (w_sessions w ! i) \<Longrightarrow> session_step w (Clone i w)"
| st_copy: "i < length (w_sessions w) \<Longrightarrow> ss_open (w_sessions w ! i) \<Longrightarrow> session_step w (Copy i w)"
| st_close: "i < length (w_sessions w) \<Longrightarrow> session_step w (session_Close i w)"
| st_refresh: "i < length (w_sessions w) \<Longrightarrow> session_step w (Refresh i w)"
| st_mode: "i < length (w_sessions w) \<Longrightarrow> session_step w (SetMode i consistency refresh w)"
| st_acquire: "i < length (w_sessions w) \<Longrightarrow> ss_open (w_sessions w ! i) \<Longrightarrow>
     given (slaveOk \<and> ss_slaveOk (w_sessions w ! i)) r w \<Longrightarrow>
     session_step w (held (acquireSocket i slaveOk r login w))"
| st_release: "k \<in># w_held w \<Longrightarrow> session_step w (release_held k w)"

definition no_sessions :: sessions where
  "no_sessions = \<lparr>w_refs = (\<lambda>k. 0), w_master = (\<lambda>k. False), w_cluster = 1, w_sessions = [], w_held = {#},
     w_panic = None\<rparr>"

subsection \<open>The invariant\<close>

definition slots :: "nat \<Rightarrow> session \<Rightarrow> nat" where
  "slots k s = (if ss_masterSocket s = Some k then 1 else 0) + (if ss_slaveSocket s = Some k then 1 else 0)"

definition total :: "nat \<Rightarrow> session list \<Rightarrow> nat" where
  "total k ss = sum_list (map (slots k) ss)"

definition session_ok :: "(nat \<Rightarrow> bool) \<Rightarrow> session \<Rightarrow> bool" where
  "session_ok master s \<longleftrightarrow>
     (\<forall>k. ss_masterSocket s = Some k \<longrightarrow> master k) \<and> (\<forall>k. ss_slaveSocket s = Some k \<longrightarrow> \<not> master k) \<and>
     (\<not> ss_open s \<longrightarrow> ss_masterSocket s = None \<and> ss_slaveSocket s = None) \<and>
     (ss_consistency s = Strong \<longrightarrow> \<not> ss_slaveOk s)"

definition sessions_inv :: "sessions \<Rightarrow> bool" where
  "sessions_inv w \<longleftrightarrow> w_panic w = None \<and>
     (\<forall>k. w_refs w k = total k (w_sessions w) + count (w_held w) k) \<and>
     (\<forall>s \<in> set (w_sessions w). session_ok (w_master w) s) \<and>
     w_cluster w = 1 + length (filter ss_open (w_sessions w))"

lemma sessions_invD:
  assumes "sessions_inv w"
  shows "w_panic w = None" "w_refs w k = total k (w_sessions w) + count (w_held w) k"
    "i < length (w_sessions w) \<Longrightarrow> session_ok (w_master w) (w_sessions w ! i)"
    "s \<in> set (w_sessions w) \<Longrightarrow> session_ok (w_master w) s"
    "w_cluster w = 1 + length (filter ss_open (w_sessions w))"
  using assms by (auto simp: sessions_inv_def)

lemma slots_None [simp]: "ss_masterSocket s = None \<Longrightarrow> ss_slaveSocket s = None \<Longrightarrow> slots k s = 0"
  by (simp add: slots_def)

lemma total_append [simp]: "total k (ss @ [s]) = total k ss + slots k s"
  by (simp add: total_def)

lemma slots_total: "i < length ss \<Longrightarrow> slots k (ss ! i) \<le> total k ss"
  unfolding total_def using elem_le_sum_list [of i "map (slots k) ss"] by simp

lemma total_update: "i < length ss \<Longrightarrow> total k (ss[i := s]) + slots k (ss ! i) = total k ss + slots k s"
  using slots_total [of i ss k] by (simp add: total_def map_update sum_list_update)

lemma open_update:
  "i < length ss \<Longrightarrow> length (filter ss_open (ss[i := s])) + (if ss_open (ss ! i) then 1 else 0) =
     length (filter ss_open ss) + (if ss_open s then 1 else 0)"
proof (induction ss arbitrary: i)
  case (Cons x ss)
  then show ?case by (cases i) auto
qed simp

text \<open>The effect of the calls on the store.\<close>

lemma unsetSocket_effect:
  assumes "i < length (w_sessions w)" and "\<And>k. slots k (w_sessions w ! i) \<le> w_refs w k"
  shows "unsetSocket i w = w\<lparr>w_refs := (\<lambda>k. w_refs w k - slots k (w_sessions w ! i)),
    w_sessions := (w_sessions w)[i := (w_sessions w ! i)\<lparr>ss_masterSocket := None, ss_slaveSocket := None\<rparr>]\<rparr>"
proof -
  let ?s = "w_sessions w ! i"
  have "release_option (ss_slaveSocket ?s) (release_option (ss_masterSocket ?s) w) =
      w\<lparr>w_refs := (\<lambda>k. w_refs w k - slots k ?s)\<rparr>"
  proof (cases "ss_masterSocket ?s")
    case None
    show ?thesis
    proof (cases "ss_slaveSocket ?s")
      case s: (Some v)
      then have "0 < w_refs w v" using assms(2) [of v] None by (simp add: slots_def)
      then show ?thesis using None s by (auto simp: release_option_def ref_Release_def slots_def fun_eq_iff)
    qed (use None in \<open>simp add: release_option_def slots_def\<close>)
  next
    case (Some m)
    then have m: "0 < w_refs w m" using assms(2) [of m] by (simp add: slots_def split: if_splits)
    show ?thesis
    proof (cases "ss_slaveSocket ?s")
      case None
      then show ?thesis using Some m by (auto simp: release_option_def ref_Release_def slots_def fun_eq_iff)
    next
      case s: (Some v)
      then have "0 < ((w_refs w)(m := w_refs w m - 1)) v" using assms(2) [of v] Some by (auto simp: slots_def split: if_splits)
      then show ?thesis using Some s m by (auto simp: release_option_def ref_Release_def slots_def fun_eq_iff)
    qed
  qed
  then show ?thesis by (simp add: unsetSocket_def Let_def)
qed

lemma acquire_effect:
  assumes "\<And>k. 0 < slots k s \<Longrightarrow> 0 < w_refs w k"
  shows "acquire_option (ss_slaveSocket s) (acquire_option (ss_masterSocket s) w) =
    w\<lparr>w_refs := (\<lambda>k. w_refs w k + slots k s)\<rparr>"
proof (cases "ss_masterSocket s")
  case None
  show ?thesis
  proof (cases "ss_slaveSocket s")
    case s: (Some v)
    then have "0 < w_refs w v" using assms [of v] by (simp add: slots_def)
    then show ?thesis using None s by (auto simp: acquire_option_def ref_Acquire_def slots_def fun_eq_iff)
  qed (use None in \<open>simp add: acquire_option_def slots_def\<close>)
next
  case (Some m)
  then have m: "0 < w_refs w m" using assms [of m] by (simp add: slots_def)
  show ?thesis
  proof (cases "ss_slaveSocket s")
    case None
    then show ?thesis using Some m by (auto simp: acquire_option_def ref_Acquire_def slots_def fun_eq_iff)
  next
    case s: (Some v)
    then have "0 < w_refs w v" using assms [of v] by (simp add: slots_def)
    then show ?thesis using Some s m by (auto simp: acquire_option_def ref_Acquire_def slots_def fun_eq_iff)
  qed
qed

subsection \<open>Every call keeps the invariant\<close>

lemma slots_refs: "sessions_inv w \<Longrightarrow> i < length (w_sessions w) \<Longrightarrow> slots k (w_sessions w ! i) \<le> w_refs w k"
  using slots_total [of i "w_sessions w" k] by (simp add: sessions_invD(2))

text \<open>A session changes in what is not counted.\<close>

lemma inv_update:
  assumes inv: "sessions_inv w" and i: "i < length (w_sessions w)"
    and "session_ok (w_master w) s" "ss_open s = ss_open (w_sessions w ! i)"
      "ss_masterSocket s = ss_masterSocket (w_sessions w ! i)" "ss_slaveSocket s = ss_slaveSocket (w_sessions w ! i)"
  shows "sessions_inv (update i s w)"
proof -
  note I = sessions_invD [OF inv]
  have "slots k s = slots k (w_sessions w ! i)" for k using assms(5,6) by (simp add: slots_def)
  then have "total k ((w_sessions w)[i := s]) = total k (w_sessions w)" for k using total_update [OF i, of k s] by simp
  moreover have "length (filter ss_open ((w_sessions w)[i := s])) = length (filter ss_open (w_sessions w))"
    using open_update [OF i, of s] assms(4) by simp
  moreover have "\<forall>s' \<in> set ((w_sessions w)[i := s]). session_ok (w_master w) s'"
    using I(4) assms(3) set_update_subset_insert [of "w_sessions w" i s] by blast
  ultimately show ?thesis using I(1,2,5) by (simp add: sessions_inv_def)
qed

lemma inv_unset:
  assumes inv: "sessions_inv w" and i: "i < length (w_sessions w)"
  shows "sessions_inv (unsetSocket i w)"
    and "w_sessions (unsetSocket i w) =
      (w_sessions w)[i := (w_sessions w ! i)\<lparr>ss_masterSocket := None, ss_slaveSocket := None\<rparr>]"
    and "w_held (unsetSocket i w) = w_held w" "w_cluster (unsetSocket i w) = w_cluster w"
proof -
  note I = sessions_invD [OF inv]
  let ?s = "(w_sessions w ! i)\<lparr>ss_masterSocket := None, ss_slaveSocket := None\<rparr>"
  note U = unsetSocket_effect [OF i slots_refs [OF inv i]]
  have t: "total k ((w_sessions w)[i := ?s]) + slots k (w_sessions w ! i) = total k (w_sessions w)" for k
    using total_update [OF i, of k ?s] by simp
  have "w_refs w k - slots k (w_sessions w ! i) = total k ((w_sessions w)[i := ?s]) + count (w_held w) k" for k
    using t [of k] I(2) [of k] by simp
  moreover have "length (filter ss_open ((w_sessions w)[i := ?s])) = length (filter ss_open (w_sessions w))"
    using open_update [OF i, of ?s] by simp
  moreover have "\<forall>s' \<in> set ((w_sessions w)[i := ?s]). session_ok (w_master w) s'"
  proof -
    have "session_ok (w_master w) ?s" using I(3) [OF i] by (simp add: session_ok_def)
    then show ?thesis using I(4) set_update_subset_insert [of "w_sessions w" i ?s] by blast
  qed
  ultimately show "sessions_inv (unsetSocket i w)" using I(1,5) by (simp add: sessions_inv_def U)
qed (simp_all add: unsetSocket_effect [OF i slots_refs [OF inv i]])


lemma session_ok_refresh: "session_ok m s \<Longrightarrow> session_ok m (refresh_mode s)"
  by (simp add: session_ok_def refresh_mode_def)

lemma inv_Refresh:
  assumes "sessions_inv w" and "i < length (w_sessions w)"
  shows "sessions_inv (Refresh i w)"
proof -
  have "session_ok (w_master w) (refresh_mode (w_sessions w ! i))"
    using session_ok_refresh sessions_invD(3) [OF assms] by blast
  then have "sessions_inv (update i (refresh_mode (w_sessions w ! i)) w)"
    using assms by (intro inv_update) (simp_all add: refresh_mode_def)
  then show ?thesis unfolding Refresh_def using assms(2) by (intro inv_unset) simp_all
qed

lemma inv_SetMode:
  assumes inv: "sessions_inv w" and i: "i < length (w_sessions w)"
  shows "sessions_inv (SetMode i c refresh w)"
proof -
  let ?s = "(w_sessions w ! i)\<lparr>ss_consistency := c\<rparr>"
  have ok: "session_ok (w_master w) (w_sessions w ! i)" using sessions_invD(3) [OF inv i] .
  consider "refresh" | "\<not> refresh" "c = Strong" | "\<not> refresh" "c \<noteq> Strong" by blast
  then show ?thesis
  proof cases
    case 1
    have "sessions_inv (update i (refresh_mode ?s) w)"
      by (rule inv_update [OF inv i]) (use ok in \<open>auto simp: session_ok_def refresh_mode_def\<close>)
    then have "sessions_inv (unsetSocket i (update i (refresh_mode ?s) w))" using i by (intro inv_unset) simp_all
    then show ?thesis using 1 by (simp add: SetMode_def Let_def)
  next
    case 2
    have "sessions_inv (update i (?s\<lparr>ss_slaveOk := False\<rparr>) w)"
      by (rule inv_update [OF inv i]) (use ok in \<open>auto simp: session_ok_def\<close>)
    then show ?thesis using 2 by (simp add: SetMode_def Let_def)
  next
    case 3
    have "sessions_inv (update i (if ss_masterSocket ?s = None then ?s\<lparr>ss_slaveOk := True\<rparr> else ?s) w)"
      by (rule inv_update [OF inv i]) (use ok 3 in \<open>auto simp: session_ok_def\<close>)
    then show ?thesis using 3 by (auto simp: SetMode_def Let_def split: if_splits)
  qed
qed

text \<open>A session is added, with references for its sockets.\<close>

lemma inv_session_add:
  assumes inv: "sessions_inv w" and "session_ok (w_master w) s" "ss_open s"
  shows "sessions_inv (w\<lparr>w_refs := (\<lambda>k. w_refs w k + slots k s), w_cluster := w_cluster w + 1,
    w_sessions := w_sessions w @ [s]\<rparr>)"
  using sessions_invD(1,2,4,5) [OF inv] assms(2,3) by (auto simp: sessions_inv_def)

lemma inv_session_new:
  assumes "sessions_inv w"
  shows "sessions_inv (newSession c w)"
proof -
  let ?s = "\<lparr>ss_open = True, ss_slaveSocket = None, ss_masterSocket = None, ss_slaveOk = False, ss_consistency = Eventual\<rparr>"
  have "sessions_inv (w\<lparr>w_refs := (\<lambda>k. w_refs w k + slots k ?s), w_cluster := w_cluster w + 1,
      w_sessions := w_sessions w @ [?s]\<rparr>)"
    by (rule inv_session_add [OF assms]) (simp_all add: session_ok_def)
  then have "sessions_inv (w\<lparr>w_cluster := w_cluster w + 1, w_sessions := w_sessions w @ [?s]\<rparr>)" by simp
  then show ?thesis unfolding newSession_def Let_def by (intro inv_SetMode) simp_all
qed

lemma inv_copy:
  assumes inv: "sessions_inv w" and i: "i < length (w_sessions w)" and "ss_open (w_sessions w ! i)"
  shows "sessions_inv (copySession i w)" and "length (w_sessions (copySession i w)) = Suc (length (w_sessions w))"
proof -
  let ?s = "w_sessions w ! i"
  have pos: "0 < w_refs (w\<lparr>w_cluster := w_cluster w + 1\<rparr>) k" if "0 < slots k ?s" for k
    using slots_refs [OF inv i, of k] that by simp
  have e: "copySession i w = w\<lparr>w_refs := (\<lambda>k. w_refs w k + slots k ?s), w_cluster := w_cluster w + 1,
      w_sessions := w_sessions w @ [?s]\<rparr>"
    using assms(3) acquire_effect [OF pos] by (simp add: copySession_def Let_def)
  show "sessions_inv (copySession i w)" unfolding e
    by (rule inv_session_add [OF inv sessions_invD(3) [OF inv i] assms(3)])
  show "length (w_sessions (copySession i w)) = Suc (length (w_sessions w))" by (simp add: e)
qed

lemma inv_close:
  assumes inv: "sessions_inv w" and i: "i < length (w_sessions w)"
  shows "sessions_inv (session_Close i w)"
proof (cases "ss_open (w_sessions w ! i)")
  case True
  let ?w = "unsetSocket i w" and ?s = "(w_sessions (unsetSocket i w) ! i)\<lparr>ss_open := False\<rparr>"
  note U = inv_unset [OF inv i] and I = sessions_invD [OF inv_unset(1) [OF inv i]]
  have l: "i < length (w_sessions ?w)" using i by (simp add: U(2))
  have "slots k ?s = slots k (w_sessions ?w ! i)" for k by (simp add: slots_def)
  then have "total k ((w_sessions ?w)[i := ?s]) = total k (w_sessions ?w)" for k using total_update [OF l, of k ?s] by simp
  moreover have "Suc (length (filter ss_open ((w_sessions ?w)[i := ?s]))) = length (filter ss_open (w_sessions ?w))"
    using open_update [OF l, of ?s] True i by (simp add: U(2))
  moreover have "session_ok (w_master ?w) ?s" using I(3) [OF l] i by (simp add: U(2) session_ok_def)
  then have "\<forall>s' \<in> set ((w_sessions ?w)[i := ?s]). session_ok (w_master ?w) s'"
    using I(4) set_update_subset_insert [of "w_sessions ?w" i ?s] by blast
  ultimately show ?thesis using I(1,2,5) True by (simp add: sessions_inv_def session_Close_def Let_def)
qed (use inv in \<open>simp add: session_Close_def\<close>)


lemma unused:
  assumes "sessions_inv w" and "w_refs w k = 0" and "s \<in> set (w_sessions w)"
  shows "ss_masterSocket s \<noteq> Some k" "ss_slaveSocket s \<noteq> Some k"
proof -
  obtain i where i: "i < length (w_sessions w)" "s = w_sessions w ! i" using assms(3) by (auto simp: in_set_conv_nth)
  then have "slots k s = 0" using slots_refs [OF assms(1) i(1), of k] assms(2) by simp
  then show "ss_masterSocket s \<noteq> Some k" "ss_slaveSocket s \<noteq> Some k" by (simp_all add: slots_def split: if_splits)
qed

lemma ok_unused:
  assumes "sessions_inv w" and "w_refs w k = 0" and "s \<in> set (w_sessions w)"
  shows "session_ok ((w_master w)(k := m)) s"
  using unused [OF assms] sessions_invD(4) [OF assms(1,3)] by (auto simp: session_ok_def)

lemma inv_initial:
  assumes "sessions_inv w" and "w_refs w k = 0"
  shows "sessions_inv ((ref_Initial k m w)\<lparr>w_held := add_mset k (w_held w)\<rparr>)"
  using sessions_invD(1,2,5) [OF assms(1)] assms(2) ok_unused [OF assms] sessions_invD(2) [OF assms(1), of k]
  by (auto simp: sessions_inv_def ref_Initial_def)

lemma inv_setSocket:
  assumes inv: "sessions_inv w" and i: "i < length (w_sessions w)" and "0 < w_refs w k" and op: "ss_open (w_sessions w ! i)"
    and free: "if w_master w k then ss_masterSocket (w_sessions w ! i) = None else ss_slaveSocket (w_sessions w ! i) = None"
  shows "sessions_inv (setSocket i k w)"
    and "\<exists>s. setSocket i k w = (update i s w)\<lparr>w_refs := (w_refs w)(k := w_refs w k + 1)\<rparr> \<and>
      ss_slaveOk s = ss_slaveOk (w_sessions w ! i) \<and> ss_consistency s = ss_consistency (w_sessions w ! i) \<and> ss_open s \<and>
      session_ok (w_master w) s \<and> (w_master w k \<longrightarrow> ss_masterSocket s = Some k)"
proof -
  let ?s0 = "w_sessions w ! i"
  define s where "s = (if w_master w k then ?s0\<lparr>ss_masterSocket := Some k\<rparr> else ?s0\<lparr>ss_slaveSocket := Some k\<rparr>)"
  note I = sessions_invD [OF inv]
  have e: "setSocket i k w = (update i s w)\<lparr>w_refs := (w_refs w)(k := w_refs w k + 1)\<rparr>"
    using assms(3) free by (simp add: setSocket_def Let_def ref_Acquire_def s_def)
  have ok: "session_ok (w_master w) s" using I(3) [OF i] op by (simp add: s_def session_ok_def)
  have sl: "slots k' s = slots k' ?s0 + (if k' = k then 1 else 0)" for k'
    using free by (auto simp: s_def slots_def split: if_splits)
  have "total k' ((w_sessions w)[i := s]) = total k' (w_sessions w) + (if k' = k then 1 else 0)" for k'
    using total_update [OF i, of k' s] sl [of k'] by simp
  moreover have "length (filter ss_open ((w_sessions w)[i := s])) = length (filter ss_open (w_sessions w))"
    using open_update [OF i, of s] op by (simp add: s_def split: if_splits)
  moreover have "\<forall>s' \<in> set ((w_sessions w)[i := s]). session_ok (w_master w) s'"
    using I(4) ok set_update_subset_insert [of "w_sessions w" i s] by blast
  ultimately show "sessions_inv (setSocket i k w)" using I(1,2,5) by (simp add: sessions_inv_def e)
  show "\<exists>s. setSocket i k w = (update i s w)\<lparr>w_refs := (w_refs w)(k := w_refs w k + 1)\<rparr> \<and>
      ss_slaveOk s = ss_slaveOk ?s0 \<and> ss_consistency s = ss_consistency ?s0 \<and> ss_open s \<and>
      session_ok (w_master w) s \<and> (w_master w k \<longrightarrow> ss_masterSocket s = Some k)"
    using e ok op by (intro exI [of _ s]) (simp add: s_def)
qed

lemma setSocket_held: "setSocket i k (w\<lparr>w_held := h\<rparr>) = (setSocket i k w)\<lparr>w_held := h\<rparr>"
  by (simp add: setSocket_def Let_def ref_Acquire_def panic_def)

text \<open>A socket given by the cluster, logged in.\<close>

lemma inv_acquired:
  assumes inv: "sessions_inv w" and i: "i < length (w_sessions w)" and op: "ss_open (w_sessions w ! i)"
    and r: "reserved slaveOk (w_sessions w ! i) = None" "w_refs w k = 0"
    and m: "\<not> (slaveOk \<and> ss_slaveOk (w_sessions w ! i)) \<longrightarrow> m"
    and run: "acquire_new i slaveOk (Inr (k, m)) None w = (Inr k', w')"
  shows "sessions_inv (w'\<lparr>w_held := add_mset k' (w_held w')\<rparr>)" and "k' = k" and "w_master w' k = m"
    and "m \<Longrightarrow> ss_consistency (w_sessions w ! i) \<noteq> Eventual \<Longrightarrow> ss_masterSocket (w_sessions w' ! i) = Some k"
proof -
  let ?s = "w_sessions w ! i"
  let ?w1 = "(ref_Initial k m w)\<lparr>w_held := add_mset k (w_held w)\<rparr>"
  define w2 where "w2 = (if ss_consistency ?s \<noteq> Eventual \<or> ss_slaveSocket ?s \<noteq> None then setSocket i k ?w1 else ?w1)"
  have inv1: "sessions_inv ?w1" by (rule inv_initial [OF inv r(2)])
  have free: "if w_master ?w1 k then ss_masterSocket (w_sessions ?w1 ! i) = None else ss_slaveSocket (w_sessions ?w1 ! i) = None"
    using r(1) m by (auto simp: reserved_def ref_Initial_def split: option.splits if_splits)
  have S: "sessions_inv (setSocket i k ?w1)" "\<exists>s. setSocket i k ?w1 = (update i s ?w1)\<lparr>w_refs := (w_refs ?w1)(k := w_refs ?w1 k + 1)\<rparr> \<and>
      ss_slaveOk s = ss_slaveOk (w_sessions ?w1 ! i) \<and> ss_consistency s = ss_consistency (w_sessions ?w1 ! i) \<and> ss_open s \<and>
      session_ok (w_master ?w1) s \<and> (w_master ?w1 k \<longrightarrow> ss_masterSocket s = Some k)"
    using inv_setSocket [OF inv1 _ _ _ free] i op by (simp_all add: ref_Initial_def)
  have inv2: "sessions_inv w2" using inv1 S(1) by (simp add: w2_def)
  have w2: "length (w_sessions w2) = length (w_sessions w)" "ss_consistency (w_sessions w2 ! i) = ss_consistency ?s"
    "w_held w2 = add_mset k (w_held w)" "w_master w2 k = m"
    "m \<Longrightarrow> ss_consistency ?s \<noteq> Eventual \<Longrightarrow> ss_masterSocket (w_sessions w2 ! i) = Some k"
    using S(2) i by (auto simp: w2_def ref_Initial_def)
  define w3 where "w3 = (if \<not> slaveOk \<and> ss_consistency ?s = Monotonic
    then update i ((w_sessions w2 ! i)\<lparr>ss_slaveOk := False\<rparr>) w2 else w2)"
  have "session_ok (w_master w2) ((w_sessions w2 ! i)\<lparr>ss_slaveOk := False\<rparr>)"
    using sessions_invD(3) [OF inv2, of i] i w2(1) by (simp add: session_ok_def)
  then have inv3: "sessions_inv w3"
    unfolding w3_def using inv2 inv_update [OF inv2, of i] i w2(1) by simp
  define w2a where "w2a = (if ss_consistency ?s \<noteq> Eventual \<or> ss_slaveSocket ?s \<noteq> None
    then setSocket i k (ref_Initial k m w) else ref_Initial k m w)"
  have a2: "w2 = w2a\<lparr>w_held := add_mset k (w_held w)\<rparr>" by (simp add: w2_def w2a_def setSocket_held)
  have h2: "w_held w2a = w_held w"
    by (simp add: w2a_def setSocket_def ref_Acquire_def ref_Initial_def panic_def Let_def)
  have "w' = (if \<not> slaveOk \<and> ss_consistency (w_sessions w2a ! i) = Monotonic
      then update i ((w_sessions w2a ! i)\<lparr>ss_slaveOk := False\<rparr>) w2a else w2a)" and k: "k' = k"
    using run op by (auto simp: acquire_new_def Let_def w2a_def ref_Initial_def)
  then have w': "w'\<lparr>w_held := add_mset k' (w_held w')\<rparr> = w3" "w_master w' = w_master w3" "w_sessions w' = w_sessions w3"
    using w2(2) by (simp_all add: w3_def a2 h2)
  show "sessions_inv (w'\<lparr>w_held := add_mset k' (w_held w')\<rparr>)" using inv3 w'(1) by simp
  show "k' = k" by (rule k)
  show "w_master w' k = m" using w2(4) by (simp add: w'(2) w3_def)
  show "ss_masterSocket (w_sessions w' ! i) = Some k" if "m" "ss_consistency ?s \<noteq> Eventual"
    using w2(5) [OF that] i w2(1) by (simp add: w'(3) w3_def)
qed

lemma inv_acquire:
  assumes inv: "sessions_inv w" and i: "i < length (w_sessions w)" and op: "ss_open (w_sessions w ! i)"
    and "given (slaveOk \<and> ss_slaveOk (w_sessions w ! i)) r w"
  shows "sessions_inv (held (acquireSocket i slaveOk r login w))"
proof (cases "reserved slaveOk (w_sessions w ! i)")
  case (Some k)
  then have "0 < slots k (w_sessions w ! i)" by (auto simp: reserved_def slots_def split: option.splits if_splits)
  then have "0 < w_refs w k" using slots_refs [OF inv i, of k] by simp
  then have e: "ref_Acquire k w = w\<lparr>w_refs := (w_refs w)(k := w_refs w k + 1)\<rparr>" by (simp add: ref_Acquire_def)
  show ?thesis
    using Some sessions_invD(1,2,4,5) [OF inv] by (auto simp: acquireSocket_def held_def e sessions_inv_def)
next
  case None
  show ?thesis
  proof (cases r)
    case (Inl e)
    then show ?thesis using None inv op by (simp add: acquireSocket_def acquire_new_def held_def)
  next
    case (Inr km)
    obtain k m where km: "km = (k, m)" by fastforce
    have g: "w_refs w k = 0" "\<not> (slaveOk \<and> ss_slaveOk (w_sessions w ! i)) \<longrightarrow> m"
      using assms(4) by (simp_all add: given_def Inr km)
    show ?thesis
    proof (cases login)
      case l: None
      obtain k' w' where a: "acquire_new i slaveOk (Inr (k, m)) None w = (Inr k', w')"
        using op by (auto simp: acquire_new_def Let_def)
      then show ?thesis
        using inv_acquired(1) [OF inv i op None g a] None by (simp add: acquireSocket_def held_def Inr km l)
    next
      case (Some e)
      then show ?thesis
        using sessions_invD(1,2,5) [OF inv] ok_unused [OF inv g(1)] g(1) sessions_invD(2) [OF inv, of k] None op
        by (auto simp: acquireSocket_def acquire_new_def held_def Inr km ref_Release_def ref_Initial_def sessions_inv_def)
    qed
  qed
qed

lemma inv_release:
  assumes inv: "sessions_inv w" and "k \<in># w_held w"
  shows "sessions_inv (release_held k w)"
proof -
  note I = sessions_invD [OF inv]
  have "0 < count (w_held w) k" using assms(2) by simp
  moreover from this have "0 < w_refs w k" using I(2) [of k] by simp
  then have "ref_Release k w = w\<lparr>w_refs := (w_refs w)(k := w_refs w k - 1)\<rparr>" by (simp add: ref_Release_def)
  ultimately show ?thesis using I(1,2,4,5) by (auto simp: release_held_def sessions_inv_def)
qed

lemma sessions_inv_step: "sessions_inv w \<Longrightarrow> session_step w w' \<Longrightarrow> sessions_inv w'"
proof -
  assume inv: "sessions_inv w" and "session_step w w'"
  from this(2) show "sessions_inv w'"
  proof cases
    case (st_copy i)
    then show ?thesis using inv_copy [OF inv] by (simp add: Copy_def Let_def inv_Refresh)
  qed (use inv inv_session_new inv_copy inv_close inv_Refresh inv_SetMode inv_acquire inv_release in \<open>auto simp: Clone_def\<close>)
qed

interpretation sessions: invariant "\<lambda>w. w = no_sessions" session_step sessions_inv
  by unfold_locales (simp add: no_sessions_def sessions_inv_def total_def, rule sessions_inv_step)


subsection \<open>What the references count\<close>


text \<open>
  Two sessions, a copy of the other: the first gets a socket, the copy shares it, and both close. The mode is
  the \<open>Monotonic\<close> one.
\<close>

definition one_session :: sessions where
  "one_session = newSession Monotonic no_sessions"

definition one_acquired :: sessions where
  "one_acquired = held (acquireSocket 0 False (Inr (7, True)) None one_session)"



lemmas session_run_defs = no_sessions_def newSession_def SetMode_def unsetSocket_def release_option_def refresh_mode_def
  acquireSocket_def acquire_new_def reserved_def ref_Initial_def setSocket_def ref_Acquire_def ref_Release_def held_def
  copySession_def Clone_def acquire_option_def session_Close_def release_held_def Let_def

lemma one_session_simp: "one_session = \<lparr>w_refs = (\<lambda>k. 0), w_master = (\<lambda>k. False), w_cluster = 2,
    w_sessions = [\<lparr>ss_open = True, ss_slaveSocket = None, ss_masterSocket = None, ss_slaveOk = True, ss_consistency = Monotonic\<rparr>],
    w_held = {#}, w_panic = None\<rparr>"
  by (simp add: one_session_def session_run_defs)

lemma one_acquired_simp: "one_acquired = \<lparr>w_refs = (\<lambda>k. 0)(7 := 2), w_master = (\<lambda>k. False)(7 := True), w_cluster = 2,
    w_sessions = [\<lparr>ss_open = True, ss_slaveSocket = None, ss_masterSocket = Some 7, ss_slaveOk = False, ss_consistency = Monotonic\<rparr>],
    w_held = {#7#}, w_panic = None\<rparr>"
  by (simp add: one_acquired_def one_session_simp session_run_defs numeral_2_eq_2)





text \<open>
  What needs the master gets it, and reads what it wrote. In any state the sessions get to, when an open session
  asks for a socket with \<open>slaveOk\<close> false and gets one, its server is a master. Unless the mode is \<open>Eventual\<close>, the
  session keeps that socket: whatever asks it afterwards, slaves allowed or not and whatever the cluster would give, gets
  the same one, with one more reference and nothing else changed.
\<close>

theorem session_master:
  assumes "session_step\<^sup>*\<^sup>* no_sessions w" and "i < length (w_sessions w)" and "ss_open (w_sessions w ! i)"
    and "given False r w" and "acquireSocket i False r login w = (Inr k, w')"
  shows "w_master w' k \<and> (ss_consistency (w_sessions w ! i) \<noteq> Eventual \<longrightarrow>
    acquireSocket i slaveOk r' login' w' = (Inr k, w'\<lparr>w_refs := (w_refs w')(k := w_refs w' k + 1)\<rparr>))"
proof -
  have inv: "sessions_inv w" by (rule sessions.inv_steps [OF assms(1) sessions.inv_init]) simp
  note M = sessions_invD(3) [OF inv assms(2)]
  have "sessions_inv (held (acquireSocket i False r login w))"
    by (rule inv_acquire [OF inv assms(2,3)]) (use assms(4) in simp)
  then have "w_refs w' k = total k (w_sessions w') + count (add_mset k (w_held w')) k"
    using sessions_invD(2) [of "held (acquireSocket i False r login w)" k] assms(5) by (simp add: held_def)
  then have pos: "0 < w_refs w' k" by simp
  have again: "acquireSocket i slaveOk r' login' w' = (Inr k, w'\<lparr>w_refs := (w_refs w')(k := w_refs w' k + 1)\<rparr>)"
    if "ss_masterSocket (w_sessions w' ! i) = Some k"
    using that pos by (simp add: acquireSocket_def reserved_def ref_Acquire_def)
  show ?thesis
  proof (cases "reserved False (w_sessions w ! i)")
    case (Some j)
    then have m: "ss_masterSocket (w_sessions w ! i) = Some j" by (simp add: reserved_def split: option.splits)
    have w': "j = k" "ref_Acquire k w = w'" using assms(5) Some by (auto simp: acquireSocket_def)
    then have "w_master w' k" "w_sessions w' = w_sessions w" using m M
      by (auto simp: ref_Acquire_def panic_def session_ok_def split: if_splits)
    then show ?thesis using again m w' by simp
  next
    case None
    obtain m where r: "r = Inr (k, m)" and l: "login = None"
      using assms(3,5) None by (auto simp: acquireSocket_def acquire_new_def Let_def split: sum.splits option.splits)
    have g: "w_refs w k = 0" "m" using assms(4) by (simp_all add: given_def r)
    have "acquire_new i False (Inr (k, m)) None w = (Inr k, w')" using assms(5) None by (simp add: acquireSocket_def r l)
    note A = inv_acquired [OF inv assms(2,3) None g(1) _ this]
    show ?thesis using A(3,4) again g(2) by simp
  qed
qed

theorem session_master_witness:
  "acquireSocket 0 True (Inr (8, False)) None one_acquired = (Inr 7, one_acquired\<lparr>w_refs := (w_refs one_acquired)(7 := 3)\<rparr>)"
proof -
  have "session_step\<^sup>*\<^sup>* no_sessions one_session" unfolding one_session_def by (blast intro: st_new)
  moreover have a: "acquireSocket 0 False (Inr (7, True)) None one_session = (Inr 7, one_acquired\<lparr>w_held := {#}\<rparr>)"
    by (simp add: one_acquired_simp one_session_simp session_run_defs numeral_2_eq_2)
  ultimately have "acquireSocket 0 True (Inr (8, False)) None (one_acquired\<lparr>w_held := {#}\<rparr>) =
      (Inr 7, one_acquired\<lparr>w_held := {#}, w_refs := (w_refs one_acquired)(7 := w_refs one_acquired 7 + 1)\<rparr>)"
    using session_master [of one_session 0 "Inr (7, True)" None 7 "one_acquired\<lparr>w_held := {#}\<rparr>" True "Inr (8, False)" None]
    by (simp add: one_session_simp given_def)
  then show ?thesis by (simp add: one_acquired_simp session_run_defs)
qed

text \<open>
  A socket of a server that stopped being a master after the cluster chose it breaks that contract, and then
  \<open>setSocket\<close> panics in a session that has a slave socket: \<open>BestFit\<close> and the \<open>InitialAcquire\<close> of the socket read
  the server's state at different times.
\<close>

lemma stepped_down:
  assumes "ss_open (w_sessions w ! i)" and "ss_masterSocket (w_sessions w ! i) = None" and "ss_slaveSocket (w_sessions w ! i) = Some v"
    and "i < length (w_sessions w)"
  shows "w_panic (snd (acquireSocket i False (Inr (k, False)) None w)) = Some ''setSocket(slave) with existing slave socket reserved''"
  using assms by (simp add: acquireSocket_def reserved_def acquire_new_def ref_Initial_def setSocket_def ref_Acquire_def panic_def Let_def)

end
