(* ===== verification/MgoWrite.thy ===== *)
theory MgoWrite
  imports MgoSocket
begin

text \<open>
  Writes, \<open>mgo/session.go\<close>: the safety settings of a session, the request of \<open>writeQuery\<close> with the
  \<open>getLastError\<close> command after it, what its answer says of the write, and what \<open>Insert\<close>, \<open>Update\<close>,
  \<open>Upsert\<close>, \<open>Remove\<close> and their variants return for it. The socket and the error of sending
  are arguments, and the answer is a notice of theory \<open>MgoSocket\<close>.
\<close>

subsection \<open>Safety\<close>

record safe =
  sf_W :: int
  sf_WMode :: string
  sf_WTimeout :: int
  sf_FSync :: bool
  sf_J :: bool

text \<open>The command; its \<open>W\<close> is nil, a text or a number.\<close>

datatype write_w = WMode string | WCount int

record getLastError =
  gl_W :: "write_w option"
  gl_WTimeout :: int
  gl_FSync :: bool
  gl_J :: bool

definition safe_w :: "safe \<Rightarrow> write_w option" where
  "safe_w s = (if sf_WMode s \<noteq> '''' then Some (WMode (sf_WMode s)) else if 0 < sf_W s then Some (WCount (sf_W s)) else None)"

definition raise_w :: "safe \<Rightarrow> write_w option \<Rightarrow> write_w option" where
  "raise_w s w =
     (case w of
        None \<Rightarrow> safe_w s
      | Some c \<Rightarrow>
          if sf_WMode s \<noteq> '''' then Some (WMode (sf_WMode s))
          else case c of
              WCount i \<Rightarrow> if i < sf_W s then Some (WCount (sf_W s)) else w
            | WMode _ \<Rightarrow> w)"

definition ensureSafe :: "safe option \<Rightarrow> getLastError option \<Rightarrow> getLastError option" where
  "ensureSafe so cmd =
     (case so of
        None \<Rightarrow> cmd
      | Some s \<Rightarrow>
          (case cmd of
             None \<Rightarrow> Some \<lparr>gl_W = safe_w s, gl_WTimeout = sf_WTimeout s, gl_FSync = sf_FSync s, gl_J = sf_J s\<rparr>
           | Some c \<Rightarrow>
               (let c1 = c\<lparr>gl_W := raise_w s (gl_W c)\<rparr>;
                    c2 = (if 0 < sf_WTimeout s \<and> sf_WTimeout s < gl_WTimeout c1
                      then c1\<lparr>gl_WTimeout := sf_WTimeout s\<rparr> else c1)
                in Some (if sf_FSync s then c2\<lparr>gl_FSync := True, gl_J := False\<rparr>
                     else if sf_J s \<and> \<not> gl_FSync c2 then c2\<lparr>gl_J := True\<rparr> else c2))))"

definition SetSafe :: "safe option \<Rightarrow> getLastError option \<Rightarrow> getLastError option" where
  "SetSafe so cmd = ensureSafe so None"

definition session_Safe :: "getLastError option \<Rightarrow> safe option" where
  "session_Safe cmd =
     (case cmd of
        None \<Rightarrow> None
      | Some c \<Rightarrow> Some
          \<lparr>sf_W = (case gl_W c of Some (WCount n) \<Rightarrow> n | _ \<Rightarrow> 0),
           sf_WMode = (case gl_W c of Some (WMode m) \<Rightarrow> m | _ \<Rightarrow> ''''),
           sf_WTimeout = gl_WTimeout c, sf_FSync = gl_FSync c, sf_J = gl_J c\<rparr>)"

subsection \<open>The request\<close>

text \<open>The command as the document the encoder makes of it.\<close>

definition getLastError_doc :: "getLastError \<Rightarrow> bdoc" where
  "getLastError_doc c =
     [(''getLastError'', bson_int 1)] @
     (case gl_W c of None \<Rightarrow> [] | Some (WMode m) \<Rightarrow> [(''w'', BStr m)] | Some (WCount n) \<Rightarrow> [(''w'', bson_int n)]) @
     (if gl_WTimeout c = 0 then [] else [(''wtimeout'', bson_int (gl_WTimeout c))]) @
     (if gl_FSync c then [(''fsync'', BBool True)] else []) @
     (if gl_J c then [(''j'', BBool True)] else [])"

definition safe_op :: "getLastError \<Rightarrow> query_op" where
  "safe_op c =
     \<lparr>q_collection = ''admin.$cmd'', q_query = Some (getLastError_doc c), q_skip = 0, q_limit = - 1, q_selector = None,
      q_flags = 0, q_replyFunc = False,
      q_options = \<lparr>qw_Query = BNull, qw_OrderBy = None, qw_Hint = None, qw_Explain = False, qw_Snapshot = False,
        qw_ReadPreference = []\<rparr>,
      q_hasOptions = False, q_serverTags = []\<rparr>"

definition write_ops :: "string \<Rightarrow> getLastError option \<Rightarrow> mongo_op \<Rightarrow> mongo_op list" where
  "write_ops dbname safeOp op =
     (case safeOp of
        None \<Rightarrow> [op]
      | Some c \<Rightarrow> [op, QueryOp ((safe_op c)\<lparr>q_collection := dbname @ ''.$cmd'', q_replyFunc := True\<rparr>)])"

subsection \<open>The answer\<close>

record last_error =
  le_Err :: string
  le_Code :: int
  le_N :: int
  le_Waited :: int
  le_FSyncFiles :: int
  le_WTimeout :: bool
  le_UpdatedExisting :: bool
  le_UpsertedId :: "bval option"

record query_error =
  qe_Err :: string
  qe_ErrMsg :: string
  qe_Assertion :: string
  qe_Code :: int
  qe_AssertionCode :: int
  qe_LastError :: "last_error option"

definition no_last_error :: last_error where
  "no_last_error = \<lparr>le_Err = '''', le_Code = 0, le_N = 0, le_Waited = 0, le_FSyncFiles = 0, le_WTimeout = False,
     le_UpdatedExisting = False, le_UpsertedId = None\<rparr>"

definition no_query_error :: query_error where
  "no_query_error = \<lparr>qe_Err = '''', qe_ErrMsg = '''', qe_Assertion = '''', qe_Code = 0, qe_AssertionCode = 0,
     qe_LastError = None\<rparr>"

text \<open>Into a \<open>bool\<close> and into an \<open>interface{}\<close>, where a document keeps its order.\<close>

fun read_bool :: "bval \<Rightarrow> bool \<Rightarrow> bool" where
  "read_bool (BBool b) old = b"
| "read_bool (BInt32 w) old = (w \<noteq> 0)"
| "read_bool (BInt64 w) old = (w \<noteq> 0)"
| "read_bool (BTimestamp w) old = (w \<noteq> 0)"
| "read_bool (BFloat w) old = (take_bit 63 w \<noteq> 0)"
| "read_bool BMaxKey old = True"
| "read_bool BMinKey old = True"
| "read_bool BNull old = False"
| "read_bool _ old = old"

definition read_any :: "bval \<Rightarrow> bval option" where
  "read_any v = (if v = BNull then None else Some v)"

definition last_error_put :: "string \<Rightarrow> bval \<Rightarrow> last_error \<Rightarrow> last_error" where
  "last_error_put k v le =
     (if k = ''err'' then le\<lparr>le_Err := read_string v (le_Err le)\<rparr>
      else if k = ''code'' then le\<lparr>le_Code := read_int v (le_Code le)\<rparr>
      else if k = ''n'' then le\<lparr>le_N := read_int v (le_N le)\<rparr>
      else if k = ''waited'' then le\<lparr>le_Waited := read_int v (le_Waited le)\<rparr>
      else if k = ''fsyncFiles'' then le\<lparr>le_FSyncFiles := read_int v (le_FSyncFiles le)\<rparr>
      else if k = ''wtimeout'' then le\<lparr>le_WTimeout := read_bool v (le_WTimeout le)\<rparr>
      else if k = ''updatedExisting'' then le\<lparr>le_UpdatedExisting := read_bool v (le_UpdatedExisting le)\<rparr>
      else if k = ''upserted'' then le\<lparr>le_UpsertedId := read_any v\<rparr>
      else le)"

definition last_error_of :: "bdoc \<Rightarrow> last_error" where
  "last_error_of d = fold (\<lambda>(k, v). last_error_put k v) d no_last_error"

definition read_last_error :: "bval \<Rightarrow> last_error option \<Rightarrow> last_error option" where
  "read_last_error v old = (case v of BDoc d \<Rightarrow> Some (last_error_of d) | BNull \<Rightarrow> None | _ \<Rightarrow> old)"

definition query_error_put :: "string \<Rightarrow> bval \<Rightarrow> query_error \<Rightarrow> query_error" where
  "query_error_put k v qe =
     (if k = ''$err'' then qe\<lparr>qe_Err := read_string v (qe_Err qe)\<rparr>
      else if k = ''errmsg'' then qe\<lparr>qe_ErrMsg := read_string v (qe_ErrMsg qe)\<rparr>
      else if k = ''assertion'' then qe\<lparr>qe_Assertion := read_string v (qe_Assertion qe)\<rparr>
      else if k = ''code'' then qe\<lparr>qe_Code := read_int v (qe_Code qe)\<rparr>
      else if k = ''assertionCode'' then qe\<lparr>qe_AssertionCode := read_int v (qe_AssertionCode qe)\<rparr>
      else if k = ''lastErrorObject'' then qe\<lparr>qe_LastError := read_last_error v (qe_LastError qe)\<rparr>
      else qe)"

definition query_error_of :: "bdoc \<Rightarrow> query_error" where
  "query_error_of d = fold (\<lambda>(k, v). query_error_put k v) d no_query_error"

text \<open>
  \<open>bson.Unmarshal\<close> with its error ignored; \<open>left\<close> is what the struct has when it fails.
\<close>

definition Unmarshal_left :: "(string \<Rightarrow> bval \<Rightarrow> 's \<Rightarrow> 's) \<Rightarrow> 's \<Rightarrow> 's \<Rightarrow> bytes \<Rightarrow> 's outcome" where
  "Unmarshal_left put zero left d =
     (case Unmarshal_struct (\<lambda>k v s. Inr (put k v s)) zero d of
        Panics p \<Rightarrow> Panics p
      | Returns (Inr s) \<Rightarrow> Returns s
      | Returns (Inl e) \<Rightarrow> Returns left)"

text \<open>What is in the error values of the package, and \<open>ErrNotFound\<close>.\<close>

datatype write_error = EOther gerror | ELast last_error | EQuery int string bool | ENotFound

definition errmsg_mark :: bytes where
  "errmsg_mark = 2 # bytes_of_string ''errmsg'' @ [0]"

definition err_mark :: bytes where
  "err_mark = 2 # bytes_of_string ''$err'' @ [0]"

definition hasErrMsg :: "bytes \<Rightarrow> bool" where
  "hasErrMsg d = list_ex (\<lambda>i. take 8 (drop i d) = errmsg_mark) [0..<length d - 8]"

definition query_failure :: "query_error \<Rightarrow> write_error option" where
  "query_failure qe =
     (case qe_LastError qe of
        Some le \<Rightarrow> Some (ELast le)
      | None \<Rightarrow>
          if qe_Err qe = '''' \<and> qe_ErrMsg qe = '''' then None
          else if qe_AssertionCode qe \<noteq> 0 \<and> qe_Assertion qe \<noteq> '''' then Some (EQuery (qe_AssertionCode qe) (qe_Assertion qe) True)
          else if qe_Err qe \<noteq> '''' then Some (EQuery (qe_Code qe) (qe_Err qe) False)
          else Some (EQuery (qe_Code qe) (qe_ErrMsg qe) False))"

definition checkQueryError :: "query_error \<Rightarrow> string \<Rightarrow> bytes \<Rightarrow> write_error option outcome" where
  "checkQueryError left fullname d =
     (if length d < 16 then Returns None
      else if take 6 (drop 4 d) = err_mark \<or>
        5 \<le> length fullname \<and> drop (length fullname - 5) fullname = ''.$cmd'' \<and> hasErrMsg d
      then (case Unmarshal_left query_error_put no_query_error left d of
          Panics p \<Rightarrow> Panics p
        | Returns qe \<Rightarrow> Returns (query_failure qe))
      else Returns None)"

text \<open>The data a notice gives to the function that waits for the answer.\<close>

fun notice_data :: "notice \<Rightarrow> bytes" where
  "notice_data (NDoc rp docNum d) = d"
| "notice_data _ = []"

text \<open>
  \<open>writeQuery\<close>; \<open>acq\<close> is the error of \<open>acquireSocket\<close>, \<open>sent\<close> that of \<open>socket.Query\<close>, and \<open>n\<close> the notice it
  waited for.
\<close>

type_synonym write_result = "last_error option \<times> write_error option"

definition writeQuery ::
  "query_error \<Rightarrow> last_error \<Rightarrow> string \<Rightarrow> getLastError option \<Rightarrow> gerror option \<Rightarrow> gerror option \<Rightarrow> notice \<Rightarrow>
   write_result outcome"
where
  "writeQuery leftq leftl dbname safeOp acq sent n =
     (case acq of
        Some e \<Rightarrow> Returns (None, Some (EOther e))
      | None \<Rightarrow>
     (case safeOp of
        None \<Rightarrow> Returns (None, map_option EOther sent)
      | Some c \<Rightarrow>
     (case sent of
        Some e \<Rightarrow> Returns (None, Some (EOther e))
      | None \<Rightarrow>
     (case n of
        NErr e \<Rightarrow> Returns (None, Some (EOther e))
      | _ \<Rightarrow>
     (let d = notice_data n in
      case (if hasErrMsg d then checkQueryError leftq (dbname @ ''.$cmd'') d else Returns None) of
        Panics p \<Rightarrow> Panics p
      | Returns (Some e) \<Rightarrow> Returns (None, Some e)
      | Returns None \<Rightarrow>
          (case Unmarshal_left last_error_put no_last_error leftl d of
             Panics p \<Rightarrow> Panics p
           | Returns le \<Rightarrow> Returns (Some le, if le_Err le \<noteq> '''' then Some (ELast le) else None)))))))"

subsection \<open>Operations\<close>

record change_info =
  ci_Updated :: int
  ci_Removed :: int
  ci_UpsertedId :: "bval option"

definition no_change :: change_info where
  "no_change = \<lparr>ci_Updated = 0, ci_Removed = 0, ci_UpsertedId = None\<rparr>"

definition insert_op :: "string \<Rightarrow> bdoc list \<Rightarrow> mongo_op" where
  "insert_op fullname docs = InsertOp fullname (map Some docs)"

definition Insert_result :: "write_result \<Rightarrow> write_error option" where
  "Insert_result r = snd r"

definition update_op :: "string \<Rightarrow> bdoc option \<Rightarrow> bdoc option \<Rightarrow> mongo_op" where
  "update_op fullname selector doc = UpdateOp fullname selector doc 0"

definition Update_result :: "write_result \<Rightarrow> write_error option" where
  "Update_result r =
     (case r of (Some le, None) \<Rightarrow> if \<not> le_UpdatedExisting le then Some ENotFound else None | (_, err) \<Rightarrow> err)"

definition updateAll_op :: "string \<Rightarrow> bdoc option \<Rightarrow> bdoc option \<Rightarrow> mongo_op" where
  "updateAll_op fullname selector doc = UpdateOp fullname selector doc 2"

definition UpdateAll_result :: "write_result \<Rightarrow> change_info option \<times> write_error option" where
  "UpdateAll_result r =
     (case r of (Some le, None) \<Rightarrow> (Some (no_change\<lparr>ci_Updated := le_N le\<rparr>), None) | (_, err) \<Rightarrow> (None, err))"

text \<open>\<open>Upsert\<close> marshals the document before anything else.\<close>

definition upsert_op :: "string \<Rightarrow> bdoc option \<Rightarrow> bdoc \<Rightarrow> gerror + mongo_op" where
  "upsert_op fullname selector doc =
     (case bson_Marshal doc of Inl e \<Rightarrow> Inl e | Inr b \<Rightarrow> Inr (UpdateOp fullname selector (Some doc) 1))"

definition Upsert_result :: "write_result \<Rightarrow> change_info option \<times> write_error option" where
  "Upsert_result r =
     (case r of
        (Some le, None) \<Rightarrow>
          (Some (if le_UpdatedExisting le then no_change\<lparr>ci_Updated := le_N le\<rparr>
             else no_change\<lparr>ci_UpsertedId := le_UpsertedId le\<rparr>), None)
      | (_, err) \<Rightarrow> (None, err))"

definition remove_op :: "string \<Rightarrow> bdoc option \<Rightarrow> mongo_op" where
  "remove_op fullname selector = DeleteOp fullname selector 1"

definition Remove_result :: "write_result \<Rightarrow> write_error option" where
  "Remove_result r = (case r of (Some le, None) \<Rightarrow> if le_N le = 0 then Some ENotFound else None | (_, err) \<Rightarrow> err)"

definition removeAll_op :: "string \<Rightarrow> bdoc option \<Rightarrow> mongo_op" where
  "removeAll_op fullname selector = DeleteOp fullname selector 0"

definition RemoveAll_result :: "write_result \<Rightarrow> change_info option \<times> write_error option" where
  "RemoveAll_result r =
     (case r of (Some le, None) \<Rightarrow> (Some (no_change\<lparr>ci_Removed := le_N le\<rparr>), None) | (_, err) \<Rightarrow> (None, err))"

text \<open>By id: the selector is a document of one element.\<close>

definition by_id :: "bval \<Rightarrow> bdoc" where
  "by_id oid = [(''_id'', oid)]"

definition e11000 :: "string \<Rightarrow> bool" where
  "e11000 s = list_ex (\<lambda>i. take 8 (drop i s) = '' E11000 '') [0..<length s + 1]"

definition IsDup :: "write_error \<Rightarrow> bool" where
  "IsDup err =
     (case err of
        ELast le \<Rightarrow> le_Code le = 11000 \<or> le_Code le = 11001 \<or> le_Code le = 12582 \<or> le_Code le = 16460 \<and> e11000 (le_Err le)
      | EQuery code m a \<Rightarrow> code = 11000 \<or> code = 11001 \<or> code = 12582
      | _ \<Rightarrow> False)"

subsection \<open>The settings only get stricter\<close>

text \<open>One setting of the number of servers waits for at least what another waits for.\<close>

fun waits_for :: "write_w option \<Rightarrow> write_w option \<Rightarrow> bool" where
  "waits_for (Some (WCount m)) (Some (WCount n)) \<longleftrightarrow> n \<le> m"
| "waits_for (Some (WMode m)) w \<longleftrightarrow> True"
| "waits_for w None \<longleftrightarrow> True"
| "waits_for w w' \<longleftrightarrow> False"

definition stricter :: "getLastError \<Rightarrow> getLastError \<Rightarrow> bool" where
  "stricter g c \<longleftrightarrow> waits_for (gl_W g) (gl_W c) \<and> gl_WTimeout g \<le> gl_WTimeout c \<and>
     (gl_FSync c \<longrightarrow> gl_FSync g) \<and> (gl_J c \<longrightarrow> gl_J g \<or> gl_FSync g)"

lemma raise_w_stricter: "waits_for (raise_w s w) w"
  by (cases w; cases "the w") (auto simp: raise_w_def safe_w_def)

lemma raise_w_again: "raise_w s (raise_w s w) = raise_w s w" "raise_w s (safe_w s) = safe_w s"
  by (auto simp: raise_w_def safe_w_def split: option.splits write_w.splits)

text \<open>
  \<open>EnsureSafe\<close> picks the most conservative of the settings. What a session waits for after it is at least
  what it waited for before, in every setting: the servers, the timeout, the sync to disk and the journal, for which
  the sync stands. The write mode, the sync and the journal asked for are on. Doing it again changes nothing, on a
  session without settings it is what \<open>SetSafe\<close> does, which keeps the journal beside the sync, and nil changes nothing.
\<close>

theorem ensure_safe:
  "(\<exists>g. ensureSafe (Some s) (Some c) = Some g \<and> stricter g c \<and> (sf_FSync s \<longrightarrow> gl_FSync g) \<and>
      (sf_J s \<longrightarrow> gl_J g \<or> gl_FSync g) \<and> (sf_WMode s \<noteq> '''' \<longrightarrow> gl_W g = Some (WMode (sf_WMode s)))) \<and>
   ensureSafe (Some s) (ensureSafe (Some s) (Some c)) = ensureSafe (Some s) (Some c) \<and>
   ensureSafe (Some s) None = SetSafe (Some s) cmd \<and>
   (\<exists>g. SetSafe (Some s) cmd = Some g \<and> gl_FSync g = sf_FSync s \<and> gl_J g = sf_J s) \<and> ensureSafe None cmd = cmd"
proof (intro conjI)
  show "\<exists>g. ensureSafe (Some s) (Some c) = Some g \<and> stricter g c \<and> (sf_FSync s \<longrightarrow> gl_FSync g) \<and>
      (sf_J s \<longrightarrow> gl_J g \<or> gl_FSync g) \<and> (sf_WMode s \<noteq> '''' \<longrightarrow> gl_W g = Some (WMode (sf_WMode s)))"
    using raise_w_stricter [of s "gl_W c"]
    by (auto simp: ensureSafe_def stricter_def Let_def raise_w_def safe_w_def split: option.splits write_w.splits)
  show "ensureSafe (Some s) (ensureSafe (Some s) (Some c)) = ensureSafe (Some s) (Some c)"
    by (simp add: ensureSafe_def Let_def raise_w_again)
qed (simp_all add: SetSafe_def ensureSafe_def)

lemma safe_settings:
  assumes "0 \<le> sf_W s" and "sf_WMode s \<noteq> '''' \<longrightarrow> sf_W s = 0"
  shows "session_Safe (SetSafe (Some s) cmd) = Some s"
  using assms by (simp add: SetSafe_def ensureSafe_def session_Safe_def safe_w_def)

subsection \<open>What the answer is read as\<close>

lemma hasErrMsg_iff: "hasErrMsg d \<longleftrightarrow> (\<exists>pre post. d = pre @ errmsg_mark @ post \<and> post \<noteq> [])"
proof
  assume "hasErrMsg d"
  then obtain i where i: "i < length d - 8" "take 8 (drop i d) = errmsg_mark" by (auto simp: hasErrMsg_def list_ex_iff)
  have "d = take i d @ errmsg_mark @ drop 8 (drop i d)" using append_take_drop_id [of i d] append_take_drop_id [of 8 "drop i d"] i(2)
    by metis
  moreover have "drop 8 (drop i d) \<noteq> []" using i(1) by simp
  ultimately show "\<exists>pre post. d = pre @ errmsg_mark @ post \<and> post \<noteq> []" by blast
next
  assume "\<exists>pre post. d = pre @ errmsg_mark @ post \<and> post \<noteq> []"
  then obtain pre post where d: "d = pre @ errmsg_mark @ post" "post \<noteq> []" by blast
  moreover have "length errmsg_mark = 8" by (simp add: errmsg_mark_def bytes_of_string_def)
  ultimately show "hasErrMsg d" by (auto simp: hasErrMsg_def list_ex_iff intro!: bexI [of _ "length pre"])
qed

lemma value_of_string: "value_bytes (BStr m) \<noteq> []"
  by (simp add: str_bytes_def le32_def)

lemma errmsg_found:
  assumes "(''errmsg'', BStr m) \<in> set d"
  shows "hasErrMsg (doc_bytes d)" and "16 \<le> length (doc_bytes d)"
proof -
  obtain d1 d2 where d: "d = d1 @ (''errmsg'', BStr m) # d2" using split_list [OF assms] by blast
  have "doc_bytes d = (le32 (word_of_nat (length (elems_bytes d) + 5)) @ elems_bytes d1) @ errmsg_mark @
      value_bytes (BStr m) @ elems_bytes d2 @ [0]"
    by (simp add: doc_bytes_def BsonWrite.framed_def d elems_bytes_def elem_bytes_def errmsg_mark_def)
  then show "hasErrMsg (doc_bytes d)" using value_of_string unfolding hasErrMsg_iff
    by (intro exI [of _ "le32 (word_of_nat (length (elems_bytes d) + 5)) @ elems_bytes d1"]
        exI [of _ "value_bytes (BStr m) @ elems_bytes d2 @ [0]"]) simp
  show "16 \<le> length (doc_bytes d)"
    by (simp add: doc_bytes_def BsonWrite.framed_def d elems_bytes_def elem_bytes_def str_bytes_def le32_def bytes_of_string_def)
qed

lemma fold_fields_put: "fold_fields (\<lambda>k v s. Inr (put k v s)) d s = Inr (fold (\<lambda>(k, v). put k v) d s)"
  by (induction d arbitrary: s) auto

lemma Unmarshal_left_doc:
  "doc_ok TypeD d \<Longrightarrow> length (doc_bytes d) < 2 ^ 31 \<Longrightarrow>
     Unmarshal_left put zero left (doc_bytes d) = Returns (fold (\<lambda>(k, v). put k v) d zero)"
  by (simp add: Unmarshal_left_def stored_doc(2) fold_fields_put)

lemma query_error_fields:
  assumes "list_all (\<lambda>(k, v). k \<noteq> ''$err'' \<and> k \<noteq> ''lastErrorObject'') d"
  shows "qe_Err (fold (\<lambda>(k, v). query_error_put k v) d qe) = qe_Err qe"
    and "qe_LastError (fold (\<lambda>(k, v). query_error_put k v) d qe) = qe_LastError qe"
  using assms by (induction d arbitrary: qe) (auto simp: query_error_put_def)

lemma errmsg_field:
  assumes "''errmsg'' \<notin> fst ` set d"
  shows "qe_ErrMsg (fold (\<lambda>(k, v). query_error_put k v) d qe) = qe_ErrMsg qe"
  using assms by (induction d arbitrary: qe) (auto simp: query_error_put_def)

text \<open>The answer to \<open>getLastError\<close> is a document without the fields of other replies.\<close>

definition gle_answer :: "bdoc \<Rightarrow> bool" where
  "gle_answer d \<longleftrightarrow> doc_ok TypeD d \<and> length (doc_bytes d) < 2 ^ 31 \<and>
     list_all (\<lambda>(k, v). k \<noteq> ''$err'' \<and> k \<noteq> ''lastErrorObject'' \<and> (k = ''errmsg'' \<longrightarrow> (\<exists>m. v = BStr m))) d"


lemma checkQueryError_gle:
  assumes "gle_answer d"
  shows "(if hasErrMsg (doc_bytes d) then checkQueryError left (dbname @ ''.$cmd'') (doc_bytes d) else Returns None) =
    Returns (query_failure (query_error_of d))"
proof -
  let ?qe = "query_error_of d"
  have d: "doc_ok TypeD d" "length (doc_bytes d) < 2 ^ 31" using assms by (simp_all add: gle_answer_def)
  have "list_all (\<lambda>(k, v). k \<noteq> ''$err'' \<and> k \<noteq> ''lastErrorObject'') d"
    using assms by (auto simp: gle_answer_def list_all_iff)
  then have q: "qe_Err ?qe = ''''" "qe_LastError ?qe = None"
    using query_error_fields [of d no_query_error] by (simp_all add: query_error_of_def no_query_error_def)
  have r: "Unmarshal_left query_error_put no_query_error left (doc_bytes d) = Returns ?qe"
    using Unmarshal_left_doc [OF d] by (simp add: query_error_of_def)
  show ?thesis
  proof (cases "hasErrMsg (doc_bytes d)")
    case False
    have "''errmsg'' \<notin> fst ` set d"
    proof
      assume "''errmsg'' \<in> fst ` set d"
      then obtain m where "(''errmsg'', BStr m) \<in> set d" using assms by (fastforce simp: gle_answer_def list_all_iff)
      then show False using errmsg_found(1) False by blast
    qed
    then have "qe_ErrMsg ?qe = ''''" using errmsg_field by (simp add: query_error_of_def no_query_error_def)
    then show ?thesis using False q by (simp add: query_failure_def)
  next
    case True
    then have l: "16 \<le> length (doc_bytes d) \<or> query_failure ?qe = None"
    proof (cases "''errmsg'' \<in> fst ` set d")
      case True
      then obtain m where "(''errmsg'', BStr m) \<in> set d" using assms by (fastforce simp: gle_answer_def list_all_iff)
      then show ?thesis using errmsg_found(2) by blast
    next
      case False
      then have "qe_ErrMsg ?qe = ''''" using errmsg_field by (simp add: query_error_of_def no_query_error_def)
      then show ?thesis using q by (simp add: query_failure_def)
    qed
    show ?thesis
    proof (cases "length (doc_bytes d) < 16")
      case True
      then show ?thesis using l \<open>hasErrMsg (doc_bytes d)\<close> by (simp add: checkQueryError_def)
    next
      case False
      then show ?thesis using \<open>hasErrMsg (doc_bytes d)\<close> r by (simp add: checkQueryError_def)
    qed
  qed
qed

text \<open>What a write comes to that was sent and got an answer.\<close>

definition acknowledged :: "bdoc \<Rightarrow> write_result" where
  "acknowledged d =
     (case query_failure (query_error_of d) of
        Some e \<Rightarrow> (None, Some e)
      | None \<Rightarrow> (Some (last_error_of d), if le_Err (last_error_of d) = '''' then None else Some (ELast (last_error_of d))))"

text \<open>
  A safe write reports what the server answered. When the write and its \<open>getLastError\<close> were sent and the answer
  is a document of that command, the write returns no error if and only if the document has neither an \<open>errmsg\<close> nor
  an \<open>err\<close>, whatever bytes are in it; with an \<open>errmsg\<close> it is that one, else the \<open>LastError\<close> of the document. Then \<open>Insert\<close>
  succeeds, \<open>Update\<close> and \<open>Remove\<close> are not found if nothing was updated or removed, and the others return the
  numbers of the document. When there is no socket, it could not be sent or the connection failed, all of them return
  that error.
\<close>

theorem write_answered:
  assumes "gle_answer d"
  shows "writeQuery leftq leftl dbname (Some c) None None (NDoc rp docNum (doc_bytes d)) = Returns (acknowledged d) \<and>
    (Insert_result (acknowledged d) = None \<longleftrightarrow> qe_ErrMsg (query_error_of d) = '''' \<and> le_Err (last_error_of d) = '''') \<and>
    (if Insert_result (acknowledged d) = None
     then Update_result (acknowledged d) = (if le_UpdatedExisting (last_error_of d) then None else Some ENotFound) \<and>
       Remove_result (acknowledged d) = (if le_N (last_error_of d) = 0 then Some ENotFound else None) \<and>
       UpdateAll_result (acknowledged d) = (Some (no_change\<lparr>ci_Updated := le_N (last_error_of d)\<rparr>), None) \<and>
       RemoveAll_result (acknowledged d) = (Some (no_change\<lparr>ci_Removed := le_N (last_error_of d)\<rparr>), None)
     else Update_result (acknowledged d) = Insert_result (acknowledged d) \<and>
       Remove_result (acknowledged d) = Insert_result (acknowledged d) \<and>
       UpdateAll_result (acknowledged d) = (None, Insert_result (acknowledged d)) \<and>
       RemoveAll_result (acknowledged d) = (None, Insert_result (acknowledged d))) \<and>
    writeQuery leftq leftl dbname (Some c) (Some e) sent n = Returns (None, Some (EOther e)) \<and>
    writeQuery leftq leftl dbname (Some c) None (Some e) n = Returns (None, Some (EOther e)) \<and>
    writeQuery leftq leftl dbname (Some c) None None (NErr e) = Returns (None, Some (EOther e))"
proof -
  have d: "doc_ok TypeD d" "length (doc_bytes d) < 2 ^ 31" using assms by (simp_all add: gle_answer_def)
  have "list_all (\<lambda>(k, v). k \<noteq> ''$err'' \<and> k \<noteq> ''lastErrorObject'') d"
    using assms by (auto simp: gle_answer_def list_all_iff)
  then have q: "qe_Err (query_error_of d) = ''''" "qe_LastError (query_error_of d) = None"
    using query_error_fields [of d no_query_error] by (simp_all add: query_error_of_def no_query_error_def)
  have "Unmarshal_left last_error_put no_last_error leftl (doc_bytes d) = Returns (last_error_of d)"
    using Unmarshal_left_doc [OF d] by (simp add: last_error_of_def)
  then have "writeQuery leftq leftl dbname (Some c) None None (NDoc rp docNum (doc_bytes d)) = Returns (acknowledged d)"
    using checkQueryError_gle [OF assms, of leftq dbname]
    by (simp add: writeQuery_def acknowledged_def split: option.split)
  then show ?thesis using q
    by (auto simp: writeQuery_def acknowledged_def Insert_result_def Update_result_def Remove_result_def
        UpdateAll_result_def RemoveAll_result_def query_failure_def)
qed

text \<open>An answer of a duplicate key: its \<open>err\<close> is what \<open>Insert\<close> returns.\<close>

definition duplicate_answer :: bdoc where
  "duplicate_answer = [(''n'', BInt32 0), (''err'', BStr ''E11000 duplicate key''), (''code'', BInt32 11000), (''ok'', BFloat 0x3FF0000000000000)]"

theorem write_answered_witness:
  "Insert_result (acknowledged duplicate_answer) \<noteq> None \<and> Update_result (acknowledged duplicate_answer) = Insert_result (acknowledged duplicate_answer)"
proof -
  have "gle_answer duplicate_answer"
    by (simp add: gle_answer_def duplicate_answer_def doc_ok_def no_nul_def doc_sizes le32_def le64_def)
  moreover have "le_Err (last_error_of duplicate_answer) \<noteq> ''''"
    by (simp add: last_error_of_def duplicate_answer_def last_error_put_def no_last_error_def)
  ultimately show ?thesis using write_answered [of duplicate_answer] by presburger
qed

text \<open>
  A safe write that nobody confirmed can pass for done. When the answer has no document, or one that cannot be
  read and left no error behind, \<open>Insert\<close> returns no error, as the error of reading it is ignored.
\<close>

theorem write_unconfirmed:
  "writeQuery leftq no_last_error dbname (Some c) None None (NNone rp) = Returns (Some no_last_error, None) \<and>
   Insert_result (Some no_last_error, None) = None \<and> Update_result (Some no_last_error, None) = Some ENotFound \<and>
   writeQuery leftq no_last_error dbname (Some c) None None (NDoc rp 0 [12, 0, 0, 0, 2, 101, 114, 114, 0, 9, 0, 0]) =
     Returns (Some no_last_error, None)"
proof -
  have "Unmarshal_left last_error_put no_last_error no_last_error [] = Returns no_last_error"
    "Unmarshal_left last_error_put no_last_error no_last_error [12, 0, 0, 0, 2, 101, 114, 114, 0, 9, 0, 0] = Returns no_last_error"
    by code_simp+
  moreover have "\<not> hasErrMsg []" "\<not> hasErrMsg [12, 0, 0, 0, 2, 101, 114, 114, 0, 9, 0, 0]" by code_simp+
  ultimately show ?thesis by (simp add: writeQuery_def Insert_result_def Update_result_def no_last_error_def)
qed

end
