(* ===== verification/MgoIndex.thy ===== *)
theory MgoIndex
  imports BsonStore
begin

text \<open>
  The keys of indexes, \<open>mgo/session.go\<close>: \<open>parseIndexKey\<close> turns the fields an application names, with their
  order or kind, into the document and the name the server keeps, and \<open>simpleIndexKey\<close> turns that
  document back into fields.
\<close>

subsection \<open>Parsing\<close>

definition index_error :: "string \<Rightarrow> gerror" where
  "index_error raw = ''invalid index key: want \"[$<kind>:][-]<field name>\", got '' @ go_quote raw"

text \<open>The kind in front of a field, \<open>$kind:\<close>; without one the field stays as it is.\<close>

definition split_kind :: "string \<Rightarrow> string \<times> string" where
  "split_kind field =
     (let before = takeWhile (\<lambda>x. x \<noteq> CHR '':'') field; c = length before in
      if field \<noteq> '''' \<and> hd field = CHR ''$'' \<and> CHR '':'' \<in> set field \<and> 1 < c \<and> c < length field - 1
      then (drop 1 before, drop (c + 1) field) else ('''', field))"

text \<open>One field: what it adds to the name, and the element of the key. The message names the field as it came, quoted.\<close>

definition index_field :: "string \<Rightarrow> gerror + (string \<times> string \<times> bval)" where
  "index_field raw =
     (if raw = '''' then Inl (index_error raw)
      else
        (let (kind, field) = split_kind raw;
             name = (if kind = '''' then '''' else field @ ''_'' @ kind);
             (name, field, order) =
               (if hd field = CHR ''$'' then (name, '''', BStr kind)
                else if hd field = CHR ''@'' then (name @ tl field @ ''_2d'', tl field, BStr ''2d'')
                else if hd field = CHR ''-'' then (name @ tl field @ ''_-1'', tl field, bson_int (- 1))
                else
                  (let field = (if hd field = CHR ''+'' then tl field else field) in
                   if kind = '''' then (name @ field @ ''_1'', field, bson_int 1) else (name, field, BStr kind)))
         in if field = '''' \<or> kind \<noteq> '''' \<and> order \<noteq> BStr kind then Inl (index_error raw)
            else Inr (name, field, order)))"

fun parse_fields :: "string list \<Rightarrow> string \<Rightarrow> bdoc \<Rightarrow> gerror + (string \<times> bdoc)" where
  "parse_fields [] name realKey = Inr (name, realKey)"
| "parse_fields (raw # key) name realKey =
     (case index_field raw of
        Inl e \<Rightarrow> Inl e
      | Inr (n, field, order) \<Rightarrow>
          parse_fields key ((if name = '''' then '''' else name @ ''_'') @ n) (realKey @ [(field, order)]))"

definition parseIndexKey :: "string list \<Rightarrow> gerror + (string \<times> bdoc)" where
  "parseIndexKey key =
     (case parse_fields key '''' [] of
        Inl e \<Rightarrow> Inl e
      | Inr (name, realKey) \<Rightarrow>
          if name = '''' then Inl ''invalid index key: no fields provided'' else Inr (name, realKey))"

subsection \<open>Back\<close>




subsection \<open>Names and keys\<close>






lemma directions [simp]: "bson_int 1 = BInt32 1" "bson_int (- 1) = BInt32 (- 1)"
  by (simp_all add: bson_int_def)






subsection \<open>The round trip\<close>






text \<open>
  A kind and a mark on the same field are put into the name twice, or with the mark, so that it is not the name
  of the document.
\<close>

lemma kind_and_mark:
  "parseIndexKey [''$2d:@loc''] = Inr (''@loc_2dloc_2d'', [(''loc'', BStr ''2d'')])"
  "parseIndexKey [''$text:+t''] = Inr (''+t_text'', [(''t'', BStr ''text'')])"
  by code_simp+

end
