(* ===== verification/Spec2Isabelle.thy ===== *)
theory Spec2Isabelle
  imports Gridas UuidTime MgoQueue YamlRoundtrip MgoSocket MgoPool MgoTopology MgoCursor MgoSession MgoWrite MgoIndex
begin

text \<open>
  \<^bold>\<open>Gridas\<close>, a relay that stores HTTP requests and makes them later. A client sends a request with
  relayer fields in its header (\<open>constants.go\<close>); the listener turns it into a petition, stores it in
  MongoDB, enqueues it in a channel and answers with its id; consumer goroutines take petitions from
  the channel, make the request with retries, store the reply and remove the petition; the replyer
  serves stored replies as JSON; the recoverer enqueues what is still stored when the program starts.

  \<^bold>\<open>Theories and code.\<close> \<open>Prelude\<close> holds the shared types (\<open>gerror\<close>, a Go error by its text;
  \<open>outcome\<close>, a call that returns or panics; \<open>goint\<close>, the 64-bit \<open>int\<close>; \<open>bytes\<close>) and lemmas.
  \<^item> \<open>Constants\<close>, \<open>Petition\<close>, \<open>Reply\<close>: \<open>constants.go\<close>, \<open>petition.go\<close>, \<open>reply.go\<close>. The structs are records
    with a field per Go field; \<open>newPetition\<close>, \<open>petition_Request\<close> and \<open>newReply\<close> are the functions, with
    every early return and the nil dereferences as panics. \<open>Http\<close> and \<open>Url\<close> model what they use of
    \<open>net/http\<close> and \<open>net/url\<close>.
  \<^item> \<open>Uuid\<close>, \<open>UuidTime\<close>: the vendored \<open>go-uuid\<close> package. Its package variables are one record passed
    from call to call; its random source, clock and network interfaces are arguments.
  \<^item> \<open>Bson\<close>, \<open>Documents\<close>: the values of BSON and how \<open>mgo/bson\<close> takes petitions and replies apart and
    puts them together. \<open>BsonWrite\<close>, \<open>BsonRead\<close>: the bytes, \<open>encode.go\<close> and \<open>decode.go\<close> of the same
    package; \<open>BsonWire\<close> shows that the one reads what the other wrote, and \<open>BsonStore\<close> what this means
    for the structs of the program.
  \<^item> \<open>Yaml\<close>, \<open>Base64\<close>, \<open>Config\<close>: \<open>config/config.go\<close> and the part of the vendored \<open>yaml.v1\<close> that
    resolves scalars and decodes a node tree into a struct. \<open>YamlTypes\<close>, \<open>YamlParser\<close>: its tokens and
    events and the parser, \<open>yamlh.go\<close> and \<open>parserc.go\<close>, a function per function; \<open>YamlEvents\<close> is the
    grammar of events and the invariant that the parser keeps to it; \<open>YamlTree\<close> the tree builder of
    \<open>decode.go\<close> and its aliases; \<open>YamlRoundtrip\<close> the way from the tokens of a document to its tree.
  \<^item> \<open>Platform\<close>: the clock, \<open>time.Sleep\<close>, the HTTP client and the MongoDB session as a record of
    functions on an environment, with the trace of the calls made; their documented behaviour is in
    named predicates (\<open>transport_ok\<close>, \<open>mongo_ok\<close>), and \<open>mem_platform\<close> shows that it can be met.
  \<^item> \<open>Consumer\<close>, \<open>Listener\<close>, \<open>Recoverer\<close>, \<open>Replyer\<close>: the files of these names, each method as a function
    from a world to a world.
  \<^item> \<open>Fifo\<close>, \<open>Gochan\<close>, \<open>MgoQueue\<close>: the contract of a queue, Go's buffered channel and the ring buffer of
    \<open>mgo/queue.go\<close>, which both meet it.
  \<^item> \<open>MgoWire\<close>, \<open>MgoSocket\<close>: \<open>mgo/socket.go\<close>, the messages to the MongoDB server and the connection
    that goroutines share: \<open>socket_Query\<close>, \<open>socket_kill\<close> and the rounds of \<open>readLoop\<close> are the steps; the calls
    of reply functions that \<open>kill\<close> and \<open>Query\<close> make without the lock are pending until \<open>call_pending\<close> makes one.
  \<^item> \<open>MgoPool\<close>, \<open>MgoServers\<close>: \<open>mgo/server.go\<close>, the sockets between a server and its callers, with their
    credentials, and the sorted slice of servers with the choice of the best one.
  \<^item> \<open>MgoCluster\<close>, \<open>MgoSync\<close>, \<open>MgoTopology\<close>: \<open>mgo/cluster.go\<close>. A synchronization of the topology is a set of
    goroutines, each locked part a step; its outcome is compared with a description of the reachable servers.
  \<^item> \<open>MgoIter\<close>, \<open>MgoCursor\<close>: \<open>Iter\<close> of \<open>mgo/session.go\<close>, the documents of a query: \<open>Next\<close> in one goroutine,
    \<open>replyFunc\<close> in the one that reads the connection, which can be lost and be replaced by a fresh one.
  \<^item> \<open>MgoSession\<close>, \<open>MgoWrite\<close>, \<open>MgoIndex\<close>: of the same file the sockets that sessions reserve and share, the
    safety settings and answers of writes, and the keys of indexes.
  \<^item> \<open>Transition\<close>, \<open>System\<close>: the running program. The goroutines of \<open>Consumer.relay\<close>, the requests being
    served, the recoverer and \<open>main\<close> with its \<open>onEnd\<close> take interleaved steps on the channel, the
    store, the stop flag, the end channel and the wait group. \<open>Refinement\<close> shows that the functions of
    \<open>Consumer\<close> and \<open>Listener\<close> are sequences of these steps.
  \<^item> \<open>Mylog\<close>, \<open>Gridas\<close>: \<open>mylog/mylog.go\<close>, and \<open>gridas/gridas.go\<close>: starting up and routing.

  \<^bold>\<open>What the lemmas show.\<close> Of the running program: that no accepted petition is lost and none is
  taken twice, for any interleaving and wherever the process dies, that a restart enqueues again what was not
  answered, and that shutdown ends. Of each function: its result on every branch. Of the formats: that UUIDs,
  petitions and replies read back as they were written, with the exceptions stated, at the level of bytes too.
  Of the driver: that every request is answered once, sockets are not shared by mistake and not leaked, references
  are counted right, the topology found does not depend on the schedule, and iterating gives the documents of a
  query in order and wakes up. Findings are theorems or lemmas where they can be: bodies not sent again on
  a retry, replies that are lost with their petition, petitions that no restart can read, errors of an iteration that are lost.

  \<^bold>\<open>Bounds.\<close> Integers are words where Go's are, and the pauses of the retries wrap. Recursion is
  structural except in the YAML and BSON readers, which take fuel: \<open>yaml_parse\<close> gives ten units for
  every token, \<open>run_parser\<close> needs five, \<open>bson_Unmarshal\<close> one for every byte; that it is enough for
  every input is \<open>yaml_parse_total\<close>, \<open>yaml_parser_ends\<close> and \<open>bson_read_total\<close>.

  \<^bold>\<open>Assumptions.\<close> Calls that leave the program are parameters. \<open>transport_ok\<close> says that the transport reads
  a prefix of a request's body; \<open>mongo_ok\<close> what the store does with what it acknowledges. Target hosts answer in the end: a
  request with all its retries is one step of \<open>worker_step\<close>. The iterator may already have an error when a document
  cannot be decoded, which is the argument \<open>early\<close> of \<open>Recover\<close>. Bytes from 128 on are quoted as they are, where Go
  replaces or escapes what is not UTF-8. Names resolve to the same address for as long as a synchronization takes.

  \<^bold>\<open>Not modelled.\<close> Formatting of log lines, command line flags and the TCP server, which decide
  nothing; the scanner of \<open>yaml.v1\<close>, whose tokens are an argument; of \<open>mgo\<close> dialing and its URLs, authentication
  itself, deadlines, the options of queries, commands and statistics; the parts of the vendored packages the program does not
  use (YAML encoding, GridFS, transactions).
\<close>

end
